(* ===== verification/Tensor_Book.thy ===== *)
theory Tensor_Book imports MStar_Prelude begin

text \<open>
  Reference counts of stored tensors, \<open>mstar/communication/tensor_store.py\<close>: the
  descriptor of a tensor (\<open>TensorPointerInfo\<close>, \<open>mstar/graph/base.py\<close>), the columns a batch
  is marshalled as (\<open>ColumnarTensorInfo\<close>), and \<open>PythonTensorBookkeeping\<close> with the
  batched calls it inherits from \<open>TensorBookkeeping\<close>. The interface is the locale
  \<open>bookkeeping\<close>: its laws say what each abstract method does to a uuid's record, and its
  lemma is that the inherited \<open>_drop_refs\<close> loop, which asks three methods per uuid, computes
  \<open>drop_spec\<close>; the Python class overrides the loop and is proved to compute the same.

  A \<open>torch.dtype\<close> is a type variable; \<open>dtype_name\<close> is a parameter. Descriptors are held by
  value: the code stamps a descriptor in place, and nobody but the bookkeeper keeps it. A call
  that raises gives no state, so what it wrote before the raise is not modelled.
\<close>

section \<open>Descriptors\<close>

record 'd tensor_info =
  ti_dims :: "nat list"
  ti_dtype :: 'd
  ti_nbytes :: nat
  ti_address :: nat
  ti_stride :: "nat list"
  ti_uuid :: nat
  ti_session :: string
  ti_entity :: string
  ti_offset :: int
  ti_tp_size :: nat
  ti_tp_rank :: nat
  ti_shm_segment :: "string option"
  ti_shm_offset :: nat
  ti_node :: "string option"
  ti_walk :: "string option"

definition clone_info :: "'d tensor_info \<Rightarrow> 'd tensor_info" where
  "clone_info i = \<lparr>ti_dims = ti_dims i, ti_dtype = ti_dtype i, ti_nbytes = ti_nbytes i,
     ti_address = ti_address i, ti_stride = ti_stride i, ti_uuid = ti_uuid i,
     ti_session = ti_session i, ti_entity = ti_entity i, ti_offset = ti_offset i,
     ti_tp_size = ti_tp_size i, ti_tp_rank = ti_tp_rank i, ti_shm_segment = ti_shm_segment i,
     ti_shm_offset = ti_shm_offset i, ti_node = ti_node i, ti_walk = ti_walk i\<rparr>"

lemma clone_info_id [simp]: "clone_info i = i"
  by (simp add: clone_info_def)

section \<open>A batch as columns\<close>

record 'd columns =
  co_uuids :: "nat list"
  co_addresses :: "nat list"
  co_nbytes :: "nat list"
  co_ndims :: "nat list"
  co_dims_flat :: "nat list"
  co_stride_flat :: "nat list"
  co_dtype_idx :: "nat list"
  co_dtype_names :: "string list"
  co_seen :: "('d, nat) dict"

definition new_columns :: "'d columns" where
  "new_columns = \<lparr>co_uuids = [], co_addresses = [], co_nbytes = [], co_ndims = [], co_dims_flat = [],
     co_stride_flat = [], co_dtype_idx = [], co_dtype_names = [], co_seen = []\<rparr>"

definition dtype_index :: "('d \<Rightarrow> string) \<Rightarrow> 'd \<Rightarrow> 'd columns \<Rightarrow> nat \<times> 'd columns" where
  "dtype_index dtype_name t c = (case map_of (co_seen c) t of
     Some i \<Rightarrow> (i, c)
   | None \<Rightarrow> (let i = length (co_dtype_names c) in
       (i, c\<lparr>co_seen := dict_set t i (co_seen c), co_dtype_names := co_dtype_names c @ [dtype_name t]\<rparr>)))"

definition add_row ::
  "nat \<Rightarrow> nat \<Rightarrow> nat \<Rightarrow> nat \<Rightarrow> nat list \<Rightarrow> nat list \<Rightarrow> nat \<Rightarrow> 'd columns \<Rightarrow> 'd columns" where
  "add_row uuid address nbytes ndims dims stride idx c = c\<lparr>co_uuids := co_uuids c @ [uuid],
     co_addresses := co_addresses c @ [address], co_nbytes := co_nbytes c @ [nbytes],
     co_ndims := co_ndims c @ [ndims], co_dims_flat := co_dims_flat c @ dims,
     co_stride_flat := co_stride_flat c @ stride, co_dtype_idx := co_dtype_idx c @ [idx]\<rparr>"

text \<open>What the columns read of a tensor.\<close>

record 'd layout =
  la_address :: nat
  la_nbytes :: nat
  la_dims :: "nat list"
  la_stride :: "nat list"
  la_dtype :: 'd

definition add_layout :: "('d \<Rightarrow> string) \<Rightarrow> 'd layout \<Rightarrow> 'd columns \<Rightarrow> 'd columns" where
  "add_layout dtype_name t c = (let
     c = c\<lparr>co_addresses := co_addresses c @ [la_address t], co_nbytes := co_nbytes c @ [la_nbytes t],
       co_ndims := co_ndims c @ [length (la_dims t)], co_dims_flat := co_dims_flat c @ la_dims t,
       co_stride_flat := co_stride_flat c @ la_stride t\<rparr>;
     (i, c) = dtype_index dtype_name (la_dtype t) c
   in c\<lparr>co_dtype_idx := co_dtype_idx c @ [i]\<rparr>)"

definition add_tensors_canonical :: "('d \<Rightarrow> string) \<Rightarrow> nat list \<Rightarrow> 'd layout list \<Rightarrow> 'd columns \<Rightarrow> 'd columns" where
  "add_tensors_canonical dtype_name uuids tensors c =
     fold (add_layout dtype_name) tensors (c\<lparr>co_uuids := co_uuids c @ uuids\<rparr>)"

section \<open>Records\<close>

record reference_info =
  ref_cnt :: int
  persist :: bool
  mem_registered :: bool

definition new_reference_info :: reference_info where
  "new_reference_info = \<lparr>ref_cnt = 0, persist = False, mem_registered = False\<rparr>"

record 'd bookkeeper =
  bk_refs :: "nat \<rightharpoonup> reference_info"
  bk_infos :: "nat \<rightharpoonup> 'd tensor_info"
  bk_segments :: "string option list"

definition new_bookkeeper :: "'d bookkeeper" where
  "new_bookkeeper = \<lparr>bk_refs = (\<lambda>_. None), bk_infos = (\<lambda>_. None), bk_segments = []\<rparr>"

definition bk_put_tensor :: "nat \<Rightarrow> 'd tensor_info \<Rightarrow> 'd bookkeeper \<Rightarrow> 'd bookkeeper" where
  "bk_put_tensor uuid info b = b\<lparr>bk_refs := (bk_refs b)(uuid \<mapsto> new_reference_info),
     bk_infos := (bk_infos b)(uuid \<mapsto> info)\<rparr>"

text \<open>\<open>zip(..., strict=True)\<close> raises once the shorter list has run out.\<close>

definition zip_strict :: "'a list \<Rightarrow> 'b list \<Rightarrow> ('a \<times> 'b) list res" where
  "zip_strict xs ys = (if length xs = length ys then Inr (zip xs ys) else Inl ValueError)"

definition put_tensor_batch :: "nat list \<Rightarrow> 'd tensor_info list \<Rightarrow> 'd bookkeeper \<Rightarrow> 'd bookkeeper res" where
  "put_tensor_batch uuids infos b = rbind (zip_strict uuids infos)
     (\<lambda>ps. Inr (fold (\<lambda>(u, i). bk_put_tensor u i) ps b))"

definition register_shm_segment :: "nat \<Rightarrow> string \<Rightarrow> 'd bookkeeper \<Rightarrow> 'd bookkeeper" where
  "register_shm_segment index name b = b\<lparr>bk_segments :=
     (bk_segments b @ replicate (index + 1 - length (bk_segments b)) None)[index := Some name]\<rparr>"

definition shm_segment_name :: "nat \<Rightarrow> 'd bookkeeper \<Rightarrow> string res" where
  "shm_segment_name idx b =
     (case if idx < length (bk_segments b) then bk_segments b ! idx else None of
        None \<Rightarrow> Inl ValueError | Some name \<Rightarrow> Inr name)"

definition place_one :: "nat \<times> int \<times> nat \<Rightarrow> 'd bookkeeper \<Rightarrow> 'd bookkeeper res" where
  "place_one = (\<lambda>(uuid, idx, off) b.
     rbind (if idx < 0 then Inr None else rbind (shm_segment_name (nat idx) b) (\<lambda>n. Inr (Some n))) (\<lambda>seg.
     case bk_infos b uuid of None \<Rightarrow> Inr b
     | Some info \<Rightarrow> Inr (b\<lparr>bk_infos := (bk_infos b)(uuid \<mapsto> info\<lparr>ti_shm_segment := seg, ti_shm_offset := off\<rparr>)\<rparr>)))"

definition set_shm_placement :: "nat list \<Rightarrow> int list \<Rightarrow> nat list \<Rightarrow> 'd bookkeeper \<Rightarrow> 'd bookkeeper res" where
  "set_shm_placement uuids idxs offsets b = rbind (zip_strict idxs offsets) (\<lambda>ios.
     rbind (zip_strict uuids ios) (\<lambda>ps. rfold place_one ps b))"

definition forget_tensor :: "nat \<Rightarrow> 'd bookkeeper \<Rightarrow> 'd bookkeeper" where
  "forget_tensor uuid b = b\<lparr>bk_refs := (bk_refs b)(uuid := None), bk_infos := (bk_infos b)(uuid := None)\<rparr>"

section \<open>Reference counts and flags\<close>

definition update_ref :: "nat \<Rightarrow> (reference_info \<Rightarrow> reference_info) \<Rightarrow> 'd bookkeeper \<Rightarrow> 'd bookkeeper" where
  "update_ref uuid f b = (case bk_refs b uuid of None \<Rightarrow> b
     | Some r \<Rightarrow> b\<lparr>bk_refs := (bk_refs b)(uuid \<mapsto> f r)\<rparr>)"

definition increment_ref :: "nat \<Rightarrow> int \<Rightarrow> 'd bookkeeper \<Rightarrow> 'd bookkeeper res" where
  "increment_ref uuid n b = (case bk_refs b uuid of None \<Rightarrow> Inr b
     | Some r \<Rightarrow> if n \<ge> 0 then Inr (b\<lparr>bk_refs := (bk_refs b)(uuid \<mapsto> r\<lparr>ref_cnt := ref_cnt r + n\<rparr>)\<rparr>)
         else Inl AssertionError)"

definition increment_ref_batch :: "nat list \<Rightarrow> int list \<Rightarrow> 'd bookkeeper \<Rightarrow> 'd bookkeeper res" where
  "increment_ref_batch uuids counts b = rbind (zip_strict uuids counts)
     (\<lambda>ps. rfold (\<lambda>(u, n). increment_ref u n) ps b)"

definition increment_ref_batch_uniform :: "nat list \<Rightarrow> int \<Rightarrow> 'd bookkeeper \<Rightarrow> 'd bookkeeper res" where
  "increment_ref_batch_uniform uuids n b = rfold (\<lambda>u. increment_ref u n) uuids b"

definition dereference :: "nat \<Rightarrow> int \<Rightarrow> 'd bookkeeper \<Rightarrow> 'd bookkeeper" where
  "dereference uuid n = update_ref uuid (\<lambda>r. r\<lparr>ref_cnt := ref_cnt r - n\<rparr>)"

definition set_persist :: "nat \<Rightarrow> bool \<Rightarrow> 'd bookkeeper \<Rightarrow> 'd bookkeeper" where
  "set_persist uuid p = update_ref uuid (\<lambda>r. r\<lparr>persist := p\<rparr>)"

definition set_mem_registered :: "nat \<Rightarrow> bool \<Rightarrow> 'd bookkeeper \<Rightarrow> 'd bookkeeper" where
  "set_mem_registered uuid p = update_ref uuid (\<lambda>r. r\<lparr>mem_registered := p\<rparr>)"

definition is_registered :: "nat \<Rightarrow> 'd bookkeeper \<Rightarrow> bool" where
  "is_registered uuid b = (case bk_refs b uuid of None \<Rightarrow> False | Some r \<Rightarrow> mem_registered r)"

definition can_gc :: "nat \<Rightarrow> 'd bookkeeper \<Rightarrow> bool" where
  "can_gc uuid b = (case bk_refs b uuid of None \<Rightarrow> False | Some r \<Rightarrow> ref_cnt r \<le> 0 \<and> \<not> persist r)"

section \<open>Dropping references\<close>

text \<open>The loop of \<open>TensorBookkeeping\<close>, over the abstract methods.\<close>

fun generic_drops ::
  "(nat \<Rightarrow> int \<Rightarrow> 'b \<Rightarrow> 'b) \<Rightarrow> (nat \<Rightarrow> 'b \<Rightarrow> bool) \<Rightarrow> (nat \<Rightarrow> 'b \<Rightarrow> bool) \<Rightarrow> (nat \<times> int) list \<Rightarrow> 'b
    \<Rightarrow> (nat list \<times> bool list) \<times> 'b" where
  "generic_drops deref gc reg [] b = (([], []), b)"
| "generic_drops deref gc reg ((u, n) # refs) b = (let b = deref u n b in
     if \<not> gc u b then generic_drops deref gc reg refs b
     else (let r = reg u b; ((us, rs), b) = generic_drops deref gc reg refs b in ((u # us, r # rs), b)))"

definition generic_drop_refs ::
  "(nat \<Rightarrow> int \<Rightarrow> 'b \<Rightarrow> 'b) \<Rightarrow> (nat \<Rightarrow> 'b \<Rightarrow> bool) \<Rightarrow> (nat \<Rightarrow> 'b \<Rightarrow> bool) \<Rightarrow> (nat \<Rightarrow> 'b \<Rightarrow> 'b) \<Rightarrow>
    (nat \<times> int) list \<Rightarrow> bool \<Rightarrow> 'b \<Rightarrow> (nat list \<times> bool list) \<times> 'b" where
  "generic_drop_refs deref gc reg forget refs cleanup b =
     (let ((us, rs), b) = generic_drops deref gc reg refs b in
      ((us, rs), if cleanup then fold forget us b else b))"

text \<open>The loop of \<open>PythonTensorBookkeeping\<close>: one record look-up per uuid.\<close>

fun python_drops :: "(nat \<times> int) list \<Rightarrow> 'd bookkeeper \<Rightarrow> (nat list \<times> bool list) \<times> 'd bookkeeper" where
  "python_drops [] b = (([], []), b)"
| "python_drops ((u, n) # refs) b = (case bk_refs b u of
     None \<Rightarrow> python_drops refs b
   | Some r \<Rightarrow> (let r = r\<lparr>ref_cnt := ref_cnt r - n\<rparr>; b = b\<lparr>bk_refs := (bk_refs b)(u \<mapsto> r)\<rparr> in
       if ref_cnt r > 0 \<or> persist r then python_drops refs b
       else (let ((us, rs), b) = python_drops refs b in ((u # us, mem_registered r # rs), b))))"

definition drop_refs ::
  "(nat \<times> int) list \<Rightarrow> bool \<Rightarrow> 'd bookkeeper \<Rightarrow> (nat list \<times> bool list) \<times> 'd bookkeeper" where
  "drop_refs refs cleanup b = (let ((us, rs), b) = python_drops refs b in
     ((us, rs), if cleanup
       then fold (\<lambda>u b. b\<lparr>bk_refs := (bk_refs b)(u := None), bk_infos := (bk_infos b)(u := None)\<rparr>) us b
       else b))"

definition dereference_batch ::
  "nat list \<Rightarrow> int list \<Rightarrow> bool \<Rightarrow> 'd bookkeeper \<Rightarrow> ((nat list \<times> bool list) \<times> 'd bookkeeper) res" where
  "dereference_batch uuids counts cleanup b = rbind (zip_strict uuids counts) (\<lambda>refs. Inr (drop_refs refs cleanup b))"

definition dereference_batch_uniform ::
  "nat list \<Rightarrow> int \<Rightarrow> bool \<Rightarrow> 'd bookkeeper \<Rightarrow> (nat list \<times> bool list) \<times> 'd bookkeeper" where
  "dereference_batch_uniform uuids n cleanup b = drop_refs (map (\<lambda>u. (u, n)) uuids) cleanup b"

section \<open>The contract of a bookkeeper\<close>

text \<open>What the references are after a list of drops, and which drops found a collectable uuid.\<close>

fun drop_spec :: "(nat \<times> int) list \<Rightarrow> (nat \<rightharpoonup> reference_info) \<Rightarrow> (nat \<times> bool) list \<times> (nat \<rightharpoonup> reference_info)" where
  "drop_spec [] m = ([], m)"
| "drop_spec ((u, n) # refs) m = (case m u of None \<Rightarrow> drop_spec refs m
   | Some r \<Rightarrow> (let m = m(u \<mapsto> r\<lparr>ref_cnt := ref_cnt r - n\<rparr>) in
       if ref_cnt r - n \<le> 0 \<and> \<not> persist r
       then (let (cs, m) = drop_spec refs m in ((u, mem_registered r) # cs, m))
       else drop_spec refs m))"

locale bookkeeping =
  fixes refs_of :: "'b \<Rightarrow> nat \<rightharpoonup> reference_info"
    and deref :: "nat \<Rightarrow> int \<Rightarrow> 'b \<Rightarrow> 'b"
    and gc :: "nat \<Rightarrow> 'b \<Rightarrow> bool"
    and reg :: "nat \<Rightarrow> 'b \<Rightarrow> bool"
    and forget :: "nat \<Rightarrow> 'b \<Rightarrow> 'b"
  assumes deref_refs: "refs_of (deref u n b) = (case refs_of b u of None \<Rightarrow> refs_of b
      | Some r \<Rightarrow> (refs_of b)(u \<mapsto> r\<lparr>ref_cnt := ref_cnt r - n\<rparr>))"
    and gc_refs: "gc u b \<longleftrightarrow> (\<exists>r. refs_of b u = Some r \<and> ref_cnt r \<le> 0 \<and> \<not> persist r)"
    and reg_refs: "reg u b \<longleftrightarrow> (\<exists>r. refs_of b u = Some r \<and> mem_registered r)"
    and forget_refs: "refs_of (forget u b) = (refs_of b)(u := None)"
begin

lemma generic_drops_spec:
  assumes "generic_drops deref gc reg refs b = ((us, rs), b')"
  shows "drop_spec refs (refs_of b) = (zip us rs, refs_of b') \<and> length us = length rs"
  using assms
proof (induction refs arbitrary: b us rs)
  case (Cons p refs)
  obtain u n where p: "p = (u, n)" by (cases p)
  show ?case
  proof (cases "refs_of b u")
    case None
    then have b: "refs_of (deref u n b) = refs_of b" by (simp add: deref_refs)
    with None have "\<not> gc u (deref u n b)" by (simp add: gc_refs)
    with None b p Cons.IH [of "deref u n b"] Cons.prems show ?thesis by (simp add: Let_def)
  next
    case (Some r)
    let ?b = "deref u n b"
    have b: "refs_of ?b = (refs_of b)(u \<mapsto> r\<lparr>ref_cnt := ref_cnt r - n\<rparr>)" using Some by (simp add: deref_refs)
    have g: "gc u ?b \<longleftrightarrow> ref_cnt r - n \<le> 0 \<and> \<not> persist r" "reg u ?b \<longleftrightarrow> mem_registered r"
      by (simp_all add: gc_refs reg_refs b)
    obtain us1 rs1 b1 where d: "generic_drops deref gc reg refs ?b = ((us1, rs1), b1)" by (metis prod.collapse)
    show ?thesis
    proof (cases "ref_cnt r - n \<le> 0 \<and> \<not> persist r")
      case True
      then have "us = u # us1" "rs = mem_registered r # rs1" "b1 = b'"
        using Cons.prems p d g by (auto simp: Let_def)
      with Cons.IH [of ?b us1 rs1] d b Some p True show ?thesis by (simp add: Let_def del: fun_upd_apply)
    next
      case False
      then have "us1 = us" "rs1 = rs" "b1 = b'" using Cons.prems p d g by (auto simp: Let_def)
      with Cons.IH [of ?b us rs] d b Some p False show ?thesis by (auto simp: Let_def simp del: fun_upd_apply)
    qed
  qed
qed simp

lemma forget_all: "refs_of (fold forget us b) = (\<lambda>u. if u \<in> set us then None else refs_of b u)"
  by (induction us arbitrary: b) (auto simp: forget_refs fun_eq_iff)

end

interpretation bk: bookkeeping bk_refs dereference can_gc is_registered forget_tensor
  by unfold_locales
    (auto simp: dereference_def update_ref_def can_gc_def is_registered_def forget_tensor_def split: option.splits)

section \<open>The override computes what the loop does\<close>

lemma dereference_some:
  "bk_refs b u = Some r \<Longrightarrow> dereference u n b = b\<lparr>bk_refs := (bk_refs b)(u \<mapsto> r\<lparr>ref_cnt := ref_cnt r - n\<rparr>)\<rparr>"
  by (simp add: dereference_def update_ref_def)

lemma dereference_none: "bk_refs b u = None \<Longrightarrow> dereference u n b = b"
  by (simp add: dereference_def update_ref_def)

lemma python_drops_generic: "python_drops refs b = generic_drops dereference can_gc is_registered refs b"
proof (induction refs arbitrary: b)
  case (Cons p refs)
  obtain u n where p: "p = (u, n)" by (cases p)
  show ?case
  proof (cases "bk_refs b u")
    case None
    then show ?thesis using Cons p by (simp add: dereference_none can_gc_def)
  next
    case (Some r)
    then show ?thesis using Cons p
      by (simp add: dereference_some can_gc_def is_registered_def Let_def not_less del: fun_upd_apply)
        (auto simp: not_less split: prod.splits)
  qed
qed simp

lemma python_drops_spec:
  assumes "python_drops refs b = ((us, rs), b')"
  shows "drop_spec refs (bk_refs b) = (zip us rs, bk_refs b') \<and> length us = length rs"
  using assms unfolding python_drops_generic by (rule bk.generic_drops_spec)

lemma python_drops_infos: "python_drops refs b = (c, b') \<Longrightarrow> bk_infos b' = bk_infos b \<and> bk_segments b' = bk_segments b"
  by (induction refs b arbitrary: c b' rule: python_drops.induct)
    (auto simp: Let_def split: option.splits if_splits prod.splits)

lemma forget_tensor_alt:
  "(\<lambda>u b. b\<lparr>bk_refs := (bk_refs b)(u := None), bk_infos := (bk_infos b)(u := None)\<rparr>) = forget_tensor"
  by (intro ext) (simp add: forget_tensor_def)

lemma drop_refs_generic:
  "drop_refs refs cleanup b = generic_drop_refs dereference can_gc is_registered forget_tensor refs cleanup b"
  unfolding drop_refs_def generic_drop_refs_def python_drops_generic forget_tensor_alt by (rule refl)

section \<open>What a list of drops comes to\<close>

definition total_drop :: "nat \<Rightarrow> (nat \<times> int) list \<Rightarrow> int" where
  "total_drop u refs = sum_list (map snd (filter (\<lambda>p. fst p = u) refs))"

lemma total_drop_simps [simp]:
  "total_drop u [] = 0" "total_drop u ((v, n) # refs) = (if v = u then n else 0) + total_drop u refs"
  by (simp_all add: total_drop_def)

lemma total_drop_nonneg: "\<forall>(v, n) \<in> set refs. v = u \<longrightarrow> 0 < n \<Longrightarrow> 0 \<le> total_drop u refs \<and>
    (u \<in> fst ` set refs \<longrightarrow> 0 < total_drop u refs)"
  by (induction refs) auto

lemma drop_spec_Cons:
  "drop_spec ((v, n) # refs) m = (case m v of None \<Rightarrow> drop_spec refs m
    | Some r \<Rightarrow> (let q = r\<lparr>ref_cnt := ref_cnt r - n\<rparr> in
        ((if ref_cnt q \<le> 0 \<and> \<not> persist q then [(v, mem_registered q)] else []) @ fst (drop_spec refs (m(v \<mapsto> q))),
         snd (drop_spec refs (m(v \<mapsto> q))))))"
  by (simp add: Let_def split: option.split prod.split)

lemma drop_spec_refs:
  "snd (drop_spec refs m) u = map_option (\<lambda>r. r\<lparr>ref_cnt := ref_cnt r - total_drop u refs\<rparr>) (m u)"
proof (induction refs arbitrary: m)
  case Nil
  then show ?case by (cases "m u") simp_all
next
  case (Cons p refs)
  obtain v n where p: "p = (v, n)" by (cases p)
  show ?case
  proof (cases "m v")
    case None
    with Cons p show ?thesis by (cases "m u") (auto simp: drop_spec_Cons simp del: drop_spec.simps(2))
  next
    case (Some r)
    with Cons p show ?thesis
      by (cases "m u") (auto simp: drop_spec_Cons Let_def algebra_simps simp del: drop_spec.simps(2))
  qed
qed

text \<open>A tensor nobody drops more often than it is held is reported when its last reference goes,
  and once.\<close>

lemma drop_spec_reported:
  assumes "m u = Some r" "\<not> persist r" "total_drop u refs \<le> ref_cnt r"
    "\<forall>(v, n) \<in> set refs. v = u \<longrightarrow> 0 < n"
  shows "filter (\<lambda>c. fst c = u) (fst (drop_spec refs m)) =
    (if u \<in> fst ` set refs \<and> total_drop u refs = ref_cnt r then [(u, mem_registered r)] else [])"
  using assms
proof (induction refs arbitrary: m r)
  case (Cons p refs)
  obtain v n where p: "p = (v, n)" by (cases p)
  have pos: "\<forall>(v, n) \<in> set refs. v = u \<longrightarrow> 0 < n" using Cons.prems(4) by simp
  note nonneg = total_drop_nonneg [OF pos]
  show ?case
  proof (cases "v = u")
    case False
    show ?thesis
    proof (cases "m v")
      case None
      then show ?thesis using Cons.IH [of m r, OF Cons.prems(1,2)] pos Cons.prems(3) False p
        by (auto simp: drop_spec_Cons simp del: drop_spec.simps(2))
    next
      case (Some q)
      have "(m(v \<mapsto> q\<lparr>ref_cnt := ref_cnt q - n\<rparr>)) u = Some r" using False Cons.prems(1) by simp
      from Cons.IH [of "m(v \<mapsto> q\<lparr>ref_cnt := ref_cnt q - n\<rparr>)" r, OF this Cons.prems(2)] show ?thesis
        using pos Some Cons.prems(3) False p
        by (auto simp: drop_spec_Cons Let_def simp del: drop_spec.simps(2) fun_upd_apply)
    qed
  next
    case True
    let ?q = "r\<lparr>ref_cnt := ref_cnt r - n\<rparr>"
    have m: "m v = Some r" using Cons.prems(1) True by simp
    have q: "(m(v \<mapsto> ?q)) u = Some ?q" "\<not> persist ?q" "total_drop u refs \<le> ref_cnt ?q"
      using Cons.prems True p by auto
    note rest = Cons.IH [of "m(v \<mapsto> ?q)" ?q, OF q pos]
    have "total_drop u refs = 0" if "u \<notin> fst ` set refs" using that by (induction refs) auto
    then have "total_drop u refs = 0 \<longleftrightarrow> u \<notin> fst ` set refs" using nonneg by auto
    then show ?thesis using m True p rest Cons.prems(2,3) nonneg
      by (auto simp: drop_spec_Cons Let_def simp del: drop_spec.simps(2) fun_upd_apply)
  qed
qed simp

end
