(* ===== verification/Graph_Data.thy ===== *)
theory Graph_Data imports Tensor_Book begin

text \<open>
  What travels along a model graph's edges: \<open>NodeAndGraphWalk\<close> and \<open>GraphEdge\<close>
  (\<open>mstar/graph/base.py\<close>), carrying the tensor descriptors of \<open>Tensor_Book\<close>. Edges are values:
  the code clones an edge before it writes into it.
\<close>

type_synonym node_walk = "string \<times> string option"

record 'd graph_edge =
  ge_next_node :: string
  ge_name :: string
  ge_tensor_info :: "'d tensor_info list"
  ge_persist :: bool
  ge_new_token :: bool
  ge_is_streaming :: bool
  ge_modality :: string
  ge_persist_for_loop :: bool
  ge_final_chunk :: bool
  ge_total_fanin :: nat
  ge_shard_dim :: "int option"

text \<open>\<open>GraphEdge(next_node, name)\<close> with the defaults of the other fields.\<close>

definition new_edge :: "string \<Rightarrow> string \<Rightarrow> 'd graph_edge" where
  "new_edge next_node name = \<lparr>ge_next_node = next_node, ge_name = name, ge_tensor_info = [],
     ge_persist = False, ge_new_token = False, ge_is_streaming = False, ge_modality = '''',
     ge_persist_for_loop = False, ge_final_chunk = False, ge_total_fanin = 1, ge_shard_dim = None\<rparr>"

definition clone_edge :: "'d graph_edge \<Rightarrow> 'd graph_edge" where
  "clone_edge e = (new_edge (ge_next_node e) (ge_name e))\<lparr>ge_tensor_info := ge_tensor_info e,
     ge_persist := ge_persist e, ge_new_token := ge_new_token e, ge_is_streaming := ge_is_streaming e,
     ge_modality := ge_modality e, ge_persist_for_loop := ge_persist_for_loop e,
     ge_final_chunk := ge_final_chunk e\<rparr>"

lemma clone_edge_simps [simp]:
  "ge_next_node (clone_edge e) = ge_next_node e" "ge_name (clone_edge e) = ge_name e"
  "ge_tensor_info (clone_edge e) = ge_tensor_info e" "ge_total_fanin (clone_edge e) = 1"
  "ge_shard_dim (clone_edge e) = None"
  by (simp_all add: clone_edge_def new_edge_def)

end
