(* ===== verification/Graph_Sections.thy ===== *)
theory Graph_Sections imports Graph_Data begin

text \<open>
  Model graphs as they are declared, \<open>mstar/graph/base.py\<close>: a section is a node, a sequence or
  a parallel composition of sections, or a loop around one. Their flat maps of nodes and
  loops and their input/output signatures. What a node or loop keeps while the graph runs is
  in \<open>Graph_State\<close>; a declaration's output edges carry no tensors yet.

  Python dicts keyed by name are lists of declarations: names are unique in a graph, which
  \<open>names_ok\<close> states.
\<close>

type_synonym name_dest = "string \<times> string"

record 'd node_decl =
  nd_name :: string
  nd_inputs :: "string set"
  nd_outputs :: "'d graph_edge list"
  nd_consumes_stream :: bool
  nd_async_scheduling :: bool
  nd_streaming :: "string set"

record 'd loop_decl =
  ld_name :: string
  ld_max_iters :: int
  ld_outputs :: "'d graph_edge list"
  ld_accumulated :: "'d graph_edge list"
  ld_external :: "name_dest set option"
  ld_loop_back :: "name_dest set option"

datatype 'd graph_section =
    NodeSec "'d node_decl"
  | SeqSec "'d graph_section list"
  | ParSec "'d graph_section list"
  | LoopSec "'d loop_decl" "'d graph_section"

text \<open>\<open>_register_streaming\<close>, before a graph runs.\<close>

definition register_streaming :: "string set \<Rightarrow> 'd node_decl \<Rightarrow> 'd node_decl" where
  "register_streaming names n = (if names = {} then n
     else n\<lparr>nd_consumes_stream := True, nd_streaming := names\<rparr>)"

section \<open>Flat maps\<close>

fun get_nodes :: "'d graph_section \<Rightarrow> 'd node_decl list" where
  "get_nodes (NodeSec n) = [n]"
| "get_nodes (SeqSec ss) = concat (map get_nodes ss)"
| "get_nodes (ParSec ss) = concat (map get_nodes ss)"
| "get_nodes (LoopSec l s) = get_nodes s"

fun get_loops :: "'d graph_section \<Rightarrow> ('d loop_decl \<times> 'd graph_section) list" where
  "get_loops (NodeSec n) = []"
| "get_loops (SeqSec ss) = concat (map get_loops ss)"
| "get_loops (ParSec ss) = concat (map get_loops ss)"
| "get_loops (LoopSec l s) = get_loops s @ [(l, s)]"

text \<open>The entities a registry over the section counts: its nodes and loops, not a loop's own.\<close>

fun top_level_entities :: "'d graph_section \<Rightarrow> 'd graph_section list" where
  "top_level_entities (SeqSec ss) = concat (map top_level_entities ss)"
| "top_level_entities (ParSec ss) = concat (map top_level_entities ss)"
| "top_level_entities s = [s]"

fun entity_name :: "'d graph_section \<Rightarrow> string" where
  "entity_name (NodeSec n) = nd_name n"
| "entity_name (LoopSec l s) = ld_name l"
| "entity_name _ = ''''"

definition self_triggered :: "'d graph_section \<Rightarrow> bool" where
  "self_triggered entity \<longleftrightarrow> list_ex (\<lambda>n. nd_consumes_stream n \<and> nd_inputs n \<subseteq> nd_streaming n) (get_nodes entity)"

definition node_names :: "'d graph_section \<Rightarrow> string list" where
  "node_names s = map nd_name (get_nodes s)"

definition loop_names :: "'d graph_section \<Rightarrow> string list" where
  "loop_names s = map (ld_name \<circ> fst) (get_loops s)"

definition names_ok :: "'d graph_section \<Rightarrow> bool" where
  "names_ok s \<longleftrightarrow> distinct (node_names s @ loop_names s)"

section \<open>Signatures\<close>

record 'd node_io =
  io_inputs :: "name_dest set"
  io_outputs :: "'d graph_edge list"
  io_loop_back :: "name_dest set"

definition pair_of :: "'d graph_edge \<Rightarrow> name_dest" where
  "pair_of e = (ge_name e, ge_next_node e)"

definition node_io_of :: "'d node_decl \<Rightarrow> 'd node_io" where
  "node_io_of n = (let
     loop_back = (\<lambda>e. (ge_name e, nd_name n)) ` {e \<in> set (nd_outputs n). ge_next_node e = nd_name n}
   in \<lparr>io_inputs = (\<lambda>i. (i, nd_name n)) ` nd_inputs n - loop_back,
       io_outputs = filter (\<lambda>e. ge_next_node e \<noteq> nd_name n) (nd_outputs n),
       io_loop_back = loop_back\<rparr>)"

text \<open>One section of a \<open>Sequential\<close>: the signature so far, the internal signals, the nodes seen.\<close>

definition seq_step :: "'d node_io \<Rightarrow> string set \<Rightarrow> 'd node_io \<times> name_dest set \<times> string set
    \<Rightarrow> 'd node_io \<times> name_dest set \<times> string set" where
  "seq_step sub names = (\<lambda>(acc, internal, seen). let
     loop_back = io_loop_back acc \<union> io_loop_back sub;
     inputs = io_inputs acc \<union> io_inputs sub;
     outputs = io_outputs acc @ io_outputs sub;
     internal = internal \<union> (pair_of ` set outputs \<inter> inputs);
     loop_back = loop_back \<union> pair_of ` {e \<in> set (io_outputs sub). ge_next_node e \<in> seen}
   in (\<lparr>io_inputs = inputs - (internal \<union> loop_back),
        io_outputs = filter (\<lambda>e. pair_of e \<notin> internal \<union> loop_back) outputs,
        io_loop_back = loop_back\<rparr>, internal, seen \<union> names))"

definition no_io :: "'d node_io" where
  "no_io = \<lparr>io_inputs = {}, io_outputs = [], io_loop_back = {}\<rparr>"

definition seq_io :: "('d node_io \<times> string set) list \<Rightarrow> 'd node_io" where
  "seq_io subs = fst (fold (\<lambda>(sub, names). seq_step sub names) subs (no_io, {}, {}))"

definition par_io :: "'d node_io list \<Rightarrow> 'd node_io" where
  "par_io subs = (let
     produced = pair_of ` set (concat (map io_outputs subs));
     consumed = \<Union> (io_inputs ` set subs);
     internal = produced \<inter> consumed
   in \<lparr>io_inputs = \<Union> ((\<lambda>sub. io_inputs sub - internal) ` set subs),
       io_outputs = concat (map (\<lambda>sub. filter (\<lambda>e. pair_of e \<notin> internal) (io_outputs sub)) subs),
       io_loop_back = \<Union> (io_loop_back ` set subs)\<rparr>)"

text \<open>The outputs a loop keeps: those its section produces (\<open>__post_init__\<close>).\<close>

definition produced_names :: "'d node_io \<Rightarrow> string set" where
  "produced_names sub = ge_name ` set (io_outputs sub) \<union> fst ` io_loop_back sub"

definition kept_outputs :: "'d node_io \<Rightarrow> 'd graph_edge list \<Rightarrow> 'd graph_edge list" where
  "kept_outputs sub = filter (\<lambda>e. ge_name e \<in> produced_names sub)"

fun get_inputs_outputs :: "'d graph_section \<Rightarrow> 'd node_io" where
  "get_inputs_outputs (NodeSec n) = node_io_of n"
| "get_inputs_outputs (SeqSec ss) = seq_io (map (\<lambda>s. (get_inputs_outputs s, set (node_names s))) ss)"
| "get_inputs_outputs (ParSec ss) = par_io (map get_inputs_outputs ss)"
| "get_inputs_outputs (LoopSec l s) = (let sub = get_inputs_outputs s
     in sub\<lparr>io_outputs := kept_outputs sub (ld_outputs l) @ kept_outputs sub (ld_accumulated l)\<rparr>)"

section \<open>Construction\<close>

text \<open>The checks the constructors make: a loop's two kinds of outputs are disjoint by name.\<close>

fun construct :: "'d graph_section \<Rightarrow> unit res" where
  "construct (NodeSec n) = Inr ()"
| "construct (SeqSec ss) = rfold (\<lambda>r _. r) (map construct ss) ()"
| "construct (ParSec ss) = rfold (\<lambda>r _. r) (map construct ss) ()"
| "construct (LoopSec l s) = rbind (construct s) (\<lambda>_. let sub = get_inputs_outputs s in
     if ge_name ` set (kept_outputs sub (ld_outputs l)) \<inter> ge_name ` set (kept_outputs sub (ld_accumulated l)) \<noteq> {}
     then Inl ValueError else Inr ())"

text \<open>The loops around a node or loop, innermost first, as \<open>_setup_registries\<close> links the
  registries; \<open>None\<close> if it is not in the section.\<close>

fun enclosing :: "string \<Rightarrow> 'd graph_section \<Rightarrow> string list option" where
  "enclosing x (NodeSec n) = (if nd_name n = x then Some [] else None)"
| "enclosing x (SeqSec ss) = (case List.find (\<lambda>r. r \<noteq> None) (map (enclosing x) ss) of None \<Rightarrow> None | Some r \<Rightarrow> r)"
| "enclosing x (ParSec ss) = (case List.find (\<lambda>r. r \<noteq> None) (map (enclosing x) ss) of None \<Rightarrow> None | Some r \<Rightarrow> r)"
| "enclosing x (LoopSec l s) = (if ld_name l = x then Some [] else map_option (\<lambda>p. p @ [ld_name l]) (enclosing x s))"

text \<open>\<open>find_loop l\<close>: the declaration of the loop of that name.\<close>

definition find_loop :: "string \<Rightarrow> 'd graph_section \<Rightarrow> ('d loop_decl \<times> 'd graph_section) option" where
  "find_loop x g = List.find (\<lambda>(l, s). ld_name l = x) (get_loops g)"

end
