(* ===== verification/Graph_State.thy ===== *)
theory Graph_State imports Graph_Sections begin

text \<open>
  What a model graph keeps while it runs, \<open>mstar/graph/base.py\<close>: the readiness slots of a node
  (\<open>ReadySignals\<close>), the counters, saved inputs and output caches of a loop, the registries that
  count completions, and the root registry's ready sets. \<open>worker_graph_io\<close> is the whole of it,
  as \<open>WorkerGraphIO\<close> (\<open>mstar/graph/graph_io.py\<close>) holds it.

  Nodes and loops are objects that refer to each other; they are found here by their unique
  names, and \<open>enclosing\<close> is the chain of managing registries. Edges are values: a caller
  hands in an edge of its own and does not write into one it got back. The tensor manager is
  another component (\<open>Tensor_Store\<close>): its calls are recorded in order in \<open>wg_calls\<close>.
\<close>

section \<open>Readiness slots\<close>

record 'd ready_signals =
  sl_inputs :: "(string, 'd graph_edge) dict"
  sl_names :: "string set"
  sl_ready :: bool
  sl_stream_ready :: bool

definition empty_slot :: "'d ready_signals" where
  "empty_slot = \<lparr>sl_inputs = [], sl_names = {}, sl_ready = False, sl_stream_ready = False\<rparr>"

definition slot_update :: "'d node_decl \<Rightarrow> 'd graph_edge \<Rightarrow> 'd ready_signals \<Rightarrow> 'd ready_signals res" where
  "slot_update n e sl = (
     if ge_name e \<notin> nd_inputs n then Inl AssertionError
     else if map_of (sl_inputs sl) (ge_name e) \<noteq> None then Inl AssertionError
     else let sl = sl\<lparr>sl_inputs := dict_set (ge_name e) e (sl_inputs sl), sl_names := insert (ge_name e) (sl_names sl)\<rparr>
       in if sl_ready sl then Inr sl
          else let r = (nd_inputs n \<subseteq> sl_names sl)
            in Inr (sl\<lparr>sl_ready := r,
                 sl_stream_ready := (r \<or> sl_stream_ready sl \<or> nd_inputs n \<subseteq> sl_names sl \<union> nd_streaming n)\<rparr>))"

text \<open>The references \<open>clear\<close> gives back: a loop still holds the inputs it saved.\<close>

definition slot_uuids :: "'d ready_signals \<Rightarrow> nat list" where
  "slot_uuids sl = concat (map (\<lambda>(_, e). if ge_persist_for_loop e then [] else map ti_uuid (ge_tensor_info e)) (sl_inputs sl))"

definition slot_remove :: "'d node_decl \<Rightarrow> string \<Rightarrow> 'd ready_signals \<Rightarrow> 'd graph_edge option \<times> 'd ready_signals" where
  "slot_remove n name sl = (case map_of (sl_inputs sl) name of
     None \<Rightarrow> (None, sl)
   | Some e \<Rightarrow> (let names = sl_names sl - {name}; r = (nd_inputs n \<subseteq> names)
       in (Some e, \<lparr>sl_inputs = dict_del name (sl_inputs sl), sl_names = names, sl_ready = r,
            sl_stream_ready = (r \<or> nd_inputs n \<subseteq> names \<union> nd_streaming n)\<rparr>)))"

section \<open>Nodes, loops and registries\<close>

record 'd node_state =
  ns_decl :: "'d node_decl"
  ns_outputs :: "'d graph_edge list"
  ns_in_flight :: bool
  ns_ready :: "'d ready_signals"
  ns_next :: "'d ready_signals"
  ns_spec :: "'d ready_signals"

record registry =
  rg_done :: bool
  rg_completed :: nat

record 'd loop_state =
  ls_section :: "'d graph_section"
  ls_max_iters :: int
  ls_outputs :: "'d graph_edge list"
  ls_accumulated :: "'d graph_edge list"
  ls_external :: "name_dest set"
  ls_loop_back :: "name_dest set"
  ls_iter :: int
  ls_done :: bool
  ls_finish :: bool
  ls_ext_inputs :: "'d graph_edge list"
  ls_ext_names :: "string set"
  ls_cached :: "(string, 'd tensor_info list) dict"
  ls_acc_cache :: "(string, 'd tensor_info list) dict"
  ls_registry :: registry

record root_registry =
  rr_registry :: registry
  rr_ready :: "string set"
  rr_next :: "string set"
  rr_streaming :: "string set"
  rr_streaming_next :: "string set"
  rr_only_streaming :: "string set"

datatype tm_call = IncrementRef nat | DereferenceBatch "nat list"

record 'd worker_graph_io =
  wg_graph :: "'d graph_section"
  wg_id :: "int option"
  wg_nodes :: "string \<rightharpoonup> 'd node_state"
  wg_loops :: "string \<rightharpoonup> 'd loop_state"
  wg_root :: root_registry
  wg_spec_nodes :: "string list"
  wg_runs :: nat
  wg_tm :: bool
  wg_calls :: "tm_call list"

abbreviation fresh_registry :: registry where
  "fresh_registry \<equiv> \<lparr>rg_done = False, rg_completed = 0\<rparr>"

definition new_node :: "'d node_decl \<Rightarrow> 'd node_state" where
  "new_node n = \<lparr>ns_decl = n, ns_outputs = nd_outputs n, ns_in_flight = False,
     ns_ready = empty_slot, ns_next = empty_slot, ns_spec = empty_slot\<rparr>"

definition new_loop :: "'d loop_decl \<Rightarrow> 'd graph_section \<Rightarrow> 'd loop_state" where
  "new_loop l s = (let sub = get_inputs_outputs s in
     \<lparr>ls_section = s, ls_max_iters = ld_max_iters l,
      ls_outputs = kept_outputs sub (ld_outputs l), ls_accumulated = kept_outputs sub (ld_accumulated l),
      ls_external = (case ld_external l of None \<Rightarrow> io_inputs sub | Some x \<Rightarrow> x),
      ls_loop_back = (case ld_loop_back l of None \<Rightarrow> io_loop_back sub | Some x \<Rightarrow> x),
      ls_iter = 0, ls_done = False, ls_finish = False, ls_ext_inputs = [], ls_ext_names = {},
      ls_cached = [], ls_acc_cache = [], ls_registry = fresh_registry\<rparr>)"

definition new_root :: "'d graph_section \<Rightarrow> root_registry" where
  "new_root g = (let only = nd_name ` {n \<in> set (get_nodes g). nd_inputs n \<subseteq> nd_streaming n} in
     \<lparr>rr_registry = fresh_registry, rr_ready = {}, rr_next = {}, rr_streaming = only,
      rr_streaming_next = only, rr_only_streaming = only\<rparr>)"

definition new_worker_graph_io :: "'d graph_section \<Rightarrow> int option \<Rightarrow> 'd worker_graph_io res" where
  "new_worker_graph_io g ident = rbind (construct g) (\<lambda>_. Inr
     \<lparr>wg_graph = g, wg_id = ident, wg_nodes = map_of (map (\<lambda>n. (nd_name n, new_node n)) (get_nodes g)),
      wg_loops = map_of (map (\<lambda>(l, s). (ld_name l, new_loop l s)) (get_loops g)),
      wg_root = new_root g, wg_spec_nodes = [], wg_runs = 0, wg_tm = False, wg_calls = []\<rparr>)"

definition register_communication_info :: "'d worker_graph_io \<Rightarrow> 'd worker_graph_io" where
  "register_communication_info w = w\<lparr>wg_tm := True\<rparr>"

definition upd_node :: "string \<Rightarrow> ('d node_state \<Rightarrow> 'd node_state) \<Rightarrow> 'd worker_graph_io \<Rightarrow> 'd worker_graph_io" where
  "upd_node x f w = w\<lparr>wg_nodes := (wg_nodes w)(x := map_option f (wg_nodes w x))\<rparr>"

definition upd_loop :: "string \<Rightarrow> ('d loop_state \<Rightarrow> 'd loop_state) \<Rightarrow> 'd worker_graph_io \<Rightarrow> 'd worker_graph_io" where
  "upd_loop x f w = w\<lparr>wg_loops := (wg_loops w)(x := map_option f (wg_loops w x))\<rparr>"

definition upd_root :: "(root_registry \<Rightarrow> root_registry) \<Rightarrow> 'd worker_graph_io \<Rightarrow> 'd worker_graph_io" where
  "upd_root f w = w\<lparr>wg_root := f (wg_root w)\<rparr>"

definition tm_call :: "tm_call \<Rightarrow> 'd worker_graph_io \<Rightarrow> 'd worker_graph_io" where
  "tm_call c w = (if wg_tm w then w\<lparr>wg_calls := wg_calls w @ [c]\<rparr> else w)"

section \<open>Clearing and resetting\<close>

definition clear_ready :: "string \<Rightarrow> 'd worker_graph_io \<Rightarrow> 'd worker_graph_io" where
  "clear_ready x w = (case wg_nodes w x of None \<Rightarrow> w | Some ns \<Rightarrow>
     upd_node x (\<lambda>ns. ns\<lparr>ns_ready := empty_slot\<rparr>) (tm_call (DereferenceBatch (slot_uuids (ns_ready ns))) w))"

definition clear_next :: "string \<Rightarrow> 'd worker_graph_io \<Rightarrow> 'd worker_graph_io" where
  "clear_next x w = (case wg_nodes w x of None \<Rightarrow> w | Some ns \<Rightarrow>
     upd_node x (\<lambda>ns. ns\<lparr>ns_next := empty_slot\<rparr>) (tm_call (DereferenceBatch (slot_uuids (ns_next ns))) w))"

text \<open>The speculative slot never learns of the tensor manager.\<close>

definition clear_spec :: "string \<Rightarrow> 'd worker_graph_io \<Rightarrow> 'd worker_graph_io" where
  "clear_spec x = upd_node x (\<lambda>ns. ns\<lparr>ns_spec := empty_slot\<rparr>)"

definition reset_node :: "string \<Rightarrow> 'd worker_graph_io \<Rightarrow> 'd worker_graph_io" where
  "reset_node x w = upd_node x (\<lambda>ns. ns\<lparr>ns_ready := ns_next ns, ns_next := ns_ready ns\<rparr>) (clear_ready x w)"

definition clear_node :: "string \<Rightarrow> 'd worker_graph_io \<Rightarrow> 'd worker_graph_io" where
  "clear_node x w = clear_spec x (clear_next x (clear_ready x w))"

definition reseed_streaming :: "string \<Rightarrow> 'd worker_graph_io \<Rightarrow> 'd worker_graph_io" where
  "reseed_streaming x = upd_root (\<lambda>r. if x \<in> rr_only_streaming r
     then r\<lparr>rr_streaming := insert x (rr_streaming r)\<rparr> else r\<lparr>rr_streaming := rr_streaming r - {x}\<rparr>)"

definition member_nodes :: "'d graph_section \<Rightarrow> string list" where
  "member_nodes s = concat (map (\<lambda>e. case e of NodeSec n \<Rightarrow> [nd_name n] | _ \<Rightarrow> []) (top_level_entities s))"

definition reseed_members :: "'d graph_section \<Rightarrow> 'd worker_graph_io \<Rightarrow> 'd worker_graph_io" where
  "reseed_members s = fold reseed_streaming (member_nodes s)"

definition cache_uuids :: "(string, 'd tensor_info list) dict \<Rightarrow> nat list" where
  "cache_uuids d = concat (map (map ti_uuid \<circ> snd) d)"

definition uncache_outputs :: "string \<Rightarrow> 'd worker_graph_io \<Rightarrow> 'd worker_graph_io" where
  "uncache_outputs l w = (case wg_loops w l of None \<Rightarrow> w | Some ls \<Rightarrow>
     upd_loop l (\<lambda>ls. ls\<lparr>ls_cached := []\<rparr>) (tm_call (DereferenceBatch (cache_uuids (ls_cached ls))) w))"

definition uncache_accumulated :: "string \<Rightarrow> 'd worker_graph_io \<Rightarrow> 'd worker_graph_io" where
  "uncache_accumulated l w = (case wg_loops w l of None \<Rightarrow> w | Some ls \<Rightarrow>
     upd_loop l (\<lambda>ls. ls\<lparr>ls_acc_cache := []\<rparr>) (tm_call (DereferenceBatch (cache_uuids (ls_acc_cache ls))) w))"

definition reset_metadata :: "string \<Rightarrow> 'd worker_graph_io \<Rightarrow> 'd worker_graph_io" where
  "reset_metadata l = upd_loop l (\<lambda>ls. ls\<lparr>ls_ext_inputs := [], ls_ext_names := {}, ls_iter := 0,
     ls_finish := False, ls_done := False\<rparr>)"

definition fresh_count :: "string \<Rightarrow> 'd worker_graph_io \<Rightarrow> 'd worker_graph_io" where
  "fresh_count l = upd_loop l (\<lambda>ls. ls\<lparr>ls_registry := fresh_registry\<rparr>)"

text \<open>\<open>reset_for_outer_iter\<close> of every entity a section manages, a loop's inner registry first.\<close>

fun reset_members :: "'d graph_section \<Rightarrow> 'd worker_graph_io \<Rightarrow> 'd worker_graph_io" where
  "reset_members (NodeSec n) w = reset_node (nd_name n) w"
| "reset_members (SeqSec ss) w = fold reset_members ss w"
| "reset_members (ParSec ss) w = fold reset_members ss w"
| "reset_members (LoopSec l s) w =
     reset_metadata (ld_name l) (reseed_members s (reset_members s (fresh_count (ld_name l) w)))"

fun clear_members :: "'d graph_section \<Rightarrow> 'd worker_graph_io \<Rightarrow> 'd worker_graph_io" where
  "clear_members (NodeSec n) w = clear_node (nd_name n) w"
| "clear_members (SeqSec ss) w = fold clear_members ss w"
| "clear_members (ParSec ss) w = fold clear_members ss w"
| "clear_members (LoopSec l s) w = uncache_accumulated (ld_name l) (reset_metadata (ld_name l)
     (reseed_members s (clear_members s (fresh_count (ld_name l) w))))"

text \<open>\<open>inner_registry.reset_for_iter\<close> and \<open>.clear\<close> of a loop.\<close>

definition reset_inner :: "string \<Rightarrow> 'd graph_section \<Rightarrow> 'd worker_graph_io \<Rightarrow> 'd worker_graph_io" where
  "reset_inner l s w = reseed_members s (reset_members s (fresh_count l w))"

definition clear_inner :: "string \<Rightarrow> 'd graph_section \<Rightarrow> 'd worker_graph_io \<Rightarrow> 'd worker_graph_io" where
  "clear_inner l s w = reseed_members s (clear_members s (fresh_count l w))"

text \<open>The root registry's, which no loop drives.\<close>

definition root_reset_for_iter :: "'d worker_graph_io \<Rightarrow> 'd worker_graph_io" where
  "root_reset_for_iter w = upd_root (\<lambda>r. r\<lparr>rr_ready := rr_next r, rr_next := {},
       rr_streaming := rr_streaming_next r, rr_streaming_next := rr_only_streaming r\<rparr>)
     (reset_members (wg_graph w) (upd_root (\<lambda>r. r\<lparr>rr_registry := fresh_registry\<rparr>) w))"

definition clear_graph :: "'d worker_graph_io \<Rightarrow> 'd worker_graph_io" where
  "clear_graph w = upd_root (\<lambda>r. r\<lparr>rr_ready := {}, rr_streaming := rr_only_streaming r, rr_next := {},
       rr_streaming_next := rr_only_streaming r\<rparr>)
     (clear_members (wg_graph w) (upd_root (\<lambda>r. r\<lparr>rr_registry := fresh_registry\<rparr>) w))"

end
