(* ===== verification/Worker_Tables.thy ===== *)
theory Worker_Tables imports MStar_Prelude begin

text \<open>
  Small tables the workers key their state by: \<open>RidTable\<close> (\<open>mstar/worker/rid_table.py\<close>),
  the recycled integer handles of request ids; \<open>RecentSet\<close> and \<open>ParallelList\<close>
  (\<open>mstar/utils/containers.py\<close>); and \<open>NestedLoopIndices\<close>
  (\<open>mstar/graph/loop_indices.py\<close>), the order the conductor compares loop stops by.
\<close>

section \<open>Request handles\<close>

text \<open>The free list is a stack; \<open>request_id\<close> is any type of wire names.\<close>

record 'r rid_table =
  rt_names :: "'r option list"
  rt_handles :: "('r, nat) dict"
  rt_free :: "nat list"

definition new_rid_table :: "'r rid_table" where
  "new_rid_table = \<lparr>rt_names = [], rt_handles = [], rt_free = []\<rparr>"

definition intern :: "'r \<Rightarrow> 'r rid_table \<Rightarrow> (nat \<times> 'r rid_table) res" where
  "intern r t = (case map_of (rt_handles t) r of Some h \<Rightarrow> Inr (h, t) | None \<Rightarrow>
     rbind (if rt_free t \<noteq> [] then
         rbind (set_at (rt_names t) (last (rt_free t)) (Some r)) (\<lambda>names.
           Inr (last (rt_free t), names, butlast (rt_free t)))
       else Inr (length (rt_names t), rt_names t @ [Some r], rt_free t))
     (\<lambda>(h, names, free). Inr (h, t\<lparr>rt_names := names, rt_handles := dict_set r h (rt_handles t),
       rt_free := free\<rparr>)))"

definition handle :: "'r \<Rightarrow> 'r rid_table \<Rightarrow> nat option" where
  "handle r t = map_of (rt_handles t) r"

definition slot :: "nat \<Rightarrow> 'r rid_table \<Rightarrow> 'r option" where
  "slot h t = (if h < length (rt_names t) then rt_names t ! h else None)"

definition name :: "nat \<Rightarrow> 'r rid_table \<Rightarrow> 'r res" where
  "name h t = (case slot h t of None \<Rightarrow> Inl KeyError | Some r \<Rightarrow> Inr r)"

definition release_handle :: "nat \<Rightarrow> 'r rid_table \<Rightarrow> 'r rid_table res" where
  "release_handle h t = (case slot h t of None \<Rightarrow> Inr t
     | Some r \<Rightarrow> rbind (set_at (rt_names t) h None) (\<lambda>names.
         if map_of (rt_handles t) r = None then Inl KeyError
         else Inr (t\<lparr>rt_names := names, rt_handles := dict_del r (rt_handles t), rt_free := rt_free t @ [h]\<rparr>)))"

definition num_live :: "'r rid_table \<Rightarrow> nat" where
  "num_live t = length (rt_handles t)"

text \<open>Handles and names are each other's inverses, and the free list holds the unnamed slots once.\<close>

definition rid_ok :: "'r rid_table \<Rightarrow> bool" where
  "rid_ok t \<longleftrightarrow> distinct (map fst (rt_handles t)) \<and>
     (\<forall>r h. handle r t = Some h \<longleftrightarrow> slot h t = Some r) \<and>
     distinct (rt_free t) \<and> (\<forall>h. h \<in> set (rt_free t) \<longleftrightarrow> h < length (rt_names t) \<and> rt_names t ! h = None)"

lemma rid_ok_new: "rid_ok new_rid_table"
  by (simp add: rid_ok_def new_rid_table_def handle_def slot_def)

lemma rid_okD:
  assumes "rid_ok t"
  shows "distinct (map fst (rt_handles t))" "handle r t = Some h \<longleftrightarrow> slot h t = Some r"
    "distinct (rt_free t)" "h \<in> set (rt_free t) \<longleftrightarrow> h < length (rt_names t) \<and> rt_names t ! h = None"
  using assms by (simp_all add: rid_ok_def)

text \<open>
  \<open>intern\<close> never fails: a known request keeps its handle, a new one gets a handle no live
  request has, and the other requests' handles stay.
\<close>

lemma intern_ok:
  assumes "rid_ok t"
  obtains h t' where "intern r t = Inr (h, t')" "rid_ok t'" "handle r t' = Some h"
    "handle r t = None \<Longrightarrow> slot h t = None"
    "\<And>r'. r' \<noteq> r \<Longrightarrow> handle r' t' = handle r' t" "handle r t \<noteq> None \<Longrightarrow> t' = t"
proof (cases "handle r t")
  case (Some h)
  with assms that [of h t] show ?thesis by (simp add: intern_def handle_def)
next
  case None
  note T = rid_okD [OF assms]
  let ?h = "if rt_free t \<noteq> [] then last (rt_free t) else length (rt_names t)"
  let ?names = "if rt_free t \<noteq> [] then (rt_names t)[last (rt_free t) := Some r] else rt_names t @ [Some r]"
  let ?t = "t\<lparr>rt_names := ?names, rt_handles := dict_set r ?h (rt_handles t),
      rt_free := (if rt_free t \<noteq> [] then butlast (rt_free t) else [])\<rparr>"
  have last: "last (rt_free t) < length (rt_names t)" "rt_names t ! last (rt_free t) = None"
    if "rt_free t \<noteq> []" using T(4) [of "last (rt_free t)"] that by auto
  have run: "intern r t = Inr (?h, ?t)"
    using None last by (auto simp: intern_def handle_def)
  have sl: "slot h ?t = (if h = ?h then Some r else slot h t)" for h
    using last by (auto simp: slot_def nth_append nth_list_update)
  have none: "slot ?h t = None" using last by (auto simp: slot_def)
  have free: "set (butlast (rt_free t)) = set (rt_free t) - {last (rt_free t)}" if "rt_free t \<noteq> []"
  proof -
    have "rt_free t = butlast (rt_free t) @ [last (rt_free t)]" using that by simp
    then have "distinct (butlast (rt_free t) @ [last (rt_free t)])"
      "set (rt_free t) = set (butlast (rt_free t) @ [last (rt_free t)])" using T(3) by metis+
    then show ?thesis by auto
  qed
  have "rid_ok ?t"
    unfolding rid_ok_def
  proof (intro conjI allI)
    show "distinct (map fst (rt_handles ?t))" using T(1) by simp
    show "handle r' ?t = Some h \<longleftrightarrow> slot h ?t = Some r'" for r' h
      using T(2) [of r' h] T(2) [of r' ?h] T(2) [of r h] None none sl [of h]
      by (auto simp: handle_def split: if_splits)
    show "distinct (rt_free ?t)" using T(3) by (simp add: distinct_butlast)
    show "h \<in> set (rt_free ?t) \<longleftrightarrow> h < length (rt_names ?t) \<and> rt_names ?t ! h = None" for h
      using T(4) [of h] free last by (auto simp: nth_append nth_list_update split: if_splits)
  qed
  with run none None that [of ?h ?t] show ?thesis by (simp add: handle_def)
qed

text \<open>\<open>release\<close> forgets exactly the request that held the handle; an unknown handle is a no-op.\<close>

lemma release_handle_ok:
  assumes "rid_ok t"
  obtains t' where "release_handle h t = Inr t'" "rid_ok t'" "slot h t' = None"
    "\<And>r'. handle r' t' = (if slot h t = Some r' then None else handle r' t)"
proof (cases "slot h t")
  case None
  with assms that [of t] show ?thesis by (simp add: release_handle_def)
next
  case (Some r)
  note T = rid_okD [OF assms]
  have h: "h < length (rt_names t)" "rt_names t ! h = Some r" using Some by (auto simp: slot_def split: if_splits)
  have r: "map_of (rt_handles t) r = Some h" using T(2) [of r h] Some by (simp add: handle_def)
  let ?t = "t\<lparr>rt_names := (rt_names t)[h := None], rt_handles := dict_del r (rt_handles t), rt_free := rt_free t @ [h]\<rparr>"
  have run: "release_handle h t = Inr ?t" using Some h r by (simp add: release_handle_def)
  have sl: "slot g ?t = (if g = h then None else slot g t)" for g
    using h by (auto simp: slot_def nth_list_update)
  have "rid_ok ?t"
    unfolding rid_ok_def
  proof (intro conjI allI)
    show "distinct (map fst (rt_handles ?t))" using T(1) by simp
    show "handle r' ?t = Some g \<longleftrightarrow> slot g ?t = Some r'" for r' g
      using T(2) [of r' g] T(2) [of r h] T(2) [of r g] T(2) [of r' h] Some sl [of g] by (auto simp: handle_def)
    show "distinct (rt_free ?t)" using T(3) T(4) [of h] h by simp
    show "g \<in> set (rt_free ?t) \<longleftrightarrow> g < length (rt_names ?t) \<and> rt_names ?t ! g = None" for g
      using T(4) [of g] h by (auto simp: nth_list_update)
  qed
  with run sl Some that [of ?t] show ?thesis by (auto simp: handle_def)
qed

section \<open>Recently added items\<close>

record 'a recent_set =
  rs_maxlen :: int
  rs_items :: "'a set"
  rs_order :: "'a list"

definition new_recent_set :: "int \<Rightarrow> 'a recent_set res" where
  "new_recent_set n = (if n < 1 then Inl ValueError
     else Inr \<lparr>rs_maxlen = n, rs_items = {}, rs_order = []\<rparr>)"

definition rs_add :: "'a \<Rightarrow> 'a recent_set \<Rightarrow> 'a recent_set" where
  "rs_add x s = (if x \<in> rs_items s then s else
     let items = insert x (rs_items s); order = rs_order s @ [x] in
     if int (length order) > rs_maxlen s
     then s\<lparr>rs_items := items - {hd order}, rs_order := tl order\<rparr>
     else s\<lparr>rs_items := items, rs_order := order\<rparr>)"

definition rs_contains :: "'a \<Rightarrow> 'a recent_set \<Rightarrow> bool" where
  "rs_contains x s \<longleftrightarrow> x \<in> rs_items s"

definition rs_len :: "'a recent_set \<Rightarrow> nat" where
  "rs_len s = card (rs_items s)"

definition rs_iter :: "'a recent_set \<Rightarrow> 'a list" where
  "rs_iter s = rs_order s"

definition recent_ok :: "'a recent_set \<Rightarrow> bool" where
  "recent_ok s \<longleftrightarrow> 1 \<le> rs_maxlen s \<and> distinct (rs_order s) \<and> rs_items s = set (rs_order s) \<and>
     int (length (rs_order s)) \<le> rs_maxlen s"

lemma recent_ok_new: "new_recent_set n = Inr s \<Longrightarrow> recent_ok s"
  by (auto simp: new_recent_set_def recent_ok_def split: if_splits)

lemma rs_add_ok:
  assumes "recent_ok s"
  shows "recent_ok (rs_add x s)"
proof (cases "x \<in> rs_items s")
  case False
  show ?thesis
  proof (cases "rs_order s")
    case Nil
    with assms False show ?thesis by (simp add: rs_add_def recent_ok_def Let_def)
  next
    case (Cons y ys)
    with assms False show ?thesis by (auto simp: rs_add_def recent_ok_def Let_def)
  qed
qed (use assms in \<open>simp add: rs_add_def\<close>)

text \<open>
  The specification: of the items added, those added while absent, in order, and of these the
  last \<open>maxlen\<close>.
\<close>

fun recent_spec :: "nat \<Rightarrow> 'a list \<Rightarrow> 'a list \<Rightarrow> 'a list" where
  "recent_spec n acc [] = acc"
| "recent_spec n acc (x # xs) = recent_spec n
     (if x \<in> set acc then acc else drop (Suc (length acc) - n) (acc @ [x])) xs"

lemma rs_add_order:
  assumes "recent_ok s"
  shows "rs_order (rs_add x s) = (if x \<in> set (rs_order s) then rs_order s
      else drop (Suc (length (rs_order s)) - nat (rs_maxlen s)) (rs_order s @ [x]))"
    and "rs_maxlen (rs_add x s) = rs_maxlen s"
proof -
  have le: "length (rs_order s) \<le> nat (rs_maxlen s)" "1 \<le> rs_maxlen s"
    using assms unfolding recent_ok_def by linarith+
  show "rs_order (rs_add x s) = (if x \<in> set (rs_order s) then rs_order s
      else drop (Suc (length (rs_order s)) - nat (rs_maxlen s)) (rs_order s @ [x]))"
  proof (cases "int (length (rs_order s @ [x])) > rs_maxlen s")
    case True
    with le have "Suc (length (rs_order s)) - nat (rs_maxlen s) = 1" by simp
    moreover have "rs_order s \<noteq> []" using True le(2) by auto
    ultimately show ?thesis using True assms by (simp add: rs_add_def recent_ok_def Let_def drop_Suc)
  next
    case False
    with le have "Suc (length (rs_order s)) - nat (rs_maxlen s) = 0" by simp
    with False assms show ?thesis by (simp add: rs_add_def recent_ok_def Let_def)
  qed
  show "rs_maxlen (rs_add x s) = rs_maxlen s" by (simp add: rs_add_def Let_def)
qed

lemma fold_rs_add:
  assumes "recent_ok s"
  shows "rs_order (fold rs_add xs s) = recent_spec (nat (rs_maxlen s)) (rs_order s) xs \<and>
    recent_ok (fold rs_add xs s)"
  using assms
proof (induction xs arbitrary: s)
  case (Cons x xs)
  from Cons.IH [OF rs_add_ok [OF Cons.prems, of x]] show ?case
    by (simp add: rs_add_order [OF Cons.prems])
qed simp

section \<open>Parallel lists\<close>

record ('k, 'v) parallel_list =
  pl_keys :: "'k list"
  pl_values :: "'v list"

definition pl_len :: "('k, 'v) parallel_list \<Rightarrow> nat" where
  "pl_len p = length (pl_keys p)"

text \<open>\<open>zip(..., strict=True)\<close> raises on lists of two lengths.\<close>

definition pl_iter :: "('k, 'v) parallel_list \<Rightarrow> ('k \<times> 'v) list res" where
  "pl_iter p = (if length (pl_keys p) = length (pl_values p) then Inr (zip (pl_keys p) (pl_values p))
     else Inl ValueError)"

definition pl_from_dict :: "('k, 'v) dict \<Rightarrow> ('k, 'v) parallel_list" where
  "pl_from_dict d = \<lparr>pl_keys = map fst d, pl_values = map (\<lambda>k. the (map_of d k)) (map fst d)\<rparr>"

lemma pl_from_dict_iter:
  assumes "distinct (map fst d)"
  shows "pl_iter (pl_from_dict d) = Inr d"
proof -
  have "map (\<lambda>k. the (map_of d k)) (map fst d) = map snd d"
    using assms by (auto simp: map_of_eq_Some_iff intro!: map_cong)
  then have "pl_values (pl_from_dict d) = map snd d" "pl_keys (pl_from_dict d) = map fst d"
    by (simp_all add: pl_from_dict_def)
  then show ?thesis by (simp add: pl_iter_def zip_map_fst_snd)
qed

section \<open>Loop positions\<close>

record loop_indices =
  li_order :: "string list"
  li_indices :: "(string, int) dict"
  li_pass :: int

definition loop_at :: "loop_indices \<Rightarrow> string \<Rightarrow> int" where
  "loop_at l n = (case map_of (li_indices l) n of None \<Rightarrow> 0 | Some i \<Rightarrow> i)"

fun compare_loops :: "string list \<Rightarrow> string option \<Rightarrow> loop_indices \<Rightarrow> loop_indices \<Rightarrow> bool" where
  "compare_loops [] target ours theirs = False"
| "compare_loops (n # ns) target ours theirs =
     (if target = Some n then False
      else if loop_at ours n > loop_at theirs n then True
      else if loop_at ours n < loop_at theirs n then False
      else compare_loops ns target ours theirs)"

definition label_context_gt :: "loop_indices \<Rightarrow> loop_indices option \<Rightarrow> string option \<Rightarrow> bool" where
  "label_context_gt ours other target = (case other of None \<Rightarrow> True | Some theirs \<Rightarrow>
     if li_pass ours > li_pass theirs then True
     else if li_pass ours < li_pass theirs then False
     else compare_loops (li_order ours) target ours theirs)"

section \<open>What newer means\<close>

text \<open>
  The specification the loop stands for: a snapshot's position is its pass followed by its
  iteration of each loop, outermost first, a loop it has no entry for being in its first
  iteration. Positions are compared lexicographically.
\<close>

definition iteration_of :: "loop_indices \<Rightarrow> string \<Rightarrow> int" where
  "iteration_of l n = (if n \<in> fst ` set (li_indices l) then the (map_of (li_indices l) n) else 0)"

definition loop_position :: "string list \<Rightarrow> loop_indices \<Rightarrow> int list" where
  "loop_position ns l = li_pass l # map (iteration_of l) ns"

definition earlier :: "int list \<Rightarrow> int list \<Rightarrow> bool" where
  "earlier p q \<longleftrightarrow> (p, q) \<in> lexord {(i, j). i < j}"

lemma loop_at_iteration: "loop_at l n = iteration_of l n"
  by (auto simp: loop_at_def iteration_of_def map_of_eq_None_iff split: option.splits dest: map_of_SomeD intro: rev_image_eqI)

lemma compare_loops_earlier:
  "compare_loops ns t a b \<longleftrightarrow> (let ns = takeWhile (\<lambda>n. t \<noteq> Some n) ns in
    earlier (map (iteration_of b) ns) (map (iteration_of a) ns))"
  by (induction ns) (auto simp: Let_def loop_at_iteration earlier_def)

lemma earlier_irrefl: "\<not> earlier p p"
  unfolding earlier_def by (rule lexord_irreflexive) simp

lemma earlier_trans: "earlier p q \<Longrightarrow> earlier q r \<Longrightarrow> earlier p r"
  unfolding earlier_def by (rule lexord_trans) (auto simp: trans_def)

lemma earlier_total: "earlier p q \<or> p = q \<or> earlier q p"
  unfolding earlier_def by (rule lexord_linear) auto

end
