(* ===== verification/Graph_IO.thy ===== *)
theory Graph_IO imports Graph_State Worker_Tables begin

text \<open>
  The operations of a running model graph: an edge arriving at a node, an entity completing and
  the cascade over the loops it ends, speculation, and what the worker asks of a graph
  (\<open>mstar/graph/base.py\<close>, \<open>mstar/graph/graph_io.py\<close>).
\<close>

section \<open>An edge arrives\<close>

definition loop_nodes :: "'d loop_state \<Rightarrow> string \<Rightarrow> 'd node_decl option" where
  "loop_nodes ls x = List.find (\<lambda>n. nd_name n = x) (get_nodes (ls_section ls))"

definition is_streamed_input :: "'d loop_state \<Rightarrow> 'd graph_edge \<Rightarrow> bool" where
  "is_streamed_input ls e = (case loop_nodes ls (ge_next_node e) of None \<Rightarrow> False
     | Some n \<Rightarrow> ge_name e \<in> nd_streaming n)"

definition saves_input :: "'d loop_state \<Rightarrow> 'd graph_edge \<Rightarrow> bool" where
  "saves_input ls e \<longleftrightarrow> pair_of e \<in> ls_external ls \<and> ge_name e \<notin> ls_ext_names ls \<and> \<not> is_streamed_input ls e"

text \<open>One loop's \<open>ingest_external_input\<close>; the edge it saves is marked, and that is the edge the
  enclosing loops and the node's slot hold too.\<close>

definition ingest_external :: "string \<Rightarrow> 'd graph_edge \<times> 'd worker_graph_io \<Rightarrow> 'd graph_edge \<times> 'd worker_graph_io" where
  "ingest_external l = (\<lambda>(e, w). case wg_loops w l of None \<Rightarrow> (e, w) | Some ls \<Rightarrow>
     if saves_input ls e then (let e = e\<lparr>ge_persist_for_loop := True\<rparr> in
       (e, upd_loop l (\<lambda>ls. ls\<lparr>ls_ext_inputs := ls_ext_inputs ls @ [e],
          ls_ext_names := insert (ge_name e) (ls_ext_names ls)\<rparr>) w))
     else (e, w))"

text \<open>The root's \<open>register_ingested_input\<close>.\<close>

definition root_register :: "'d node_state \<Rightarrow> root_registry \<Rightarrow> root_registry" where
  "root_register ns r = (let
     x = nd_name (ns_decl ns);
     r = (if sl_ready (ns_ready ns)
          then r\<lparr>rr_ready := (if ns_in_flight ns then rr_ready r else insert x (rr_ready r)),
                 rr_streaming := rr_streaming r - {x}\<rparr>
          else if sl_stream_ready (ns_ready ns) \<and> \<not> ns_in_flight ns
          then r\<lparr>rr_streaming := insert x (rr_streaming r)\<rparr> else r)
   in if sl_ready (ns_next ns)
      then r\<lparr>rr_next := (if ns_in_flight ns then rr_next r else insert x (rr_next r)),
             rr_streaming_next := rr_streaming_next r - {x}\<rparr>
      else if sl_stream_ready (ns_next ns) \<and> \<not> ns_in_flight ns
      then r\<lparr>rr_streaming_next := insert x (rr_streaming_next r)\<rparr> else r)"

definition slot_mark :: "'d graph_edge \<Rightarrow> 'd ready_signals \<Rightarrow> 'd ready_signals" where
  "slot_mark e sl = sl\<lparr>sl_inputs := dict_set (ge_name e) e (sl_inputs sl)\<rparr>"

text \<open>The edge, in the slot \<open>put\<close> writes, reaches the loops around the node and the root.\<close>

definition register_ingested :: "(('d ready_signals \<Rightarrow> 'd ready_signals) \<Rightarrow> 'd node_state \<Rightarrow> 'd node_state) \<Rightarrow>
    string \<Rightarrow> string list \<Rightarrow> 'd graph_edge \<Rightarrow> 'd worker_graph_io \<Rightarrow> 'd worker_graph_io" where
  "register_ingested on_slot x chain e w = (let
     (e, w) = fold ingest_external chain (e, w);
     w = upd_node x (on_slot (slot_mark e)) w
   in case wg_nodes w x of None \<Rightarrow> w | Some ns \<Rightarrow> upd_root (root_register ns) w)"

definition on_ready :: "('d ready_signals \<Rightarrow> 'd ready_signals) \<Rightarrow> 'd node_state \<Rightarrow> 'd node_state" where
  "on_ready f ns = ns\<lparr>ns_ready := f (ns_ready ns)\<rparr>"

definition on_next :: "('d ready_signals \<Rightarrow> 'd ready_signals) \<Rightarrow> 'd node_state \<Rightarrow> 'd node_state" where
  "on_next f ns = ns\<lparr>ns_next := f (ns_next ns)\<rparr>"

definition chain_of :: "string \<Rightarrow> 'd worker_graph_io \<Rightarrow> string list" where
  "chain_of x w = (case enclosing x (wg_graph w) of None \<Rightarrow> [] | Some ls \<Rightarrow> ls)"

text \<open>\<open>GraphNode.ingest_input\<close>\<close>

definition node_ingest :: "'d node_state \<Rightarrow> 'd graph_edge \<Rightarrow> bool \<Rightarrow> 'd worker_graph_io \<Rightarrow> (bool \<times> 'd worker_graph_io) res" where
  "node_ingest ns e can_buffer w = (let n = ns_decl ns; x = nd_name n; chain = chain_of x w in
     if ge_next_node e \<noteq> x then Inr (False, w)
     else if ge_name e \<notin> nd_inputs n then Inr (False, w)
     else if ge_name e \<notin> sl_names (ns_ready ns) then rbind (slot_update n e (ns_ready ns)) (\<lambda>sl.
       Inr (True, register_ingested on_ready x chain e (upd_node x (\<lambda>ns. ns\<lparr>ns_ready := sl\<rparr>) w)))
     else if can_buffer \<and> ge_name e \<notin> sl_names (ns_next ns) then rbind (slot_update n e (ns_next ns)) (\<lambda>sl.
       Inr (True, register_ingested on_next x chain e (upd_node x (\<lambda>ns. ns\<lparr>ns_next := sl\<rparr>) w)))
     else Inr (False, w))"

definition ingest_input :: "'d graph_edge \<Rightarrow> bool \<Rightarrow> 'd worker_graph_io \<Rightarrow> (bool \<times> 'd worker_graph_io) res" where
  "ingest_input e can_buffer w = (case wg_nodes w (ge_next_node e) of
     None \<Rightarrow> Inr (False, w) | Some ns \<Rightarrow> node_ingest ns e can_buffer w)"

section \<open>An entity completes\<close>

record 'd completion =
  co_edges :: "'d graph_edge list"
  co_filtered :: "name_dest set"
  co_refs :: "nat list"

definition managed :: "'d graph_section \<Rightarrow> string \<Rightarrow> 'd graph_section option" where
  "managed s x = List.find (\<lambda>e. entity_name e = x) (top_level_entities s)"

definition entity_outputs :: "'d graph_section \<Rightarrow> 'd worker_graph_io \<Rightarrow> 'd graph_edge list" where
  "entity_outputs e w = (case e of
     NodeSec n \<Rightarrow> (case wg_nodes w (nd_name n) of None \<Rightarrow> [] | Some ns \<Rightarrow> ns_outputs ns)
   | LoopSec l s \<Rightarrow> (case wg_loops w (ld_name l) of None \<Rightarrow> [] | Some ls \<Rightarrow> ls_outputs ls)
   | _ \<Rightarrow> [])"

text \<open>\<open>GraphStateRegistry.mark_entity_complete\<close>: the count stops once the registry is done.\<close>

definition count_entity :: "nat \<Rightarrow> registry \<Rightarrow> registry" where
  "count_entity n r = (if rg_done r then r
     else \<lparr>rg_done = (Suc (rg_completed r) = n), rg_completed = Suc (rg_completed r)\<rparr>)"

definition root_complete :: "string \<Rightarrow> 'd worker_graph_io \<Rightarrow> ('d completion \<times> 'd worker_graph_io) res" where
  "root_complete x w = (case managed (wg_graph w) x of None \<Rightarrow> Inl KeyError | Some e \<Rightarrow> (let
     w = upd_root (\<lambda>r. r\<lparr>rr_registry := count_entity (length (top_level_entities (wg_graph w))) (rr_registry r)\<rparr>) w;
     out = entity_outputs e w;
     w = (case e of NodeSec n \<Rightarrow> reseed_streaming x (clear_ready x w) | _ \<Rightarrow> w)
   in Inr (\<lparr>co_edges = out, co_filtered = {}, co_refs = []\<rparr>, w)))"

definition extend_cache :: "string \<Rightarrow> 'd tensor_info list \<Rightarrow> (string, 'd tensor_info list) dict \<Rightarrow> (string, 'd tensor_info list) dict" where
  "extend_cache k infos d = dict_set k ((case map_of d k of None \<Rightarrow> [] | Some xs \<Rightarrow> xs) @ infos) d"

definition cache_edge :: "'d graph_edge \<Rightarrow> 'd loop_state \<Rightarrow> 'd loop_state option" where
  "cache_edge e ls = (
     if ge_name e \<in> ge_name ` set (ls_outputs ls) then Some (ls\<lparr>ls_cached := extend_cache (ge_name e) (ge_tensor_info e) (ls_cached ls)\<rparr>)
     else if ge_name e \<in> ge_name ` set (ls_accumulated ls) then Some (ls\<lparr>ls_acc_cache := extend_cache (ge_name e) (ge_tensor_info e) (ls_acc_cache ls)\<rparr>)
     else None)"

text \<open>\<open>maybe_cache_output\<close>: the first edge of each name.\<close>

fun cache_outputs :: "string \<Rightarrow> string set \<Rightarrow> 'd graph_edge list \<Rightarrow> 'd worker_graph_io \<Rightarrow> 'd worker_graph_io" where
  "cache_outputs l seen [] w = w"
| "cache_outputs l seen (e # es) w = (
     if ge_name e \<in> seen then cache_outputs l seen es w
     else let w' = (case Option.bind (wg_loops w l) (cache_edge e) of None \<Rightarrow> w
            | Some ls \<Rightarrow> fold (\<lambda>i. tm_call (IncrementRef (ti_uuid i))) (ge_tensor_info e) (upd_loop l (\<lambda>_. ls) w))
       in cache_outputs l (insert (ge_name e) seen) es w')"

definition with_cache :: "(string, 'd tensor_info list) dict \<Rightarrow> 'd graph_edge \<Rightarrow> 'd graph_edge" where
  "with_cache d e = e\<lparr>ge_tensor_info := (case map_of d (ge_name e) of None \<Rightarrow> [] | Some infos \<Rightarrow> infos)\<rparr>"

definition finish_loop :: "string \<Rightarrow> 'd worker_graph_io \<Rightarrow> 'd worker_graph_io" where
  "finish_loop l = upd_loop l (\<lambda>ls. ls\<lparr>ls_outputs := map (with_cache (ls_cached ls)) (ls_outputs ls),
     ls_accumulated := map (with_cache (ls_acc_cache ls)) (ls_accumulated ls), ls_cached := [], ls_acc_cache := []\<rparr>)"

text \<open>\<open>Loop.complete_iter\<close>; \<open>cascade\<close> is the managing registry's \<open>mark_entity_complete\<close>.\<close>

definition complete_iter :: "('d worker_graph_io \<Rightarrow> ('d completion \<times> 'd worker_graph_io) res) \<Rightarrow> string \<Rightarrow> int \<Rightarrow>
    'd worker_graph_io \<Rightarrow> ('d completion \<times> 'd worker_graph_io) res" where
  "complete_iter cascade l stride w = (case wg_loops w l of None \<Rightarrow> Inl KeyError | Some ls \<Rightarrow>
     if ls_iter ls + stride \<ge> ls_max_iters ls \<or> ls_finish ls then (let
         w = clear_inner l (ls_section ls) (upd_loop l (\<lambda>ls. ls\<lparr>ls_done := True\<rparr>) w)
       in case wg_loops w l of None \<Rightarrow> Inl KeyError | Some ls \<Rightarrow> rbind (cascade (finish_loop l w)) (\<lambda>(up, w). Inr
         (\<lparr>co_edges = co_edges up @ map (with_cache (ls_acc_cache ls)) (ls_accumulated ls),
           co_filtered = ls_loop_back ls \<union> co_filtered up,
           co_refs = (cache_uuids (ls_cached ls) @ cache_uuids (ls_acc_cache ls)) @ co_refs up\<rparr>, w)))
     else Inr (\<lparr>co_edges = ls_ext_inputs ls, co_filtered = {}, co_refs = []\<rparr>,
       uncache_outputs l (reset_inner l (ls_section ls) (upd_loop l (\<lambda>ls. ls\<lparr>ls_iter := ls_iter ls + stride\<rparr>) w))))"

text \<open>\<open>mark_entity_complete\<close> of the registry of the first loop of the chain, or of the root.\<close>

fun mark_complete :: "string list \<Rightarrow> string \<Rightarrow> int \<Rightarrow> 'd worker_graph_io \<Rightarrow> ('d completion \<times> 'd worker_graph_io) res" where
  "mark_complete [] x stride w = root_complete x w"
| "mark_complete (l # chain) x stride w = (case wg_loops w l of None \<Rightarrow> Inl KeyError | Some ls \<Rightarrow>
     (case managed (ls_section ls) x of None \<Rightarrow> Inl KeyError | Some e \<Rightarrow> (let
        w = upd_loop l (\<lambda>ls. ls\<lparr>ls_registry := count_entity (length (top_level_entities (ls_section ls))) (ls_registry ls)\<rparr>) w;
        out = entity_outputs e w;
        w = cache_outputs l {} out w
      in if \<not> rg_done (count_entity (length (top_level_entities (ls_section ls))) (ls_registry ls))
         then Inr (\<lparr>co_edges = out, co_filtered = {}, co_refs = []\<rparr>, w)
         else rbind (complete_iter (mark_complete chain l 1) l stride w) (\<lambda>(up, w). Inr
           (\<lparr>co_edges = filter (\<lambda>e. pair_of e \<notin> co_filtered up) out @ co_edges up,
             co_filtered = co_filtered up, co_refs = co_refs up\<rparr>, w)))))"

definition mark_node_complete :: "string \<Rightarrow> int \<Rightarrow> 'd worker_graph_io \<Rightarrow> ('d completion \<times> 'd worker_graph_io) res" where
  "mark_node_complete x stride w = (if wg_nodes w x = None then Inl KeyError
     else rbind (mark_complete (chain_of x w) x stride w) (\<lambda>(out, w').
       Inr (out\<lparr>co_edges := filter (\<lambda>e. pair_of e \<notin> co_filtered out) (co_edges out)\<rparr>,
         if rg_done (rr_registry (wg_root w')) \<and> \<not> rg_done (rr_registry (wg_root w))
         then w'\<lparr>wg_runs := wg_runs w' + 1\<rparr> else w')))"

section \<open>Speculation\<close>

definition persisted_input_names :: "'d node_state \<Rightarrow> string set" where
  "persisted_input_names ns = fst ` {p \<in> set (sl_inputs (ns_ready ns)). ge_persist_for_loop (snd p)}"

definition is_ready_for_speculation :: "'d node_state \<Rightarrow> bool \<Rightarrow> bool \<Rightarrow> bool" where
  "is_ready_for_speculation ns check_next_iter allow_streaming = (let
     needed = nd_inputs (ns_decl ns) - (if allow_streaming then nd_streaming (ns_decl ns) else {})
   in if check_next_iter then needed \<subseteq> sl_names (ns_next ns) \<union> sl_names (ns_spec ns) \<union> persisted_input_names ns
      else needed \<subseteq> sl_names (ns_ready ns) \<union> sl_names (ns_spec ns))"

record speculative_info =
  si_node :: string
  si_new_iter :: bool
  si_loop :: "string option"

definition list_add :: "'a \<Rightarrow> 'a list \<Rightarrow> 'a list" where
  "list_add x xs = (if x \<in> set xs then xs else xs @ [x])"

text \<open>\<open>(dest_nodes, next_iter_nodes)\<close> are sets in the code; they are visited here as they filled.\<close>

definition spec_edge :: "name_dest set \<Rightarrow> 'd graph_edge \<Rightarrow> string list \<times> string set \<times> 'd worker_graph_io \<Rightarrow>
    (string list \<times> string set \<times> 'd worker_graph_io) res" where
  "spec_edge loop_back e = (\<lambda>(dest, next_iter, w). case wg_nodes w (ge_next_node e) of
     None \<Rightarrow> Inr (dest, next_iter, w)
   | Some ns \<Rightarrow>
       if ge_name e \<notin> nd_inputs (ns_decl ns) then Inr (dest, next_iter, w)
       else rbind (slot_update (ns_decl ns) e (ns_spec ns)) (\<lambda>sl. let
           x = ge_next_node e; w = upd_node x (\<lambda>ns. ns\<lparr>ns_spec := sl\<rparr>) w
         in Inr (list_add x dest, if pair_of e \<in> loop_back then insert x next_iter else next_iter,
              w\<lparr>wg_spec_nodes := list_add x (wg_spec_nodes w)\<rparr>)))"

definition ingest_for_speculation :: "'d graph_edge list \<Rightarrow> string \<Rightarrow> 'd worker_graph_io \<Rightarrow>
    (speculative_info list \<times> 'd worker_graph_io) res" where
  "ingest_for_speculation edges source w = (if wg_nodes w source = None then Inl KeyError
     else let loop_back = (case chain_of source w of [] \<Rightarrow> {}
            | l # _ \<Rightarrow> (case wg_loops w l of None \<Rightarrow> {} | Some ls \<Rightarrow> ls_loop_back ls))
       in rbind (rfold (spec_edge loop_back) edges ([], {}, w)) (\<lambda>(dest, next_iter, w).
         Inr (concat (map (\<lambda>x. case wg_nodes w x of None \<Rightarrow> [] | Some ns \<Rightarrow>
             if is_ready_for_speculation ns (x = source) True
             then [\<lparr>si_node = x, si_new_iter = (x \<in> next_iter),
                    si_loop = (case chain_of x w of [] \<Rightarrow> None | l # _ \<Rightarrow> Some l)\<rparr>] else []) dest), w)))"

definition clear_speculative_inputs :: "'d worker_graph_io \<Rightarrow> 'd worker_graph_io" where
  "clear_speculative_inputs w = (fold clear_spec (wg_spec_nodes w) w)\<lparr>wg_spec_nodes := []\<rparr>"

section \<open>What the worker asks\<close>

definition register_loop_finish_signal :: "string \<Rightarrow> 'd worker_graph_io \<Rightarrow> 'd worker_graph_io" where
  "register_loop_finish_signal l = upd_loop l (\<lambda>ls. ls\<lparr>ls_finish := True\<rparr>)"

definition node_idle :: "'d node_state \<Rightarrow> bool" where
  "node_idle ns \<longleftrightarrow> \<not> ns_in_flight ns \<and> sl_names (ns_ready ns) = {} \<and> sl_names (ns_next ns) = {} \<and> sl_names (ns_spec ns) = {}"

definition is_idle :: "'d worker_graph_io \<Rightarrow> bool" where
  "is_idle w \<longleftrightarrow> rg_completed (rr_registry (wg_root w)) = 0 \<and>
     list_all (\<lambda>x. case wg_nodes w x of None \<Rightarrow> True | Some ns \<Rightarrow> node_idle ns) (node_names (wg_graph w)) \<and>
     list_all (\<lambda>l. case wg_loops w l of None \<Rightarrow> True | Some ls \<Rightarrow> ls_iter ls = 0 \<and> ls_ext_inputs ls = [])
       (loop_names (wg_graph w))"

definition set_in_flight :: "string \<Rightarrow> bool \<Rightarrow> 'd worker_graph_io \<Rightarrow> 'd worker_graph_io" where
  "set_in_flight x b = upd_node x (\<lambda>ns. ns\<lparr>ns_in_flight := b\<rparr>)"

definition reset_outputs :: "string \<Rightarrow> 'd worker_graph_io \<Rightarrow> 'd worker_graph_io" where
  "reset_outputs x = upd_node x (\<lambda>ns. ns\<lparr>ns_outputs := map (\<lambda>e. e\<lparr>ge_tensor_info := []\<rparr>) (ns_outputs ns)\<rparr>)"

definition get_loop_indices :: "'d worker_graph_io \<Rightarrow> (string, int) dict" where
  "get_loop_indices w = concat (map (\<lambda>l. case wg_loops w l of None \<Rightarrow> [] | Some ls \<Rightarrow> [(l, ls_iter ls)]) (loop_names (wg_graph w)))"

definition get_nested_loop_idxs :: "string \<Rightarrow> 'd worker_graph_io \<Rightarrow> loop_indices res" where
  "get_nested_loop_idxs l w = (if wg_loops w l = None then Inl AssertionError
     else Inr \<lparr>li_order = rev (l # chain_of l w), li_indices = get_loop_indices w,
       li_pass = int (wg_runs w)\<rparr>)"

definition get_nested_loop_idxs_for_node :: "string \<Rightarrow> 'd worker_graph_io \<Rightarrow> loop_indices res" where
  "get_nested_loop_idxs_for_node x w = (if wg_nodes w x = None then Inl AssertionError
     else case chain_of x w of
       [] \<Rightarrow> Inr \<lparr>li_order = [], li_indices = [], li_pass = int (wg_runs w)\<rparr>
     | l # _ \<Rightarrow> get_nested_loop_idxs l w)"

end
