(* ===== verification/Graph_Wiring.thy ===== *)
theory Graph_Wiring imports Graph_IO begin

text \<open>
  How the registries of a running graph hang together. The chain \<open>enclosing\<close> computes leads from
  an entity over the loops that manage it to the root; every operation keeps the wiring, and
  with it no completion of a known node can fail.
\<close>

section \<open>Names\<close>

definition all_names :: "'d graph_section \<Rightarrow> string list" where
  "all_names s = node_names s @ loop_names s"

lemma names_simps [simp]:
  "node_names (NodeSec n) = [nd_name n]" "loop_names (NodeSec n) = []"
  "node_names (SeqSec ss) = concat (map node_names ss)" "loop_names (SeqSec ss) = concat (map loop_names ss)"
  "node_names (ParSec ss) = concat (map node_names ss)" "loop_names (ParSec ss) = concat (map loop_names ss)"
  "node_names (LoopSec l s) = node_names s" "loop_names (LoopSec l s) = loop_names s @ [ld_name l]"
  by (simp_all add: node_names_def [abs_def] loop_names_def [abs_def] map_concat comp_def)

lemma set_all_names:
  "set (all_names (SeqSec ss)) = (\<Union>s \<in> set ss. set (all_names s))"
  "set (all_names (ParSec ss)) = (\<Union>s \<in> set ss. set (all_names s))"
  "set (all_names (LoopSec l s)) = insert (ld_name l) (set (all_names s))"
  by (auto simp: all_names_def)

text \<open>Distinct names stay distinct in a part, and no name is in two parts.\<close>

lemma distinct_parts:
  assumes "distinct (concat (map f ss) @ concat (map g ss))"
  shows "s \<in> set ss \<Longrightarrow> distinct (f s @ g s)"
    and "i < length ss \<Longrightarrow> j < length ss \<Longrightarrow> x \<in> set (f (ss ! i) @ g (ss ! i)) \<Longrightarrow>
      x \<in> set (f (ss ! j) @ g (ss ! j)) \<Longrightarrow> i = j"
proof -
  show "s \<in> set ss \<Longrightarrow> distinct (f s @ g s)" using assms by (induction ss) auto
  assume ij: "i < length ss" "j < length ss" and x: "x \<in> set (f (ss ! i) @ g (ss ! i))" "x \<in> set (f (ss ! j) @ g (ss ! j))"
  show "i = j" using assms ij x
  proof (induction ss arbitrary: i j)
    case (Cons s ss)
    have tail: "distinct (concat (map f ss) @ concat (map g ss))" using Cons.prems(1) by auto
    have sep: "set (f s @ g s) \<inter> set (f t @ g t) = {}" if "t \<in> set ss" for t using Cons.prems(1) that by auto
    show ?case
    proof (cases i)
      case (Suc i')
      note i = this
      show ?thesis
      proof (cases j)
        case (Suc j')
        with i Cons.prems Cons.IH [OF tail, of i' j'] show ?thesis by (simp del: set_append)
      qed (use i Cons.prems sep [of "ss ! i'"] in force)
    next
      case 0
      then show ?thesis using Cons.prems sep [of "ss ! (j - 1)"] by (cases j) force+
    qed
  qed simp
qed

lemma names_ok_parts:
  "names_ok (SeqSec ss) \<Longrightarrow> s \<in> set ss \<Longrightarrow> names_ok s"
  "names_ok (ParSec ss) \<Longrightarrow> s \<in> set ss \<Longrightarrow> names_ok s"
  "names_ok (LoopSec l s) \<Longrightarrow> names_ok s \<and> ld_name l \<notin> set (all_names s)"
  by (auto simp: names_ok_def all_names_def distinct_parts(1) [where f = node_names and g = loop_names, unfolded distinct_append])

lemma enclosing_iff: "enclosing x s \<noteq> None \<longleftrightarrow> x \<in> set (all_names s)"
proof (induction s)
  case (SeqSec ss)
  have "List.find (\<lambda>r. r \<noteq> None) (map (enclosing x) ss) \<noteq> None \<longleftrightarrow> (\<exists>s \<in> set ss. enclosing x s \<noteq> None)"
    by (auto simp: find_None_iff)
  moreover have "List.find (\<lambda>r. r \<noteq> None) (map (enclosing x) ss) = Some r \<Longrightarrow> r \<noteq> None" for r
    by (auto simp: find_Some_iff)
  ultimately show ?case using SeqSec unfolding set_all_names
    by (cases "List.find (\<lambda>r. r \<noteq> None) (map (enclosing x) ss)") auto
next
  case (ParSec ss)
  have "List.find (\<lambda>r. r \<noteq> None) (map (enclosing x) ss) \<noteq> None \<longleftrightarrow> (\<exists>s \<in> set ss. enclosing x s \<noteq> None)"
    by (auto simp: find_None_iff)
  moreover have "List.find (\<lambda>r. r \<noteq> None) (map (enclosing x) ss) = Some r \<Longrightarrow> r \<noteq> None" for r
    by (auto simp: find_Some_iff)
  ultimately show ?case using ParSec unfolding set_all_names
    by (cases "List.find (\<lambda>r. r \<noteq> None) (map (enclosing x) ss)") auto
qed (auto simp: all_names_def)

lemma find_enclosing:
  assumes d: "distinct (concat (map node_names ss) @ concat (map loop_names ss))"
    and s: "s \<in> set ss" "enclosing x s = Some c"
  shows "List.find (\<lambda>r. r \<noteq> None) (map (enclosing x) ss) = Some (Some c)"
proof -
  obtain i where i: "i < length ss" "ss ! i = s" using s(1) by (auto simp: in_set_conv_nth)
  have "j = i" if "j < length ss" "enclosing x (ss ! j) \<noteq> None" for j
    using distinct_parts(2) [OF d that(1) i(1), of x] that(2) i(2) s(2) enclosing_iff [of x] unfolding all_names_def
    by (metis option.distinct(1))
  then have "\<forall>j < i. enclosing x (ss ! j) = None" using i(1) by (metis less_trans nat_neq_iff)
  then show ?thesis using i s(2) by (auto simp: find_Some_iff)
qed

lemma enclosing_part:
  assumes "names_ok (SeqSec ss) \<or> names_ok (ParSec ss)" "s \<in> set ss" "enclosing x s = Some c"
  shows "enclosing x (SeqSec ss) = Some c" "enclosing x (ParSec ss) = Some c"
  using find_enclosing [OF _ assms(2,3)] assms(1) by (auto simp: names_ok_def)

lemma enclosing_in_part:
  assumes "enclosing x (SeqSec ss) = Some c \<or> enclosing x (ParSec ss) = Some c"
  shows "\<exists>s \<in> set ss. enclosing x s = Some c"
  using assms by (auto split: option.splits simp: find_Some_iff intro: bexI [OF _ nth_mem])

section \<open>The chain of registries\<close>

text \<open>What is linked to what: \<open>x\<close> is managed by the first loop of its chain, and that loop's
  chain is the rest.\<close>

definition manages :: "'d graph_section \<Rightarrow> string \<Rightarrow> bool" where
  "manages s x \<longleftrightarrow> x \<in> entity_name ` set (top_level_entities s)"

definition chain_ok :: "'d graph_section \<Rightarrow> string \<Rightarrow> string list \<Rightarrow> bool" where
  "chain_ok g x c \<longleftrightarrow> (case c of [] \<Rightarrow> manages g x
     | l # ls \<Rightarrow> (\<exists>d s. (d, s) \<in> set (get_loops g) \<and> ld_name d = l \<and> manages s x \<and> enclosing l g = Some ls))"

lemma chain_ok_part:
  assumes s: "s \<in> set ss" "chain_ok s x c"
  shows "names_ok (SeqSec ss) \<Longrightarrow> chain_ok (SeqSec ss) x c" "names_ok (ParSec ss) \<Longrightarrow> chain_ok (ParSec ss) x c"
proof -
  have m: "manages (SeqSec ss) x" "manages (ParSec ss) x" if "manages s x" using s(1) that by (auto simp: manages_def)
  have g: "p \<in> set (get_loops (SeqSec ss))" "p \<in> set (get_loops (ParSec ss))" if "p \<in> set (get_loops s)" for p
    using s(1) that by auto
  have part: "enclosing l (SeqSec ss) = Some ls" "enclosing l (ParSec ss) = Some ls"
    if "names_ok (SeqSec ss) \<or> names_ok (ParSec ss)" "enclosing l s = Some ls" for l ls
    using enclosing_part [OF that(1) s(1) that(2)] by simp_all
  show "names_ok (SeqSec ss) \<Longrightarrow> chain_ok (SeqSec ss) x c" "names_ok (ParSec ss) \<Longrightarrow> chain_ok (ParSec ss) x c"
    using s(2) m g part unfolding chain_ok_def by (cases c; simp only: list.case; blast)+
qed

lemma enclosing_chain: "names_ok g \<Longrightarrow> enclosing x g = Some c \<Longrightarrow> chain_ok g x c"
proof (induction g arbitrary: x c)
  case (SeqSec ss)
  from SeqSec.prems(2) obtain s where s: "s \<in> set ss" "enclosing x s = Some c" using enclosing_in_part by blast
  have "chain_ok s x c" using SeqSec.IH s names_ok_parts(1) [OF SeqSec.prems(1)] by blast
  then show ?case using chain_ok_part(1) [OF s(1)] SeqSec.prems(1) by blast
next
  case (ParSec ss)
  from ParSec.prems(2) obtain s where s: "s \<in> set ss" "enclosing x s = Some c" using enclosing_in_part by blast
  have "chain_ok s x c" using ParSec.IH s names_ok_parts(2) [OF ParSec.prems(1)] by blast
  then show ?case using chain_ok_part(2) [OF s(1)] ParSec.prems(1) by blast
next
  case (LoopSec d s)
  note ok = names_ok_parts(3) [OF LoopSec.prems(1)]
  show ?case
  proof (cases "ld_name d = x")
    case True
    with LoopSec.prems(2) show ?thesis by (auto simp: chain_ok_def manages_def)
  next
    case False
    with LoopSec.prems(2) obtain p where p: "enclosing x s = Some p" "c = p @ [ld_name d]" by auto
    have cs: "chain_ok s x p" using LoopSec.IH [OF conjunct1 [OF ok] p(1)] .
    show ?thesis
    proof (cases p)
      case Nil
      with cs p(2) show ?thesis by (auto simp: chain_ok_def)
    next
      case (Cons l ls)
      with cs obtain d' s' where "(d', s') \<in> set (get_loops s)" "ld_name d' = l" "manages s' x" "enclosing l s = Some ls"
        by (auto simp: chain_ok_def)
      moreover from this have "ld_name d \<noteq> l" using ok enclosing_iff [of l s] by auto
      ultimately show ?thesis using p(2) Cons by (auto simp: chain_ok_def)
    qed
  qed
qed (auto simp: chain_ok_def manages_def split: if_splits)

lemma managed_iff: "managed s x \<noteq> None \<longleftrightarrow> manages s x"
  by (auto simp: managed_def manages_def find_None_iff)

end
