(* ===== verification/Graph_Laws.thy ===== *)
theory Graph_Laws imports Graph_Wiring begin

text \<open>
  What the steps a completion is made of have to keep for a law about a running graph to survive
  the whole cascade: the locale \<open>graph_law\<close>. A law may speak of the references handed over so far,
  which only a finishing loop adds to. Its first instance is the wiring itself.
\<close>

locale graph_law =
  fixes law :: "'d worker_graph_io \<Rightarrow> nat multiset \<Rightarrow> bool"
  assumes root: "law w M \<Longrightarrow> law (upd_root f w) M"
    and ready: "law w M \<Longrightarrow> law (clear_ready x w) M"
    and next_slot: "law w M \<Longrightarrow> law (clear_next x w) M"
    and spec: "law w M \<Longrightarrow> law (clear_spec x w) M"
    and reset: "law w M \<Longrightarrow> law (reset_node x w) M"
    and metadata: "law w M \<Longrightarrow> law (reset_metadata l w) M"
    and counted: "law w M \<Longrightarrow> law (upd_loop l (\<lambda>ls. ls\<lparr>ls_registry := r ls\<rparr>) w) M"
    and iterated: "law w M \<Longrightarrow> law (upd_loop l (\<lambda>ls. ls\<lparr>ls_iter := i ls\<rparr>) w) M"
    and finishing: "law w M \<Longrightarrow> law (upd_loop l (\<lambda>ls. ls\<lparr>ls_done := True\<rparr>) w) M"
    and uncached: "law w M \<Longrightarrow> law (uncache_outputs l w) M"
    and uncached_acc: "law w M \<Longrightarrow> law (uncache_accumulated l w) M"
    and cached: "law w M \<Longrightarrow> law (cache_outputs l seen es w) M"
    and finished: "wg_loops w l = Some ls \<Longrightarrow> law w M \<Longrightarrow>
      law (finish_loop l w) (M + mset (cache_uuids (ls_cached ls) @ cache_uuids (ls_acc_cache ls)))"
    and run: "law w M \<Longrightarrow> law (w\<lparr>wg_runs := n\<rparr>) M"
begin

lemma fold_law: "(\<And>x w. x \<in> set xs \<Longrightarrow> law w M \<Longrightarrow> law (f x w) M) \<Longrightarrow> law w M \<Longrightarrow> law (fold f xs w) M"
  by (induction xs arbitrary: w) auto

lemma reseeded: "law w M \<Longrightarrow> law (reseed_members s w) M"
  unfolding reseed_members_def reseed_streaming_def by (rule fold_law) (auto intro: root)

lemma node_cleared: "law w M \<Longrightarrow> law (clear_node x w) M"
  unfolding clear_node_def by (intro spec next_slot ready)

lemma members_reset: "law w M \<Longrightarrow> law (reset_members s w) M"
proof (induction s arbitrary: w)
  case (LoopSec l s)
  show ?case unfolding reset_members.simps fresh_count_def by (intro metadata reseeded LoopSec.IH counted LoopSec.prems)
qed (auto intro: reset fold_law)

lemma members_cleared: "law w M \<Longrightarrow> law (clear_members s w) M"
proof (induction s arbitrary: w)
  case (LoopSec l s)
  show ?case unfolding clear_members.simps fresh_count_def
    by (intro uncached_acc metadata reseeded LoopSec.IH counted LoopSec.prems)
qed (auto intro: node_cleared fold_law)

lemma inner_reset: "law w M \<Longrightarrow> law (reset_inner l s w) M"
  unfolding reset_inner_def fresh_count_def by (intro reseeded members_reset counted)

lemma inner_cleared: "law w M \<Longrightarrow> law (clear_inner l s w) M"
  unfolding clear_inner_def fresh_count_def by (intro reseeded members_cleared counted)

lemma graph_reset: "law w M \<Longrightarrow> law (root_reset_for_iter w) M"
  unfolding root_reset_for_iter_def by (intro root members_reset)

lemma graph_cleared: "law w M \<Longrightarrow> law (clear_graph w) M"
  unfolding clear_graph_def by (intro root members_cleared)

lemma root_completed:
  assumes "root_complete x w = Inr (out, w')" "law w M" shows "law w' (M + mset (co_refs out))"
proof -
  obtain e where e: "out = \<lparr>co_edges = entity_outputs e (upd_root (\<lambda>r. r\<lparr>rr_registry := count_entity
        (length (top_level_entities (wg_graph w))) (rr_registry r)\<rparr>) w), co_filtered = {}, co_refs = []\<rparr>"
      "w' = (case e of NodeSec n \<Rightarrow> reseed_streaming x (clear_ready x (upd_root (\<lambda>r. r\<lparr>rr_registry := count_entity
        (length (top_level_entities (wg_graph w))) (rr_registry r)\<rparr>) w))
        | _ \<Rightarrow> upd_root (\<lambda>r. r\<lparr>rr_registry := count_entity (length (top_level_entities (wg_graph w))) (rr_registry r)\<rparr>) w)"
    using assms(1) by (auto simp: root_complete_def Let_def split: option.splits)
  show ?thesis unfolding e reseed_streaming_def by (auto split: graph_section.split intro!: root ready assms(2))
qed

lemma iter_completed:
  assumes cascade: "\<And>w M out w'. cascade w = Inr (out, w') \<Longrightarrow> law w M \<Longrightarrow> law w' (M + mset (co_refs out))"
    and run: "complete_iter cascade l stride w = Inr (out, w')" and law: "law w M"
  shows "law w' (M + mset (co_refs out))"
proof -
  obtain ls where ls: "wg_loops w l = Some ls" using run by (auto simp: complete_iter_def split: option.splits)
  show ?thesis
  proof (cases "ls_iter ls + stride \<ge> ls_max_iters ls \<or> ls_finish ls")
    case True
    let ?w1 = "clear_inner l (ls_section ls) (upd_loop l (\<lambda>ls. ls\<lparr>ls_done := True\<rparr>) w)"
    obtain l1 up where l1: "wg_loops ?w1 l = Some l1" "cascade (finish_loop l ?w1) = Inr (up, w')"
      "co_refs out = (cache_uuids (ls_cached l1) @ cache_uuids (ls_acc_cache l1)) @ co_refs up"
      using run ls True by (auto simp: complete_iter_def Let_def split: option.splits)
    have "law (finish_loop l ?w1) (M + mset (cache_uuids (ls_cached l1) @ cache_uuids (ls_acc_cache l1)))"
      using finished [OF l1(1) inner_cleared [OF finishing [OF law]]] .
    from cascade [OF l1(2) this] show ?thesis unfolding l1(3) by (simp add: ac_simps)
  next
    case False
    then have "w' = uncache_outputs l (reset_inner l (ls_section ls) (upd_loop l (\<lambda>ls. ls\<lparr>ls_iter := ls_iter ls + stride\<rparr>) w))"
      "co_refs out = []"
      using run ls by (auto simp: complete_iter_def)
    then show ?thesis using uncached [OF inner_reset [OF iterated [OF law]]] by simp
  qed
qed

lemma completed:
  "mark_complete chain x stride w = Inr (out, w') \<Longrightarrow> law w M \<Longrightarrow> law w' (M + mset (co_refs out))"
proof (induction chain arbitrary: x stride w out w' M)
  case Nil
  then show ?case using root_completed by simp
next
  case (Cons l chain)
  obtain ls e where ls: "wg_loops w l = Some ls" "managed (ls_section ls) x = Some e"
    using Cons.prems(1) by (auto split: option.splits)
  let ?w1 = "upd_loop l (\<lambda>ls. ls\<lparr>ls_registry := count_entity (length (top_level_entities (ls_section ls))) (ls_registry ls)\<rparr>) w"
  let ?w2 = "cache_outputs l {} (entity_outputs e ?w1) ?w1"
  have law2: "law ?w2 M" by (intro cached counted Cons.prems(2))
  show ?case
  proof (cases "rg_done (count_entity (length (top_level_entities (ls_section ls))) (ls_registry ls))")
    case False
    then have "w' = ?w2" "co_refs out = []" using Cons.prems(1) ls by (auto simp: Let_def)
    then show ?thesis using law2 by simp
  next
    case True
    then obtain up where up: "complete_iter (mark_complete chain l 1) l stride ?w2 = Inr (up, w')" "co_refs out = co_refs up"
      using Cons.prems(1) ls by (auto simp: Let_def)
    from iter_completed [OF Cons.IH up(1) law2] show ?thesis unfolding up(2) by simp
  qed
qed

lemma node_completed:
  assumes "mark_node_complete x stride w = Inr (out, w')" "law w M" shows "law w' (M + mset (co_refs out))"
proof -
  obtain up w1 where up: "mark_complete (chain_of x w) x stride w = Inr (up, w1)" "co_refs out = co_refs up"
    "w' = w1 \<or> w' = w1\<lparr>wg_runs := wg_runs w1 + 1\<rparr>"
    using assms(1) by (auto simp: mark_node_complete_def split: if_splits)
  have "law w1 (M + mset (co_refs out))" using completed [OF up(1) assms(2)] up(2) by simp
  then show ?thesis using up(3) run by blast
qed

end

end
