(* ===== verification/Graph_Total.thy ===== *)
theory Graph_Total imports Graph_Laws begin

text \<open>
  The first law of a running graph: nothing rewires it. From it, that a completion of a node of
  the graph always returns, whatever loops it ends.
\<close>

section \<open>Nothing rewires a graph\<close>

definition same_wiring :: "'d worker_graph_io \<Rightarrow> 'd worker_graph_io \<Rightarrow> bool" where
  "same_wiring w w' \<longleftrightarrow> wg_graph w' = wg_graph w \<and> wg_tm w' = wg_tm w \<and>
     (\<forall>x. map_option ns_decl (wg_nodes w' x) = map_option ns_decl (wg_nodes w x)) \<and>
     (\<forall>l. map_option ls_section (wg_loops w' l) = map_option ls_section (wg_loops w l))"

lemma same_wiring_refl [simp]: "same_wiring w w"
  by (simp add: same_wiring_def)

lemma same_wiring_trans: "same_wiring w w1 \<Longrightarrow> same_wiring w1 w2 \<Longrightarrow> same_wiring w w2"
  by (simp add: same_wiring_def)

lemma wiring_upd:
  "same_wiring w w' \<Longrightarrow> same_wiring w (upd_root f w')"
  "same_wiring w w' \<Longrightarrow> same_wiring w (tm_call c w')"
  "same_wiring w w' \<Longrightarrow> (\<And>ns. ns_decl (nf ns) = ns_decl ns) \<Longrightarrow> same_wiring w (upd_node x nf w')"
  "same_wiring w w' \<Longrightarrow> (\<And>ls. ls_section (lf ls) = ls_section ls) \<Longrightarrow> same_wiring w (upd_loop l lf w')"
  by (auto simp: same_wiring_def upd_root_def tm_call_def upd_node_def upd_loop_def option.map_comp comp_def)

lemma wiring_cache_outputs: "same_wiring w w' \<Longrightarrow> same_wiring w (cache_outputs l seen es w')"
proof (induction es arbitrary: seen w')
  case (Cons e es)
  have calls: "same_wiring w w1 \<Longrightarrow> same_wiring w (fold (\<lambda>i. tm_call (IncrementRef (ti_uuid i))) is w1)" for w1 "is"
    by (induction "is" arbitrary: w1) (auto intro: wiring_upd)
  have "same_wiring w (upd_loop l (\<lambda>_. ls') w')" if b: "Option.bind (wg_loops w' l) (cache_edge e) = Some ls'" for ls'
  proof -
    obtain ls where "wg_loops w' l = Some ls" "cache_edge e ls = Some ls'"
      using b by (cases "wg_loops w' l") auto
    moreover from this have "ls_section ls' = ls_section ls" by (auto simp: cache_edge_def split: if_splits)
    moreover from \<open>wg_loops w' l = Some ls\<close> have "map_option ls_section (wg_loops w l) = Some (ls_section ls)"
      using Cons.prems unfolding same_wiring_def by (metis option.simps(9))
    ultimately show ?thesis using Cons.prems by (auto simp: same_wiring_def upd_loop_def)
  qed
  then show ?case using Cons by (auto split: option.split intro!: Cons.IH calls)
qed simp

interpretation wiring: graph_law "\<lambda>w _. same_wiring w0 w" for w0
  by unfold_locales (auto simp: clear_ready_def clear_next_def clear_spec_def reset_node_def reset_metadata_def
    uncache_outputs_def uncache_accumulated_def finish_loop_def same_wiring_def [of _ "w\<lparr>wg_runs := n\<rparr>" for w n]
    split: option.split intro!: wiring_upd wiring_cache_outputs, auto simp: same_wiring_def)

section \<open>Wired graphs\<close>

definition wired :: "'d worker_graph_io \<Rightarrow> bool" where
  "wired w \<longleftrightarrow> names_ok (wg_graph w) \<and> dom (wg_nodes w) = set (node_names (wg_graph w)) \<and>
     dom (wg_loops w) = set (loop_names (wg_graph w)) \<and>
     (\<forall>n \<in> set (get_nodes (wg_graph w)). map_option ns_decl (wg_nodes w (nd_name n)) = Some n) \<and>
     (\<forall>(d, s) \<in> set (get_loops (wg_graph w)). map_option ls_section (wg_loops w (ld_name d)) = Some s)"

lemma wired_same: "same_wiring w w' \<Longrightarrow> wired w \<Longrightarrow> wired w'"
proof -
  assume same: "same_wiring w w'" and w: "wired w"
  have "dom (wg_nodes w') = dom (wg_nodes w)" "dom (wg_loops w') = dom (wg_loops w)"
    using same unfolding same_wiring_def dom_def by (metis (mono_tags, lifting) option.map_disc_iff)+
  with same w show "wired w'" by (auto simp: wired_def same_wiring_def)
qed

lemma wired_new:
  assumes "new_worker_graph_io g i = Inr w" "names_ok g"
  shows "wired w" "wg_graph w = g"
proof -
  have d: "distinct (map nd_name (get_nodes g))" "distinct (map (ld_name \<circ> fst) (get_loops g))"
    using assms(2) by (simp_all add: names_ok_def node_names_def loop_names_def)
  have w: "wg_graph w = g" "wg_nodes w = map_of (map (\<lambda>n. (nd_name n, new_node n)) (get_nodes g))"
    "wg_loops w = map_of (map (\<lambda>(l, s). (ld_name l, new_loop l s)) (get_loops g))"
    using assms(1) by (auto simp: new_worker_graph_io_def)
  show "wg_graph w = g" by fact
  have "wg_nodes w (nd_name n) = Some (new_node n)" if "n \<in> set (get_nodes g)" for n
    unfolding w using that d(1) by (auto simp: comp_def intro!: map_of_is_SomeI)
  moreover have "wg_loops w (ld_name l) = Some (new_loop l s)" if "(l, s) \<in> set (get_loops g)" for l s
    unfolding w using that d(2) by (auto simp: comp_def case_prod_beta intro!: map_of_is_SomeI image_eqI [of _ _ "(l, s)"])
  ultimately show "wired w" using assms(2) unfolding wired_def w
    by (auto simp: new_node_def new_loop_def Let_def node_names_def loop_names_def dom_map_of_conv_image_fst image_image case_prod_beta)
qed

lemma wired_chain:
  assumes "wired w" "x \<in> set (all_names (wg_graph w))"
  shows "chain_ok (wg_graph w) x (chain_of x w)"
proof -
  obtain c where "enclosing x (wg_graph w) = Some c" using enclosing_iff [of x "wg_graph w"] assms(2) by auto
  then show ?thesis using enclosing_chain assms(1) by (auto simp: wired_def chain_of_def)
qed

section \<open>Completions return\<close>

lemma chain_link:
  assumes "wired w" "chain_ok (wg_graph w) x (l # ls)"
  shows "\<exists>st e. wg_loops w l = Some st \<and> managed (ls_section st) x = Some e \<and> chain_ok (wg_graph w) l ls"
proof -
  obtain d s where d: "(d, s) \<in> set (get_loops (wg_graph w))" "ld_name d = l" "manages s x" "enclosing l (wg_graph w) = Some ls"
    using assms(2) by (auto simp: chain_ok_def)
  with assms(1) obtain st where "wg_loops w l = Some st" "ls_section st = s" unfolding wired_def by fastforce
  moreover obtain e where "managed s x = Some e" using d(3) managed_iff [of s x] by auto
  moreover have "chain_ok (wg_graph w) l ls" using enclosing_chain d(4) assms(1) unfolding wired_def by blast
  ultimately show ?thesis by blast
qed

lemma complete_iter_total:
  assumes cascade: "\<And>w. wired w \<Longrightarrow> wg_graph w = g \<Longrightarrow> is_ok (cascade w)"
    and w: "wired w" "wg_graph w = g" "wg_loops w l \<noteq> None"
  shows "is_ok (complete_iter cascade l stride w)"
proof -
  obtain ls where ls: "wg_loops w l = Some ls" using w(3) by auto
  let ?w1 = "clear_inner l (ls_section ls) (upd_loop l (\<lambda>ls. ls\<lparr>ls_done := True\<rparr>) w)"
  have same: "same_wiring w ?w1" by (intro wiring.inner_cleared wiring.finishing same_wiring_refl)
  then have "map_option ls_section (wg_loops ?w1 l) = Some (ls_section ls)" using ls unfolding same_wiring_def by simp
  then obtain l1 where l1: "wg_loops ?w1 l = Some l1" by auto
  have "same_wiring w (finish_loop l ?w1)" using wiring.finished [OF l1 same] .
  then have "is_ok (cascade (finish_loop l ?w1))"
    using cascade wired_same [OF _ w(1)] w(2) by (simp add: same_wiring_def)
  then show ?thesis using ls l1 unfolding complete_iter_def
    by (auto simp: Let_def is_ok_def split: sum.splits)
qed

lemma mark_complete_total:
  "wired w \<Longrightarrow> chain_ok (wg_graph w) x chain \<Longrightarrow> is_ok (mark_complete chain x stride w)"
proof (induction chain arbitrary: x stride w)
  case Nil
  then obtain e where "managed (wg_graph w) x = Some e" using managed_iff [of "wg_graph w" x] by (auto simp: chain_ok_def)
  then show ?case by (simp add: root_complete_def Let_def)
next
  case (Cons l chain)
  obtain st e where st: "wg_loops w l = Some st" "managed (ls_section st) x = Some e" "chain_ok (wg_graph w) l chain"
    using chain_link [OF Cons.prems] by blast
  let ?w1 = "upd_loop l (\<lambda>ls. ls\<lparr>ls_registry := count_entity (length (top_level_entities (ls_section ls))) (ls_registry ls)\<rparr>) w"
  let ?w2 = "cache_outputs l {} (entity_outputs e ?w1) ?w1"
  have same: "same_wiring w ?w2" by (intro wiring.cached wiring.counted same_wiring_refl)
  have "map_option ls_section (wg_loops ?w2 l) = Some (ls_section st)"
    using same st(1) unfolding same_wiring_def by (metis option.simps(9))
  moreover have "wg_graph ?w2 = wg_graph w" using same unfolding same_wiring_def by blast
  ultimately have w2: "wired ?w2" "wg_graph ?w2 = wg_graph w" "wg_loops ?w2 l \<noteq> None"
    using wired_same [OF same Cons.prems(1)] by (simp_all del: not_None_eq) (metis option.map_disc_iff option.distinct(1))
  have "is_ok (complete_iter (mark_complete chain l 1) l stride ?w2)"
    by (rule complete_iter_total [OF _ w2]) (use Cons.IH st(3) in auto)
  then obtain up w3 where "complete_iter (mark_complete chain l 1) l stride ?w2 = Inr (up, w3)" using ok_pair by blast
  then show ?case using st(1,2) by (simp add: Let_def)
qed

lemma mark_node_complete_total:
  assumes "wired w" "x \<in> set (node_names (wg_graph w))"
  shows "\<exists>out w'. mark_node_complete x stride w = Inr (out, w') \<and> wired w' \<and> wg_graph w' = wg_graph w"
proof -
  have "is_ok (mark_complete (chain_of x w) x stride w)"
    using mark_complete_total [OF assms(1) wired_chain [OF assms(1)]] assms(2) by (auto simp: all_names_def)
  then obtain up w1 where "mark_complete (chain_of x w) x stride w = Inr (up, w1)" using ok_pair by blast
  moreover have "wg_nodes w x \<noteq> None" using assms by (auto simp: wired_def)
  ultimately obtain out w' where run: "mark_node_complete x stride w = Inr (out, w')"
    unfolding mark_node_complete_def by simp
  have "same_wiring w w'" using wiring.node_completed [OF run same_wiring_refl] .
  then show ?thesis using run wired_same assms(1) by (auto simp: same_wiring_def)
qed

end
