(* ===== verification/Graph_Slots.thy ===== *)
theory Graph_Slots imports Graph_Total begin

text \<open>
  The invariant of a readiness slot, kept by its every operation, and through \<open>graph_law\<close> by
  every operation of a running graph.
\<close>

section \<open>One slot\<close>

definition slot_ok :: "'d node_decl \<Rightarrow> 'd ready_signals \<Rightarrow> bool" where
  "slot_ok n sl \<longleftrightarrow> distinct (map fst (sl_inputs sl)) \<and> fst ` set (sl_inputs sl) = sl_names sl \<and>
     sl_names sl \<subseteq> nd_inputs n \<and>
     (\<forall>(k, e) \<in> set (sl_inputs sl). ge_name e = k) \<and>
     (sl_ready sl \<longleftrightarrow> sl_names sl \<noteq> {} \<and> nd_inputs n \<subseteq> sl_names sl) \<and>
     (sl_stream_ready sl \<longrightarrow> nd_inputs n \<subseteq> sl_names sl \<union> nd_streaming n) \<and>
     (sl_names sl \<noteq> {} \<longrightarrow> nd_inputs n \<subseteq> sl_names sl \<union> nd_streaming n \<longrightarrow> sl_stream_ready sl)"

lemma slot_ok_empty [simp]: "slot_ok n empty_slot"
  by (simp add: slot_ok_def empty_slot_def)

lemma slot_key: "slot_ok n sl \<Longrightarrow> map_of (sl_inputs sl) k = None \<longleftrightarrow> k \<notin> sl_names sl"
  by (auto simp: slot_ok_def map_of_eq_None_iff)

lemma slot_update_ok:
  assumes "slot_ok n sl" "ge_name e \<in> nd_inputs n" "ge_name e \<notin> sl_names sl"
  shows "\<exists>sl'. slot_update n e sl = Inr sl' \<and> slot_ok n sl' \<and> sl_names sl' = insert (ge_name e) (sl_names sl) \<and>
    sl_inputs sl' = sl_inputs sl @ [(ge_name e, e)]"
proof -
  have k: "map_of (sl_inputs sl) (ge_name e) = None" using slot_key [OF assms(1)] assms(3) by simp
  have nr: "\<not> sl_ready sl" using assms unfolding slot_ok_def by blast
  let ?names = "insert (ge_name e) (sl_names sl)"
  let ?sl = "\<lparr>sl_inputs = sl_inputs sl @ [(ge_name e, e)], sl_names = ?names, sl_ready = (nd_inputs n \<subseteq> ?names),
    sl_stream_ready = (nd_inputs n \<subseteq> ?names \<or> sl_stream_ready sl \<or> nd_inputs n \<subseteq> ?names \<union> nd_streaming n)\<rparr>"
  have "slot_update n e sl = Inr ?sl"
    using assms(2) k nr by (simp add: slot_update_def dict_set_fresh Let_def)
  moreover have "slot_ok n ?sl"
    unfolding slot_ok_def ready_signals.simps
  proof (intro conjI)
    show "distinct (map fst (sl_inputs sl @ [(ge_name e, e)]))"
      "fst ` set (sl_inputs sl @ [(ge_name e, e)]) = ?names" "?names \<subseteq> nd_inputs n"
      "\<forall>(k, e) \<in> set (sl_inputs sl @ [(ge_name e, e)]). ge_name e = k"
      using assms unfolding slot_ok_def by auto
  qed (use assms(1) in \<open>auto simp: slot_ok_def\<close>)
  ultimately show ?thesis by simp
qed

lemma dict_del_fresh: "k \<notin> fst ` set d \<Longrightarrow> dict_del k d = d"
  by (force simp: dict_del_def filter_id_conv)

lemma slot_update_Inr:
  assumes "slot_ok n sl" "slot_update n e sl = Inr sl'"
  shows "slot_ok n sl'" "sl_inputs sl' = sl_inputs sl @ [(ge_name e, e)]"
proof -
  have "ge_name e \<in> nd_inputs n" "map_of (sl_inputs sl) (ge_name e) = None"
    using assms(2) by (auto simp: slot_update_def split: if_splits)
  then show "slot_ok n sl'" "sl_inputs sl' = sl_inputs sl @ [(ge_name e, e)]"
    using slot_update_ok [OF assms(1), of e] assms(2) slot_key [OF assms(1), of "ge_name e"] by auto
qed

lemma dict_set_old:
  "map_of d k = Some v' \<Longrightarrow> distinct (map fst d) \<Longrightarrow>
    map fst (dict_set k v d) = map fst d \<and> set (dict_set k v d) = insert (k, v) (set (dict_del k d))"
proof (induction d)
  case (Cons p d)
  show ?case
  proof (cases "fst p = k")
    case True
    with Cons.prems(2) have "dict_del k d = d" using dict_del_fresh by auto
    with True show ?thesis by (auto simp: dict_del_def)
  next
    case False
    with Cons show ?thesis by (auto simp: dict_del_def split: if_splits)
  qed
qed simp

lemma slot_mark_ok:
  assumes "slot_ok n sl" "ge_name e \<in> sl_names sl"
  shows "slot_ok n (slot_mark e sl)"
proof -
  obtain v where v: "map_of (sl_inputs sl) (ge_name e) = Some v" using slot_key [OF assms(1)] assms(2) by fastforce
  have "distinct (map fst (sl_inputs sl))" using assms(1) unfolding slot_ok_def by blast
  from dict_set_old [OF v this, of e] have d: "map fst (dict_set (ge_name e) e (sl_inputs sl)) = map fst (sl_inputs sl)"
    "set (dict_set (ge_name e) e (sl_inputs sl)) = insert (ge_name e, e) (set (dict_del (ge_name e) (sl_inputs sl)))"
    by simp_all
  have "fst ` set (dict_set (ge_name e) e (sl_inputs sl)) = fst ` set (sl_inputs sl)"
    using arg_cong [OF d(1), of set] by simp
  moreover have "\<forall>(k, e') \<in> set (dict_set (ge_name e) e (sl_inputs sl)). ge_name e' = k"
    using assms(1) unfolding d(2) by (auto simp: slot_ok_def dict_del_def)
  ultimately show ?thesis using assms(1) d(1) by (simp add: slot_ok_def slot_mark_def)
qed

lemma slot_remove_ok:
  assumes "slot_ok n sl" shows "slot_ok n (snd (slot_remove n k sl))"
proof (cases "map_of (sl_inputs sl) k")
  case (Some e)
  then have k: "k \<in> nd_inputs n" using assms slot_key [OF assms, of k] by (auto simp: slot_ok_def)
  have "fst ` set (dict_del k (sl_inputs sl)) = fst ` set (sl_inputs sl) - {k}" by (auto simp: dict_del_def)
  have "fst ` set (sl_inputs sl) = sl_names sl" "sl_names sl \<subseteq> nd_inputs n"
    "distinct (map fst (sl_inputs sl))" "\<forall>(k, e) \<in> set (sl_inputs sl). ge_name e = k"
    using assms unfolding slot_ok_def by blast+
  moreover from this have "distinct (map fst (dict_del k (sl_inputs sl)))" by simp
  ultimately have "distinct (map fst (dict_del k (sl_inputs sl)))" "fst ` set (dict_del k (sl_inputs sl)) = sl_names sl - {k}"
    "sl_names sl - {k} \<subseteq> nd_inputs n" "\<forall>(k, e) \<in> set (dict_del k (sl_inputs sl)). ge_name e = k"
    by (simp, auto simp: dict_del_def)
  then show ?thesis using Some k by (auto simp: slot_remove_def slot_ok_def Let_def)
qed (use assms in \<open>simp add: slot_remove_def\<close>)

lemma slot_update_names:
  assumes "slot_ok n sl" "slot_update n e sl = Inr sl'" shows "ge_name e \<in> sl_names sl'"
proof -
  have "fst ` set (sl_inputs sl') = sl_names sl'" using slot_update_Inr(1) [OF assms] by (simp add: slot_ok_def)
  then show ?thesis unfolding slot_update_Inr(2) [OF assms] by auto
qed

text \<open>\<open>remove\<close> undoes \<open>update\<close>: the edge comes back and the slot is as before.\<close>

lemma slot_remove_update:
  assumes "slot_ok n sl" "slot_update n e sl = Inr sl'"
  shows "fst (slot_remove n (ge_name e) sl') = Some e"
    and "sl_inputs (snd (slot_remove n (ge_name e) sl')) = sl_inputs sl"
    and "sl_names (snd (slot_remove n (ge_name e) sl')) = sl_names sl"
    and "sl_ready (snd (slot_remove n (ge_name e) sl')) = sl_ready sl"
proof -
  note sl' = slot_update_Inr [OF assms]
  have k: "map_of (sl_inputs sl) (ge_name e) = None"
    using assms(2) by (auto simp: slot_update_def split: if_splits)
  then have "dict_del (ge_name e) (sl_inputs sl) = sl_inputs sl"
    by (simp add: dict_del_fresh map_of_eq_None_iff)
  moreover have "map_of (sl_inputs sl') (ge_name e) = Some e" unfolding sl'(2) using k by (simp add: map_add_def)
  ultimately have r: "fst (slot_remove n (ge_name e) sl') = Some e"
    "sl_inputs (snd (slot_remove n (ge_name e) sl')) = sl_inputs sl"
    unfolding slot_remove_def sl'(2) by (simp_all add: Let_def dict_del_def)
  show "fst (slot_remove n (ge_name e) sl') = Some e" "sl_inputs (snd (slot_remove n (ge_name e) sl')) = sl_inputs sl"
    by (rule r)+
  have ok: "slot_ok n (snd (slot_remove n (ge_name e) sl'))" using slot_remove_ok [OF sl'(1)] .
  then show nm: "sl_names (snd (slot_remove n (ge_name e) sl')) = sl_names sl"
    using r(2) assms(1) unfolding slot_ok_def by metis
  show "sl_ready (snd (slot_remove n (ge_name e) sl')) = sl_ready sl"
    using ok assms(1) nm unfolding slot_ok_def by metis
qed

section \<open>All slots of a graph\<close>

definition node_ok :: "string \<Rightarrow> 'd node_state \<Rightarrow> bool" where
  "node_ok x ns \<longleftrightarrow> nd_name (ns_decl ns) = x \<and> slot_ok (ns_decl ns) (ns_ready ns) \<and>
     slot_ok (ns_decl ns) (ns_next ns) \<and> slot_ok (ns_decl ns) (ns_spec ns)"

definition slots_ok :: "'d worker_graph_io \<Rightarrow> bool" where
  "slots_ok w \<longleftrightarrow> (\<forall>x ns. wg_nodes w x = Some ns \<longrightarrow> node_ok x ns)"

lemma slots_upd:
  "slots_ok w \<Longrightarrow> slots_ok (upd_root rf w)"
  "slots_ok w \<Longrightarrow> slots_ok (upd_loop l lf w)"
  "slots_ok w \<Longrightarrow> slots_ok (tm_call c w)"
  "slots_ok w \<Longrightarrow> (\<And>ns. wg_nodes w x = Some ns \<Longrightarrow> node_ok x ns \<Longrightarrow> node_ok x (nf ns)) \<Longrightarrow> slots_ok (upd_node x nf w)"
  by (auto simp: slots_ok_def upd_root_def upd_loop_def tm_call_def upd_node_def)

lemma slots_calls: "slots_ok w \<Longrightarrow> slots_ok (fold (\<lambda>i. tm_call (IncrementRef (ti_uuid i))) is w)"
  by (induction "is" arbitrary: w) (auto intro: slots_upd)

lemma slots_cache_outputs: "slots_ok w \<Longrightarrow> slots_ok (cache_outputs l seen es w)"
proof (induction es arbitrary: seen w)
  case (Cons e es)
  have "slots_ok (case Option.bind (wg_loops w l) (cache_edge e) of None \<Rightarrow> w
      | Some ls \<Rightarrow> fold (\<lambda>i. tm_call (IncrementRef (ti_uuid i))) (ge_tensor_info e) (upd_loop l (\<lambda>_. ls) w))"
    using Cons.prems by (auto intro!: slots_calls slots_upd split: option.split)
  then show ?case using Cons by (auto simp: Let_def)
qed simp

lemma slots_clear_ready: "slots_ok w \<Longrightarrow> slots_ok (clear_ready x w)"
  by (auto simp: clear_ready_def split: option.split intro!: slots_upd) (simp add: node_ok_def)

lemma slots_clear_next: "slots_ok w \<Longrightarrow> slots_ok (clear_next x w)"
  by (auto simp: clear_next_def split: option.split intro!: slots_upd) (simp add: node_ok_def)

interpretation slots: graph_law "\<lambda>w _. slots_ok w"
proof unfold_locales
  show "slots_ok w \<Longrightarrow> slots_ok (clear_spec x w)" for w x
    unfolding clear_spec_def by (auto intro!: slots_upd) (simp add: node_ok_def)
  show "slots_ok w \<Longrightarrow> slots_ok (reset_node x w)" for w x
    unfolding reset_node_def by (auto intro!: slots_upd slots_clear_ready) (simp add: node_ok_def)
  show "slots_ok w \<Longrightarrow> slots_ok (w\<lparr>wg_runs := n\<rparr>)" for w n by (simp add: slots_ok_def)
qed (auto simp: reset_metadata_def uncache_outputs_def uncache_accumulated_def finish_loop_def
    split: option.split intro: slots_upd slots_cache_outputs slots_clear_ready slots_clear_next)

section \<open>Arriving edges\<close>

text \<open>A loop, the inputs it saves aside.\<close>

definition unsaved :: "'d loop_state \<Rightarrow> 'd loop_state" where
  "unsaved ls = ls\<lparr>ls_ext_inputs := [], ls_ext_names := {}\<rparr>"

lemma ingest_external_frame:
  assumes "ingest_external l (e, w) = (e', w')"
  shows "wg_nodes w' = wg_nodes w" "wg_root w' = wg_root w" "wg_calls w' = wg_calls w" "wg_tm w' = wg_tm w"
    "wg_graph w' = wg_graph w" "e' = e \<or> e' = e\<lparr>ge_persist_for_loop := True\<rparr>" "same_wiring w w'"
    "map_option unsaved (wg_loops w' l') = map_option unsaved (wg_loops w l')"
  using assms by (auto simp: unsaved_def ingest_external_def Let_def upd_loop_def same_wiring_def split: option.splits if_splits)

lemma ingest_chain_frame:
  assumes "fold ingest_external c (e, w) = (e', w')"
  shows "wg_nodes w' = wg_nodes w \<and> wg_root w' = wg_root w \<and> wg_calls w' = wg_calls w \<and> wg_tm w' = wg_tm w \<and>
    wg_graph w' = wg_graph w \<and> (e' = e \<or> e' = e\<lparr>ge_persist_for_loop := True\<rparr>) \<and> same_wiring w w' \<and>
    (\<forall>l. map_option unsaved (wg_loops w' l) = map_option unsaved (wg_loops w l))"
  using assms
proof (induction c arbitrary: e w)
  case (Cons l c)
  obtain e1 w1 where step: "ingest_external l (e, w) = (e1, w1)" by (cases "ingest_external l (e, w)")
  note f1 = ingest_external_frame [OF step]
  have rest: "fold ingest_external c (e1, w1) = (e', w')" using Cons.prems step by simp
  note IH = Cons.IH [OF rest]
  have "same_wiring w w'" using IH f1(7) same_wiring_trans by blast
  then show ?case using IH f1(1-6,8) by auto
qed auto

end
