(* ===== verification/Graph_Run.thy ===== *)
theory Graph_Run imports Graph_Slots begin

text \<open>
  Running graphs: what \<open>ingest_input\<close> does, as one lemma its properties share, the speculative
  inputs, and the states a worker can bring a graph into, with the references that came in with
  accepted edges and those that went out.
\<close>

section \<open>What an arriving edge does\<close>

definition saved_edge :: "'d graph_edge \<Rightarrow> 'd worker_graph_io \<Rightarrow> 'd graph_edge" where
  "saved_edge e w = fst (fold ingest_external (chain_of (ge_next_node e) w) (e, w))"

definition kept_uuids :: "'d graph_edge \<Rightarrow> nat list" where
  "kept_uuids e = (if ge_persist_for_loop e then [] else map ti_uuid (ge_tensor_info e))"

lemma ingest_chain_loops:
  assumes "wg_loops w1 = wg_loops w2"
  shows "fst (fold ingest_external c (e, w1)) = fst (fold ingest_external c (e, w2)) \<and>
    wg_loops (snd (fold ingest_external c (e, w1))) = wg_loops (snd (fold ingest_external c (e, w2)))"
  using assms
proof (induction c arbitrary: e w1 w2)
  case (Cons l c)
  obtain e1 u1 e2 u2 where steps: "ingest_external l (e, w1) = (e1, u1)" "ingest_external l (e, w2) = (e2, u2)"
    by (cases "ingest_external l (e, w1)"; cases "ingest_external l (e, w2)")
  moreover from this have "e1 = e2" "wg_loops u1 = wg_loops u2"
    using Cons.prems by (auto simp: ingest_external_def Let_def upd_loop_def split: option.splits if_splits)
  ultimately show ?case using Cons.IH [of u1 u2 e1] by simp
qed simp

lemma ingest_input_cases:
  assumes run: "ingest_input e b w = Inr (ok, w')" and slots: "slots_ok w"
  obtains (refused) "\<not> ok" "w' = w"
  | (current) ns sl w2 where "ok" "wg_nodes w (ge_next_node e) = Some ns" "ge_name e \<notin> sl_names (ns_ready ns)"
      "slot_update (ns_decl ns) e (ns_ready ns) = Inr sl"
      "fold ingest_external (chain_of (ge_next_node e) w) (e, upd_node (ge_next_node e) (\<lambda>ns. ns\<lparr>ns_ready := sl\<rparr>) w) = (saved_edge e w, w2)"
      "w' = upd_root (root_register (on_ready (slot_mark (saved_edge e w)) (ns\<lparr>ns_ready := sl\<rparr>)))
        (upd_node (ge_next_node e) (on_ready (slot_mark (saved_edge e w))) w2)"
  | (buffered) ns sl w2 where "ok" "b" "wg_nodes w (ge_next_node e) = Some ns" "ge_name e \<in> sl_names (ns_ready ns)"
      "ge_name e \<notin> sl_names (ns_next ns)" "slot_update (ns_decl ns) e (ns_next ns) = Inr sl"
      "fold ingest_external (chain_of (ge_next_node e) w) (e, upd_node (ge_next_node e) (\<lambda>ns. ns\<lparr>ns_next := sl\<rparr>) w) = (saved_edge e w, w2)"
      "w' = upd_root (root_register (on_next (slot_mark (saved_edge e w)) (ns\<lparr>ns_next := sl\<rparr>)))
        (upd_node (ge_next_node e) (on_next (slot_mark (saved_edge e w))) w2)"
proof (cases "wg_nodes w (ge_next_node e)")
  case None
  with run refused show ?thesis by (simp add: ingest_input_def)
next
  case (Some ns)
  let ?x = "ge_next_node e"
  have x: "nd_name (ns_decl ns) = ?x" using slots Some by (simp add: slots_ok_def node_ok_def)
  note run' = run [unfolded ingest_input_def node_ingest_def Some option.case x Let_def]
  have chain: "\<exists>w2. fold ingest_external (chain_of ?x w) (e, upd_node ?x f w) = (saved_edge e w, w2) \<and>
      wg_nodes w2 ?x = Some (f ns)" for f
  proof -
    let ?w1 = "upd_node ?x f w"
    obtain e' w2 where run2: "fold ingest_external (chain_of ?x w) (e, ?w1) = (e', w2)" by (cases "fold ingest_external (chain_of ?x w) (e, ?w1)")
    have "wg_loops ?w1 = wg_loops w" by (simp add: upd_node_def)
    from ingest_chain_loops [OF this, of "chain_of ?x w" e] run2 have "e' = saved_edge e w" by (simp add: saved_edge_def)
    moreover have "wg_nodes w2 ?x = Some (f ns)" using ingest_chain_frame [OF run2] Some by (simp add: upd_node_def)
    ultimately show ?thesis using run2 by blast
  qed
  have reg: "register_ingested on_slot ?x (chain_of ?x w) e (upd_node ?x f w) =
      upd_root (root_register (on_slot (slot_mark (saved_edge e w)) (f ns))) (upd_node ?x (on_slot (slot_mark (saved_edge e w))) w2)"
    if "fold ingest_external (chain_of ?x w) (e, upd_node ?x f w) = (saved_edge e w, w2)" "wg_nodes w2 ?x = Some (f ns)"
    for on_slot f w2 using that by (simp add: register_ingested_def upd_node_def)
  show ?thesis
  proof (cases "ge_name e \<notin> nd_inputs (ns_decl ns)")
    case True
    with run' refused show ?thesis by simp
  next
    case False
    show ?thesis
    proof (cases "ge_name e \<notin> sl_names (ns_ready ns)")
      case True
      then obtain sl where sl: "slot_update (ns_decl ns) e (ns_ready ns) = Inr sl" "ok"
        "w' = register_ingested on_ready ?x (chain_of ?x w) e (upd_node ?x (\<lambda>ns. ns\<lparr>ns_ready := sl\<rparr>) w)"
        using run' False by auto
      obtain w2 where w2: "fold ingest_external (chain_of ?x w) (e, upd_node ?x (\<lambda>ns. ns\<lparr>ns_ready := sl\<rparr>) w) = (saved_edge e w, w2)"
        "wg_nodes w2 ?x = Some (ns\<lparr>ns_ready := sl\<rparr>)" using chain [of "\<lambda>ns. ns\<lparr>ns_ready := sl\<rparr>"] by blast
      show ?thesis by (rule current [OF sl(2) Some True sl(1) w2(1)]) (simp add: sl(3) reg [OF w2])
    next
      case old: False
      show ?thesis
      proof (cases "b \<and> ge_name e \<notin> sl_names (ns_next ns)")
        case True
        then obtain sl where sl: "slot_update (ns_decl ns) e (ns_next ns) = Inr sl" "ok"
          "w' = register_ingested on_next ?x (chain_of ?x w) e (upd_node ?x (\<lambda>ns. ns\<lparr>ns_next := sl\<rparr>) w)"
          using run' False old by auto
        obtain w2 where w2: "fold ingest_external (chain_of ?x w) (e, upd_node ?x (\<lambda>ns. ns\<lparr>ns_next := sl\<rparr>) w) = (saved_edge e w, w2)"
          "wg_nodes w2 ?x = Some (ns\<lparr>ns_next := sl\<rparr>)" using chain [of "\<lambda>ns. ns\<lparr>ns_next := sl\<rparr>"] by blast
        show ?thesis by (rule buffered [OF sl(2) _ Some _ _ sl(1) w2(1)]) (use True old in \<open>simp_all add: sl(3) reg [OF w2]\<close>)
      next
        case f: False
        with run' False old refused show ?thesis by (auto split: if_splits)
      qed
    qed
  qed
qed

lemma saved_edge_name [simp]: "ge_name (saved_edge e w) = ge_name e" "ge_tensor_info (saved_edge e w) = ge_tensor_info e"
proof -
  obtain e' w' where r: "fold ingest_external (chain_of (ge_next_node e) w) (e, w) = (e', w')"
    by (cases "fold ingest_external (chain_of (ge_next_node e) w) (e, w)")
  show "ge_name (saved_edge e w) = ge_name e" "ge_tensor_info (saved_edge e w) = ge_tensor_info e"
    using ingest_chain_frame [OF r] r by (auto simp: saved_edge_def)
qed

lemma ingest_total: "slots_ok w \<Longrightarrow> is_ok (ingest_input e b w)"
proof (cases "wg_nodes w (ge_next_node e)")
  case (Some ns)
  assume "slots_ok w"
  with Some have ok: "slot_ok (ns_decl ns) (ns_ready ns)" "slot_ok (ns_decl ns) (ns_next ns)"
    by (simp_all add: slots_ok_def node_ok_def)
  from slot_update_ok [OF ok(1), of e] slot_update_ok [OF ok(2), of e] Some show ?thesis
    by (auto simp: ingest_input_def node_ingest_def Let_def)
qed (simp add: ingest_input_def)

lemma ingest_keeps:
  assumes run: "ingest_input e b w = Inr (ok, w')" and slots: "slots_ok w"
  shows "slots_ok w' \<and> same_wiring w w'"
  using run slots
proof (cases rule: ingest_input_cases)
  case (current ns sl w2)
  let ?x = "ge_next_node e"
  let ?w1 = "upd_node ?x (\<lambda>ns. ns\<lparr>ns_ready := sl\<rparr>) w"
  have n: "node_ok ?x ns" using slots current(2) by (simp add: slots_ok_def)
  have ok: "slot_ok (ns_decl ns) sl" "ge_name (saved_edge e w) \<in> sl_names sl"
    using slot_update_Inr(1) [OF _ current(4)] slot_update_names [OF _ current(4)] n by (simp_all add: node_ok_def)
  have w1: "slots_ok ?w1" by (rule slots_upd(4) [OF slots]) (use current(2) ok(1) n in \<open>auto simp: node_ok_def\<close>)
  note fr = ingest_chain_frame [OF current(5)]
  have n2: "wg_nodes w2 ?x = Some (ns\<lparr>ns_ready := sl\<rparr>)" using fr current(2) by (simp add: upd_node_def)
  have "slots_ok w2" using w1 fr by (simp add: slots_ok_def)
  then have "slots_ok (upd_node ?x (on_ready (slot_mark (saved_edge e w))) w2)"
    by (rule slots_upd(4)) (use n2 slot_mark_ok [OF ok] n in \<open>auto simp: node_ok_def on_ready_def\<close>)
  moreover have "same_wiring w ?w1" by (rule wiring_upd(3)) simp_all
  then have "same_wiring w w2" using fr same_wiring_trans by blast
  ultimately show ?thesis unfolding current(6) by (auto intro!: slots_upd wiring_upd simp: on_ready_def)
next
  case (buffered ns sl w2)
  let ?x = "ge_next_node e"
  let ?w1 = "upd_node ?x (\<lambda>ns. ns\<lparr>ns_next := sl\<rparr>) w"
  have n: "node_ok ?x ns" using slots buffered(3) by (simp add: slots_ok_def)
  have ok: "slot_ok (ns_decl ns) sl" "ge_name (saved_edge e w) \<in> sl_names sl"
    using slot_update_Inr(1) [OF _ buffered(6)] slot_update_names [OF _ buffered(6)] n by (simp_all add: node_ok_def)
  have w1: "slots_ok ?w1" by (rule slots_upd(4) [OF slots]) (use buffered(3) ok(1) n in \<open>auto simp: node_ok_def\<close>)
  note fr = ingest_chain_frame [OF buffered(7)]
  have n2: "wg_nodes w2 ?x = Some (ns\<lparr>ns_next := sl\<rparr>)" using fr buffered(3) by (simp add: upd_node_def)
  have "slots_ok w2" using w1 fr by (simp add: slots_ok_def)
  then have "slots_ok (upd_node ?x (on_next (slot_mark (saved_edge e w))) w2)"
    by (rule slots_upd(4)) (use n2 slot_mark_ok [OF ok] n in \<open>auto simp: node_ok_def on_next_def\<close>)
  moreover have "same_wiring w ?w1" by (rule wiring_upd(3)) simp_all
  then have "same_wiring w w2" using fr same_wiring_trans by blast
  ultimately show ?thesis unfolding buffered(8) by (auto intro!: slots_upd wiring_upd simp: on_next_def)
qed (use slots in simp)

end
