(* ===== verification/Graph_Refs.thy ===== *)
theory Graph_Refs imports Graph_Run begin

text \<open>
  The references a graph handles. Per uuid, \<open>credit\<close> is what the graph took of the tensor manager
  less what it gave back and less what its slots and caches still hold; only an accepted edge and
  a finishing loop change it.
\<close>

definition call_credit :: "nat \<Rightarrow> tm_call \<Rightarrow> int" where
  "call_credit u c = (case c of IncrementRef v \<Rightarrow> (if v = u then 1 else 0) | DereferenceBatch us \<Rightarrow> - int (count (mset us) u))"

definition node_held :: "nat \<Rightarrow> 'd node_state \<Rightarrow> int" where
  "node_held u ns = int (count (mset (slot_uuids (ns_ready ns))) u) + int (count (mset (slot_uuids (ns_next ns))) u)"

definition loop_held :: "nat \<Rightarrow> 'd loop_state \<Rightarrow> int" where
  "loop_held u ls = int (count (mset (cache_uuids (ls_cached ls) @ cache_uuids (ls_acc_cache ls))) u)"

definition held :: "('a \<Rightarrow> int) \<Rightarrow> (string \<rightharpoonup> 'a) \<Rightarrow> int" where
  "held h m = (\<Sum>x \<in> dom m. h (the (m x)))"

definition credit :: "nat \<Rightarrow> 'd worker_graph_io \<Rightarrow> int" where
  "credit u w = sum_list (map (call_credit u) (wg_calls w)) - held (node_held u) (wg_nodes w) - held (loop_held u) (wg_loops w)"

definition tracked :: "'d worker_graph_io \<Rightarrow> bool" where
  "tracked w \<longleftrightarrow> wg_tm w \<and> finite (dom (wg_nodes w)) \<and> finite (dom (wg_loops w))"

lemma held_upd:
  assumes "finite (dom m)" "m x = Some v"
  shows "held h (m(x \<mapsto> v')) = held h m - h v + h v'"
proof -
  have x: "x \<in> dom m" using assms(2) by auto
  have "held h (m(x \<mapsto> v')) = h v' + (\<Sum>y \<in> dom m - {x}. h (the ((m(x \<mapsto> v')) y)))"
    unfolding held_def using sum.remove [OF assms(1) x, of "\<lambda>y. h (the ((m(x \<mapsto> v')) y))"] x
    by (simp add: insert_absorb)
  also have "(\<Sum>y \<in> dom m - {x}. h (the ((m(x \<mapsto> v')) y))) = (\<Sum>y \<in> dom m - {x}. h (the (m y)))"
    by (rule sum.cong) auto
  finally show ?thesis
    unfolding held_def using sum.remove [OF assms(1) x, of "\<lambda>y. h (the (m y))"] assms(2) by simp
qed

lemma held_map:
  assumes "\<And>x. map_option h (m' x) = map_option h (m x)"
  shows "held h m' = held h m"
proof -
  have "dom m' = dom m" using assms unfolding dom_def by (metis option.map_disc_iff)
  moreover have "h (the (m' x)) = h (the (m x))" if "x \<in> dom m" for x
    using assms [of x] that by auto
  ultimately show ?thesis unfolding held_def by (simp cong: sum.cong)
qed

lemma credit_upd_root [simp]: "credit u (upd_root f w) = credit u w" "tracked (upd_root f w) = tracked w"
  by (simp_all add: credit_def upd_root_def tracked_def)

lemma tracked_upd [simp]: "tracked (upd_node x f w) = tracked w" "tracked (upd_loop l g w) = tracked w" "tracked (tm_call c w) = tracked w"
  by (auto simp: tracked_def upd_node_def upd_loop_def tm_call_def dom_def if_distrib cong: if_cong
      intro: finite_subset [rotated])

lemma credit_tm_call: "tracked w \<Longrightarrow> credit u (tm_call c w) = credit u w + call_credit u c"
  by (simp add: credit_def tm_call_def tracked_def)

lemma credit_upd_node:
  assumes "tracked w" "wg_nodes w x = Some ns"
  shows "credit u (upd_node x f w) = credit u w + node_held u ns - node_held u (f ns)"
  using assms by (simp add: credit_def upd_node_def tracked_def held_upd)

lemma credit_upd_loop:
  assumes "tracked w" "wg_loops w l = Some ls"
  shows "credit u (upd_loop l f w) = credit u w + loop_held u ls - loop_held u (f ls)"
  using assms by (simp add: credit_def upd_loop_def tracked_def held_upd)

lemma upd_absent [simp]:
  "wg_nodes w x = None \<Longrightarrow> upd_node x f w = w" "wg_loops w l = None \<Longrightarrow> upd_loop l g w = w"
  by (simp_all add: upd_node_def upd_loop_def fun_upd_idem)

text \<open>Updates of what holds no reference.\<close>

lemma credit_upd_node_same: "tracked w \<Longrightarrow> (\<And>ns. node_held u (f ns) = node_held u ns) \<Longrightarrow> credit u (upd_node x f w) = credit u w"
  by (cases "wg_nodes w x") (simp_all add: credit_upd_node)

lemma credit_upd_loop_same: "tracked w \<Longrightarrow> (\<And>ls. loop_held u (f ls) = loop_held u ls) \<Longrightarrow> credit u (upd_loop l f w) = credit u w"
  by (cases "wg_loops w l") (simp_all add: credit_upd_loop)

lemma tm_call_nodes [simp]: "wg_nodes (tm_call c w) = wg_nodes w" "wg_loops (tm_call c w) = wg_loops w"
  by (simp_all add: tm_call_def)

lemma slot_uuids_empty [simp]: "slot_uuids empty_slot = []"
  by (simp add: slot_uuids_def empty_slot_def)

lemma clear_ready_credit: "tracked w \<Longrightarrow> tracked (clear_ready x w) \<and> credit u (clear_ready x w) = credit u w"
  by (auto simp: clear_ready_def credit_upd_node credit_tm_call node_held_def call_credit_def split: option.split)

lemma clear_next_credit: "tracked w \<Longrightarrow> tracked (clear_next x w) \<and> credit u (clear_next x w) = credit u w"
  by (auto simp: clear_next_def credit_upd_node credit_tm_call node_held_def call_credit_def split: option.split)

lemma uncache_credit:
  "tracked w \<Longrightarrow> tracked (uncache_outputs l w) \<and> credit u (uncache_outputs l w) = credit u w"
  "tracked w \<Longrightarrow> tracked (uncache_accumulated l w) \<and> credit u (uncache_accumulated l w) = credit u w"
  by (auto simp: uncache_outputs_def uncache_accumulated_def credit_upd_loop credit_tm_call loop_held_def call_credit_def
      cache_uuids_def split: option.split)

lemma reset_node_credit:
  assumes "tracked w" shows "tracked (reset_node x w) \<and> credit u (reset_node x w) = credit u w"
proof -
  have "tracked (clear_ready x w)" "credit u (clear_ready x w) = credit u w" using clear_ready_credit [OF assms] by simp_all
  then show ?thesis by (simp add: reset_node_def credit_upd_node_same node_held_def add.commute)
qed

lemma cache_uuids_set:
  "count (mset (cache_uuids (extend_cache k infos d))) u = count (mset (cache_uuids d)) u + count (mset (map ti_uuid infos)) u"
proof -
  have "count (mset (cache_uuids (dict_set k (xs @ infos) d))) u = count (mset (cache_uuids d)) u + count (mset (map ti_uuid infos)) u"
    if "xs = (case map_of d k of None \<Rightarrow> [] | Some xs \<Rightarrow> xs)" for xs
    using that by (induction d) (auto simp: cache_uuids_def)
  then show ?thesis by (simp add: extend_cache_def)
qed

lemma calls_credit:
  "tracked w \<Longrightarrow> tracked (fold (\<lambda>i. tm_call (IncrementRef (ti_uuid i))) is w) \<and>
    credit u (fold (\<lambda>i. tm_call (IncrementRef (ti_uuid i))) is w) = credit u w + int (count (mset (map ti_uuid is)) u)"
  by (induction "is" arbitrary: w) (auto simp: credit_tm_call call_credit_def)

lemma cache_edge_held:
  "cache_edge e ls = Some ls' \<Longrightarrow> loop_held u ls' = loop_held u ls + int (count (mset (map ti_uuid (ge_tensor_info e))) u)"
  by (auto simp: cache_edge_def loop_held_def cache_uuids_set split: if_splits)

lemma cache_outputs_credit:
  "tracked w \<Longrightarrow> tracked (cache_outputs l seen es w) \<and> credit u (cache_outputs l seen es w) = credit u w"
proof (induction es arbitrary: seen w)
  case (Cons e es)
  let ?w' = "case Option.bind (wg_loops w l) (cache_edge e) of None \<Rightarrow> w
      | Some ls \<Rightarrow> fold (\<lambda>i. tm_call (IncrementRef (ti_uuid i))) (ge_tensor_info e) (upd_loop l (\<lambda>_. ls) w)"
  have "tracked ?w' \<and> credit u ?w' = credit u w"
  proof (cases "Option.bind (wg_loops w l) (cache_edge e)")
    case (Some ls')
    then obtain ls where ls: "wg_loops w l = Some ls" "cache_edge e ls = Some ls'" by (cases "wg_loops w l") auto
    have up: "tracked (upd_loop l (\<lambda>_. ls') w)" using Cons.prems by simp
    show ?thesis unfolding Some option.case
      using calls_credit [OF up, of "ge_tensor_info e" u] credit_upd_loop [OF Cons.prems ls(1), of u "\<lambda>_. ls'"] cache_edge_held [OF ls(2), of u]
      by simp
  qed (use Cons.prems in simp)
  then show ?case using Cons by (auto simp: Let_def)
qed simp

text \<open>The references balance: \<open>d\<close> is what accepted edges brought, \<open>M\<close> what finished loops handed on.\<close>

definition balanced :: "nat \<Rightarrow> int \<Rightarrow> 'd worker_graph_io \<Rightarrow> nat multiset \<Rightarrow> bool" where
  "balanced u d w M \<longleftrightarrow> tracked w \<and> credit u w = int (count M u) - d"

interpretation refs: graph_law "balanced u d" for u d
proof unfold_locales
  show "balanced u d w M \<Longrightarrow> balanced u d (clear_spec x w) M" for w M x
    by (simp add: balanced_def clear_spec_def credit_upd_node_same node_held_def)
  show "balanced u d w M \<Longrightarrow> balanced u d (reset_metadata l w) M" for w M l
    by (simp add: balanced_def reset_metadata_def credit_upd_loop_same loop_held_def)
  fix w :: "'a worker_graph_io" and M l ls assume l: "wg_loops w l = Some ls" "balanced u d w M"
  then show "balanced u d (finish_loop l w) (M + mset (cache_uuids (ls_cached ls) @ cache_uuids (ls_acc_cache ls)))"
    by (simp add: balanced_def finish_loop_def credit_upd_loop loop_held_def cache_uuids_def)
qed (simp_all add: balanced_def clear_ready_credit clear_next_credit reset_node_credit uncache_credit cache_outputs_credit
    credit_upd_loop_same loop_held_def, simp add: credit_def tracked_def)

end
