(* ===== verification/Graph_Reach.thy ===== *)
theory Graph_Reach imports Graph_Refs begin

text \<open>
  The states a worker can bring a graph into, as an inductive relation over what it may do to
  one, and the invariant of all of them: the wiring, the slots and the references.
\<close>

section \<open>Arriving and leaving edges, in references\<close>

lemma slot_mark_last:
  assumes "slot_ok n sl0" "slot_update n e sl0 = Inr sl" "ge_name e' = ge_name e"
  shows "slot_uuids (slot_mark e' sl) = slot_uuids sl0 @ kept_uuids e'"
proof -
  have k: "map_of (sl_inputs sl0) (ge_name e) = None" using assms(2) by (auto simp: slot_update_def split: if_splits)
  have "dict_set (ge_name e) e' (d @ [(ge_name e, e)]) = d @ [(ge_name e, e')]" if "map_of d (ge_name e) = None" for d
    using that by (induction d) (auto split: if_splits)
  from this [OF k] show ?thesis
    unfolding slot_uuids_def slot_mark_def ready_signals.simps slot_update_Inr(2) [OF assms(1,2)] assms(3) by (simp add: kept_uuids_def)
qed

lemma held_unsaved: "loop_held u (unsaved ls) = loop_held u ls"
  by (simp add: loop_held_def unsaved_def)

lemma credit_saved:
  assumes "fold ingest_external c (e, w) = (e', w2)" "tracked w"
  shows "tracked w2 \<and> credit u w2 = credit u w"
proof -
  note fr = ingest_chain_frame [OF assms(1)]
  have "map_option (loop_held u) x = map_option (loop_held u) (map_option unsaved x)" for x :: "'a loop_state option"
    by (cases x) (simp_all add: held_unsaved)
  then have "map_option (loop_held u) (wg_loops w2 l) = map_option (loop_held u) (wg_loops w l)" for l
    using fr by metis
  then have "held (loop_held u) (wg_loops w2) = held (loop_held u) (wg_loops w)" by (rule held_map)
  moreover have "dom (wg_loops w2) = dom (wg_loops w)" using fr unfolding dom_def by (metis option.map_disc_iff)
  ultimately show ?thesis using fr assms(2) by (simp add: credit_def tracked_def)
qed

lemma ingest_credit:
  assumes run: "ingest_input e b w = Inr (ok, w')" and slots: "slots_ok w" and tr: "tracked w"
  shows "tracked w' \<and> credit u w' = credit u w - (if ok then int (count (mset (kept_uuids (saved_edge e w))) u) else 0)"
  using run slots
proof (cases rule: ingest_input_cases)
  case (current ns sl w2)
  let ?x = "ge_next_node e" and ?w1 = "upd_node (ge_next_node e) (\<lambda>ns. ns\<lparr>ns_ready := sl\<rparr>) w"
  have n: "slot_ok (ns_decl ns) (ns_ready ns)" using slots current(2) by (simp add: slots_ok_def node_ok_def)
  have n2: "wg_nodes w2 ?x = Some (ns\<lparr>ns_ready := sl\<rparr>)"
    using ingest_chain_frame [OF current(5)] current(2) by (simp add: upd_node_def)
  have c2: "tracked w2" "credit u w2 = credit u w + node_held u ns - node_held u (ns\<lparr>ns_ready := sl\<rparr>)"
    using credit_saved [OF current(5), of u] tr credit_upd_node [OF tr current(2), of u] by simp_all
  show ?thesis unfolding current(6) using c2 current(1) credit_upd_node [OF c2(1) n2, of u]
      slot_mark_last [OF n current(4), of "saved_edge e w"]
    by (simp add: node_held_def on_ready_def)
next
  case (buffered ns sl w2)
  let ?x = "ge_next_node e" and ?w1 = "upd_node (ge_next_node e) (\<lambda>ns. ns\<lparr>ns_next := sl\<rparr>) w"
  have n: "slot_ok (ns_decl ns) (ns_next ns)" using slots buffered(3) by (simp add: slots_ok_def node_ok_def)
  have n2: "wg_nodes w2 ?x = Some (ns\<lparr>ns_next := sl\<rparr>)"
    using ingest_chain_frame [OF buffered(7)] buffered(3) by (simp add: upd_node_def)
  have c2: "tracked w2" "credit u w2 = credit u w + node_held u ns - node_held u (ns\<lparr>ns_next := sl\<rparr>)"
    using credit_saved [OF buffered(7), of u] tr credit_upd_node [OF tr buffered(3), of u] by simp_all
  show ?thesis unfolding buffered(8) using c2 buffered(1) credit_upd_node [OF c2(1) n2, of u]
      slot_mark_last [OF n buffered(6), of "saved_edge e w"]
    by (simp add: node_held_def on_next_def)
qed (use tr in simp)

text \<open>\<open>remove\<close> hands a streamed chunk back to its buffer.\<close>

definition take_back :: "string \<Rightarrow> string \<Rightarrow> 'd worker_graph_io \<Rightarrow> 'd graph_edge option \<times> 'd worker_graph_io" where
  "take_back x k w = (case wg_nodes w x of None \<Rightarrow> (None, w) | Some ns \<Rightarrow>
     (fst (slot_remove (ns_decl ns) k (ns_ready ns)),
      upd_node x (\<lambda>ns. ns\<lparr>ns_ready := snd (slot_remove (ns_decl ns) k (ns_ready ns))\<rparr>) w))"

definition back_uuids :: "'d graph_edge option \<Rightarrow> nat list" where
  "back_uuids e = (case e of None \<Rightarrow> [] | Some e \<Rightarrow> kept_uuids e)"

lemma slot_remove_uuids:
  assumes "slot_ok n sl"
  shows "count (mset (slot_uuids (snd (slot_remove n k sl)))) u + count (mset (back_uuids (fst (slot_remove n k sl)))) u =
    count (mset (slot_uuids sl)) u"
proof -
  have del: "distinct (map fst d) \<Longrightarrow> map_of d k = Some e \<Longrightarrow>
      count (mset (concat (map (\<lambda>(_, e). kept_uuids e) (dict_del k d)))) u + count (mset (kept_uuids e)) u =
      count (mset (concat (map (\<lambda>(_, e). kept_uuids e) d))) u" for d e
  proof (induction d)
    case (Cons p d)
    then show ?case
    proof (cases "fst p = k")
      case True
      with Cons.prems dict_del_fresh [of k d] show ?thesis by (cases p) (auto simp: dict_del_def)
    qed (auto simp: dict_del_def)
  qed simp
  have su: "slot_uuids sl = concat (map (\<lambda>(_, e). kept_uuids e) (sl_inputs sl))" for sl :: "'a ready_signals"
    by (simp add: slot_uuids_def kept_uuids_def)
  have d: "distinct (map fst (sl_inputs sl))" using assms by (simp add: slot_ok_def)
  show ?thesis
  proof (cases "map_of (sl_inputs sl) k")
    case (Some e)
    from del [OF d Some] show ?thesis unfolding slot_remove_def Some by (simp add: Let_def back_uuids_def su)
  qed (simp add: slot_remove_def back_uuids_def)
qed

lemma take_back_keeps:
  assumes "slots_ok w"
  shows "slots_ok (snd (take_back x k w))" "same_wiring w (snd (take_back x k w))"
    "tracked w \<Longrightarrow> tracked (snd (take_back x k w)) \<and>
      credit u (snd (take_back x k w)) = credit u w + int (count (mset (back_uuids (fst (take_back x k w)))) u)"
proof -
  show "slots_ok (snd (take_back x k w))"
    unfolding take_back_def using assms slot_remove_ok by (auto split: option.split intro!: slots_upd simp: node_ok_def)
  show "same_wiring w (snd (take_back x k w))"
    unfolding take_back_def by (auto split: option.split intro!: wiring_upd)
  assume tr: "tracked w"
  show "tracked (snd (take_back x k w)) \<and>
      credit u (snd (take_back x k w)) = credit u w + int (count (mset (back_uuids (fst (take_back x k w)))) u)"
  proof (cases "wg_nodes w x")
    case (Some ns)
    then have "slot_ok (ns_decl ns) (ns_ready ns)" using assms by (simp add: slots_ok_def node_ok_def)
    from slot_remove_uuids [OF this, of k u] Some tr show ?thesis
      by (simp add: take_back_def credit_upd_node node_held_def)
  qed (use tr in \<open>simp add: take_back_def back_uuids_def\<close>)
qed

section \<open>Speculative inputs\<close>

lemma spec_edge_keeps:
  assumes "spec_edge lb e (d, n, w) = Inr (d', n', w')" "slots_ok w"
  shows "slots_ok w' \<and> same_wiring w w' \<and> (tracked w \<longrightarrow> tracked w' \<and> credit u w' = credit u w)"
proof (cases "wg_nodes w (ge_next_node e)")
  case (Some ns)
  show ?thesis
  proof (cases "ge_name e \<notin> nd_inputs (ns_decl ns)")
    case False
    let ?f = "\<lambda>sl ns. ns\<lparr>ns_spec := sl\<rparr>"
    from assms(1) Some False obtain sl where sl: "slot_update (ns_decl ns) e (ns_spec ns) = Inr sl"
      "w' = (upd_node (ge_next_node e) (?f sl) w)\<lparr>wg_spec_nodes := list_add (ge_next_node e) (wg_spec_nodes (upd_node (ge_next_node e) (?f sl) w))\<rparr>"
      by (auto simp: spec_edge_def Let_def)
    have n: "node_ok (ge_next_node e) ns" using assms(2) Some by (simp add: slots_ok_def)
    have "slots_ok (upd_node (ge_next_node e) (?f sl) w)"
      by (rule slots_upd(4) [OF assms(2)]) (use Some n slot_update_Inr(1) [OF _ sl(1)] in \<open>auto simp: node_ok_def\<close>)
    moreover have "same_wiring w (upd_node (ge_next_node e) (?f sl) w)" by (intro wiring_upd) simp_all
    moreover have "tracked w \<Longrightarrow> credit u (upd_node (ge_next_node e) (?f sl) w) = credit u w"
      by (simp add: credit_upd_node_same node_held_def)
    moreover have "tracked w \<Longrightarrow> tracked (upd_node (ge_next_node e) (?f sl) w)" by simp
    ultimately show ?thesis unfolding sl(2) by (simp add: slots_ok_def same_wiring_def credit_def tracked_def)
  qed (use assms Some in \<open>simp add: spec_edge_def\<close>)
qed (use assms in \<open>simp add: spec_edge_def\<close>)

lemma speculation_keeps:
  assumes "ingest_for_speculation es s w = Inr (infos, w')" "slots_ok w"
  shows "slots_ok w' \<and> same_wiring w w' \<and> (tracked w \<longrightarrow> tracked w' \<and> credit u w' = credit u w)"
proof -
  obtain lb d n where run: "rfold (spec_edge lb) es ([], {}, w) = Inr (d, n, w')"
    using assms(1) by (auto simp: ingest_for_speculation_def Let_def split: if_splits)
  let ?P = "\<lambda>(d, n, w'). slots_ok w' \<and> same_wiring w w' \<and> (tracked w \<longrightarrow> tracked w' \<and> credit u w' = credit u w)"
  have "?P (d, n, w')"
  proof (rule rfold_invariant [OF run, where P = ?P])
    fix e s s' assume P: "?P s" and step: "spec_edge lb e s = Inr s'"
    obtain d1 n1 w1 d2 n2 w2 where s: "s = (d1, n1, w1)" "s' = (d2, n2, w2)" by (cases s; cases s')
    with P step spec_edge_keeps [of lb e d1 n1 w1 d2 n2 w2 u] same_wiring_trans [of w w1 w2] show "?P s'" by auto
  qed (use assms(2) in simp)
  then show ?thesis by simp
qed

lemma unspeculate_keeps:
  assumes "law w M" "graph_law law" "\<And>w. law w M \<Longrightarrow> law (w\<lparr>wg_spec_nodes := []\<rparr>) M"
  shows "law (clear_speculative_inputs w) M"
  unfolding clear_speculative_inputs_def
  by (rule assms(3), rule graph_law.fold_law [OF assms(2)]) (use assms(1) graph_law.spec [OF assms(2)] in auto)

section \<open>Reachable graphs\<close>

text \<open>\<open>D\<close>: the references accepted edges brought in; \<open>H\<close>: those handed to the caller.\<close>

inductive graph_reach :: "'d graph_section \<Rightarrow> 'd worker_graph_io \<Rightarrow> nat multiset \<Rightarrow> nat multiset \<Rightarrow> bool" for g where
  start: "new_worker_graph_io g i = Inr w \<Longrightarrow> names_ok g \<Longrightarrow> graph_reach g (register_communication_info w) {#} {#}"
| ingest: "graph_reach g w D H \<Longrightarrow> ingest_input e b w = Inr (ok, w') \<Longrightarrow>
    graph_reach g w' (if ok then D + mset (kept_uuids (saved_edge e w)) else D) H"
| completes: "graph_reach g w D H \<Longrightarrow> mark_node_complete x stride w = Inr (out, w') \<Longrightarrow>
    graph_reach g w' D (H + mset (co_refs out))"
| streamed_back: "graph_reach g w D H \<Longrightarrow> take_back x k w = (e, w') \<Longrightarrow> graph_reach g w' D (H + mset (back_uuids e))"
| finish: "graph_reach g w D H \<Longrightarrow> graph_reach g (register_loop_finish_signal l w) D H"
| clears: "graph_reach g w D H \<Longrightarrow> graph_reach g (clear_graph w) D H"
| resets: "graph_reach g w D H \<Longrightarrow> graph_reach g (root_reset_for_iter w) D H"
| speculates: "graph_reach g w D H \<Longrightarrow> ingest_for_speculation es x w = Inr (infos, w') \<Longrightarrow> graph_reach g w' D H"
| unspeculates: "graph_reach g w D H \<Longrightarrow> graph_reach g (clear_speculative_inputs w) D H"
| flies: "graph_reach g w D H \<Longrightarrow> graph_reach g (set_in_flight x b w) D H"
| outputs: "graph_reach g w D H \<Longrightarrow> graph_reach g (upd_node x (\<lambda>ns. ns\<lparr>ns_outputs := es\<rparr>) w) D H"
| picks: "graph_reach g w D H \<Longrightarrow> graph_reach g (upd_root (\<lambda>r. r\<lparr>rr_ready := rr_ready r - {x}\<rparr>) w) D H"

lemma new_graph_credit:
  assumes "new_worker_graph_io g i = Inr w"
  shows "tracked (register_communication_info w)" "credit u (register_communication_info w) = 0"
    "slots_ok (register_communication_info w)"
proof -
  have w: "wg_nodes w = map_of (map (\<lambda>n. (nd_name n, new_node n)) (get_nodes g))"
    "wg_loops w = map_of (map (\<lambda>(l, s). (ld_name l, new_loop l s)) (get_loops g))" "wg_calls w = []"
    using assms by (auto simp: new_worker_graph_io_def)
  have n: "\<exists>n. x = nd_name n \<and> ns = new_node n" if "wg_nodes w x = Some ns" for x ns
    using map_of_SomeD [OF that [unfolded w(1)]] by auto
  have l: "\<exists>d s. ls = new_loop d s" if "wg_loops w x = Some ls" for x ls
    using map_of_SomeD [OF that [unfolded w(2)]] by auto
  show "slots_ok (register_communication_info w)"
    using n by (fastforce simp: slots_ok_def register_communication_info_def node_ok_def new_node_def)
  show "tracked (register_communication_info w)"
    by (simp add: tracked_def register_communication_info_def w finite_dom_map_of)
  have "held (node_held u) (wg_nodes w) = 0" unfolding held_def
    by (rule sum.neutral) (use n in \<open>fastforce simp: node_held_def new_node_def\<close>)
  moreover have "held (loop_held u) (wg_loops w) = 0" unfolding held_def
    by (rule sum.neutral) (use l in \<open>fastforce simp: loop_held_def new_loop_def Let_def cache_uuids_def\<close>)
  ultimately show "credit u (register_communication_info w) = 0"
    by (simp add: credit_def register_communication_info_def w)
qed

lemma wired_keep: "same_wiring w w' \<Longrightarrow> wired w \<and> wg_graph w = g \<Longrightarrow> wired w' \<and> wg_graph w' = g"
  by (metis wired_same same_wiring_def)

lemma graph_invariant:
  "graph_reach g w D H \<Longrightarrow> (wired w \<and> wg_graph w = g) \<and> slots_ok w \<and> balanced u (int (count D u)) w H"
proof (induction rule: graph_reach.induct)
  case (start i w)
  from wired_new [OF this] new_graph_credit [OF start(1)] show ?case
    by (auto simp: balanced_def wired_def register_communication_info_def)
next
  case (ingest w D H e b ok w')
  have "same_wiring w w'" "slots_ok w'" using ingest_keeps [OF ingest.hyps(2)] ingest.IH by blast+
  moreover have "balanced u (int (count (if ok then D + mset (kept_uuids (saved_edge e w)) else D) u)) w' H"
    using ingest_credit [OF ingest.hyps(2), of u] ingest.IH by (simp add: balanced_def)
  ultimately show ?case using ingest.IH wired_keep by blast
next
  case (completes w D H x stride out w')
  note runs = completes.hyps(2)
  show ?case
    using wiring.node_completed [OF runs same_wiring_refl] slots.node_completed [OF runs]
      refs.node_completed [OF runs] completes.IH wired_keep by blast
next
  case (streamed_back w D H x k e w')
  have "snd (take_back x k w) = w'" "fst (take_back x k w) = e" using streamed_back.hyps(2) by simp_all
  then have "slots_ok w'" "same_wiring w w'" "balanced u (int (count D u)) w' (H + mset (back_uuids e))"
    using take_back_keeps(1,2) [of w x k] take_back_keeps(3) [of w x k u] streamed_back.IH by (auto simp: balanced_def)
  then show ?case using streamed_back.IH wired_keep by blast
next
  case (finish w D H l)
  have "same_wiring w (register_loop_finish_signal l w)" unfolding register_loop_finish_signal_def by (intro wiring_upd) simp_all
  moreover have "slots_ok (register_loop_finish_signal l w)" "balanced u (int (count D u)) (register_loop_finish_signal l w) H"
    using finish.IH by (simp_all add: slots_upd(2) register_loop_finish_signal_def balanced_def credit_upd_loop_same loop_held_def)
  ultimately show ?case using finish.IH wired_keep by blast
next
  case (clears w D H)
  then show ?case
    using wiring.graph_cleared [OF same_wiring_refl] slots.graph_cleared refs.graph_cleared wired_keep by blast
next
  case (resets w D H)
  then show ?case
    using wiring.graph_reset [OF same_wiring_refl] slots.graph_reset refs.graph_reset wired_keep by blast
next
  case (speculates w D H es x infos w')
  have "slots_ok w'" "same_wiring w w'" "balanced u (int (count D u)) w' H"
    using speculation_keeps [OF speculates.hyps(2), of u] speculates.IH by (auto simp: balanced_def)
  then show ?case using speculates.IH wired_keep by blast
next
  case (unspeculates w D H)
  have "same_wiring w (clear_speculative_inputs w)"
    by (rule unspeculate_keeps [OF same_wiring_refl wiring.graph_law_axioms]) (simp add: same_wiring_def)
  moreover have "slots_ok (clear_speculative_inputs w)"
    by (rule unspeculate_keeps [OF _ slots.graph_law_axioms]) (use unspeculates in \<open>simp_all add: slots_ok_def\<close>)
  moreover have "balanced u (int (count D u)) (clear_speculative_inputs w) H"
    by (rule unspeculate_keeps [OF _ refs.graph_law_axioms]) (use unspeculates in \<open>simp_all add: balanced_def credit_def tracked_def\<close>)
  ultimately show ?case using unspeculates.IH wired_keep by blast
next
  case (flies w D H x b)
  have "same_wiring w (set_in_flight x b w)" unfolding set_in_flight_def by (intro wiring_upd) simp_all
  moreover have "slots_ok (set_in_flight x b w)"
    unfolding set_in_flight_def by (rule slots_upd(4)) (use flies.IH in \<open>simp_all add: node_ok_def\<close>)
  moreover have "balanced u (int (count D u)) (set_in_flight x b w) H"
    using flies.IH by (simp add: set_in_flight_def balanced_def credit_upd_node_same node_held_def)
  ultimately show ?case using flies.IH wired_keep by blast
next
  case (outputs w D H x es)
  let ?w = "upd_node x (\<lambda>ns. ns\<lparr>ns_outputs := es\<rparr>) w"
  have "same_wiring w ?w" by (intro wiring_upd) simp_all
  moreover have "slots_ok ?w" by (rule slots_upd(4)) (use outputs.IH in \<open>simp_all add: node_ok_def\<close>)
  moreover have "balanced u (int (count D u)) ?w H"
    using outputs.IH by (simp add: balanced_def credit_upd_node_same node_held_def)
  ultimately show ?case using outputs.IH wired_keep by blast
next
  case (picks w D H x)
  let ?w = "upd_root (\<lambda>r. r\<lparr>rr_ready := rr_ready r - {x}\<rparr>) w"
  have "same_wiring w ?w" by (intro wiring_upd) simp_all
  then show ?case using picks.IH wired_keep slots.root refs.root by blast
qed

end
