(* ===== verification/Graph_Props.thy ===== *)
theory Graph_Props imports Graph_Reach begin

text \<open>
  What holds of every graph a worker runs: its calls return and its slots agree with their edges,
  its references balance, speculation leaves no trace; and three places where the Python graph
  does not do what it means to.
\<close>

section \<open>Calls return\<close>

text \<open>
  C29. However a worker drives a graph, every edge it offers is taken or refused without an
  exception, every node it completes returns its edges, and each slot tells the truth: its
  edges are filed once each under their own names, which are inputs of the node, and it is ready
  exactly when it holds an edge for every input.
\<close>

theorem graph_calls_return:
  assumes "graph_reach g w D H"
  shows "(\<exists>ok w'. ingest_input e b w = Inr (ok, w')) \<and>
    (\<forall>x \<in> set (node_names g). \<exists>out w'. mark_node_complete x stride w = Inr (out, w')) \<and>
    (\<forall>x ns. wg_nodes w x = Some ns \<longrightarrow> (\<forall>sl \<in> {ns_ready ns, ns_next ns, ns_spec ns}.
      distinct (map fst (sl_inputs sl)) \<and> fst ` set (sl_inputs sl) = sl_names sl \<and>
      (\<forall>(k, e) \<in> set (sl_inputs sl). ge_name e = k \<and> k \<in> nd_inputs (ns_decl ns)) \<and>
      (sl_ready sl \<longleftrightarrow> sl_names sl \<noteq> {} \<and> sl_names sl = nd_inputs (ns_decl ns))))"
proof -
  have inv: "wired w" "wg_graph w = g" "slots_ok w" using graph_invariant [OF assms] by blast+
  have sl: "distinct (map fst (sl_inputs sl)) \<and> fst ` set (sl_inputs sl) = sl_names sl \<and>
      (\<forall>(k, e) \<in> set (sl_inputs sl). ge_name e = k \<and> k \<in> nd_inputs n) \<and>
      (sl_ready sl \<longleftrightarrow> sl_names sl \<noteq> {} \<and> sl_names sl = nd_inputs n)" if "slot_ok n sl" for n sl
  proof -
    have a: "distinct (map fst (sl_inputs sl))" "fst ` set (sl_inputs sl) = sl_names sl" "sl_names sl \<subseteq> nd_inputs n"
      "\<forall>(k, e) \<in> set (sl_inputs sl). ge_name e = k" "sl_ready sl \<longleftrightarrow> sl_names sl \<noteq> {} \<and> nd_inputs n \<subseteq> sl_names sl"
      using that unfolding slot_ok_def by blast+
    have "\<forall>(k, e) \<in> set (sl_inputs sl). ge_name e = k \<and> k \<in> nd_inputs n" using a(2,3,4) by fastforce
    moreover have "sl_ready sl \<longleftrightarrow> sl_names sl \<noteq> {} \<and> sl_names sl = nd_inputs n" using a(3,5) by auto
    ultimately show ?thesis using a(1,2) by (intro conjI)
  qed
  have "\<exists>ok w'. ingest_input e b w = Inr (ok, w')" using ok_pair [OF ingest_total [OF inv(3)]] by blast
  moreover have "\<exists>out w'. mark_node_complete x stride w = Inr (out, w')" if "x \<in> set (node_names g)" for x
    using mark_node_complete_total inv that by blast
  moreover have "node_ok x ns" if "wg_nodes w x = Some ns" for x ns using inv(3) that by (simp add: slots_ok_def)
  ultimately show ?thesis unfolding node_ok_def using sl by (intro conjI) blast+
qed

text \<open>Two nodes in a loop of three iterations, the first fed back by itself.\<close>

definition demo_info :: "nat \<Rightarrow> unit tensor_info" where
  "demo_info u = \<lparr>ti_dims = [1], ti_dtype = (), ti_nbytes = 4, ti_address = 0, ti_stride = [1], ti_uuid = u,
     ti_session = ''h'', ti_entity = ''w1'', ti_offset = 0, ti_tp_size = 1, ti_tp_rank = 0, ti_shm_segment = None,
     ti_shm_offset = 0, ti_node = None, ti_walk = None\<rparr>"

definition demo_node :: "string \<Rightarrow> string list \<Rightarrow> unit graph_edge list \<Rightarrow> unit graph_section" where
  "demo_node x ins outs = NodeSec \<lparr>nd_name = x, nd_inputs = set ins, nd_outputs = outs, nd_consumes_stream = False,
     nd_async_scheduling = True, nd_streaming = {}\<rparr>"

definition demo_graph :: "unit graph_section" where
  "demo_graph = LoopSec \<lparr>ld_name = ''L'', ld_max_iters = 3, ld_outputs = [new_edge ''out'' ''y''], ld_accumulated = [],
     ld_external = None, ld_loop_back = None\<rparr>
     (SeqSec [demo_node ''A'' [''x''] [new_edge ''A'' ''x'', new_edge ''B'' ''y''], demo_node ''B'' [''y''] [new_edge ''out'' ''y'']])"

definition demo_input :: "unit graph_edge" where
  "demo_input = (new_edge ''A'' ''x'')\<lparr>ge_tensor_info := [demo_info 7]\<rparr>"

definition demo_start :: "unit worker_graph_io" where
  "demo_start = register_communication_info (projr (new_worker_graph_io demo_graph None))"

definition demo_fed :: "unit worker_graph_io" where
  "demo_fed = snd (projr (ingest_input demo_input True demo_start))"

lemma demo_start: "graph_reach demo_graph demo_start {#} {#}"
proof -
  have "is_ok (new_worker_graph_io demo_graph None)" "names_ok demo_graph" by code_simp+
  then show ?thesis unfolding demo_start_def by (intro graph_reach.start [OF ok_projr])
qed

lemma demo_fed: "ingest_input demo_input True demo_start = Inr (True, demo_fed)"
proof -
  have "is_ok (ingest_input demo_input True demo_start)" using graph_invariant [OF demo_start] ingest_total by blast
  moreover have "fst (projr (ingest_input demo_input True demo_start))" by code_simp
  ultimately show ?thesis unfolding demo_fed_def using ok_pair by fastforce
qed

lemma demo_fed_reach: "graph_reach demo_graph demo_fed {#7#} {#}"
proof -
  have "mset (kept_uuids (saved_edge demo_input demo_start)) = {#7#}" by code_simp
  with graph_reach.ingest [OF demo_start demo_fed] show ?thesis by simp
qed

theorem graph_calls_return_witness: "\<exists>out w'. mark_node_complete ''A'' 1 demo_fed = Inr (out, w')"
proof -
  have "''A'' \<in> set (node_names demo_graph)" by code_simp
  with graph_calls_return [OF demo_fed_reach, of demo_input True 1] show ?thesis by blast
qed

section \<open>References balance\<close>

definition refs_taken :: "nat \<Rightarrow> 'd worker_graph_io \<Rightarrow> nat" where
  "refs_taken u w = length (filter (\<lambda>c. c = IncrementRef u) (wg_calls w))"

definition refs_given :: "nat \<Rightarrow> 'd worker_graph_io \<Rightarrow> nat" where
  "refs_given u w = (\<Sum>c \<leftarrow> wg_calls w. case c of DereferenceBatch us \<Rightarrow> count (mset us) u | _ \<Rightarrow> 0)"

definition refs_in_slots :: "nat \<Rightarrow> 'd worker_graph_io \<Rightarrow> nat" where
  "refs_in_slots u w = (\<Sum>x \<in> dom (wg_nodes w). let ns = the (wg_nodes w x) in
     count (mset (slot_uuids (ns_ready ns) @ slot_uuids (ns_next ns))) u)"

definition refs_in_caches :: "nat \<Rightarrow> 'd worker_graph_io \<Rightarrow> nat" where
  "refs_in_caches u w = (\<Sum>l \<in> dom (wg_loops w). let ls = the (wg_loops w l) in
     count (mset (cache_uuids (ls_cached ls) @ cache_uuids (ls_acc_cache ls))) u)"

text \<open>
  C30. No reference is lost or given back twice: at any time, the references a graph took of the
  tensor manager and those accepted edges brought it are those it gave back, those it handed to
  its caller, and those its slots and output caches hold. (Inputs a loop saved for its next
  iterations are the loop's, and counted on neither side.)
\<close>

theorem graph_refs_balanced:
  assumes "graph_reach g w D H"
  shows "refs_taken u w + count D u = refs_given u w + count H u + refs_in_slots u w + refs_in_caches u w"
proof -
  have "sum_list (map (call_credit u) cs) =
      int (length (filter (\<lambda>c. c = IncrementRef u) cs)) - int (\<Sum>c \<leftarrow> cs. case c of DereferenceBatch us \<Rightarrow> count (mset us) u | _ \<Rightarrow> 0)" for cs
    by (induction cs) (auto simp: call_credit_def split: tm_call.split)
  then have "credit u w = int (refs_taken u w) - int (refs_given u w) - int (refs_in_slots u w) - int (refs_in_caches u w)"
    by (simp add: credit_def held_def refs_taken_def refs_given_def refs_in_slots_def refs_in_caches_def
        node_held_def loop_held_def Let_def)
  moreover have "credit u w = int (count H u) - int (count D u)" using graph_invariant [OF assms] by (simp add: balanced_def)
  ultimately show ?thesis by linarith
qed

theorem graph_refs_balanced_witness:
  "refs_taken 7 demo_fed + 1 = refs_given 7 demo_fed + refs_in_slots 7 demo_fed + refs_in_caches 7 demo_fed"
  using graph_refs_balanced [OF demo_fed_reach, of 7] by simp

section \<open>Speculation leaves no trace\<close>

definition unspeculated :: "'d worker_graph_io \<Rightarrow> 'd worker_graph_io" where
  "unspeculated w = w\<lparr>wg_nodes := (\<lambda>x. map_option (\<lambda>ns. ns\<lparr>ns_spec := empty_slot\<rparr>) (wg_nodes w x)), wg_spec_nodes := []\<rparr>"

lemma list_add_set [simp]: "set (list_add x xs) = insert x (set xs)"
  by (auto simp: list_add_def)

lemma spec_edge_shape:
  assumes "spec_edge lb e (d, n, w) = Inr (d', n', w')"
  obtains "w' = w" | sl where "w' = (upd_node (ge_next_node e) (\<lambda>ns. ns\<lparr>ns_spec := sl\<rparr>) w)\<lparr>wg_spec_nodes := list_add (ge_next_node e) (wg_spec_nodes w)\<rparr>"
  using assms by (auto simp: spec_edge_def upd_node_def Let_def split: option.splits if_splits)

lemma spec_edge_trace:
  assumes "spec_edge lb e (d, n, w) = Inr (d', n', w')"
    and touched: "\<forall>x ns. wg_nodes w x = Some ns \<longrightarrow> ns_spec ns = empty_slot \<or> x \<in> set (wg_spec_nodes w)"
  shows "unspeculated w' = unspeculated w"
    "\<forall>x ns. wg_nodes w' x = Some ns \<longrightarrow> ns_spec ns = empty_slot \<or> x \<in> set (wg_spec_nodes w')"
  using assms(1)
proof (atomize (full), cases rule: spec_edge_shape)
  case (2 sl)
  have "unspeculated w' = unspeculated w" unfolding 2
    by (auto simp: unspeculated_def upd_node_def fun_eq_iff option.map_comp comp_def)
  moreover have "ns_spec ns = empty_slot \<or> x \<in> set (wg_spec_nodes w')" if "wg_nodes w' x = Some ns" for x ns
    using that touched unfolding 2 by (cases "x = ge_next_node e") (auto simp: upd_node_def)
  ultimately show "unspeculated w' = unspeculated w \<and>
    (\<forall>x ns. wg_nodes w' x = Some ns \<longrightarrow> ns_spec ns = empty_slot \<or> x \<in> set (wg_spec_nodes w'))" by blast
qed (use touched in simp)

lemma fold_clear_spec:
  "fold clear_spec xs w = w\<lparr>wg_nodes := (\<lambda>x. map_option (\<lambda>ns. if x \<in> set xs then ns\<lparr>ns_spec := empty_slot\<rparr> else ns) (wg_nodes w x))\<rparr>"
proof (induction xs arbitrary: w)
  case (Cons a xs)
  have f: "map_option (\<lambda>ns. if x \<in> set xs then ns\<lparr>ns_spec := empty_slot\<rparr> else ns) (wg_nodes (clear_spec a w) x) =
      map_option (\<lambda>ns. if x \<in> set (a # xs) then ns\<lparr>ns_spec := empty_slot\<rparr> else ns) (wg_nodes w x)" for x
    by (cases "wg_nodes w x") (auto simp: clear_spec_def upd_node_def)
  show ?case unfolding fold_simps(2) Cons.IH f by (simp add: clear_spec_def upd_node_def)
qed (simp add: option.map_ident)

text \<open>
  C31. Discarding a speculative schedule undoes it: after \<open>ingest_for_speculation\<close>,
  \<open>clear_speculative_inputs\<close> gives back the graph as it was. And a node is proposed only if every
  input that is not streamed is there or was anticipated.
\<close>

theorem speculation_undone:
  assumes run: "ingest_for_speculation edges source w = Inr (infos, w')"
    and start: "wg_spec_nodes w = []" "\<And>x ns. wg_nodes w x = Some ns \<Longrightarrow> ns_spec ns = empty_slot"
  shows "clear_speculative_inputs w' = w \<and>
    (\<forall>i \<in> set infos. \<exists>ns. wg_nodes w' (si_node i) = Some ns \<and> nd_inputs (ns_decl ns) - nd_streaming (ns_decl ns) \<subseteq>
      sl_names (ns_spec ns) \<union> (if si_node i = source then sl_names (ns_next ns) \<union> persisted_input_names ns else sl_names (ns_ready ns)))"
proof -
  obtain lb d n where spec: "rfold (spec_edge lb) edges ([], {}, w) = Inr (d, n, w')" and
    infos: "infos = concat (map (\<lambda>x. case wg_nodes w' x of None \<Rightarrow> [] | Some ns \<Rightarrow>
             if is_ready_for_speculation ns (x = source) True
             then [\<lparr>si_node = x, si_new_iter = (x \<in> n),
                    si_loop = (case chain_of x w' of [] \<Rightarrow> None | l # _ \<Rightarrow> Some l)\<rparr>] else []) d)"
    using run by (auto simp: ingest_for_speculation_def Let_def split: if_splits)
  let ?P = "\<lambda>(d, n, w'). unspeculated w' = unspeculated w \<and>
    (\<forall>x ns. wg_nodes w' x = Some ns \<longrightarrow> ns_spec ns = empty_slot \<or> x \<in> set (wg_spec_nodes w'))"
  have "?P (d, n, w')"
  proof (rule rfold_invariant [OF spec, where P = ?P])
    fix e s s' assume P: "?P s" and step: "spec_edge lb e s = Inr s'"
    obtain d1 n1 w1 d2 n2 w2 where s: "s = (d1, n1, w1)" "s' = (d2, n2, w2)" by (cases s; cases s')
    have t: "\<forall>x ns. wg_nodes w1 x = Some ns \<longrightarrow> ns_spec ns = empty_slot \<or> x \<in> set (wg_spec_nodes w1)" using P unfolding s by simp
    show "?P s'" using P spec_edge_trace [OF step [unfolded s] t] unfolding s by simp
  qed (use start in auto)
  then have same: "unspeculated w' = unspeculated w" and
    touched: "\<And>x ns. wg_nodes w' x = Some ns \<Longrightarrow> ns_spec ns = empty_slot \<or> x \<in> set (wg_spec_nodes w')" by simp_all
  have "map_option (\<lambda>ns. if x \<in> set (wg_spec_nodes w') then ns\<lparr>ns_spec := empty_slot\<rparr> else ns) (wg_nodes w' x) =
      map_option (\<lambda>ns. ns\<lparr>ns_spec := empty_slot\<rparr>) (wg_nodes w' x)" for x
    using touched [of x] by (cases "wg_nodes w' x") auto
  then have "clear_speculative_inputs w' = unspeculated w'"
    unfolding clear_speculative_inputs_def fold_clear_spec by (simp add: unspeculated_def)
  also have "\<dots> = unspeculated w" by (rule same)
  also have "\<dots> = w"
  proof -
    have "map_option (\<lambda>ns. ns\<lparr>ns_spec := empty_slot\<rparr>) (wg_nodes w x) = wg_nodes w x" for x
      using start(2) [of x] by (cases "wg_nodes w x") auto
    then show ?thesis using start(1) by (simp add: unspeculated_def)
  qed
  finally have "clear_speculative_inputs w' = w" .
  moreover have "\<exists>ns. wg_nodes w' (si_node i) = Some ns \<and> nd_inputs (ns_decl ns) - nd_streaming (ns_decl ns) \<subseteq>
      sl_names (ns_spec ns) \<union> (if si_node i = source then sl_names (ns_next ns) \<union> persisted_input_names ns else sl_names (ns_ready ns))"
    if i: "i \<in> set infos" for i
  proof -
    obtain x ns where x: "wg_nodes w' x = Some ns" "is_ready_for_speculation ns (x = source) True" "si_node i = x"
      using i unfolding infos by (auto dest: sym split: option.splits if_splits)
    then show ?thesis by (cases "x = source") (auto simp: is_ready_for_speculation_def Let_def)
  qed
  ultimately show ?thesis by blast
qed

theorem speculation_undone_witness:
  "\<exists>infos w'. ingest_for_speculation [demo_input] ''A'' demo_start = Inr (infos, w') \<and> infos \<noteq> [] \<and>
    clear_speculative_inputs w' = demo_start"
proof -
  have ok: "is_ok (ingest_for_speculation [demo_input] ''A'' demo_start)"
    "fst (projr (ingest_for_speculation [demo_input] ''A'' demo_start)) \<noteq> []" by code_simp+
  obtain infos w' where run: "ingest_for_speculation [demo_input] ''A'' demo_start = Inr (infos, w')"
    using ok_pair [OF ok(1)] by blast
  have "wg_spec_nodes demo_start = []" by code_simp
  moreover have "ns_spec ns = empty_slot" if "wg_nodes demo_start x = Some ns" for x ns
  proof -
    have "wg_nodes demo_start = map_of (map (\<lambda>n. (nd_name n, new_node n)) (get_nodes demo_graph))"
    proof -
      have "is_ok (new_worker_graph_io demo_graph None)" by code_simp
      then obtain w where "new_worker_graph_io demo_graph None = Inr w" using is_okE by blast
      then show ?thesis by (auto simp: demo_start_def register_communication_info_def new_worker_graph_io_def)
    qed
    with that show ?thesis by (auto dest!: map_of_SomeD simp: new_node_def)
  qed
  ultimately have "clear_speculative_inputs w' = demo_start" using speculation_undone [OF run] by blast
  then show ?thesis using run ok(2) by auto
qed

end
