(* ===== verification/Graph_Loops.thy ===== *)
theory Graph_Loops imports Graph_Props begin

text \<open>
  Loops: how many times one runs, by the completions of its members, and three places where the
  Python graph does not do what it means to.
\<close>

section \<open>Other loops keep out of the way\<close>

lemma upd_other [simp]:
  "wg_loops (upd_node x f w) = wg_loops w" "wg_loops (upd_root rf w) = wg_loops w"
  "l \<noteq> l' \<Longrightarrow> wg_loops (upd_loop l' lf w) l = wg_loops w l"
  by (simp_all add: upd_node_def upd_root_def upd_loop_def)

lemma upd_loop_at: "wg_loops (upd_loop l f w) l = map_option f (wg_loops w l)"
  by (simp add: upd_loop_def)

lemma step_loops [simp]:
  "wg_loops (clear_ready x w) = wg_loops w" "wg_loops (clear_next x w) = wg_loops w" "wg_loops (clear_spec x w) = wg_loops w"
  "wg_loops (reset_node x w) = wg_loops w" "wg_loops (clear_node x w) = wg_loops w" "wg_loops (reseed_streaming x w) = wg_loops w"
  by (auto simp: clear_ready_def clear_next_def clear_spec_def reset_node_def clear_node_def reseed_streaming_def split: option.split)

lemma fold_loops: "(\<And>x w. x \<in> set xs \<Longrightarrow> P (f x w) = P w) \<Longrightarrow> P (fold f xs w) = P w"
  by (induction xs arbitrary: w) auto

lemma reseed_loops [simp]: "wg_loops (reseed_members s w) = wg_loops w"
  unfolding reseed_members_def by (rule fold_loops) simp

lemma uncache_loops [simp]:
  "l \<noteq> l' \<Longrightarrow> wg_loops (uncache_accumulated l' w) l = wg_loops w l" "l \<noteq> l' \<Longrightarrow> wg_loops (uncache_outputs l' w) l = wg_loops w l"
  by (auto simp: uncache_accumulated_def uncache_outputs_def split: option.split)

lemma members_keep_loop:
  "l \<notin> set (loop_names s) \<Longrightarrow> wg_loops (reset_members s w) l = wg_loops w l"
  "l \<notin> set (loop_names s) \<Longrightarrow> wg_loops (clear_members s w) l = wg_loops w l"
proof (induction s arbitrary: w)
  case (SeqSec ss)
  { case 1 with SeqSec(1) show ?case by (auto intro!: fold_loops [of _ "\<lambda>w. wg_loops w l"]) }
  { case 2 with SeqSec(2) show ?case by (auto intro!: fold_loops [of _ "\<lambda>w. wg_loops w l"]) }
next
  case (ParSec ss)
  { case 1 with ParSec(1) show ?case by (auto intro!: fold_loops [of _ "\<lambda>w. wg_loops w l"]) }
  { case 2 with ParSec(2) show ?case by (auto intro!: fold_loops [of _ "\<lambda>w. wg_loops w l"]) }
next
  case (LoopSec d s)
  { case 1 with LoopSec(1) show ?case by (simp add: reset_metadata_def fresh_count_def) }
  { case 2 with LoopSec(2) show ?case by (simp add: reset_metadata_def fresh_count_def) }
qed simp_all

text \<open>Caching and counting touch the caches and the counter only.\<close>

definition uncached :: "'d loop_state \<Rightarrow> 'd loop_state" where
  "uncached ls = ls\<lparr>ls_cached := [], ls_acc_cache := []\<rparr>"

lemma calls_loops [simp]: "wg_loops (fold (\<lambda>i. tm_call (IncrementRef (ti_uuid i))) is w) = wg_loops w"
  by (induction "is" arbitrary: w) (auto simp: tm_call_def)

lemma cache_outputs_loop: "map_option uncached (wg_loops (cache_outputs l seen es w) k) = map_option uncached (wg_loops w k)"
proof (induction es arbitrary: seen w)
  case (Cons e es)
  have "map_option uncached (wg_loops (case Option.bind (wg_loops w l) (cache_edge e) of None \<Rightarrow> w
      | Some ls \<Rightarrow> fold (\<lambda>i. tm_call (IncrementRef (ti_uuid i))) (ge_tensor_info e) (upd_loop l (\<lambda>_. ls) w)) k) =
    map_option uncached (wg_loops w k)"
  proof (cases "Option.bind (wg_loops w l) (cache_edge e)")
    case (Some ls')
    then obtain ls where ls: "wg_loops w l = Some ls" "cache_edge e ls = Some ls'" by (cases "wg_loops w l") auto
    then have "uncached ls' = uncached ls" by (auto simp: cache_edge_def uncached_def split: if_splits)
    then show ?thesis using ls(1) Some by (simp add: upd_loop_def)
  qed simp
  then show ?case using Cons.IH by (simp add: Let_def)
qed simp

section \<open>One completion\<close>

text \<open>A loop's state while it runs: \<open>ls\<close>, but at iteration \<open>i\<close> with counter \<open>r\<close>, whatever it caches.\<close>

definition stands :: "string \<Rightarrow> int \<Rightarrow> registry \<Rightarrow> 'd loop_state \<Rightarrow> 'd worker_graph_io \<Rightarrow> bool" where
  "stands l i r ls w \<longleftrightarrow> map_option uncached (wg_loops w l) = Some (uncached (ls\<lparr>ls_iter := i, ls_registry := r\<rparr>))"

lemma standsE:
  assumes "stands l i r ls w"
  obtains lw where "wg_loops w l = Some lw" "ls_section lw = ls_section ls" "ls_iter lw = i" "ls_registry lw = r"
    "ls_max_iters lw = ls_max_iters ls" "ls_finish lw = ls_finish ls" "ls_done lw = ls_done ls"
proof -
  obtain lw where lw: "wg_loops w l = Some lw" and u: "uncached lw = uncached (ls\<lparr>ls_iter := i, ls_registry := r\<rparr>)"
    using assms by (auto simp: stands_def)
  have "ls_section lw = ls_section ls" "ls_max_iters lw = ls_max_iters ls" "ls_iter lw = i" "ls_registry lw = r"
    "ls_finish lw = ls_finish ls" "ls_done lw = ls_done ls"
    using arg_cong [OF u, of ls_section] arg_cong [OF u, of ls_max_iters] arg_cong [OF u, of ls_iter]
      arg_cong [OF u, of ls_registry] arg_cong [OF u, of ls_finish] arg_cong [OF u, of ls_done]
    by (simp_all add: uncached_def)
  then show ?thesis using that lw by blast
qed

lemma stands_same: "map_option uncached (wg_loops w' l) = map_option uncached (wg_loops w l) \<Longrightarrow> stands l i r ls w' = stands l i r ls w"
  by (simp add: stands_def)

lemma stands_upd:
  assumes "stands l i r ls w"
  shows "(\<And>lw. wg_loops w l = Some lw \<Longrightarrow> f lw = lw\<lparr>ls_registry := r'\<rparr>) \<Longrightarrow> stands l i r' ls (upd_loop l f w)"
    "(\<And>lw. wg_loops w l = Some lw \<Longrightarrow> f lw = lw\<lparr>ls_iter := i'\<rparr>) \<Longrightarrow> stands l i' r ls (upd_loop l f w)"
proof -
  obtain lw where lw: "wg_loops w l = Some lw" and u: "uncached lw = uncached (ls\<lparr>ls_iter := i, ls_registry := r\<rparr>)"
    using assms by (auto simp: stands_def)
  have up: "uncached (lw\<lparr>ls_registry := r'\<rparr>) = (uncached lw)\<lparr>ls_registry := r'\<rparr>" "uncached (lw\<lparr>ls_iter := i'\<rparr>) = (uncached lw)\<lparr>ls_iter := i'\<rparr>"
    by (simp_all add: uncached_def)
  show "(\<And>lw. wg_loops w l = Some lw \<Longrightarrow> f lw = lw\<lparr>ls_registry := r'\<rparr>) \<Longrightarrow> stands l i r' ls (upd_loop l f w)"
    "(\<And>lw. wg_loops w l = Some lw \<Longrightarrow> f lw = lw\<lparr>ls_iter := i'\<rparr>) \<Longrightarrow> stands l i' r ls (upd_loop l f w)"
    unfolding stands_def upd_loop_at lw by (simp_all add: up u) (simp_all add: uncached_def)
qed

lemma stands_uncache: "stands l i r ls (uncache_outputs l w) = stands l i r ls w"
proof (rule stands_same, cases "wg_loops w l")
  case (Some lw)
  then show "map_option uncached (wg_loops (uncache_outputs l w) l) = map_option uncached (wg_loops w l)"
    by (simp add: uncache_outputs_def upd_loop_def tm_call_def uncached_def)
qed (simp add: uncache_outputs_def)

lemma stands_inner:
  assumes "stands l i r ls w" "l \<notin> set (loop_names s)"
  shows "stands l i fresh_registry ls (reset_inner l s w)" "stands l i fresh_registry ls (clear_inner l s w)"
proof -
  have "stands l i fresh_registry ls (fresh_count l w)" unfolding fresh_count_def by (rule stands_upd(1) [OF assms(1)]) simp
  then show "stands l i fresh_registry ls (reset_inner l s w)" "stands l i fresh_registry ls (clear_inner l s w)"
    unfolding stands_def reset_inner_def clear_inner_def by (simp_all add: members_keep_loop assms(2))
qed

text \<open>A member that is not the last to complete; the last one with iterations left; the last one of all.\<close>

lemma member_completes:
  assumes st: "stands l i \<lparr>rg_done = False, rg_completed = c\<rparr> ls w"
    and x: "managed (ls_section ls) x = Some e" and k: "k = length (top_level_entities (ls_section ls))"
    and l: "l \<notin> set (loop_names (ls_section ls))" and run: "mark_complete (l # chain) x stride w = Inr (out, w')"
  shows "Suc c < k \<Longrightarrow> stands l i \<lparr>rg_done = False, rg_completed = Suc c\<rparr> ls w'"
    "Suc c = k \<Longrightarrow> i + stride < ls_max_iters ls \<Longrightarrow> \<not> ls_finish ls \<Longrightarrow> stands l (i + stride) fresh_registry ls w'"
    "Suc c = k \<Longrightarrow> i + stride \<ge> ls_max_iters ls \<or> ls_finish ls \<Longrightarrow> chain = [] \<Longrightarrow>
      \<exists>l'. wg_loops w' l = Some l' \<and> ls_done l'"
proof -
  obtain lw where lw: "wg_loops w l = Some lw" "ls_section lw = ls_section ls" "ls_registry lw = \<lparr>rg_done = False, rg_completed = c\<rparr>"
    using st by (rule standsE)
  let ?r = "count_entity k \<lparr>rg_done = False, rg_completed = c\<rparr>"
  let ?w1 = "upd_loop l (\<lambda>ls. ls\<lparr>ls_registry := count_entity (length (top_level_entities (ls_section ls))) (ls_registry ls)\<rparr>) w"
  let ?w2 = "cache_outputs l {} (entity_outputs e ?w1) ?w1"
  have "stands l i ?r ls ?w1" by (rule stands_upd(1) [OF st]) (use lw k in simp)
  then have w2: "stands l i ?r ls ?w2" using stands_same [OF cache_outputs_loop] by blast
  have run': "(if \<not> rg_done ?r then w' = ?w2 else \<exists>up. complete_iter (mark_complete chain l 1) l stride ?w2 = Inr (up, w'))"
    using run x lw k by (auto simp: Let_def split: if_splits)
  obtain l2 where l2: "wg_loops ?w2 l = Some l2" "ls_section l2 = ls_section ls" "ls_iter l2 = i"
    "ls_max_iters l2 = ls_max_iters ls" "ls_finish l2 = ls_finish ls" using w2 by (rule standsE)
  show "stands l i \<lparr>rg_done = False, rg_completed = Suc c\<rparr> ls w'" if "Suc c < k"
    using that run' w2 by (simp add: count_entity_def)
  show "stands l (i + stride) fresh_registry ls w'" if "Suc c = k" "i + stride < ls_max_iters ls" "\<not> ls_finish ls"
  proof -
    let ?w3 = "upd_loop l (\<lambda>ls. ls\<lparr>ls_iter := ls_iter ls + stride\<rparr>) ?w2"
    have w': "w' = uncache_outputs l (reset_inner l (ls_section ls) ?w3)"
      using run' that l2 by (auto simp: count_entity_def complete_iter_def)
    have "stands l (i + stride) ?r ls ?w3" by (rule stands_upd(2) [OF w2]) (use l2 in simp)
    then show ?thesis unfolding w' stands_uncache using stands_inner(1) l by blast
  qed
  show "\<exists>l'. wg_loops w' l = Some l' \<and> ls_done l'" if t: "Suc c = k" "i + stride \<ge> ls_max_iters ls \<or> ls_finish ls" "chain = []"
  proof -
    let ?w3 = "upd_loop l (\<lambda>ls. ls\<lparr>ls_done := True\<rparr>) ?w2"
    let ?w4 = "clear_inner l (ls_section ls) ?w3"
    have l4: "wg_loops ?w4 l = Some (l2\<lparr>ls_done := True, ls_registry := fresh_registry\<rparr>)"
      using l2(1) by (simp add: clear_inner_def members_keep_loop l fresh_count_def upd_loop_at)
    have "\<not> (\<not> (ls_iter l2 + stride \<ge> ls_max_iters l2 \<or> ls_finish l2))" using t(2) l2 by simp
    then obtain up where "root_complete l (finish_loop l ?w4) = Inr (up, w')"
      using run' t(1,3) l2 l4 by (auto simp: count_entity_def complete_iter_def Let_def)
    then have "wg_loops w' = wg_loops (finish_loop l ?w4)"
      by (auto simp: root_complete_def Let_def split: option.splits graph_section.splits)
    then show ?thesis using l4 by (simp add: finish_loop_def upd_loop_at)
  qed
qed

section \<open>All iterations of a loop\<close>

lemma loop_not_inside: "names_ok g \<Longrightarrow> (d, s) \<in> set (get_loops g) \<Longrightarrow> ld_name d \<notin> set (all_names s)"
proof (induction g)
  case (SeqSec ss)
  then show ?case using names_ok_parts(1) [OF SeqSec.prems(1)] by auto
next
  case (ParSec ss)
  then show ?case using names_ok_parts(2) [OF ParSec.prems(1)] by auto
next
  case (LoopSec d' s')
  then show ?case using names_ok_parts(3) [OF LoopSec.prems(1)] by auto
qed simp

lemma top_loop:
  assumes w: "wired w" and x: "x \<in> set (node_names (wg_graph w))" "chain_of x w = [l]" and l: "wg_loops w l = Some ls"
  shows "\<exists>e. managed (ls_section ls) x = Some e" "l \<notin> set (loop_names (ls_section ls))" "0 < length (top_level_entities (ls_section ls))"
proof -
  have "chain_ok (wg_graph w) x [l]" using wired_chain [OF w, of x] x by (simp add: all_names_def)
  then obtain d s where d: "(d, s) \<in> set (get_loops (wg_graph w))" "ld_name d = l" "manages s x" by (auto simp: chain_ok_def)
  obtain st where "wg_loops w l = Some st" "ls_section st = s" using w d(1,2) unfolding wired_def by fastforce
  then have s: "ls_section ls = s" using l by simp
  show "\<exists>e. managed (ls_section ls) x = Some e" using managed_iff [of s x] d(3) s by auto
  show "0 < length (top_level_entities (ls_section ls))" using d(3) s by (auto simp: manages_def)
  have "names_ok (wg_graph w)" using w unfolding wired_def by blast
  from loop_not_inside [OF this d(1)] show "l \<notin> set (loop_names (ls_section ls))" using d(2) s by (auto simp: all_names_def)
qed

definition run_completions :: "string list \<Rightarrow> 'd worker_graph_io \<Rightarrow> 'd worker_graph_io res" where
  "run_completions xs w = rfold (\<lambda>x w. rbind (mark_node_complete x 1 w) (\<lambda>(_, w). Inr w)) xs w"

lemma run_snoc:
  assumes "run_completions xs w = Inr w1" "mark_node_complete x 1 w1 = Inr (out, w2)"
  shows "run_completions (xs @ [x]) w = Inr w2"
  using assms by (simp add: run_completions_def rfold_append)

lemma node_completes:
  assumes "mark_node_complete x stride w = Inr (out, w')" "chain_of x w = l # chain"
  obtains up w1 where "mark_complete (l # chain) x stride w = Inr (up, w1)" "wg_loops w' = wg_loops w1"
proof -
  obtain up w1 where up: "mark_complete (l # chain) x stride w = Inr (up, w1)"
    "w' = w1 \<or> w' = w1\<lparr>wg_runs := wg_runs w1 + 1\<rparr>"
    using assms by (auto simp: mark_node_complete_def simp del: mark_complete.simps split: if_splits)
  show ?thesis by (rule that [OF up(1)]) (use up(2) in auto)
qed

text \<open>After \<open>j\<close> completions: the rounds done, and how far into the next one the loop is.\<close>

definition after :: "string \<Rightarrow> 'd loop_state \<Rightarrow> 'd worker_graph_io \<Rightarrow> string list \<Rightarrow> nat \<Rightarrow> 'd worker_graph_io \<Rightarrow> bool" where
  "after l ls w xs j wj \<longleftrightarrow> (let k = length (top_level_entities (ls_section ls)) in
     run_completions (take j xs) w = Inr wj \<and> wired wj \<and> wg_graph wj = wg_graph w \<and>
     stands l (int (j div k)) \<lparr>rg_done = False, rg_completed = j mod k\<rparr> ls wj)"

definition members_only :: "string \<Rightarrow> 'd worker_graph_io \<Rightarrow> string list \<Rightarrow> bool" where
  "members_only l w xs \<longleftrightarrow> (\<forall>x \<in> set xs. x \<in> set (node_names (wg_graph w)) \<and> chain_of x w = [l])"

lemma after_one:
  assumes w: "wired w" "members_only l w xs" and ls: "wg_loops w l = Some ls" and at: "after l ls w xs j wj" and j: "j < length xs"
  obtains e up w1 w' where "run_completions (take (Suc j) xs) w = Inr w'" "wired w'" "wg_graph w' = wg_graph w"
    "managed (ls_section ls) (xs ! j) = Some e" "l \<notin> set (loop_names (ls_section ls))"
    "mark_complete [l] (xs ! j) 1 wj = Inr (up, w1)" "wg_loops w' = wg_loops w1" "0 < length (top_level_entities (ls_section ls))"
proof -
  have x: "xs ! j \<in> set (node_names (wg_graph w))" "chain_of (xs ! j) w = [l]" using w(2) j by (simp_all add: members_only_def)
  have wj: "run_completions (take j xs) w = Inr wj" "wired wj" "wg_graph wj = wg_graph w" using at by (simp_all add: after_def Let_def)
  obtain out w' where m: "mark_node_complete (xs ! j) 1 wj = Inr (out, w')" "wired w'" "wg_graph w' = wg_graph wj"
    using mark_node_complete_total [OF wj(2)] x(1) wj(3) by metis
  have "chain_of (xs ! j) wj = [l]" using x(2) wj(3) by (simp add: chain_of_def)
  then obtain up w1 where up: "mark_complete [l] (xs ! j) 1 wj = Inr (up, w1)" "wg_loops w' = wg_loops w1"
    using node_completes [OF m(1)] by blast
  have run: "run_completions (take (Suc j) xs) w = Inr w'"
    using run_snoc [OF wj(1) m(1)] j by (simp add: take_Suc_conv_app_nth)
  from top_loop [OF w(1) x ls] obtain e where "managed (ls_section ls) (xs ! j) = Some e"
    "l \<notin> set (loop_names (ls_section ls))" "0 < length (top_level_entities (ls_section ls))" by blast
  with that run up m wj(3) show ?thesis by metis
qed

lemma after_all:
  assumes w: "wired w" "members_only l w xs" and ls: "wg_loops w l = Some ls" "ls_registry ls = fresh_registry" "ls_iter ls = 0" "\<not> ls_finish ls"
    and len: "length xs = length (top_level_entities (ls_section ls)) * nat (max 1 (ls_max_iters ls))"
  shows "j < length xs \<Longrightarrow> \<exists>wj. after l ls w xs j wj"
proof (induction j)
  case 0
  have "ls = ls\<lparr>ls_iter := 0, ls_registry := fresh_registry\<rparr>" using ls(2,3) by simp
  then have "stands l 0 fresh_registry ls w" using ls(1) by (simp add: stands_def)
  then have "after l ls w xs 0 w" using w(1) by (simp add: after_def run_completions_def)
  then show ?case by blast
next
  case (Suc j)
  let ?k = "length (top_level_entities (ls_section ls))"
  obtain wj where wj: "after l ls w xs j wj" using Suc by fastforce
  have j: "j < length xs" using Suc.prems by simp
  obtain e up w1 w' where o: "run_completions (take (Suc j) xs) w = Inr w'" "wired w'" "wg_graph w' = wg_graph w"
    "managed (ls_section ls) (xs ! j) = Some e" "l \<notin> set (loop_names (ls_section ls))"
    "mark_complete [l] (xs ! j) 1 wj = Inr (up, w1)" "wg_loops w' = wg_loops w1" "0 < ?k"
    by (rule after_one [OF w ls(1) wj j]) (rule that)
  have st: "stands l (int (j div ?k)) \<lparr>rg_done = False, rg_completed = j mod ?k\<rparr> ls wj" using wj by (simp add: after_def Let_def)
  note step = member_completes [OF st o(4) refl o(5,6)]
  have "stands l (int (Suc j div ?k)) \<lparr>rg_done = False, rg_completed = Suc j mod ?k\<rparr> ls w1"
  proof (cases "Suc (j mod ?k) < ?k")
    case True
    then have "Suc j div ?k = j div ?k" "Suc j mod ?k = Suc (j mod ?k)" using o(8) by (simp_all add: mod_Suc div_Suc)
    with step(1) True show ?thesis by simp
  next
    case False
    then have last: "Suc (j mod ?k) = ?k" using mod_less_divisor [OF o(8), of j] by linarith
    have dm: "Suc j div ?k = Suc (j div ?k)" "Suc j mod ?k = 0" using last div_Suc [of j ?k] mod_Suc [of j ?k] by presburger+
    have "Suc j div ?k < nat (max 1 (ls_max_iters ls))" using Suc.prems len o(8) by (simp add: div_less_iff_less_mult mult.commute)
    then have "int (j div ?k) + 1 < ls_max_iters ls" unfolding dm by linarith
    with step(2) last ls(4) have "stands l (int (j div ?k) + 1) fresh_registry ls w1" by blast
    then show ?thesis unfolding dm by (simp only: of_nat_Suc add.commute)
  qed
  then have "after l ls w xs (Suc j) w'" using o by (simp add: after_def Let_def stands_def)
  then show ?case by blast
qed

text \<open>
  C32. A loop of \<open>k\<close> members that may run \<open>max_iters\<close> times ends, and not early: as members
  complete, \<open>k\<close> completions to a round, the count stands at the number of full rounds, and with
  the last completion of round \<open>max 1 max_iters\<close> the loop is done. (It is completions that are
  counted, not members.)
\<close>

theorem loop_runs_its_iterations:
  assumes w: "wired w" and ls: "wg_loops w l = Some ls" "ls_registry ls = fresh_registry" "ls_iter ls = 0" "\<not> ls_finish ls" "\<not> ls_done ls"
    and xs: "\<forall>x \<in> set xs. x \<in> set (node_names (wg_graph w)) \<and> chain_of x w = [l]"
    and k: "k = length (top_level_entities (ls_section ls))" and len: "length xs = k * nat (max 1 (ls_max_iters ls))" "xs \<noteq> []"
  shows "(\<forall>j < length xs. \<exists>wj lj. run_completions (take j xs) w = Inr wj \<and> wg_loops wj l = Some lj \<and>
      \<not> ls_done lj \<and> ls_iter lj = int (j div k) \<and> rg_completed (ls_registry lj) = j mod k) \<and>
    (\<exists>w' l'. run_completions xs w = Inr w' \<and> wg_loops w' l = Some l' \<and> ls_done l')"
proof (intro conjI allI impI)
  have mem: "members_only l w xs" using xs by (simp add: members_only_def)
  have reach: "\<exists>wj. after l ls w xs j wj" if "j < length xs" for j
    using after_all [OF w mem ls(1-4) _ that] len(1) k by simp
  show "\<exists>wj lj. run_completions (take j xs) w = Inr wj \<and> wg_loops wj l = Some lj \<and> \<not> ls_done lj \<and>
      ls_iter lj = int (j div k) \<and> rg_completed (ls_registry lj) = j mod k" if jl: "j < length xs" for j
  proof -
    obtain wj where wj: "after l ls w xs j wj" using reach [OF jl] by blast
    then have "stands l (int (j div k)) \<lparr>rg_done = False, rg_completed = j mod k\<rparr> ls wj" by (simp add: after_def Let_def k)
    then obtain lj where "wg_loops wj l = Some lj" "ls_iter lj = int (j div k)"
      "ls_registry lj = \<lparr>rg_done = False, rg_completed = j mod k\<rparr>" "ls_done lj = ls_done ls" by (rule standsE)
    then show ?thesis using wj ls(5) by (auto simp: after_def Let_def)
  qed
  define j where "j = length xs - 1"
  have j: "j < length xs" "Suc j = length xs" using len(2) by (cases xs; simp add: j_def)+
  obtain wj where wj: "after l ls w xs j wj" using reach [OF j(1)] by blast
  obtain e up w1 w' where o: "run_completions (take (Suc j) xs) w = Inr w'" "managed (ls_section ls) (xs ! j) = Some e"
    "l \<notin> set (loop_names (ls_section ls))" "mark_complete [l] (xs ! j) 1 wj = Inr (up, w1)" "wg_loops w' = wg_loops w1"
      "0 < length (top_level_entities (ls_section ls))"
    by (rule after_one [OF w mem ls(1) wj j(1)]) (rule that)
  have st: "stands l (int (j div k)) \<lparr>rg_done = False, rg_completed = j mod k\<rparr> ls wj" using wj by (simp add: after_def Let_def k)
  have dm: "Suc j div k = nat (max 1 (ls_max_iters ls))" "Suc j mod k = 0" using j(2) len(1) o(6) k by simp_all
  then have last: "Suc (j mod k) = k" using o(6) k by (simp add: mod_Suc split: if_splits)
  then have "Suc (j div k) = nat (max 1 (ls_max_iters ls))" using dm by (simp add: div_Suc mod_Suc)
  then have "int (j div k) + 1 \<ge> ls_max_iters ls" by linarith
  then obtain l' where "wg_loops w1 l = Some l'" "ls_done l'"
    using member_completes(3) [OF st o(2) k o(3,4) last] by blast
  then show "\<exists>w' l'. run_completions xs w = Inr w' \<and> wg_loops w' l = Some l' \<and> ls_done l'" using o(1,5) j(2) by auto
qed

theorem loop_runs_its_iterations_witness:
  "\<exists>w' l'. run_completions [''A'', ''B'', ''A'', ''B'', ''A'', ''B''] demo_start = Inr w' \<and> wg_loops w' ''L'' = Some l' \<and> ls_done l'"
proof -
  have w: "wired demo_start" using graph_invariant [OF demo_start] by blast
  let ?ls = "the (wg_loops demo_start ''L'')"
  have "wg_loops demo_start ''L'' \<noteq> None" "ls_registry ?ls = fresh_registry" "ls_iter ?ls = 0" "\<not> ls_finish ?ls" "\<not> ls_done ?ls"
    "length (top_level_entities (ls_section ?ls)) = 2" "ls_max_iters ?ls = 3" by code_simp+
  moreover have "\<forall>x \<in> set [''A'', ''B'', ''A'', ''B'', ''A'', ''B'']. x \<in> set (node_names (wg_graph demo_start)) \<and> chain_of x demo_start = [''L'']"
    by code_simp
  ultimately show ?thesis
    using loop_runs_its_iterations [OF w, of "''L''" ?ls "[''A'', ''B'', ''A'', ''B'', ''A'', ''B'']" 2] by fastforce
qed

section \<open>A finished node is queued again\<close>

text \<open>A completion that is not the last of its iteration leaves the nodes and the root registry alone.\<close>

lemma calls_frame [simp]:
  "wg_nodes (fold (\<lambda>i. tm_call (IncrementRef (ti_uuid i))) is w) = wg_nodes w"
  "wg_root (fold (\<lambda>i. tm_call (IncrementRef (ti_uuid i))) is w) = wg_root w"
  by (induction "is" arbitrary: w) (simp_all add: tm_call_def)

lemma cache_frame: "wg_nodes (cache_outputs l seen es w) = wg_nodes w \<and> wg_root (cache_outputs l seen es w) = wg_root w"
proof (induction l seen es w rule: cache_outputs.induct)
  case (2 l seen e es w)
  then show ?case by (auto simp: upd_loop_def Let_def split: option.splits if_splits)
qed simp

lemma early_completion:
  assumes run: "mark_node_complete x 1 w = Inr (out, w1)" and x: "chain_of x w = [l]"
    and ls: "wg_loops w l = Some ls" "ls_registry ls = \<lparr>rg_done = False, rg_completed = c\<rparr>"
    and c: "Suc c < length (top_level_entities (ls_section ls))" "managed (ls_section ls) x = Some e"
  shows "wg_nodes w1 = wg_nodes w \<and> wg_root w1 = wg_root w"
proof -
  have l: "wg_loops (upd_loop l f w) l = Some (f ls)" "wg_nodes (upd_loop l f w) = wg_nodes w" "wg_root (upd_loop l f w) = wg_root w" for f
    using ls(1) by (simp_all add: upd_loop_def)
  have r: "\<not> rg_done (count_entity (length (top_level_entities (ls_section ls))) (ls_registry ls))"
    using c(1) ls(2) by (simp add: count_entity_def)
  show ?thesis using run x c(2) ls(1) r
    by (auto simp: mark_node_complete_def l cache_frame Let_def split: if_splits)
qed

text \<open>
  C34. A node inside a loop keeps its inputs until the iteration ends. A member completes, another
  still has to run, and an edge for the member's next iteration, its loop-back, arrives: it is
  buffered, but the member, which was not in the ready set, is put back into it for the iteration it
  has finished, with the inputs it already ran on. Run again, it counts a second time: when one
  member was missing the iteration ends (or the loop does), although that member never ran.
\<close>

theorem loop_back_requeues:
  assumes reach: "graph_reach g w D H"
    and x: "x \<in> set (node_names g)" "chain_of x w = [l]" "x \<notin> rr_ready (wg_root w)"
    and ns: "wg_nodes w x = Some ns" "sl_ready (ns_ready ns)" "\<not> ns_in_flight ns"
    and ls: "wg_loops w l = Some ls" "ls_registry ls = \<lparr>rg_done = False, rg_completed = c\<rparr>"
    and k: "k = length (top_level_entities (ls_section ls))" "Suc c < k"
    and e: "ge_next_node e = x" "ge_name e \<in> nd_inputs (ns_decl ns)" "ge_name e \<notin> sl_names (ns_next ns)"
  shows "\<exists>out w1 w2 ns2 out' w3 ls3. mark_node_complete x 1 w = Inr (out, w1) \<and> x \<notin> rr_ready (wg_root w1) \<and>
    ingest_input e True w1 = Inr (True, w2) \<and>
    x \<in> rr_ready (wg_root w2) \<and> wg_nodes w2 x = Some ns2 \<and> ns_ready ns2 = ns_ready ns \<and>
    mark_node_complete x 1 w2 = Inr (out', w3) \<and> wg_loops w3 l = Some ls3 \<and>
    (if Suc (Suc c) < k then ls_iter ls3 = ls_iter ls \<and> rg_completed (ls_registry ls3) = Suc (Suc c)
     else if ls_iter ls + 1 < ls_max_iters ls \<and> \<not> ls_finish ls
       then ls_iter ls3 = ls_iter ls + 1 \<and> rg_completed (ls_registry ls3) = 0
     else ls_done ls3)"
proof -
  have inv: "wired w" "wg_graph w = g" using graph_invariant [OF reach] by blast+
  obtain m where m: "managed (ls_section ls) x = Some m" and in_l: "l \<notin> set (loop_names (ls_section ls))"
    using top_loop [OF inv(1) _ x(2) ls(1)] x(1) inv(2) by blast
  obtain out w1 where done1: "mark_node_complete x 1 w = Inr (out, w1)"
    using mark_node_complete_total [OF inv(1)] x(1) inv(2) by metis
  have reach1: "graph_reach g w1 D (H + mset (co_refs out))" using graph_reach.completes [OF reach done1] .
  note still = early_completion [OF done1 x(2) ls(1,2) k(2) [unfolded k(1)] m]
  have st: "stands l (ls_iter ls) \<lparr>rg_done = False, rg_completed = c\<rparr> ls w"
    using ls by (simp add: stands_def flip: ls(2))
  obtain up u1 where up: "mark_complete [l] x 1 w = Inr (up, u1)" "wg_loops w1 = wg_loops u1"
    by (rule node_completes [OF done1 x(2)])
  have st1: "stands l (ls_iter ls) \<lparr>rg_done = False, rg_completed = Suc c\<rparr> ls w1"
    using member_completes(1) [OF st m k(1) in_l up(1) k(2)] up(2) by (simp add: stands_def)
  have slots: "slots_ok w1" "wired w1" "wg_graph w1 = g" using graph_invariant [OF reach1] by blast+
  have ns1: "wg_nodes w1 x = Some ns" using ns(1) still by simp
  then have n: "node_ok x ns" using slots(1) by (simp add: slots_ok_def)
  then have full: "ge_name e \<in> sl_names (ns_ready ns)" using ns(2) e(2) by (auto simp: node_ok_def slot_ok_def)
  obtain ok w2 where run: "ingest_input e True w1 = Inr (ok, w2)" using ok_pair [OF ingest_total [OF slots(1)]] by blast
  from slot_update_ok [of "ns_decl ns" "ns_next ns" e] n e have "is_ok (slot_update (ns_decl ns) e (ns_next ns))"
    by (auto simp: node_ok_def)
  then have ok using run ns1 n full e by (auto simp: ingest_input_def node_ingest_def node_ok_def Let_def elim!: is_okE)
  from run slots(1) have requeued: "x \<in> rr_ready (wg_root w2) \<and> (\<exists>ns2. wg_nodes w2 x = Some ns2 \<and> ns_ready ns2 = ns_ready ns) \<and>
      (\<forall>l. map_option unsaved (wg_loops w2 l) = map_option unsaved (wg_loops w1 l))"
  proof (cases rule: ingest_input_cases)
    case (buffered ns' sl w')
    have "ns' = ns" using buffered(3) ns1 e(1) by simp
    note fr = ingest_chain_frame [OF buffered(7)]
    have "wg_nodes w' x = Some (ns\<lparr>ns_next := sl\<rparr>)"
      using fr ns1 e(1) by (simp add: upd_node_def)
    moreover have "map_option unsaved (wg_loops w' l) = map_option unsaved (wg_loops w1 l)" for l
      using fr by (simp add: upd_node_def)
    ultimately show ?thesis using ns e(1) n unfolding buffered(8) \<open>ns' = ns\<close>
      by (auto simp: upd_root_def upd_node_def on_next_def root_register_def node_ok_def Let_def)
  qed (use \<open>ok\<close> full ns1 e(1) in auto)
  obtain l1 where l1: "wg_loops w1 l = Some l1" "ls_section l1 = ls_section ls" "ls_iter l1 = ls_iter ls"
    "ls_registry l1 = \<lparr>rg_done = False, rg_completed = Suc c\<rparr>" "ls_max_iters l1 = ls_max_iters ls" "ls_finish l1 = ls_finish ls"
    using st1 by (rule standsE)
  obtain l2 where l2: "wg_loops w2 l = Some l2" "unsaved l2 = unsaved l1"
    using requeued l1(1) by (metis (no_types, lifting) map_option_eq_Some)
  have same: "ls_section l2 = ls_section ls" "ls_iter l2 = ls_iter ls" "ls_max_iters l2 = ls_max_iters ls"
    "ls_registry l2 = \<lparr>rg_done = False, rg_completed = Suc c\<rparr>" "ls_finish l2 = ls_finish ls"
    using arg_cong [OF l2(2), of ls_section] arg_cong [OF l2(2), of ls_iter] arg_cong [OF l2(2), of ls_max_iters]
      arg_cong [OF l2(2), of ls_registry] arg_cong [OF l2(2), of ls_finish] l1 by (simp_all add: unsaved_def)
  have reach2: "\<exists>D'. graph_reach g w2 D' (H + mset (co_refs out))" using graph_reach.ingest [OF reach1 run] by blast
  then have inv2: "wired w2" "wg_graph w2 = g" using graph_invariant by blast+
  obtain out' w3 where done2: "mark_node_complete x 1 w2 = Inr (out', w3)"
    using mark_node_complete_total [OF inv2(1)] x(1) inv2(2) by metis
  have "chain_of x w2 = [l]" using x(2) inv(2) inv2(2) by (simp add: chain_of_def)
  then obtain up2 u3 where up2: "mark_complete [l] x 1 w2 = Inr (up2, u3)" "wg_loops w3 = wg_loops u3"
    by (rule node_completes [OF done2])
  have st2: "stands l (ls_iter ls) \<lparr>rg_done = False, rg_completed = Suc c\<rparr> l2 w2"
    using l2(1) same by (simp add: stands_def flip: same(2,4))
  have m2: "managed (ls_section l2) x = Some m" "l \<notin> set (loop_names (ls_section l2))" using m in_l same by simp_all
  note second = member_completes [OF st2 m2(1) refl m2(2) up2(1)]
  have "\<exists>ls3. wg_loops w3 l = Some ls3 \<and>
    (if Suc (Suc c) < k then ls_iter ls3 = ls_iter ls \<and> rg_completed (ls_registry ls3) = Suc (Suc c)
     else if ls_iter ls + 1 < ls_max_iters ls \<and> \<not> ls_finish ls
       then ls_iter ls3 = ls_iter ls + 1 \<and> rg_completed (ls_registry ls3) = 0
     else ls_done ls3)"
  proof -
    consider (early) "Suc (Suc c) < k" | (iter) "Suc (Suc c) = k" "ls_iter ls + 1 < ls_max_iters ls \<and> \<not> ls_finish ls"
      | (last) "Suc (Suc c) = k" "\<not> (ls_iter ls + 1 < ls_max_iters ls \<and> \<not> ls_finish ls)" using k(2) by linarith
    then show ?thesis
    proof cases
      case early
      from second(1) [unfolded same, folded k(1), OF early] show ?thesis
        by (rule standsE) (use early up2(2) in simp)
    next
      case iter
      have "stands l (ls_iter ls + 1) fresh_registry l2 u3"
        using second(2) iter same k(1) by simp
      then show ?thesis by (rule standsE) (use iter up2(2) in simp)
    next
      case last
      then have "ls_iter ls + 1 \<ge> ls_max_iters l2 \<or> ls_finish l2" using same by auto
      with second(3) [OF _ this] last(1) same k(1) have "\<exists>l'. wg_loops u3 l = Some l' \<and> ls_done l'" by simp
      then show ?thesis using last up2(2) by auto
    qed
  qed
  then show ?thesis using done1 still x(3) run \<open>ok\<close> requeued done2 by auto
qed

lemma completion_reached:
  assumes "graph_reach g w D H" "x \<in> set (node_names g)"
  shows "\<exists>H'. graph_reach g (snd (projr (mark_node_complete x 1 w))) D H'"
proof -
  obtain out w' where "mark_node_complete x 1 w = Inr (out, w')"
    using graph_invariant [OF assms(1)] mark_node_complete_total assms(2) by blast
  then show ?thesis using graph_reach.completes [OF assms(1)] by fastforce
qed

definition demo_picked :: "unit worker_graph_io" where
  "demo_picked = upd_root (\<lambda>r. r\<lparr>rr_ready := rr_ready r - {''A''}\<rparr>) demo_fed"

text \<open>Node \<open>A\<close> of a loop of \<open>A\<close> and \<open>B\<close> runs twice; the first iteration ends without \<open>B\<close>.\<close>

theorem loop_back_requeues_witness:
  "\<exists>out w1 w2 out' w3 ls3. mark_node_complete ''A'' 1 demo_picked = Inr (out, w1) \<and>
    ingest_input (new_edge ''A'' ''x'') True w1 = Inr (True, w2) \<and> ''A'' \<in> rr_ready (wg_root w2) \<and>
    mark_node_complete ''A'' 1 w2 = Inr (out', w3) \<and> wg_loops w3 ''L'' = Some ls3 \<and> ls_iter ls3 = 1"
proof -
  have r: "graph_reach demo_graph demo_picked {#7#} {#}"
    unfolding demo_picked_def by (rule graph_reach.picks [OF demo_fed_reach])
  let ?ns = "the (wg_nodes demo_picked ''A'')" and ?e = "new_edge ''A'' ''x'' :: unit graph_edge"
  let ?ls = "the (wg_loops demo_picked ''L'')"
  have "''A'' \<in> set (node_names demo_graph)" "chain_of ''A'' demo_picked = [''L'']" "''A'' \<notin> rr_ready (wg_root demo_picked)"
    "wg_nodes demo_picked ''A'' \<noteq> None" "sl_ready (ns_ready ?ns)" "\<not> ns_in_flight ?ns"
    "wg_loops demo_picked ''L'' \<noteq> None" "ls_registry ?ls = \<lparr>rg_done = False, rg_completed = 0\<rparr>"
    "2 = length (top_level_entities (ls_section ?ls))" "ls_iter ?ls = 0" "ls_max_iters ?ls = 3" "\<not> ls_finish ?ls"
    "ge_next_node ?e = ''A''" "ge_name ?e \<in> nd_inputs (ns_decl ?ns)" "ge_name ?e \<notin> sl_names (ns_next ?ns)" by code_simp+
  then show ?thesis using loop_back_requeues [OF r, of "''A''" "''L''" ?ns ?ls 0 2 ?e] by fastforce
qed

section \<open>One input of a name is saved\<close>

text \<open>
  C35. A loop saves its external inputs by name alone. When a second member takes an external input
  of a name already saved for another member, the loop does not save it: the next iterations are
  given the first member's edge and never the second's.
\<close>

theorem second_input_not_saved:
  assumes "graph_reach g w D H" and l: "chain_of (ge_next_node e) w = [l]" "wg_loops w l = Some ls"
    and e: "ge_name e \<in> ls_ext_names ls" "pair_of e \<notin> pair_of ` set (ls_ext_inputs ls)"
    and run: "ingest_input e b w = Inr (True, w')"
  shows "saved_edge e w = e \<and> wg_loops w' l = Some ls \<and>
    (\<forall>cascade stride. ls_iter ls + stride < ls_max_iters ls \<and> \<not> ls_finish ls \<longrightarrow>
      (\<exists>out w''. complete_iter cascade l stride w' = Inr (out, w'') \<and> pair_of e \<notin> pair_of ` set (co_edges out)))"
proof -
  have slots: "slots_ok w" using graph_invariant [OF assms(1)] by blast
  have keep: "fold ingest_external (chain_of (ge_next_node e) w) (e, w1) = (e, w1)" if "wg_loops w1 = wg_loops w" for w1
    using that l e(1) by (simp add: ingest_external_def saves_input_def)
  have "wg_loops w' = wg_loops w"
    using run slots
  proof (cases rule: ingest_input_cases)
    case (current ns sl w2)
    then show ?thesis using keep by auto
  next
    case (buffered ns sl w2)
    then show ?thesis using keep by auto
  qed simp
  then have "wg_loops w' l = Some ls" using l(2) by simp
  moreover have "saved_edge e w = e" using keep [OF refl] by (simp add: saved_edge_def)
  ultimately show ?thesis using e(2) by (auto simp: complete_iter_def)
qed

section \<open>A cleared loop keeps its outputs\<close>

definition loop_fresh :: "'d loop_state \<Rightarrow> bool" where
  "loop_fresh ls \<longleftrightarrow> ls_iter ls = 0 \<and> ls_ext_inputs ls = [] \<and> ls_acc_cache ls = [] \<and> \<not> ls_done ls \<and> \<not> ls_finish ls"

text \<open>What \<open>Loop.clear\<close> does to a loop's state, wherever it stands in the section cleared.\<close>

definition freshened :: "bool \<Rightarrow> 'd loop_state option \<Rightarrow> 'd loop_state option \<Rightarrow> bool" where
  "freshened b x y \<longleftrightarrow> map_option ls_cached y = map_option ls_cached x \<and>
     (\<forall>ls. y = Some ls \<longrightarrow> b \<or> (\<exists>l0. x = Some l0 \<and> loop_fresh l0) \<longrightarrow> loop_fresh ls)"

lemma freshened_trans: "freshened b x y \<Longrightarrow> freshened b' y z \<Longrightarrow> freshened (b \<or> b') x z"
  unfolding freshened_def by (cases y; cases z; cases x) auto

lemma freshened_refl [simp]: "freshened False x x"
  by (simp add: freshened_def)

lemma fold_freshened:
  assumes "\<And>s w. s \<in> set ss \<Longrightarrow> freshened (l \<in> A s) (wg_loops w l) (wg_loops (f s w) l)"
  shows "freshened (\<exists>s \<in> set ss. l \<in> A s) (wg_loops w l) (wg_loops (fold f ss w) l)"
  using assms
proof (induction ss arbitrary: w)
  case (Cons s ss)
  have "freshened (l \<in> A s) (wg_loops w l) (wg_loops (f s w) l)" using Cons.prems by simp
  moreover have "freshened (\<exists>s \<in> set ss. l \<in> A s) (wg_loops (f s w) l) (wg_loops (fold f ss (f s w)) l)"
    using Cons by simp
  ultimately show ?case using freshened_trans by fastforce
qed simp

lemma clear_members_fresh: "freshened (l \<in> set (loop_names s)) (wg_loops w l) (wg_loops (clear_members s w) l)"
proof (induction s arbitrary: w)
  case (SeqSec ss)
  then show ?case using fold_freshened [of ss l "\<lambda>s. set (loop_names s)" clear_members w] by auto
next
  case (ParSec ss)
  then show ?case using fold_freshened [of ss l "\<lambda>s. set (loop_names s)" clear_members w] by auto
next
  case (LoopSec d s)
  let ?d = "ld_name d" and ?w1 = "clear_members s (fresh_count (ld_name d) w)"
  let ?w2 = "reset_metadata ?d (reseed_members s ?w1)"
  have own: "freshened (l = ?d) (wg_loops ?w1 l) (wg_loops (uncache_accumulated ?d ?w2) l)"
    by (cases "wg_loops ?w1 l"; cases "l = ?d")
      (auto simp: freshened_def uncache_accumulated_def reset_metadata_def upd_loop_at loop_fresh_def tm_call_def
        split: option.split)
  have "freshened False (wg_loops w l) (wg_loops (fresh_count ?d w) l)"
    by (cases "wg_loops w l"; cases "l = ?d") (auto simp: freshened_def fresh_count_def upd_loop_at loop_fresh_def)
  from freshened_trans [OF freshened_trans [OF this LoopSec.IH] own] show ?case by (auto simp: disj_commute)
qed (simp add: clear_node_def)

text \<open>
  C36. Clearing a graph resets its loops, but a loop's cache of this iteration's outputs survives:
  the next run appends its own outputs to the ones of the run that was cleared.
\<close>

theorem cleared_loop_keeps_outputs:
  assumes "wired w" "wg_loops w l = Some ls"
  shows "\<exists>l'. wg_loops (clear_graph w) l = Some l' \<and> ls_cached l' = ls_cached ls \<and>
    ls_iter l' = 0 \<and> ls_ext_inputs l' = [] \<and> ls_acc_cache l' = [] \<and> \<not> ls_done l' \<and> \<not> ls_finish l' \<and>
    (\<forall>e stale. ge_name e \<in> ge_name ` set (ls_outputs l') \<and> map_of (ls_cached ls) (ge_name e) = Some stale \<longrightarrow>
      (\<exists>l2. cache_edge e l' = Some l2 \<and> map_of (ls_cached l2) (ge_name e) = Some (stale @ ge_tensor_info e)))"
proof -
  have l: "l \<in> set (loop_names (wg_graph w))" using assms unfolding wired_def by blast
  have g: "wg_loops (upd_root f w) = wg_loops w" for f by simp
  have "freshened True (wg_loops w l) (wg_loops (clear_graph w) l)"
    using clear_members_fresh [of l "wg_graph w" "upd_root (\<lambda>r. r\<lparr>rr_registry := fresh_registry\<rparr>) w"] l
    by (simp add: clear_graph_def)
  then obtain l' where l': "wg_loops (clear_graph w) l = Some l'" "ls_cached l' = ls_cached ls" "loop_fresh l'"
    using assms(2) by (cases "wg_loops (clear_graph w) l") (auto simp: freshened_def)
  then show ?thesis by (intro exI [of _ l']) (auto simp: loop_fresh_def cache_edge_def extend_cache_def)
qed

text \<open>Two members that take an input of the same name, and a loop output the first one makes.\<close>

definition pair_graph :: "unit graph_section" where
  "pair_graph = LoopSec \<lparr>ld_name = ''L'', ld_max_iters = 3, ld_outputs = [new_edge ''out'' ''z''], ld_accumulated = [],
     ld_external = None, ld_loop_back = None\<rparr>
     (SeqSec [demo_node ''A'' [''k''] [new_edge ''B'' ''y'', (new_edge ''out'' ''z'')\<lparr>ge_tensor_info := [demo_info 9]\<rparr>],
       demo_node ''B'' [''y'', ''k''] []])"

definition pair_start :: "unit worker_graph_io" where
  "pair_start = register_communication_info (projr (new_worker_graph_io pair_graph None))"

definition pair_fed :: "unit worker_graph_io" where
  "pair_fed = snd (projr (ingest_input (new_edge ''A'' ''k'') True pair_start))"

definition pair_ran :: "unit worker_graph_io" where
  "pair_ran = snd (projr (mark_node_complete ''A'' 1 pair_fed))"

lemma ingest_reached:
  assumes "graph_reach g w D H" shows "\<exists>D'. graph_reach g (snd (projr (ingest_input e b w))) D' H"
proof -
  obtain ok w' where "ingest_input e b w = Inr (ok, w')"
    using graph_invariant [OF assms] ingest_total ok_pair by blast
  then show ?thesis using graph_reach.ingest [OF assms] by fastforce
qed

lemma pair_reached: "\<exists>D. graph_reach pair_graph pair_fed D {#}" "\<exists>D H. graph_reach pair_graph pair_ran D H"
proof -
  have "is_ok (new_worker_graph_io pair_graph None)" "names_ok pair_graph" "''A'' \<in> set (node_names pair_graph)" by code_simp+
  then have "graph_reach pair_graph pair_start {#} {#}" unfolding pair_start_def by (intro graph_reach.start [OF ok_projr])
  then show "\<exists>D. graph_reach pair_graph pair_fed D {#}" unfolding pair_fed_def by (rule ingest_reached)
  then show "\<exists>D H. graph_reach pair_graph pair_ran D H" unfolding pair_ran_def
    using completion_reached \<open>''A'' \<in> set (node_names pair_graph)\<close> by blast
qed

theorem second_input_not_saved_witness:
  "\<exists>w'. ingest_input (new_edge ''B'' ''k'') True pair_fed = Inr (True, w') \<and> wg_loops w' ''L'' = wg_loops pair_fed ''L''"
proof -
  let ?e = "new_edge ''B'' ''k'' :: unit graph_edge" and ?ls = "the (wg_loops pair_fed ''L'')"
  obtain D where r: "graph_reach pair_graph pair_fed D {#}" using pair_reached(1) by blast
  have "wg_loops pair_fed ''L'' \<noteq> None" by code_simp
  then have l: "wg_loops pair_fed ''L'' = Some ?ls" by simp
  have c: "chain_of (ge_next_node ?e) pair_fed = [''L'']" "ge_name ?e \<in> ls_ext_names ?ls" "pair_of ?e \<notin> pair_of ` set (ls_ext_inputs ?ls)"
    "fst (projr (ingest_input ?e True pair_fed))" "is_ok (ingest_input ?e True pair_fed)" by code_simp+
  obtain w' where run: "ingest_input ?e True pair_fed = Inr (True, w')" using ok_pair [OF c(5)] c(4) by metis
  from second_input_not_saved [OF r c(1) l c(2,3) run] l show ?thesis using run by simp
qed

theorem cleared_loop_keeps_outputs_witness:
  "\<exists>l'. wg_loops (clear_graph pair_ran) ''L'' = Some l' \<and> map_of (ls_cached l') ''z'' = Some [demo_info 9]"
proof -
  let ?ls = "the (wg_loops pair_ran ''L'')"
  have w: "wired pair_ran" using pair_reached(2) graph_invariant by blast
  have "wg_loops pair_ran ''L'' \<noteq> None" "map_of (ls_cached ?ls) ''z'' = Some [demo_info 9]" by code_simp+
  moreover from this have "wg_loops pair_ran ''L'' = Some ?ls" by simp
  ultimately show ?thesis using cleared_loop_keeps_outputs [OF w, of "''L''" ?ls] by fastforce
qed

end
