(* ===== verification/Graph_Signature.thy ===== *)
theory Graph_Signature imports Graph_Wiring begin

text \<open>
  What a section needs from outside. A \<open>Sequential\<close> works its external inputs out while it walks
  its members in order; a \<open>Parallel\<close> takes a set difference over all of them. Both mean the same.
\<close>

section \<open>Signatures of members\<close>

lemma seq_io_Nil [simp]: "seq_io [] = no_io"
  by (simp add: seq_io_def)

text \<open>The fold of \<open>seq_io\<close>, with what it has passed.\<close>

definition seq_run :: "('d node_io \<times> string set) list \<Rightarrow> 'd node_io \<times> name_dest set \<times> string set" where
  "seq_run subs = fold (\<lambda>(sub, names). seq_step sub names) subs (no_io, {}, {})"

definition all_inputs :: "('d node_io \<times> string set) list \<Rightarrow> name_dest set" where
  "all_inputs subs = (\<Union>p \<in> set subs. io_inputs (fst p))"

definition all_produced :: "('d node_io \<times> string set) list \<Rightarrow> name_dest set" where
  "all_produced subs = (\<Union>p \<in> set subs. pair_of ` set (io_outputs (fst p)))"

definition all_loop_back :: "('d node_io \<times> string set) list \<Rightarrow> name_dest set" where
  "all_loop_back subs = (\<Union>p \<in> set subs. io_loop_back (fst p))"

lemma all_snoc [simp]:
  "all_inputs (subs @ [p]) = all_inputs subs \<union> io_inputs (fst p)"
  "all_produced (subs @ [p]) = all_produced subs \<union> pair_of ` set (io_outputs (fst p))"
  "all_loop_back (subs @ [p]) = all_loop_back subs \<union> io_loop_back (fst p)"
  "all_inputs [] = {}" "all_produced [] = {}" "all_loop_back [] = {}"
  by (auto simp: all_inputs_def all_produced_def all_loop_back_def)

text \<open>Members whose back edges are not inputs of any member.\<close>

definition apart :: "('d node_io \<times> string set) list \<Rightarrow> bool" where
  "apart subs \<longleftrightarrow> all_inputs subs \<inter> all_loop_back subs = {}"

lemma seq_run_inv:
  assumes "apart subs" "seq_run subs = (acc, internal, seen)"
  shows "io_inputs acc = all_inputs subs - all_produced subs"
    and "internal \<subseteq> all_produced subs"
    and "io_loop_back acc \<subseteq> all_loop_back subs \<union> all_produced subs" "all_loop_back subs \<subseteq> io_loop_back acc"
    and "all_produced subs \<subseteq> pair_of ` set (io_outputs acc) \<union> internal \<union> io_loop_back acc"
    and "pair_of ` set (io_outputs acc) \<subseteq> all_produced subs"
    and "seen = \<Union> (snd ` set subs)" "io_loop_back acc \<subseteq> all_loop_back subs \<union> {p. snd p \<in> seen}"
    and "io_inputs acc \<inter> io_loop_back acc = {}"
  using assms
proof (atomize (full), induction subs arbitrary: acc internal seen rule: rev_induct)
  case Nil
  then show ?case by (auto simp: seq_run_def no_io_def)
next
  case (snoc p subs)
  obtain sub names where p: "p = (sub, names)" by (cases p)
  obtain acc0 int0 seen0 where run0: "seq_run subs = (acc0, int0, seen0)" by (cases "seq_run subs")
  have ap: "apart subs" using snoc.prems(1) by (auto simp: apart_def)
  note IH = snoc.IH [OF ap run0]
  have IH1: "io_inputs acc0 = all_inputs subs - all_produced subs" using IH by (elim conjE)
  let ?outs = "io_outputs acc0 @ io_outputs sub" and ?ins = "io_inputs acc0 \<union> io_inputs sub"
  let ?bk = "pair_of ` {e \<in> set (io_outputs sub). ge_next_node e \<in> seen0}"
  have int: "internal = int0 \<union> (pair_of ` set ?outs \<inter> ?ins)"
    and lb: "io_loop_back acc = io_loop_back acc0 \<union> io_loop_back sub \<union> ?bk"
    and ins: "io_inputs acc = ?ins - (internal \<union> io_loop_back acc)"
    and outs: "io_outputs acc = filter (\<lambda>e. pair_of e \<notin> internal \<union> io_loop_back acc) ?outs"
    using snoc.prems(2) run0 unfolding seq_run_def p by (auto simp: seq_step_def Let_def)
  let ?P = "all_produced subs \<union> pair_of ` set (io_outputs sub)" and ?I = "all_inputs subs \<union> io_inputs sub"
  let ?L = "all_loop_back subs \<union> io_loop_back sub"
  have sep: "?I \<inter> ?L = {}" using snoc.prems(1) by (simp add: apart_def p)
  have i1: "internal \<subseteq> ?P" using IH unfolding int by auto
  have l1: "io_loop_back acc \<subseteq> ?L \<union> ?P" using IH unfolding lb by auto
  have l2: "?L \<subseteq> io_loop_back acc" using IH unfolding lb by auto
  have kept: "?P \<subseteq> pair_of ` set ?outs \<union> internal \<union> io_loop_back acc" using IH unfolding lb int by auto
  have o1: "pair_of ` set (io_outputs acc) \<subseteq> ?P" using IH unfolding outs by auto
  have p1: "?P \<subseteq> pair_of ` set (io_outputs acc) \<union> internal \<union> io_loop_back acc" using kept unfolding outs by auto
  have ins': "io_inputs acc = ?I - ?P"
  proof (intro equalityI subsetI)
    fix x assume x: "x \<in> io_inputs acc"
    then have in_ins: "x \<in> ?ins" "x \<notin> internal" "x \<notin> io_loop_back acc" unfolding ins by blast+
    then have "x \<notin> pair_of ` set ?outs" unfolding int by blast
    then have "x \<notin> ?P" using kept in_ins(2,3) by blast
    moreover have "x \<in> ?I" using in_ins(1) unfolding IH1 by blast
    ultimately show "x \<in> ?I - ?P" by blast
  next
    fix x assume x: "x \<in> ?I - ?P"
    then have "x \<in> ?ins" unfolding IH1 by blast
    moreover have "x \<notin> internal" using i1 x by blast
    moreover have "x \<notin> io_loop_back acc" using l1 sep x by blast
    ultimately show "x \<in> io_inputs acc" unfolding ins by blast
  qed
  have seen: "seen = seen0 \<union> names" using snoc.prems(2) run0 unfolding seq_run_def p by (auto simp: seq_step_def Let_def)
  have seen0: "seen0 = \<Union> (snd ` set subs)" "io_loop_back acc0 \<subseteq> all_loop_back subs \<union> {p. snd p \<in> seen0}" using IH by blast+
  have "?bk \<subseteq> {p. snd p \<in> seen0}" by (auto simp: pair_of_def)
  then have l3: "io_loop_back acc \<subseteq> ?L \<union> {p. snd p \<in> seen}" using seen0(2) unfolding lb seen by auto
  have dis: "io_inputs acc \<inter> io_loop_back acc = {}" unfolding ins by blast
  have sn: "seen = \<Union> (snd ` set (subs @ [(sub, names)]))" using seen seen0(1) by auto
  show ?case unfolding p all_snoc fst_conv by (intro conjI ins' i1 l1 l2 p1 o1 sn l3 dis)
qed

text \<open>Every input and back edge of a section ends at one of its nodes, and none is both.\<close>

definition io_ok :: "'d node_io \<Rightarrow> string set \<Rightarrow> bool" where
  "io_ok sub names \<longleftrightarrow> snd ` io_inputs sub \<subseteq> names \<and> snd ` io_loop_back sub \<subseteq> names \<and> io_inputs sub \<inter> io_loop_back sub = {}"

definition members :: "'d graph_section list \<Rightarrow> ('d node_io \<times> string set) list" where
  "members ss = map (\<lambda>s. (get_inputs_outputs s, set (node_names s))) ss"

lemma apart_members:
  assumes "names_ok (SeqSec ss)" "\<And>s. s \<in> set ss \<Longrightarrow> io_ok (get_inputs_outputs s) (set (node_names s))"
  shows "apart (members ss)"
proof -
  have d: "distinct (concat (map node_names ss) @ concat (map loop_names ss))" using assms(1) by (simp add: names_ok_def)
  have False if s: "s \<in> set ss" "t \<in> set ss" and x: "x \<in> io_inputs (get_inputs_outputs s)" "x \<in> io_loop_back (get_inputs_outputs t)" for s t x
  proof -
    obtain i j where ij: "i < length ss" "ss ! i = s" "j < length ss" "ss ! j = t" using s by (auto simp: in_set_conv_nth)
    have "snd x \<in> set (node_names s)" "snd x \<in> set (node_names t)"
      using assms(2) [OF s(1)] assms(2) [OF s(2)] x by (auto simp: io_ok_def)
    then have "i = j" using distinct_parts(2) [OF d ij(1,3), of "snd x"] ij by simp
    with ij x assms(2) [OF s(1)] show False by (auto simp: io_ok_def)
  qed
  then show ?thesis by (auto simp: apart_def all_inputs_def all_loop_back_def members_def)
qed

lemma seq_members: "get_inputs_outputs (SeqSec ss) = fst (seq_run (members ss))"
  by (simp add: seq_io_def seq_run_def members_def)

lemma par_members:
  "io_inputs (get_inputs_outputs (ParSec ss)) = all_inputs (members ss) - all_produced (members ss)"
  "io_loop_back (get_inputs_outputs (ParSec ss)) = all_loop_back (members ss)"
  by (auto simp: par_io_def Let_def all_inputs_def all_produced_def all_loop_back_def members_def)

lemma section_io_ok: "names_ok s \<Longrightarrow> io_ok (get_inputs_outputs s) (set (node_names s))"
proof (induction s)
  case (NodeSec n)
  show ?case by (auto simp: io_ok_def node_io_of_def Let_def)
next
  case (SeqSec ss)
  have sub: "io_ok (get_inputs_outputs s) (set (node_names s))" if "s \<in> set ss" for s
    using SeqSec.IH that names_ok_parts(1) [OF SeqSec.prems that] by blast
  obtain acc int seen where run: "seq_run (members ss) = (acc, int, seen)" by (cases "seq_run (members ss)")
  note inv = seq_run_inv [OF apart_members [OF SeqSec.prems sub] run]
  have "seen = set (node_names (SeqSec ss))" using inv(7) by (auto simp: members_def)
  moreover have "snd ` all_inputs (members ss) \<subseteq> set (node_names (SeqSec ss))"
    "snd ` all_loop_back (members ss) \<subseteq> set (node_names (SeqSec ss))"
    using sub by (fastforce simp: all_inputs_def all_loop_back_def members_def io_ok_def)+
  ultimately have "snd ` io_inputs acc \<subseteq> set (node_names (SeqSec ss))" "snd ` io_loop_back acc \<subseteq> set (node_names (SeqSec ss))"
    using inv(1,8) unfolding image_subset_iff by blast+
  then show ?case using inv(9) unfolding seq_members run io_ok_def fst_conv by blast
next
  case (ParSec ss)
  have sub: "io_ok (get_inputs_outputs s) (set (node_names s))" if "s \<in> set ss" for s
    using ParSec.IH that names_ok_parts(2) [OF ParSec.prems that] by blast
  have "names_ok (SeqSec ss)" using ParSec.prems by (simp add: names_ok_def)
  then have "apart (members ss)" using apart_members sub by blast
  moreover have "snd ` all_inputs (members ss) \<subseteq> set (node_names (ParSec ss))"
    "snd ` all_loop_back (members ss) \<subseteq> set (node_names (ParSec ss))"
    using sub by (fastforce simp: all_inputs_def all_loop_back_def members_def io_ok_def)+
  ultimately show ?case unfolding io_ok_def par_members apart_def by blast
next
  case (LoopSec l s)
  then show ?case using names_ok_parts(3) [OF LoopSec.prems] by (simp add: Let_def io_ok_def)
qed

section \<open>Order does not matter\<close>

text \<open>
  C33. What a \<open>Sequential\<close> needs from outside does not depend on its order: walking its members one by
  one, it finds the inputs \<open>Parallel\<close>'s set difference finds, those of some member that no member
  produces.
\<close>

theorem sequential_inputs:
  assumes "names_ok (SeqSec ss)"
  shows "io_inputs (get_inputs_outputs (SeqSec ss)) = io_inputs (get_inputs_outputs (ParSec ss)) \<and>
    io_inputs (get_inputs_outputs (SeqSec ss)) =
      {p. (\<exists>s \<in> set ss. p \<in> io_inputs (get_inputs_outputs s)) \<and>
          (\<forall>s \<in> set ss. \<forall>e \<in> set (io_outputs (get_inputs_outputs s)). pair_of e \<noteq> p)}"
proof -
  obtain acc int seen where run: "seq_run (members ss) = (acc, int, seen)" by (cases "seq_run (members ss)")
  have "apart (members ss)" using apart_members [OF assms] section_io_ok names_ok_parts(1) [OF assms] by blast
  from seq_run_inv(1) [OF this run]
  have "io_inputs (get_inputs_outputs (SeqSec ss)) = all_inputs (members ss) - all_produced (members ss)"
    unfolding seq_members run by simp
  moreover have "p \<in> all_inputs (members ss) \<longleftrightarrow> (\<exists>s \<in> set ss. p \<in> io_inputs (get_inputs_outputs s))" for p
    by (simp add: all_inputs_def members_def)
  moreover have "p \<in> all_produced (members ss) \<longleftrightarrow> (\<exists>s \<in> set ss. \<exists>e \<in> set (io_outputs (get_inputs_outputs s)). pair_of e = p)" for p
    by (auto simp: all_produced_def members_def)
  ultimately show ?thesis unfolding par_members by blast
qed

text \<open>A consumer ahead of its producer.\<close>

definition signature_demo :: "unit graph_section list" where
  "signature_demo = [NodeSec \<lparr>nd_name = ''B'', nd_inputs = {''y'', ''z''}, nd_outputs = [], nd_consumes_stream = False,
       nd_async_scheduling = True, nd_streaming = {}\<rparr>,
     NodeSec \<lparr>nd_name = ''A'', nd_inputs = {''x''}, nd_outputs = [new_edge ''B'' ''y''], nd_consumes_stream = False,
       nd_async_scheduling = True, nd_streaming = {}\<rparr>]"

theorem sequential_inputs_witness:
  "io_inputs (get_inputs_outputs (SeqSec signature_demo)) = io_inputs (get_inputs_outputs (ParSec signature_demo))"
proof -
  have "names_ok (SeqSec signature_demo)" by code_simp
  from sequential_inputs [OF this] show ?thesis by blast
qed

end
