(* ===== verification/Page_Allocator.thy ===== *)
theory Page_Allocator imports MStar_Prelude begin

text \<open>
  The free lists a page arena takes its pages from: \<open>PageAllocator\<close> of
  \<open>mstar/engine/resources/kv/cache.py\<close>, a FIFO queue over all pages, and
  \<open>_FreePages\<close> of \<open>mstar/engine/resources/kv/routing.py\<close>, the conductor's LIFO
  list that never hands out the sink page 0. The locale \<open>page_supply\<close> is the
  contract both keep and the arena relies on; it is interpreted on each of the two and
  on the dispatch between them. The lock of \<open>PageAllocator\<close> makes each call atomic,
  as each is here.
\<close>

section \<open>The two free lists\<close>

record page_allocator =
  pa_max_num_pages :: nat
  pa_free_pages :: "nat list"

definition new_page_allocator :: "nat \<Rightarrow> page_allocator" where
  "new_page_allocator n = \<lparr>pa_max_num_pages = n, pa_free_pages = [0..<n]\<rparr>"

definition pa_num_free :: "page_allocator \<Rightarrow> nat" where
  "pa_num_free a = length (pa_free_pages a)"

definition pa_allocate :: "nat \<Rightarrow> page_allocator \<Rightarrow> (nat list \<times> page_allocator) res" where
  "pa_allocate n a =
     (if length (pa_free_pages a) < n then Inl RuntimeError
      else Inr (take n (pa_free_pages a), a\<lparr>pa_free_pages := drop n (pa_free_pages a)\<rparr>))"

definition pa_try_allocate :: "nat \<Rightarrow> page_allocator \<Rightarrow> (nat list \<times> page_allocator) option" where
  "pa_try_allocate n a =
     (if length (pa_free_pages a) < n then None
      else Some (take n (pa_free_pages a), a\<lparr>pa_free_pages := drop n (pa_free_pages a)\<rparr>))"

definition pa_free :: "nat list \<Rightarrow> page_allocator \<Rightarrow> page_allocator" where
  "pa_free pages a = a\<lparr>pa_free_pages := pa_free_pages a @ pages\<rparr>"

record free_pages =
  fp_max_num_pages :: nat
  fp_free :: "nat list"

definition new_free_pages :: "nat \<Rightarrow> free_pages" where
  "new_free_pages n = \<lparr>fp_max_num_pages = n, fp_free = [1..<n]\<rparr>"

definition fp_num_free :: "free_pages \<Rightarrow> nat" where
  "fp_num_free a = length (fp_free a)"

definition fp_try_allocate :: "nat \<Rightarrow> free_pages \<Rightarrow> (nat list \<times> free_pages) option" where
  "fp_try_allocate n a =
     (if n > length (fp_free a) then None
      else Some (drop (length (fp_free a) - n) (fp_free a),
                 a\<lparr>fp_free := take (length (fp_free a) - n) (fp_free a)\<rparr>))"

definition fp_free_pages :: "nat list \<Rightarrow> free_pages \<Rightarrow> free_pages" where
  "fp_free_pages pages a = a\<lparr>fp_free := fp_free a @ pages\<rparr>"

section \<open>The free list of an arena: either of the two\<close>

datatype allocator = Queue_Free page_allocator | Stack_Free free_pages

fun al_max :: "allocator \<Rightarrow> nat" where
  "al_max (Queue_Free a) = pa_max_num_pages a"
| "al_max (Stack_Free a) = fp_max_num_pages a"

fun al_pages :: "allocator \<Rightarrow> nat list" where
  "al_pages (Queue_Free a) = pa_free_pages a"
| "al_pages (Stack_Free a) = fp_free a"

fun al_num_free :: "allocator \<Rightarrow> nat" where
  "al_num_free (Queue_Free a) = pa_num_free a"
| "al_num_free (Stack_Free a) = fp_num_free a"

fun al_try_allocate :: "nat \<Rightarrow> allocator \<Rightarrow> (nat list \<times> allocator) option" where
  "al_try_allocate n (Queue_Free a) = map_option (map_prod id Queue_Free) (pa_try_allocate n a)"
| "al_try_allocate n (Stack_Free a) = map_option (map_prod id Stack_Free) (fp_try_allocate n a)"

fun al_free :: "nat list \<Rightarrow> allocator \<Rightarrow> allocator" where
  "al_free ps (Queue_Free a) = Queue_Free (pa_free ps a)"
| "al_free ps (Stack_Free a) = Stack_Free (fp_free_pages ps a)"

section \<open>The contract of a free list\<close>

locale page_supply =
  fixes try_alloc :: "nat \<Rightarrow> 'q \<Rightarrow> (nat list \<times> 'q) option"
    and put_back :: "nat list \<Rightarrow> 'q \<Rightarrow> 'q"
    and free_of :: "'q \<Rightarrow> nat list"
    and bound_of :: "'q \<Rightarrow> nat"
  assumes try_alloc_None: "try_alloc n q = None \<longleftrightarrow> length (free_of q) < n"
    and try_alloc_Some: "try_alloc n q = Some (ps, q') \<Longrightarrow>
      length ps = n \<and> mset (free_of q) = mset ps + mset (free_of q') \<and> bound_of q' = bound_of q"
    and put_back_pages: "mset (free_of (put_back ps q)) = mset ps + mset (free_of q)"
    and put_back_bound: "bound_of (put_back ps q) = bound_of q"
begin

lemma try_alloc_ok:
  assumes "n \<le> length (free_of q)"
  obtains ps q' where "try_alloc n q = Some (ps, q')"
  using assms try_alloc_None [of n q] by (cases "try_alloc n q") auto

lemma try_alloc_set:
  assumes "try_alloc n q = Some (ps, q')"
  shows "set (free_of q) = set ps \<union> set (free_of q')"
  using try_alloc_Some [OF assms] by (metis set_mset_mset set_mset_union)

lemma try_alloc_distinct:
  assumes "try_alloc n q = Some (ps, q')" and "distinct (free_of q)"
  shows "distinct ps" "distinct (free_of q')" "set ps \<inter> set (free_of q') = {}"
proof -
  have "mset (ps @ free_of q') = mset (free_of q)"
    using try_alloc_Some [OF assms(1)] by simp
  then have "distinct (ps @ free_of q')"
    using assms(2) by (metis mset_eq_imp_distinct_iff)
  then show "distinct ps" "distinct (free_of q')" "set ps \<inter> set (free_of q') = {}"
    by auto
qed

lemma try_alloc_length:
  assumes "try_alloc n q = Some (ps, q')"
  shows "length (free_of q) = n + length (free_of q')"
  using try_alloc_Some [OF assms] by (metis size_mset size_union)

lemma put_back_set [simp]: "set (free_of (put_back ps q)) = set ps \<union> set (free_of q)"
  using put_back_pages [of ps q] by (metis set_mset_mset set_mset_union)

lemma put_back_length [simp]: "length (free_of (put_back ps q)) = length ps + length (free_of q)"
  using put_back_pages [of ps q] by (metis size_mset size_union)

lemma put_back_distinct:
  "distinct (free_of (put_back ps q)) \<longleftrightarrow>
     distinct ps \<and> distinct (free_of q) \<and> set ps \<inter> set (free_of q) = {}"
proof -
  have "mset (free_of (put_back ps q)) = mset (ps @ free_of q)"
    using put_back_pages [of ps q] by simp
  then have "distinct (free_of (put_back ps q)) = distinct (ps @ free_of q)"
    by (rule mset_eq_imp_distinct_iff)
  then show ?thesis by auto
qed

text \<open>What a caller took, it can give back: the free pages are again the ones it found.\<close>

lemma take_and_give_back:
  assumes "try_alloc n q = Some (ps, q')"
  shows "mset (free_of (put_back ps q')) = mset (free_of q)"
  using try_alloc_Some [OF assms] put_back_pages [of ps q'] by simp

end

interpretation fifo: page_supply pa_try_allocate pa_free pa_free_pages pa_max_num_pages
proof unfold_locales
  fix n q ps q' assume "pa_try_allocate n q = Some (ps, q')"
  then have len: "n \<le> length (pa_free_pages q)" and ps: "ps = take n (pa_free_pages q)"
    and q': "q' = q\<lparr>pa_free_pages := drop n (pa_free_pages q)\<rparr>"
    by (auto simp: pa_try_allocate_def split: if_splits)
  have "mset ps + mset (pa_free_pages q') = mset (pa_free_pages q)"
    by (simp add: ps q' flip: mset_append)
  with len ps q' show "length ps = n \<and>
      mset (pa_free_pages q) = mset ps + mset (pa_free_pages q') \<and>
      pa_max_num_pages q' = pa_max_num_pages q" by simp
qed (auto simp: pa_try_allocate_def pa_free_def)

interpretation lifo: page_supply fp_try_allocate fp_free_pages fp_free fp_max_num_pages
proof unfold_locales
  fix n q ps q' assume "fp_try_allocate n q = Some (ps, q')"
  then have len: "n \<le> length (fp_free q)" and ps: "ps = drop (length (fp_free q) - n) (fp_free q)"
    and q': "q' = q\<lparr>fp_free := take (length (fp_free q) - n) (fp_free q)\<rparr>"
    by (auto simp: fp_try_allocate_def split: if_splits)
  have "mset (fp_free q') + mset ps = mset (fp_free q)"
    by (simp add: ps q' flip: mset_append)
  with len ps q' show "length ps = n \<and> mset (fp_free q) = mset ps + mset (fp_free q') \<and>
      fp_max_num_pages q' = fp_max_num_pages q" by (simp add: union_commute)
qed (auto simp: fp_try_allocate_def fp_free_pages_def)

interpretation al: page_supply al_try_allocate al_free al_pages al_max
proof unfold_locales
  fix n q show "al_try_allocate n q = None \<longleftrightarrow> length (al_pages q) < n"
    by (cases q) (simp_all add: fifo.try_alloc_None lifo.try_alloc_None)
next
  fix n q ps q' assume "al_try_allocate n q = Some (ps, q')"
  then show "length ps = n \<and> mset (al_pages q) = mset ps + mset (al_pages q') \<and> al_max q' = al_max q"
    by (cases q) (auto dest: fifo.try_alloc_Some lifo.try_alloc_Some)
next
  fix ps q show "mset (al_pages (al_free ps q)) = mset ps + mset (al_pages q)"
    by (cases q) (simp_all add: fifo.put_back_pages lifo.put_back_pages)
next
  fix ps q show "al_max (al_free ps q) = al_max q"
    by (cases q) (simp_all add: fifo.put_back_bound lifo.put_back_bound)
qed

lemma al_num_free_pages [simp]: "al_num_free a = length (al_pages a)"
  by (cases a) (simp_all add: pa_num_free_def fp_num_free_def)

text \<open>\<open>allocate\<close> and \<open>try_allocate\<close> hand out the same pages and fail together.\<close>

lemma pa_allocate_try:
  "pa_allocate n a = (case pa_try_allocate n a of None \<Rightarrow> Inl RuntimeError | Some r \<Rightarrow> Inr r)"
  by (simp add: pa_allocate_def pa_try_allocate_def)

text \<open>The pages a fresh free list may ever hand out.\<close>

definition al_stock :: "allocator \<Rightarrow> nat set" where
  "al_stock a = (case a of Queue_Free a \<Rightarrow> {0..<pa_max_num_pages a} | Stack_Free a \<Rightarrow> {1..<fp_max_num_pages a})"

lemma al_stock_try: "al_try_allocate n a = Some (ps, a') \<Longrightarrow> al_stock a' = al_stock a"
  by (cases a) (auto simp: al_stock_def pa_try_allocate_def fp_try_allocate_def split: if_splits)

lemma al_stock_free [simp]: "al_stock (al_free ps a) = al_stock a"
  by (cases a) (auto simp: al_stock_def pa_free_def fp_free_pages_def)

lemma al_stock_bound: "p \<in> al_stock a \<Longrightarrow> p < al_max a"
  by (cases a) (auto simp: al_stock_def)

end
