(* ===== verification/Page_Pool.thy ===== *)
theory Page_Pool imports Page_Allocator "HOL-Library.Product_Lexorder" begin

text \<open>
  A paged KV pool's bookkeeping: \<open>PythonPageArena\<close> (\<open>kv/arena.py\<close>: free list,
  owner counts, seals) and \<open>PrefixIndex\<close> (\<open>kv/prefix_index.py\<close>: which cached page
  holds which key, and which to drop first). The two call each other (the arena tells the
  index when a page gains or loses its second owner, the index retains, seals and releases
  pages), so one record holds both and every method is a function on it. Each method is
  translated branch by branch; a Python exception is an \<open>Inl\<close>.

  The arrays are Python lists indexed by page. \<open>heapq\<close> is the standard library's
  priority queue: pushing keeps the multiset of entries, popping takes the least, so the
  heap is held as its sorted list.
\<close>

section \<open>State\<close>

text \<open>The write-back queue a release feeds (\<open>HostWrites.queue\<close> and its fields).\<close>

record 'k host_queue =
  hq_queued :: "('k, nat) dict"
  hq_commits :: nat
  hq_image_ends :: "'k set"

definition hq_queue :: "'k option \<Rightarrow> 'k host_queue \<Rightarrow> 'k host_queue" where
  "hq_queue key w = (case key of None \<Rightarrow> w
     | Some k \<Rightarrow> if k \<in> hq_image_ends w then w
        else if map_of (hq_queued w) k = None
          then w\<lparr>hq_queued := dict_set k (hq_commits w) (hq_queued w)\<rparr> else w)"

text \<open>
  \<open>index_set\<close> says whether \<open>arena.index\<close> is this index; \<open>writes\<close> is
  \<open>arena.writes\<close>; \<open>trail_hash\<close> is Python's \<open>hash\<close> of a trail and the pages
  handed out, which the model leaves open.
\<close>

record 'k pool =
  allocator :: allocator
  num_owners :: "nat list"
  sealed :: "bool list"
  index_set :: bool
  writes :: "'k host_queue option"
  trail :: "(nat \<times> int) option"
  trail_hash :: "nat \<times> int \<Rightarrow> nat list \<Rightarrow> int"
  by_key :: "('k, nat) dict"
  key_at :: "'k option list"
  parent :: "nat option list"
  children :: "int list"
  held_below :: "int list"
  stamp :: "nat list"
  leaves :: "(nat \<times> nat) list"
  clock :: nat
  evictable :: "nat set"
  filed :: nat
  taken :: nat

definition new_pool :: "allocator \<Rightarrow> bool \<Rightarrow> 'k pool" where
  "new_pool al reports = (let n = al_max al in
     \<lparr>allocator = al, num_owners = replicate n 0, sealed = replicate n False,
      index_set = reports, writes = None, trail = None, trail_hash = (\<lambda>_ _. 0),
      by_key = [], key_at = replicate n None, parent = replicate n None,
      children = replicate n 0, held_below = replicate n 0, stamp = replicate n 0,
      leaves = [], clock = 0, evictable = {}, filed = 0, taken = 0\<rparr>)"

definition heappush :: "nat \<times> nat \<Rightarrow> (nat \<times> nat) list \<Rightarrow> (nat \<times> nat) list" where
  "heappush e h = insort e h"

section \<open>The arena: acquiring and sealing\<close>

abbreviation num_free :: "'k pool \<Rightarrow> nat" where
  "num_free s \<equiv> al_num_free (allocator s)"

definition acquire :: "nat \<Rightarrow> 'k pool \<Rightarrow> (nat list option \<times> 'k pool) res" where
  "acquire n s = (case al_try_allocate n (allocator s) of
     None \<Rightarrow> Inr (None, s)
   | Some (pages, al) \<Rightarrow>
       rbind (rfold (\<lambda>p ow. set_at ow p 1) pages (num_owners s)) (\<lambda>ow.
         Inr (Some pages, s\<lparr>allocator := al, num_owners := ow,
           trail := map_option (\<lambda>t. (Suc (fst t), trail_hash s t pages)) (trail s)\<rparr>)))"

definition seal :: "nat list \<Rightarrow> 'k pool \<Rightarrow> 'k pool res" where
  "seal pages s = rbind (rfold (\<lambda>p xs. set_at xs p True) pages (sealed s))
     (\<lambda>xs. Inr (s\<lparr>sealed := xs\<rparr>))"

definition owners :: "nat \<Rightarrow> 'k pool \<Rightarrow> nat res" where
  "owners p s = get_at (num_owners s) p"

section \<open>The index hears that a page is shared, or no longer\<close>

function pin_above :: "nat option \<Rightarrow> 'k pool \<Rightarrow> 'k pool res" where
  "pin_above None s = Inr s"
| "pin_above (Some q) s =
     rbind (get_at (held_below s) q) (\<lambda>h.
       let s = s\<lparr>held_below := (held_below s)[q := h + 1]\<rparr> in
       if h + 1 > 1 then Inr s else
       rbind (owners q s) (\<lambda>n. if n > 1 then Inr s else
       rbind (get_at (parent s) q) (\<lambda>par.
         pin_above par (s\<lparr>evictable := evictable s - {q}\<rparr>))))"
  by pat_completeness auto
termination
  by (relation "measure (\<lambda>(_, s). sum_list (map (\<lambda>h. nat (1 - h)) (held_below s)))")
    (auto simp: Let_def map_update res_simps intro!: sum_list_update_less)

function unpin_above :: "nat option \<Rightarrow> 'k pool \<Rightarrow> 'k pool res" where
  "unpin_above None s = Inr s"
| "unpin_above (Some q) s =
     rbind (get_at (held_below s) q) (\<lambda>h.
       let s = s\<lparr>held_below := (held_below s)[q := h - 1]\<rparr> in
       if h - 1 \<noteq> 0 then Inr s else
       rbind (owners q s) (\<lambda>n. if n > 1 then Inr s else
       rbind (get_at (parent s) q) (\<lambda>par.
         unpin_above par (s\<lparr>evictable := insert q (evictable s)\<rparr>))))"
  by pat_completeness auto
termination
  by (relation "measure (\<lambda>(_, s). sum_list (map nat (held_below s)))")
    (auto simp: Let_def map_update res_simps intro!: sum_list_update_less)

declare pin_above.simps(2) [simp del] unpin_above.simps(2) [simp del]

definition set_shared :: "nat \<Rightarrow> bool \<Rightarrow> 'k pool \<Rightarrow> 'k pool res" where
  "set_shared page shared s =
     rbind (get_at (key_at s) page) (\<lambda>k. if k = None then Inr s else
     rbind (get_at (held_below s) page) (\<lambda>h. if h \<noteq> 0 then Inr s else
     rbind (get_at (parent s) page) (\<lambda>par.
       if shared
       then pin_above par (s\<lparr>taken := Suc (taken s), evictable := evictable s - {page}\<rparr>)
       else unpin_above par (s\<lparr>evictable := insert page (evictable s)\<rparr>))))"

section \<open>The arena: retaining and releasing\<close>

definition retain1 :: "nat \<Rightarrow> 'k pool \<Rightarrow> 'k pool res" where
  "retain1 p s = rbind (owners p s) (\<lambda>n.
     let s = s\<lparr>num_owners := (num_owners s)[p := n + 1]\<rparr> in
     if n + 1 = 2 \<and> index_set s then set_shared p True s else Inr s)"

definition retain :: "nat list \<Rightarrow> 'k pool \<Rightarrow> 'k pool res" where
  "retain = rfold retain1"

text \<open>One iteration of \<open>release\<close>'s loop, over the state and the pages freed so far.\<close>

definition release1 :: "nat \<Rightarrow> nat list \<times> 'k pool \<Rightarrow> (nat list \<times> 'k pool) res" where
  "release1 p fs = (let freed = fst fs; s = snd fs in
     rbind (owners p s) (\<lambda>n. if n = 0 then Inl AssertionError else
       let s = s\<lparr>num_owners := (num_owners s)[p := n - 1]\<rparr> in
       if n - 1 = 0 then
         rbind (set_at (sealed s) p False) (\<lambda>sl. Inr (freed @ [p], s\<lparr>sealed := sl\<rparr>))
       else if n - 1 = 1 \<and> index_set s then
         rbind (set_shared p False s) (\<lambda>s.
         rbind (get_at (key_at s) p) (\<lambda>k.
           Inr (freed, s\<lparr>writes := map_option (hq_queue k) (writes s)\<rparr>)))
       else Inr (freed, s)))"

definition release :: "nat list \<Rightarrow> 'k pool \<Rightarrow> 'k pool res" where
  "release pages s = rbind (rfold release1 pages ([], s))
     (\<lambda>(freed, s). Inr (s\<lparr>allocator := al_free freed (allocator s)\<rparr>))"

section \<open>The index: looking up and inserting\<close>

definition page_for :: "'k \<Rightarrow> 'k pool \<Rightarrow> nat option" where
  "page_for key s = map_of (by_key s) key"

fun pages_for :: "'k list \<Rightarrow> 'k pool \<Rightarrow> nat list" where
  "pages_for [] s = []"
| "pages_for (key # keys) s =
     (case map_of (by_key s) key of None \<Rightarrow> [] | Some page \<Rightarrow> page # pages_for keys s)"

definition touch :: "nat list \<Rightarrow> 'k pool \<Rightarrow> 'k pool res" where
  "touch pages s =
     (if \<exists>p \<in> set pages. length (key_at s) \<le> p then Inl IndexError else
      let pages = filter (\<lambda>p. key_at s ! p \<noteq> None) pages in
      if pages = [] then Inr s else
      let s = s\<lparr>clock := Suc (clock s)\<rparr> in
      rbind (rfold (\<lambda>p xs. set_at xs p (clock s)) pages (stamp s)) (\<lambda>xs.
        Inr (s\<lparr>stamp := xs\<rparr>)))"

definition lookup :: "'k list \<Rightarrow> 'k pool \<Rightarrow> (nat list \<times> 'k pool) res" where
  "lookup keys s = (let pages = pages_for keys s in
     rbind (touch pages s) (\<lambda>s. Inr (pages, s)))"

definition holds :: "nat \<Rightarrow> 'k pool \<Rightarrow> bool res" where
  "holds page s = rbind (get_at (key_at s) page) (\<lambda>k. Inr (k \<noteq> None))"

definition key_of :: "nat \<Rightarrow> 'k pool \<Rightarrow> 'k option res" where
  "key_of page s = get_at (key_at s) page"

definition parent_key :: "nat \<Rightarrow> 'k pool \<Rightarrow> 'k option res" where
  "parent_key page s = rbind (get_at (parent s) page) (\<lambda>par.
     case par of None \<Rightarrow> Inr None | Some q \<Rightarrow> get_at (key_at s) q)"

definition index_pages :: "'k pool \<Rightarrow> nat list" where
  "index_pages s = map snd (by_key s)"

definition num_pages :: "'k pool \<Rightarrow> nat" where
  "num_pages s = length (by_key s)"

text \<open>
  \<open>insert\<close> up to the point where the page is named: its two assertions, the first
  writer's win, and the parent it is filed under.
\<close>

definition insert_parent :: "nat option \<Rightarrow> 'k pool \<Rightarrow> nat option res" where
  "insert_parent par s = (case par of None \<Rightarrow> Inr None | Some q \<Rightarrow>
     if index_set s then rbind (owners q s) (\<lambda>n. Inr (if n = 1 then None else Some q))
     else Inr (Some q))"

definition name_page :: "'k \<Rightarrow> nat \<Rightarrow> nat option \<Rightarrow> 'k pool \<Rightarrow> 'k pool res" where
  "name_page key page par s = (let s = s\<lparr>clock := Suc (clock s), filed := Suc (filed s)\<rparr> in
     if length (key_at s) \<le> page \<or> length (parent s) \<le> page \<or> length (children s) \<le> page \<or>
        length (held_below s) \<le> page \<or> length (stamp s) \<le> page
     then Inl IndexError
     else Inr (s\<lparr>by_key := dict_set key page (by_key s),
       key_at := (key_at s)[page := Some key], parent := (parent s)[page := par],
       children := (children s)[page := 0], held_below := (held_below s)[page := 0],
       stamp := (stamp s)[page := clock s]\<rparr>))"

definition add_child :: "nat option \<Rightarrow> 'k pool \<Rightarrow> 'k pool res" where
  "add_child par s = (case par of None \<Rightarrow> Inr s
     | Some q \<Rightarrow> rbind (get_at (children s) q) (\<lambda>c. Inr (s\<lparr>children := (children s)[q := c + 1]\<rparr>)))"

definition insert_page :: "'k \<Rightarrow> nat \<Rightarrow> nat option \<Rightarrow> 'k pool \<Rightarrow> (bool \<times> 'k pool) res" where
  "insert_page key page par s =
     rbind (case par of None \<Rightarrow> Inr True | Some q \<Rightarrow>
              rbind (get_at (key_at s) q) (\<lambda>k. Inr (k \<noteq> None))) (\<lambda>ok.
     if \<not> ok then Inl AssertionError
     else if map_of (by_key s) key \<noteq> None then Inr (False, s)
     else rbind (get_at (key_at s) page) (\<lambda>k.
     if k \<noteq> None then Inl AssertionError else
     rbind (insert_parent par s) (\<lambda>par.
     rbind (name_page key page par s) (\<lambda>s.
     rbind (seal [page] s) (\<lambda>s.
     rbind (retain [page] s) (\<lambda>s.
     rbind (if index_set s
            then rbind (owners page s) (\<lambda>n. if n > 2 then set_shared page True s else Inr s)
            else Inr s) (\<lambda>s.
     rbind (add_child par s) (\<lambda>s.
       Inr (True, s\<lparr>leaves := heappush (clock s, page) (leaves s)\<rparr>)))))))))"

text \<open>\<open>zip(keys, pages, strict=True)\<close> raises \<open>ValueError\<close> on lists of two lengths.\<close>

fun insert_run :: "'k list \<Rightarrow> nat list \<Rightarrow> nat option \<Rightarrow> 'k pool \<Rightarrow> (nat \<times> 'k pool) res" where
  "insert_run [] [] par s = Inr (0, s)"
| "insert_run (key # keys) (page # pages) par s =
     rbind (insert_page key page par s) (\<lambda>(new, s).
     rbind (if new then Inr page
            else case map_of (by_key s) key of None \<Rightarrow> Inl KeyError | Some p \<Rightarrow> Inr p) (\<lambda>page.
     rbind (insert_run keys pages (Some page) s) (\<lambda>(n, s).
       Inr (if new then Suc n else n, s))))"
| "insert_run _ _ par s = Inl ValueError"

end
