(* ===== verification/Page_Evict.thy ===== *)
theory Page_Evict imports Page_Pool begin

text \<open>
  Dropping cached pages: \<open>PrefixIndex._pop_leaf\<close>, \<open>_remove\<close>, \<open>evict\<close>,
  \<open>drop\<close> and \<open>assert_evictable\<close> of \<open>kv/prefix_index.py\<close>, with the proofs that
  their loops stop. The frame lemmas say which fields each call of the arena and the index
  leaves alone.
\<close>

section \<open>Frames: what pinning, retaining and releasing leave alone\<close>

definition same_index :: "'k pool \<Rightarrow> 'k pool \<Rightarrow> bool" where
  "same_index s s' \<longleftrightarrow> by_key s' = by_key s \<and> key_at s' = key_at s \<and> parent s' = parent s \<and>
     children s' = children s \<and> stamp s' = stamp s \<and> leaves s' = leaves s \<and> clock s' = clock s \<and>
     index_set s' = index_set s \<and> filed s' = filed s \<and>
     length (held_below s') = length (held_below s)"

lemma same_index_refl [simp]: "same_index s s"
  by (simp add: same_index_def)

lemma same_index_trans: "same_index s t \<Longrightarrow> same_index t u \<Longrightarrow> same_index s u"
  by (simp add: same_index_def)

definition same_arena :: "'k pool \<Rightarrow> 'k pool \<Rightarrow> bool" where
  "same_arena s s' \<longleftrightarrow> allocator s' = allocator s \<and> num_owners s' = num_owners s \<and>
     sealed s' = sealed s \<and> writes s' = writes s \<and> trail s' = trail s \<and> trail_hash s' = trail_hash s"

lemma same_arena_refl [simp]: "same_arena s s"
  by (simp add: same_arena_def)

lemma pin_above_frame:
  "pin_above par s = Inr s' \<Longrightarrow> same_index s s' \<and> same_arena s s' \<and> taken s' = taken s"
proof (induction par s rule: pin_above.induct)
  case (2 q s)
  note IH = "2.IH" and eq = "2.prems"
  let ?t = "s\<lparr>held_below := (held_below s)[q := held_below s ! q + 1]\<rparr>"
  from eq have q: "q < length (held_below s)" by (auto simp: pin_above.simps(2) get_at_Inr)
  show ?case
  proof (cases "s' = ?t")
    case True
    then show ?thesis by (simp add: same_index_def same_arena_def)
  next
    case False
    with eq obtain n par where
      "pin_above par (?t\<lparr>evictable := evictable ?t - {q}\<rparr>) = Inr s'"
      "owners q ?t = Inr n" "get_at (parent ?t) q = Inr par" "\<not> held_below s ! q + 1 > 1" "\<not> n > 1"
      by (auto simp: pin_above.simps(2) Let_def get_at_Inr split: if_splits)
    with IH [OF get_at_ok [OF q] refl, of n par]
    have "same_index (?t\<lparr>evictable := evictable ?t - {q}\<rparr>) s' \<and>
        same_arena (?t\<lparr>evictable := evictable ?t - {q}\<rparr>) s' \<and> taken s' = taken ?t"
      by simp
    then show ?thesis by (simp add: same_index_def same_arena_def)
  qed
qed simp

lemma unpin_above_frame:
  "unpin_above par s = Inr s' \<Longrightarrow> same_index s s' \<and> same_arena s s' \<and> taken s' = taken s"
proof (induction par s rule: unpin_above.induct)
  case (2 q s)
  note IH = "2.IH" and eq = "2.prems"
  let ?t = "s\<lparr>held_below := (held_below s)[q := held_below s ! q - 1]\<rparr>"
  from eq have q: "q < length (held_below s)" by (auto simp: unpin_above.simps(2) get_at_Inr)
  show ?case
  proof (cases "s' = ?t")
    case True
    then show ?thesis by (simp add: same_index_def same_arena_def)
  next
    case False
    with eq obtain n par where
      "unpin_above par (?t\<lparr>evictable := insert q (evictable ?t)\<rparr>) = Inr s'"
      "owners q ?t = Inr n" "get_at (parent ?t) q = Inr par" "\<not> held_below s ! q - 1 \<noteq> 0" "\<not> n > 1"
      by (auto simp: unpin_above.simps(2) Let_def get_at_Inr split: if_splits)
    with IH [OF get_at_ok [OF q] refl, of n par]
    have "same_index (?t\<lparr>evictable := insert q (evictable ?t)\<rparr>) s' \<and>
        same_arena (?t\<lparr>evictable := insert q (evictable ?t)\<rparr>) s' \<and> taken s' = taken ?t"
      by simp
    then show ?thesis by (simp add: same_index_def same_arena_def)
  qed
qed simp

lemma set_shared_frame:
  assumes "set_shared p b s = Inr s'"
  shows "same_index s s' \<and> same_arena s s'"
  using assms
  by (auto simp: set_shared_def same_index_def same_arena_def
      dest!: pin_above_frame unpin_above_frame split: if_splits)

lemma retain1_frame:
  assumes "retain1 p s = Inr s'"
  shows "same_index s s'" "allocator s' = allocator s" "sealed s' = sealed s"
    "p < length (num_owners s)" "num_owners s' = (num_owners s)[p := num_owners s ! p + 1]"
  using assms
  by (auto simp: retain1_def owners_def Let_def get_at_Inr same_index_def same_arena_def
      dest!: set_shared_frame split: if_splits)

lemma retain_frame:
  assumes "retain ps s = Inr s'"
  shows "same_index s s' \<and> allocator s' = allocator s \<and> sealed s' = sealed s \<and>
    length (num_owners s') = length (num_owners s)"
  using assms unfolding retain_def
  by (rule rfold_invariant) (auto dest: retain1_frame intro: same_index_trans)

lemma release1_frame:
  assumes "release1 p (freed, s) = Inr (freed', s')"
  shows "same_index s s'" "allocator s' = allocator s" "p < length (num_owners s)"
    "num_owners s ! p \<noteq> 0" "num_owners s' = (num_owners s)[p := num_owners s ! p - 1]"
    "freed' = (if num_owners s ! p = 1 then freed @ [p] else freed)"
    "length (sealed s') = length (sealed s)"
  using assms
  by (auto simp: release1_def owners_def Let_def get_at_Inr set_at_Inr same_index_def same_arena_def
      dest!: set_shared_frame split: if_splits)

lemma release_frame:
  assumes "release ps s = Inr s'"
  shows "same_index s s'" "length (num_owners s') = length (num_owners s)"
proof -
  from assms obtain freed t where
    *: "rfold release1 ps ([], s) = Inr (freed, t)" "s' = t\<lparr>allocator := al_free freed (allocator t)\<rparr>"
    by (auto simp: release_def)
  have "(\<lambda>(_, u). same_index s u \<and> length (num_owners u) = length (num_owners s)) (freed, t)"
    by (rule rfold_invariant [OF *(1)]) (auto dest: release1_frame intro: same_index_trans)
  with *(2) show "same_index s s'" "length (num_owners s') = length (num_owners s)"
    by (auto simp: same_index_def)
qed

section \<open>Popping the oldest leaf\<close>

text \<open>An entry that surfaces under an older stamp is pushed back under the page's own.\<close>

definition stale :: "nat list \<Rightarrow> nat \<times> nat \<Rightarrow> bool" where
  "stale stamps e \<longleftrightarrow> fst e \<noteq> stamps ! snd e"

function pop_leaf :: "'k pool \<Rightarrow> ((nat \<times> nat) option \<times> 'k pool) res" where
  "pop_leaf s = (case leaves s of [] \<Rightarrow> Inr (None, s)
   | (st, page) # h \<Rightarrow>
       rbind (get_at (key_at s) page) (\<lambda>k. if k = None then pop_leaf (s\<lparr>leaves := h\<rparr>) else
       rbind (get_at (children s) page) (\<lambda>c. if c \<noteq> 0 then pop_leaf (s\<lparr>leaves := h\<rparr>) else
       rbind (get_at (stamp s) page) (\<lambda>now.
         if now \<noteq> st then pop_leaf (s\<lparr>leaves := heappush (now, page) h\<rparr>)
         else Inr (Some (st, page), s\<lparr>leaves := h\<rparr>)))))"
  by pat_completeness auto
termination
  by (relation "measure (\<lambda>s. length (leaves s) + size (filter_mset (stale (stamp s)) (mset (leaves s))))")
    (auto simp: heappush_def stale_def get_at_Inr)

declare pop_leaf.simps [simp del]


lemma pop_leaf_induct [consumes 1, case_names empty dead stale fresh]:
  assumes "pop_leaf s = Inr r"
    and empty: "\<And>s. leaves s = [] \<Longrightarrow> P s (None, s)"
    and dead: "\<And>s st p h r. leaves s = (st, p) # h \<Longrightarrow> p < length (key_at s) \<Longrightarrow>
      key_at s ! p = None \<or> p < length (children s) \<and> children s ! p \<noteq> 0 \<Longrightarrow>
      pop_leaf (s\<lparr>leaves := h\<rparr>) = Inr r \<Longrightarrow> P (s\<lparr>leaves := h\<rparr>) r \<Longrightarrow> P s r"
    and stale: "\<And>s st p h r. leaves s = (st, p) # h \<Longrightarrow> p < length (key_at s) \<Longrightarrow>
      p < length (stamp s) \<Longrightarrow> stamp s ! p \<noteq> st \<Longrightarrow>
      pop_leaf (s\<lparr>leaves := heappush (stamp s ! p, p) h\<rparr>) = Inr r \<Longrightarrow>
      P (s\<lparr>leaves := heappush (stamp s ! p, p) h\<rparr>) r \<Longrightarrow> P s r"
    and fresh: "\<And>s st p h. leaves s = (st, p) # h \<Longrightarrow> p < length (key_at s) \<Longrightarrow>
      key_at s ! p \<noteq> None \<Longrightarrow> p < length (children s) \<Longrightarrow> children s ! p = 0 \<Longrightarrow>
      p < length (stamp s) \<Longrightarrow> stamp s ! p = st \<Longrightarrow> P s (Some (st, p), s\<lparr>leaves := h\<rparr>)"
  shows "P s r"
  using assms(1)
proof (induction s arbitrary: r rule: pop_leaf.induct)
  case (1 s)
  show ?case
  proof (cases "leaves s")
    case Nil
    with "1.prems" show ?thesis by (auto simp: pop_leaf.simps [of s] intro: empty)
  next
    case (Cons e h)
    obtain st p where e: "leaves s = (st, p) # h" using Cons by (cases e) auto
    from "1.prems" e have p: "p < length (key_at s)"
      by (auto simp: pop_leaf.simps [of s] get_at_Inr)
    consider (d) "key_at s ! p = None \<or> p < length (children s) \<and> children s ! p \<noteq> 0"
      | (s) "key_at s ! p \<noteq> None" "p < length (children s)" "children s ! p = 0"
          "p < length (stamp s)" "stamp s ! p \<noteq> st"
      | (f) "key_at s ! p \<noteq> None" "p < length (children s)" "children s ! p = 0"
          "p < length (stamp s)" "stamp s ! p = st"
      using "1.prems" e by (auto simp: pop_leaf.simps [of s] get_at_Inr split: if_splits)
    then show ?thesis
    proof cases
      case d
      with "1.prems" e p have r: "pop_leaf (s\<lparr>leaves := h\<rparr>) = Inr r"
        by (auto simp: pop_leaf.simps [of s] split: if_splits)
      have "P (s\<lparr>leaves := h\<rparr>) r"
        using d "1.IH"(1) [OF e refl get_at_ok [OF p]] "1.IH"(2) [OF e refl get_at_ok [OF p]] r
        by (cases "key_at s ! p = None") auto
      with dead e p d r show ?thesis by blast
    next
      case s
      with "1.prems" e p have r: "pop_leaf (s\<lparr>leaves := heappush (stamp s ! p, p) h\<rparr>) = Inr r"
        by (auto simp: pop_leaf.simps [of s])
      have "P (s\<lparr>leaves := heappush (stamp s ! p, p) h\<rparr>) r"
        using s "1.IH"(3) [OF e refl get_at_ok [OF p]] r by auto
      with stale e p s r show ?thesis by blast
    next
      case f
      with "1.prems" e p show ?thesis by (auto simp: pop_leaf.simps [of s] intro!: fresh)
    qed
  qed
qed


lemma length_heappush [simp]: "length (heappush e h) = Suc (length h)"
  by (simp add: heappush_def)

lemma set_heappush [simp]: "set (heappush e h) = insert e (set h)"
  by (simp add: heappush_def set_insort_key)

lemma pop_leaf_frame:
  assumes "pop_leaf s = Inr (e, s')"
  obtains h where "s' = s\<lparr>leaves := h\<rparr>" and "length h \<le> length (leaves s)"
    and "e \<noteq> None \<longrightarrow> length h < length (leaves s)"
proof -
  have "\<exists>h. snd r = s\<lparr>leaves := h\<rparr> \<and> length h \<le> length (leaves s) \<and>
      (fst r \<noteq> None \<longrightarrow> length h < length (leaves s))" if "pop_leaf s = Inr r" for r
    using that
  proof (induction rule: pop_leaf_induct)
    case (empty s)
    then show ?case by (intro exI [of _ "leaves s"]) simp
  next
    case (dead s st p h r)
    from dead.IH obtain h' where "snd r = s\<lparr>leaves := h'\<rparr>" "length h' \<le> length h"
      "fst r \<noteq> None \<longrightarrow> length h' < length h" by auto
    with dead.hyps(1) show ?case by (intro exI [of _ h']) auto
  next
    case (stale s st p h r)
    from stale.IH obtain h' where "snd r = s\<lparr>leaves := h'\<rparr>" "length h' \<le> Suc (length h)"
      "fst r \<noteq> None \<longrightarrow> length h' < Suc (length h)" by auto
    with stale.hyps(1) show ?case by (intro exI [of _ h']) auto
  next
    case (fresh s st p h)
    then show ?case by (intro exI [of _ h]) simp
  qed
  from this [OF assms] that show ?thesis by auto
qed

section \<open>Removing a page\<close>

definition unname_page :: "nat \<Rightarrow> 'k \<Rightarrow> 'k pool \<Rightarrow> 'k pool" where
  "unname_page page key s = s\<lparr>evictable := evictable s - {page}, by_key := dict_del key (by_key s),
     key_at := (key_at s)[page := None], parent := (parent s)[page := None]\<rparr>"

definition drop_child :: "nat option \<Rightarrow> 'k pool \<Rightarrow> 'k pool res" where
  "drop_child par s = (case par of None \<Rightarrow> Inr s | Some q \<Rightarrow>
     rbind (get_at (children s) q) (\<lambda>c.
       let s = s\<lparr>children := (children s)[q := c - 1]\<rparr> in
       if c - 1 \<noteq> 0 then Inr s else
       rbind (get_at (key_at s) q) (\<lambda>k. if k = None then Inr s else
       rbind (get_at (stamp s) q) (\<lambda>st.
         Inr (s\<lparr>leaves := heappush (st, q) (leaves s)\<rparr>)))))"

definition remove_page :: "nat \<Rightarrow> 'k pool \<Rightarrow> 'k pool res" where
  "remove_page page s =
     rbind (get_at (key_at s) page) (\<lambda>k. case k of None \<Rightarrow> Inl KeyError | Some key \<Rightarrow>
     if map_of (by_key s) key = None then Inl KeyError else
     rbind (get_at (parent s) page) (\<lambda>par.
     rbind (release [page] (unname_page page key s)) (\<lambda>s. drop_child par s)))"

lemma drop_child_frame:
  assumes "drop_child par s = Inr s'"
  shows "key_at s' = key_at s" "allocator s' = allocator s" "num_owners s' = num_owners s"
  using assms
  by (auto simp: drop_child_def Let_def get_at_Inr split: option.splits if_splits)

lemma remove_page_keys:
  assumes "remove_page p s = Inr s'"
  shows "p < length (key_at s)" "key_at s ! p \<noteq> None" "key_at s' = (key_at s)[p := None]"
  using assms
  by (auto simp: remove_page_def get_at_Inr unname_page_def same_index_def
      dest!: drop_child_frame(1) release_frame(1) split: option.splits if_splits)

abbreviation num_indexed :: "'k pool \<Rightarrow> nat" where
  "num_indexed s \<equiv> length (filter (\<lambda>k. k \<noteq> None) (key_at s))"

lemma remove_page_decreases: "remove_page p s = Inr s' \<Longrightarrow> num_indexed s' < num_indexed s"
  by (auto simp: remove_page_keys intro!: length_filter_update_less dest: remove_page_keys)

section \<open>Evicting\<close>

text \<open>
  The entry an iteration looks at: the oldest leaf, or, once no leaf is left, the oldest
  spared one (then \<open>last\<close> is true); \<open>None\<close> ends the loop.
\<close>

definition next_leaf ::
  "(nat \<times> nat) list \<Rightarrow> 'k pool \<Rightarrow> (((nat \<times> nat) \<times> bool) option \<times> (nat \<times> nat) list \<times> 'k pool) res" where
  "next_leaf spared s = rbind (pop_leaf s) (\<lambda>(e, s). case e of
     Some e \<Rightarrow> Inr (Some (e, False), spared, s)
   | None \<Rightarrow> (case spared of [] \<Rightarrow> Inr (None, [], s) | e # sp \<Rightarrow> Inr (Some (e, True), sp, s)))"

lemma next_leaf_decreases:
  assumes "next_leaf spared s = Inr (Some (e, final), spared', s')"
  shows "key_at s' = key_at s"
    "2 * length (leaves s') + length spared' < 2 * length (leaves s) + length spared"
    "\<not> final \<Longrightarrow> Suc (2 * length (leaves s') + length spared') < 2 * length (leaves s) + length spared"
proof -
  from assms obtain e' t where t: "pop_leaf s = Inr (e', t)" by (auto simp: next_leaf_def)
  with assms have "t = s'"
    and c: "e' = Some e \<and> \<not> final \<and> spared' = spared \<or> e' = None \<and> spared = e # spared' \<and> final"
    by (auto simp: next_leaf_def split: option.splits list.splits)
  with t have t: "pop_leaf s = Inr (e', s')" by simp
  from t obtain h where "s' = s\<lparr>leaves := h\<rparr>" "length h \<le> length (leaves s)"
    "e' \<noteq> None \<longrightarrow> length h < length (leaves s)" by (rule pop_leaf_frame)
  with c show "key_at s' = key_at s"
    "2 * length (leaves s') + length spared' < 2 * length (leaves s) + length spared"
    "\<not> final \<Longrightarrow> Suc (2 * length (leaves s') + length spared') < 2 * length (leaves s) + length spared"
    by auto
qed

lemma next_leaf_measure:
  assumes "next_leaf spared s = Inr (Some (e, final), spared', s')"
  shows "key_at s' = key_at s \<and>
    2 * length (leaves s') + length spared' < 2 * length (leaves s) + length spared \<and>
    (\<not> final \<longrightarrow> Suc (2 * length (leaves s') + length spared') < 2 * length (leaves s) + length spared)"
  using next_leaf_decreases [OF assms] by blast

function evict_loop :: "nat \<Rightarrow> ('k \<Rightarrow> bool) option \<Rightarrow> 'k list \<Rightarrow> (nat \<times> nat) list \<Rightarrow>
    (nat \<times> nat) list \<Rightarrow> 'k pool \<Rightarrow> ('k list \<times> (nat \<times> nat) list \<times> (nat \<times> nat) list \<times> 'k pool) res" where
  "evict_loop n spare dropped passed spared s =
     (if n \<le> length dropped then Inr (dropped, passed, spared, s) else
      rbind (next_leaf spared s) (\<lambda>(pick, spared, s). case pick of
        None \<Rightarrow> Inr (dropped, passed, spared, s)
      | Some (entry, final) \<Rightarrow>
          rbind (owners (snd entry) s) (\<lambda>m.
          if m > 1 then evict_loop n spare dropped (passed @ [entry]) spared s else
          rbind (get_at (key_at s) (snd entry)) (\<lambda>k. case k of None \<Rightarrow> Inl KeyError | Some key \<Rightarrow>
          if \<not> final \<and> (case spare of None \<Rightarrow> False | Some f \<Rightarrow> f key)
          then evict_loop n spare dropped passed (heappush entry spared) s
          else rbind (remove_page (snd entry) s)
            (\<lambda>s. evict_loop n spare (dropped @ [key]) passed spared s)))))"
  by pat_completeness auto
termination
  by (relation "measures [\<lambda>(_, _, _, _, _, s). num_indexed s,
      \<lambda>(_, _, _, _, spared, s). 2 * length (leaves s) + length spared]")
    (auto dest!: next_leaf_measure remove_page_decreases)

declare evict_loop.simps [simp del]

definition evict :: "nat \<Rightarrow> ('k \<Rightarrow> bool) option \<Rightarrow> 'k pool \<Rightarrow> ('k list \<times> 'k pool) res" where
  "evict n spare s = rbind (evict_loop n spare [] [] [] s) (\<lambda>(dropped, passed, spared, s).
     Inr (dropped, s\<lparr>leaves := fold heappush (passed @ spared) (leaves s)\<rparr>))"

text \<open>
  \<open>assert_evictable\<close> evicts from a copy: the copy's arena is \<open>_Owners\<close>, owner
  counts that tell no index, so the copy reports to none.
\<close>

definition assert_evictable :: "'k pool \<Rightarrow> unit res" where
  "assert_evictable s =
     rbind (evict (card (evictable s)) None (s\<lparr>index_set := False, writes := None\<rparr>)) (\<lambda>(keys, _).
       if length keys = card (evictable s) then Inr () else Inl AssertionError)"

text \<open>\<open>drop\<close> walks its entries last first.\<close>

definition drop_entry :: "'k \<times> nat \<Rightarrow> 'k pool \<Rightarrow> 'k pool res" where
  "drop_entry e s =
     (if map_of (by_key s) (fst e) \<noteq> Some (snd e) then Inr s else
      rbind (get_at (children s) (snd e)) (\<lambda>c. if c \<noteq> 0 then Inr s else
      rbind (owners (snd e) s) (\<lambda>m. if m \<noteq> 1 then Inr s else remove_page (snd e) s)))"

definition drop_entries :: "('k \<times> nat) list \<Rightarrow> 'k pool \<Rightarrow> 'k pool res" where
  "drop_entries entries s = rfold drop_entry (rev entries) s"

end
