(* ===== verification/Page_Share.thy ===== *)
theory Page_Share imports Page_Evict begin

text \<open>
  The invariant of the sharing counts: \<open>held_below\<close> counts a page's pinned children
  (held by a request, or with a held page below them), and the evictable set is exactly
  the pages only the index holds with nothing pinned below them. This theory proves that
  \<open>set_shared\<close> with \<open>_pin_above\<close> and \<open>_unpin_above\<close> restores both after one page
  gains or loses its second owner: each walk is a count that is off by one at one page,
  moving up until it is settled.
\<close>

section \<open>Pinned children\<close>

definition pinned :: "'k pool \<Rightarrow> nat \<Rightarrow> bool" where
  "pinned s c \<longleftrightarrow> num_owners s ! c > 1 \<or> held_below s ! c > 0"

definition kids :: "'k pool \<Rightarrow> nat \<Rightarrow> nat set" where
  "kids s q = {c. c < length (parent s) \<and> parent s ! c = Some q}"

definition pinned_kids :: "'k pool \<Rightarrow> nat \<Rightarrow> nat" where
  "pinned_kids s q = card {c \<in> kids s q. pinned s c}"

definition evict_set :: "'k pool \<Rightarrow> nat set" where
  "evict_set s = {p. p < length (key_at s) \<and> key_at s ! p \<noteq> None \<and>
     num_owners s ! p = 1 \<and> held_below s ! p = 0}"

lemma finite_kids [simp]: "finite (kids s q)"
  by (simp add: kids_def)

lemma finite_evict_set [simp]: "finite (evict_set s)"
  by (simp add: evict_set_def)

text \<open>Every array has one entry per page; a parent link joins two indexed pages.\<close>

definition lens_ok :: "'k pool \<Rightarrow> bool" where
  "lens_ok s \<longleftrightarrow> (let n = al_max (allocator s) in
     length (num_owners s) = n \<and> length (sealed s) = n \<and> length (key_at s) = n \<and>
     length (parent s) = n \<and> length (children s) = n \<and> length (held_below s) = n \<and>
     length (stamp s) = n)"

abbreviation pool_size :: "'k pool \<Rightarrow> nat" where
  "pool_size s \<equiv> al_max (allocator s)"

definition links_ok :: "'k pool \<Rightarrow> bool" where
  "links_ok s \<longleftrightarrow> (\<forall>p q. p < pool_size s \<longrightarrow> parent s ! p = Some q \<longrightarrow>
     key_at s ! p \<noteq> None \<and> q < pool_size s \<and> key_at s ! q \<noteq> None)"

definition owned_ok :: "'k pool \<Rightarrow> bool" where
  "owned_ok s \<longleftrightarrow> (\<forall>p < pool_size s. key_at s ! p \<noteq> None \<longrightarrow> 0 < num_owners s ! p)"

lemma links_ok_update [simp]:
  "links_ok (s\<lparr>held_below := x1\<rparr>) = links_ok s"
  "links_ok (s\<lparr>evictable := x2\<rparr>) = links_ok s"
  "links_ok (s\<lparr>taken := x3\<rparr>) = links_ok s"
  "links_ok (s\<lparr>leaves := x4\<rparr>) = links_ok s"
  "links_ok (s\<lparr>stamp := x5\<rparr>) = links_ok s"
  "links_ok (s\<lparr>clock := x6\<rparr>) = links_ok s"
  "links_ok (s\<lparr>filed := x7\<rparr>) = links_ok s"
  "links_ok (s\<lparr>writes := x8\<rparr>) = links_ok s"
  "links_ok (s\<lparr>sealed := x9\<rparr>) = links_ok s"
  "links_ok (s\<lparr>children := x10\<rparr>) = links_ok s"
  "links_ok (s\<lparr>num_owners := x11\<rparr>) = links_ok s"
  "links_ok (s\<lparr>index_set := x12\<rparr>) = links_ok s"
  by (simp_all add: links_ok_def)

lemma owned_ok_update [simp]:
  "owned_ok (s\<lparr>held_below := x13\<rparr>) = owned_ok s"
  "owned_ok (s\<lparr>evictable := x14\<rparr>) = owned_ok s"
  "owned_ok (s\<lparr>taken := x15\<rparr>) = owned_ok s"
  "owned_ok (s\<lparr>leaves := x16\<rparr>) = owned_ok s"
  "owned_ok (s\<lparr>stamp := x17\<rparr>) = owned_ok s"
  "owned_ok (s\<lparr>clock := x18\<rparr>) = owned_ok s"
  "owned_ok (s\<lparr>filed := x19\<rparr>) = owned_ok s"
  "owned_ok (s\<lparr>writes := x20\<rparr>) = owned_ok s"
  "owned_ok (s\<lparr>sealed := x21\<rparr>) = owned_ok s"
  "owned_ok (s\<lparr>children := x22\<rparr>) = owned_ok s"
  "owned_ok (s\<lparr>parent := x23\<rparr>) = owned_ok s"
  "owned_ok (s\<lparr>index_set := x24\<rparr>) = owned_ok s"
  by (simp_all add: owned_ok_def)

lemma lens_ok_update [simp]:
  "lens_ok (s\<lparr>evictable := x25\<rparr>) = lens_ok s"
  "lens_ok (s\<lparr>taken := x26\<rparr>) = lens_ok s"
  "lens_ok (s\<lparr>leaves := x27\<rparr>) = lens_ok s"
  "lens_ok (s\<lparr>clock := x28\<rparr>) = lens_ok s"
  "lens_ok (s\<lparr>filed := x29\<rparr>) = lens_ok s"
  "lens_ok (s\<lparr>writes := x30\<rparr>) = lens_ok s"
  "lens_ok (s\<lparr>by_key := x31\<rparr>) = lens_ok s"
  "lens_ok (s\<lparr>index_set := x32\<rparr>) = lens_ok s"
  by (simp_all add: lens_ok_def)

lemma lens_ok_held_update [simp]:
  "lens_ok (s\<lparr>held_below := (held_below s)[q := x]\<rparr>) = lens_ok s"
  "lens_ok (s\<lparr>num_owners := (num_owners s)[q := n]\<rparr>) = lens_ok s"
  "lens_ok (s\<lparr>children := (children s)[q := y]\<rparr>) = lens_ok s"
  by (simp_all add: lens_ok_def)

lemma lens_okD [simp]:
  assumes "lens_ok s"
  shows "length (num_owners s) = pool_size s" "length (sealed s) = pool_size s"
    "length (key_at s) = pool_size s" "length (parent s) = pool_size s"
    "length (children s) = pool_size s" "length (held_below s) = pool_size s"
    "length (stamp s) = pool_size s"
  using assms by (simp_all add: lens_ok_def Let_def)

text \<open>The counts, off by \<open>d\<close> at the page \<open>pend\<close> (nowhere for \<open>None\<close>).\<close>

definition counts_upto :: "int \<Rightarrow> nat option \<Rightarrow> 'k pool \<Rightarrow> bool" where
  "counts_upto d pend s \<longleftrightarrow> evictable s = evict_set s \<and>
     (\<forall>q < pool_size s. 0 \<le> held_below s ! q \<and>
        held_below s ! q = int (pinned_kids s q) + (if pend = Some q then d else 0))"

abbreviation counts_ok :: "'k pool \<Rightarrow> bool" where
  "counts_ok s \<equiv> counts_upto 0 None s"

lemma counts_uptoI:
  assumes "evictable s = evict_set s"
    and "\<And>q. q < pool_size s \<Longrightarrow> 0 \<le> held_below s ! q"
    and "\<And>q. q < pool_size s \<Longrightarrow>
      held_below s ! q = int (pinned_kids s q) + (if pend = Some q then d else 0)"
  shows "counts_upto d pend s"
  using assms by (simp add: counts_upto_def)

lemma counts_uptoD:
  assumes "counts_upto d pend s"
  shows "evictable s = evict_set s"
    and "q < pool_size s \<Longrightarrow> 0 \<le> held_below s ! q"
    and "q < pool_size s \<Longrightarrow>
      held_below s ! q = int (pinned_kids s q) + (if pend = Some q then d else 0)"
  using assms unfolding counts_upto_def by blast+

lemma pinned_kids_flip:
  assumes "lens_ok s" and "q < pool_size s" and "parent t = parent s"
    and "\<not> pinned s q" and "pinned t q" and "\<And>c. c \<noteq> q \<Longrightarrow> pinned t c = pinned s c"
  shows "pinned_kids t r = pinned_kids s r + (if parent s ! q = Some r then 1 else 0)"
proof -
  have "pinned t c \<longleftrightarrow> c = q \<or> pinned s c" for c using assms(5,6) by (cases "c = q") auto
  then have "{c \<in> kids t r. pinned t c} =
      (if parent s ! q = Some r then insert q {c \<in> kids s r. pinned s c} else {c \<in> kids s r. pinned s c})"
    using assms(1-4) by (auto simp: kids_def)
  then show ?thesis using assms(4) by (simp add: pinned_kids_def)
qed

lemma pinned_kids_same:
  assumes "parent t = parent s" and "\<And>c. pinned t c = pinned s c"
  shows "pinned_kids t r = pinned_kids s r"
  using assms by (simp add: pinned_kids_def kids_def)

section \<open>The two walks\<close>

lemma pin_above_counts:
  assumes "lens_ok s" "links_ok s" "owned_ok s" "counts_upto (-1) par s"
    and "\<And>q. par = Some q \<Longrightarrow> q < pool_size s \<and> key_at s ! q \<noteq> None"
  obtains s' where "pin_above par s = Inr s'" "counts_ok s'"
proof -
  have "\<exists>s'. pin_above par s = Inr s' \<and> counts_ok s'"
    using assms
  proof (induction par s rule: pin_above.induct)
    case (1 s)
    then show ?case by (simp add: counts_upto_def)
  next
    case (2 q s)
    let ?h = "held_below s ! q"
    let ?t = "s\<lparr>held_below := (held_below s)[q := ?h + 1]\<rparr>"
    let ?u = "?t\<lparr>evictable := evictable s - {q}\<rparr>"
    from "2.prems" have q: "q < pool_size s" "key_at s ! q \<noteq> None" by blast+
    from "2.prems"(4) q(1) have h: "0 \<le> ?h" "?h = int (pinned_kids s q) - 1"
      and ev: "evictable s = evict_set s" by (auto simp: counts_upto_def)
    have own: "0 < num_owners s ! q" using "2.prems"(3) q by (simp add: owned_ok_def)
    have same: "c \<noteq> q \<Longrightarrow> pinned ?t c = pinned s c" for c by (simp add: pinned_def)
    have pt: "pinned ?t q" using h(1) q "2.prems"(1) by (simp add: pinned_def)
    show ?case
    proof (cases "pinned s q")
      case True
      with same pt have "pinned ?t c = pinned s c" for c by (cases "c = q") auto
      then have pk: "pinned_kids ?t r = pinned_kids s r" for r by (rule pinned_kids_same [rotated]) simp
      have "counts_ok ?t"
      proof (rule counts_uptoI)
        have "evict_set ?t = evict_set s"
          using True h(1) own "2.prems"(1) q
          by (auto simp: evict_set_def pinned_def nth_list_update)
        then show "evictable ?t = evict_set ?t" using ev by simp
      next
        fix r assume r: "r < pool_size ?t"
        have "held_below ?t ! r = int (pinned_kids s r)"
          using counts_uptoD(3) [OF "2.prems"(4), of r] r h(2) q(1) "2.prems"(1)
          by (cases "r = q") simp_all
        then show "0 \<le> held_below ?t ! r"
          and "held_below ?t ! r = int (pinned_kids ?t r) + (if None = Some r then 0 else 0)"
          by (simp_all only: pk) simp_all
      qed
      moreover have "pin_above (Some q) s = Inr ?t"
        using True h(1) q "2.prems"(1) by (auto simp: pin_above.simps(2) pinned_def owners_def Let_def)
      ultimately show ?thesis by blast
    next
      case False
      then have h0: "?h = 0" and o1: "num_owners s ! q = 1"
        using h(1) own by (auto simp: pinned_def)
      have pk: "pinned_kids ?u r = pinned_kids s r + (if parent s ! q = Some r then 1 else 0)" for r
        by (rule pinned_kids_flip [OF "2.prems"(1) q(1)]) (use False pt same in \<open>auto simp: pinned_def\<close>)
      have "counts_upto (-1) (parent s ! q) ?u"
      proof (rule counts_uptoI)
        have "evict_set ?u = evict_set s - {q}"
          using h0 q "2.prems"(1) by (auto simp: evict_set_def nth_list_update)
        then show "evictable ?u = evict_set ?u" using ev by simp
      next
        fix r assume r: "r < pool_size ?u"
        have held: "held_below ?u ! r = int (pinned_kids s r)"
          using counts_uptoD(3) [OF "2.prems"(4), of r] r h(2) q(1) "2.prems"(1)
          by (cases "r = q") simp_all
        show "held_below ?u ! r =
            int (pinned_kids ?u r) + (if parent s ! q = Some r then - 1 else 0)"
        proof (cases "parent s ! q = Some r")
          case True
          have "pinned_kids ?u r = pinned_kids s r + 1" by (simp only: pk if_P [OF True])
          with held show ?thesis by (simp only: if_P [OF True])
        next
          case False
          have "pinned_kids ?u r = pinned_kids s r" by (simp only: pk if_not_P [OF False] add_0_right)
          with held show ?thesis by (simp only: if_not_P [OF False] add_0_right)
        qed
        show "0 \<le> held_below ?u ! r" using held by linarith
      qed
      moreover have "lens_ok ?u" "links_ok ?u" "owned_ok ?u"
        using "2.prems"(1-3) by simp_all
      moreover have "\<And>r. parent s ! q = Some r \<Longrightarrow> r < pool_size ?u \<and> key_at ?u ! r \<noteq> None"
        using "2.prems"(2) q(1) by (auto simp: links_ok_def)
      ultimately have "\<exists>s'. pin_above (parent s ! q) ?u = Inr s' \<and> counts_ok s'"
        using "2.IH" [of ?h _ 1 "parent s ! q"] h0 o1 q "2.prems"(1) by (simp add: owners_def)
      then show ?thesis
        using h0 o1 q "2.prems"(1) by (simp add: pin_above.simps(2) owners_def Let_def)
    qed
  qed
  with that show ?thesis by blast
qed

lemma unpin_above_counts:
  assumes "lens_ok s" "links_ok s" "owned_ok s" "counts_upto 1 par s"
    and "\<And>q. par = Some q \<Longrightarrow> q < pool_size s \<and> key_at s ! q \<noteq> None"
  obtains s' where "unpin_above par s = Inr s'" "counts_ok s'"
proof -
  have "\<exists>s'. unpin_above par s = Inr s' \<and> counts_ok s'"
    using assms
  proof (induction par s rule: unpin_above.induct)
    case (1 s)
    then show ?case by (simp add: counts_upto_def)
  next
    case (2 q s)
    let ?h = "held_below s ! q"
    let ?t = "s\<lparr>held_below := (held_below s)[q := ?h - 1]\<rparr>"
    let ?u = "?t\<lparr>evictable := insert q (evictable s)\<rparr>"
    from "2.prems" have q: "q < pool_size s" "key_at s ! q \<noteq> None" by blast+
    from "2.prems"(4) q(1) have h: "?h = int (pinned_kids s q) + 1"
      and ev: "evictable s = evict_set s" by (auto simp: counts_upto_def)
    have own: "0 < num_owners s ! q" using "2.prems"(3) q by (simp add: owned_ok_def)
    have same: "c \<noteq> q \<Longrightarrow> pinned ?t c = pinned s c" for c by (simp add: pinned_def)
    have ps: "pinned s q" using h by (simp add: pinned_def)
    have held: "held_below ?t ! r = int (pinned_kids s r)" if "r < pool_size s" for r
      using counts_uptoD(3) [OF "2.prems"(4), of r] that h q(1) "2.prems"(1)
      by (cases "r = q") simp_all
    show ?case
    proof (cases "pinned ?t q")
      case True
      with same ps have "pinned ?t c = pinned s c" for c by (cases "c = q") auto
      then have pk: "pinned_kids ?t r = pinned_kids s r" for r by (rule pinned_kids_same [rotated]) simp
      have "counts_ok ?t"
      proof (rule counts_uptoI)
        have "evict_set ?t = evict_set s"
          using True h own "2.prems"(1) q
          by (auto simp: evict_set_def pinned_def nth_list_update)
        then show "evictable ?t = evict_set ?t" using ev by simp
      next
        fix r assume r: "r < pool_size ?t"
        then have "held_below ?t ! r = int (pinned_kids s r)" using held by simp
        then show "0 \<le> held_below ?t ! r"
          and "held_below ?t ! r = int (pinned_kids ?t r) + (if None = Some r then 0 else 0)"
          by (simp_all only: pk) simp_all
      qed
      moreover have "unpin_above (Some q) s = Inr ?t"
        using True h q "2.prems"(1) by (auto simp: unpin_above.simps(2) pinned_def owners_def Let_def)
      ultimately show ?thesis by blast
    next
      case False
      then have h1: "?h = 1" and o1: "num_owners s ! q = 1"
        using h own q "2.prems"(1) by (auto simp: pinned_def)
      have pk: "pinned_kids s r = pinned_kids ?u r + (if parent s ! q = Some r then 1 else 0)" for r
      proof -
        have "pinned_kids s r = pinned_kids ?u r + (if parent ?u ! q = Some r then 1 else 0)"
          by (rule pinned_kids_flip) (use "2.prems"(1) q(1) ps False same in \<open>auto simp: pinned_def\<close>)
        then show ?thesis by simp
      qed
      have "counts_upto 1 (parent s ! q) ?u"
      proof (rule counts_uptoI)
        have "evict_set ?u = insert q (evict_set s)"
          using h1 o1 q "2.prems"(1) by (auto simp: evict_set_def nth_list_update)
        then show "evictable ?u = evict_set ?u" using ev by simp
      next
        fix r assume r: "r < pool_size ?u"
        then have held': "held_below ?u ! r = int (pinned_kids s r)" using held [of r] by simp
        show "held_below ?u ! r =
            int (pinned_kids ?u r) + (if parent s ! q = Some r then 1 else 0)"
        proof (cases "parent s ! q = Some r")
          case True
          have "pinned_kids s r = pinned_kids ?u r + 1" by (simp only: pk [of r] if_P [OF True])
          with held' show ?thesis by (simp only: if_P [OF True])
        next
          case False
          have "pinned_kids s r = pinned_kids ?u r"
            by (simp only: pk [of r] if_not_P [OF False] add_0_right)
          with held' show ?thesis by (simp only: if_not_P [OF False] add_0_right)
        qed
        show "0 \<le> held_below ?u ! r" using held' by linarith
      qed
      moreover have "lens_ok ?u" "links_ok ?u" "owned_ok ?u"
        using "2.prems"(1-3) by simp_all
      moreover have "\<And>r. parent s ! q = Some r \<Longrightarrow> r < pool_size ?u \<and> key_at ?u ! r \<noteq> None"
        using "2.prems"(2) q(1) by (auto simp: links_ok_def)
      ultimately have "\<exists>s'. unpin_above (parent s ! q) ?u = Inr s' \<and> counts_ok s'"
        using "2.IH" [of ?h _ 1 "parent s ! q"] h1 o1 q "2.prems"(1) by (simp add: owners_def)
      then show ?thesis
        using h1 o1 q "2.prems"(1) by (simp add: unpin_above.simps(2) owners_def Let_def)
    qed
  qed
  with that show ?thesis by blast
qed

end
