(* ===== verification/Page_Inv.thy ===== *)
theory Page_Inv imports Page_Share begin

text \<open>
  The invariant of a page pool and its preservation by \<open>acquire\<close>, \<open>seal\<close>,
  \<open>retain\<close>, \<open>release\<close>, \<open>touch\<close> and \<open>insert\<close>. \<open>core_ok\<close> is the arena's
  half (free list, owners, seals, sharing counts), with the pages a running release has
  freed but not yet given back; \<open>tree_ok\<close> is the index's half (keys, the forest of
  parents, child counts, and a heap entry for every leaf).
\<close>

section \<open>The invariant\<close>

definition arena_ok :: "nat list \<Rightarrow> 'k pool \<Rightarrow> bool" where
  "arena_ok freed s \<longleftrightarrow> distinct (freed @ al_pages (allocator s)) \<and>
     set freed \<union> set (al_pages (allocator s)) =
       {p. p \<in> al_stock (allocator s) \<and> num_owners s ! p = 0} \<and>
     (\<forall>p < pool_size s. p \<notin> al_stock (allocator s) \<longrightarrow> num_owners s ! p = 0) \<and>
     (\<forall>p < pool_size s. num_owners s ! p = 0 \<longrightarrow> \<not> sealed s ! p)"

definition sealed_ok :: "'k pool \<Rightarrow> bool" where
  "sealed_ok s \<longleftrightarrow> (\<forall>p < pool_size s. key_at s ! p \<noteq> None \<longrightarrow> sealed s ! p)"

definition core_ok :: "nat list \<Rightarrow> 'k pool \<Rightarrow> bool" where
  "core_ok freed s \<longleftrightarrow> lens_ok s \<and> links_ok s \<and> owned_ok s \<and> arena_ok freed s \<and> sealed_ok s \<and>
     (index_set s \<longrightarrow> counts_ok s)"

definition names_ok :: "'k pool \<Rightarrow> bool" where
  "names_ok s \<longleftrightarrow> distinct (map fst (by_key s)) \<and>
     (\<forall>k p. map_of (by_key s) k = Some p \<longleftrightarrow> p < pool_size s \<and> key_at s ! p = Some k)"

definition ranked :: "'k pool \<Rightarrow> bool" where
  "ranked s \<longleftrightarrow> (\<exists>rank :: nat \<Rightarrow> nat. \<forall>p q. p < pool_size s \<longrightarrow> parent s ! p = Some q \<longrightarrow> rank q < rank p)"

definition children_ok :: "'k pool \<Rightarrow> bool" where
  "children_ok s \<longleftrightarrow> (\<forall>q < pool_size s. children s ! q = int (card (kids s q)))"

definition leaves_ok :: "(nat \<times> nat) set \<Rightarrow> 'k pool \<Rightarrow> bool" where
  "leaves_ok extra s \<longleftrightarrow> sorted (leaves s) \<and> (\<forall>e \<in> set (leaves s). snd e < pool_size s) \<and>
     (\<forall>p < pool_size s. key_at s ! p \<noteq> None \<and> children s ! p = 0 \<longrightarrow>
        p \<in> snd ` (set (leaves s) \<union> extra))"

definition tree_ok :: "(nat \<times> nat) set \<Rightarrow> 'k pool \<Rightarrow> bool" where
  "tree_ok extra s \<longleftrightarrow> names_ok s \<and> ranked s \<and> children_ok s \<and> leaves_ok extra s"

definition pool_inv :: "'k pool \<Rightarrow> bool" where
  "pool_inv s \<longleftrightarrow> core_ok [] s \<and> tree_ok {} s"

lemma tree_ok_same_index:
  assumes "same_index s t" and "pool_size t = pool_size s"
  shows "tree_ok extra t = tree_ok extra s"
  using assms
  by (simp add: tree_ok_def same_index_def names_ok_def ranked_def children_ok_def leaves_ok_def kids_def)

lemma pool_inv_new:
  assumes "al = Queue_Free (new_page_allocator n) \<or> al = Stack_Free (new_free_pages n)"
  shows "pool_inv (new_pool al reports)"
proof -
  have "evict_set (new_pool al reports :: 'k pool) = {}"
    by (auto simp: evict_set_def new_pool_def Let_def)
  moreover have "pinned_kids (new_pool al reports :: 'k pool) q = 0" for q
    by (auto simp: pinned_kids_def kids_def new_pool_def Let_def)
  moreover have "kids (new_pool al reports :: 'k pool) q = {}" for q
    by (auto simp: kids_def new_pool_def Let_def)
  ultimately show ?thesis using assms
    by (auto simp: pool_inv_def core_ok_def tree_ok_def lens_ok_def links_ok_def owned_ok_def
        arena_ok_def sealed_ok_def counts_upto_def names_ok_def ranked_def children_ok_def leaves_ok_def
        new_pool_def new_page_allocator_def new_free_pages_def al_stock_def Let_def)
qed

lemma core_okD:
  assumes "core_ok freed s"
  shows "lens_ok s" "links_ok s" "owned_ok s" "arena_ok freed s" "sealed_ok s"
    "index_set s \<Longrightarrow> counts_ok s"
  using assms by (simp_all add: core_ok_def)

section \<open>Gaining and losing the second owner\<close>

lemma not_kid:
  assumes "links_ok s" and "lens_ok s" and "key_at s ! p = None"
  shows "p \<notin> kids s q"
  using assms by (auto simp: kids_def links_ok_def)

lemma pinned_kids_other:
  assumes "parent t = parent s" and "\<And>c. c \<noteq> p \<Longrightarrow> pinned t c = pinned s c" and "p \<notin> kids s q"
  shows "pinned_kids t q = pinned_kids s q"
proof -
  have "{c \<in> kids t q. pinned t c} = {c \<in> kids s q. pinned s c}"
    using assms by (auto simp: kids_def) (metis+)
  then show ?thesis by (simp add: pinned_kids_def)
qed

lemma set_shared_skip:
  assumes "lens_ok s" and "p < pool_size s" and "key_at s ! p = None \<or> held_below s ! p \<noteq> 0"
  shows "set_shared p b s = Inr s"
  using assms by (cases "key_at s ! p") (simp_all add: set_shared_def)

lemma set_shared_walk:
  assumes "lens_ok s" and "p < pool_size s" and "key_at s ! p \<noteq> None" and "held_below s ! p = 0"
  shows "set_shared p True s =
      pin_above (parent s ! p) (s\<lparr>taken := Suc (taken s), evictable := evictable s - {p}\<rparr>)"
    and "set_shared p False s = unpin_above (parent s ! p) (s\<lparr>evictable := insert p (evictable s)\<rparr>)"
  using assms by (auto simp: set_shared_def)

lemma counts_upto_update [simp]:
  "counts_upto d pend (s\<lparr>sealed := x1\<rparr>) = counts_upto d pend s"
  "counts_upto d pend (s\<lparr>writes := x2\<rparr>) = counts_upto d pend s"
  "counts_upto d pend (s\<lparr>leaves := x3\<rparr>) = counts_upto d pend s"
  "counts_upto d pend (s\<lparr>children := x4\<rparr>) = counts_upto d pend s"
  "counts_upto d pend (s\<lparr>stamp := x5\<rparr>) = counts_upto d pend s"
  "counts_upto d pend (s\<lparr>clock := x6\<rparr>) = counts_upto d pend s"
  by (simp_all add: counts_upto_def evict_set_def pinned_kids_def kids_def pinned_def)

text \<open>A page that just became shared: its parent's count is one behind.\<close>

lemma set_shared_True_counts:
  assumes ok: "lens_ok s" "links_ok s" "owned_ok s" and p: "p < pool_size s" "key_at s ! p \<noteq> None"
    and shared: "1 < num_owners s ! p"
    and ev: "evictable s - {p} = evict_set s" "held_below s ! p \<noteq> 0 \<Longrightarrow> p \<notin> evictable s"
    and counts: "\<And>q. q < pool_size s \<Longrightarrow> 0 \<le> held_below s ! q \<and> held_below s ! q =
      int (pinned_kids s q) + (if parent s ! p = Some q \<and> held_below s ! p = 0 then - 1 else 0)"
  obtains s' where "set_shared p True s = Inr s'" "counts_ok s'"
proof (cases "held_below s ! p = 0")
  case False
  with ev have "evictable s = evict_set s" by auto
  with False counts have "counts_ok s" by (intro counts_uptoI) auto
  with that set_shared_skip [OF ok(1) p(1)] False show ?thesis by blast
next
  case True
  let ?t = "s\<lparr>taken := Suc (taken s), evictable := evictable s - {p}\<rparr>"
  have pk: "pinned_kids ?t q = pinned_kids s q" for q by (rule pinned_kids_same) (simp_all add: pinned_def)
  have "counts_upto (- 1) (parent s ! p) ?t"
  proof (rule counts_uptoI)
    show "evictable ?t = evict_set ?t" using ev(1) by (simp add: evict_set_def)
  next
    fix q assume "q < pool_size ?t"
    with counts [of q] True show "0 \<le> held_below ?t ! q"
      and "held_below ?t ! q = int (pinned_kids ?t q) + (if parent s ! p = Some q then - 1 else 0)"
      by (auto simp: pk)
  qed
  moreover have "\<And>q. parent s ! p = Some q \<Longrightarrow> q < pool_size ?t \<and> key_at ?t ! q \<noteq> None"
    using ok(2) p by (auto simp: links_ok_def)
  ultimately obtain s' where "pin_above (parent s ! p) ?t = Inr s'" "counts_ok s'"
    using pin_above_counts [of ?t "parent s ! p"] ok by auto
  with that set_shared_walk [OF ok(1) p True] show ?thesis by simp
qed

text \<open>A page the index alone holds again: its parent's count is one ahead.\<close>

lemma set_shared_False_counts:
  assumes ok: "lens_ok s" "links_ok s" "owned_ok s" and p: "p < pool_size s" "key_at s ! p \<noteq> None"
    and alone: "num_owners s ! p = 1"
    and ev: "evictable s = evict_set s - {p}"
    and counts: "\<And>q. q < pool_size s \<Longrightarrow> 0 \<le> held_below s ! q \<and> held_below s ! q =
      int (pinned_kids s q) + (if parent s ! p = Some q \<and> held_below s ! p = 0 then 1 else 0)"
  obtains s' where "set_shared p False s = Inr s'" "counts_ok s'"
proof (cases "held_below s ! p = 0")
  case False
  then have "p \<notin> evict_set s" by (simp add: evict_set_def)
  with ev have "evictable s = evict_set s" by auto
  with False counts have "counts_ok s" by (intro counts_uptoI) auto
  with that set_shared_skip [OF ok(1) p(1)] False show ?thesis by blast
next
  case True
  let ?t = "s\<lparr>evictable := insert p (evictable s)\<rparr>"
  have pk: "pinned_kids ?t q = pinned_kids s q" for q by (rule pinned_kids_same) (simp_all add: pinned_def)
  have "counts_upto 1 (parent s ! p) ?t"
  proof (rule counts_uptoI)
    have "p \<in> evict_set s" using True alone p ok(1) by (simp add: evict_set_def)
    then show "evictable ?t = evict_set ?t" using ev by (auto simp: evict_set_def)
  next
    fix q assume "q < pool_size ?t"
    with counts [of q] True show "0 \<le> held_below ?t ! q"
      and "held_below ?t ! q = int (pinned_kids ?t q) + (if parent s ! p = Some q then 1 else 0)"
      by (auto simp: pk)
  qed
  moreover have "\<And>q. parent s ! p = Some q \<Longrightarrow> q < pool_size ?t \<and> key_at ?t ! q \<noteq> None"
    using ok(2) p by (auto simp: links_ok_def)
  ultimately obtain s' where "unpin_above (parent s ! p) ?t = Inr s'" "counts_ok s'"
    using unpin_above_counts [of ?t "parent s ! p"] ok by auto
  with that set_shared_walk [OF ok(1) p True] show ?thesis by simp
qed

section \<open>Retaining and releasing one page\<close>

abbreviation set_owners :: "nat \<Rightarrow> nat \<Rightarrow> 'k pool \<Rightarrow> 'k pool" where
  "set_owners p n s \<equiv> s\<lparr>num_owners := (num_owners s)[p := n]\<rparr>"

lemma owned_ok_owners:
  assumes "lens_ok s" "owned_ok s" "p < pool_size s" "key_at s ! p \<noteq> None \<Longrightarrow> 0 < n"
  shows "owned_ok (set_owners p n s)"
  unfolding owned_ok_def
proof (intro allI impI)
  fix q assume "q < pool_size (set_owners p n s)" "key_at (set_owners p n s) ! q \<noteq> None"
  with assms show "0 < num_owners (set_owners p n s) ! q"
    by (cases "q = p") (auto simp: owned_ok_def)
qed

lemma evict_set_owners:
  assumes "lens_ok s" "p < pool_size s"
  shows "evict_set (set_owners p n s) =
    (if key_at s ! p \<noteq> None \<and> held_below s ! p = 0 \<and> n = 1 then insert p (evict_set s)
     else evict_set s - {p})"
proof (rule set_eqI)
  fix x
  show "x \<in> evict_set (set_owners p n s) \<longleftrightarrow>
    x \<in> (if key_at s ! p \<noteq> None \<and> held_below s ! p = 0 \<and> n = 1 then insert p (evict_set s)
      else evict_set s - {p})"
    using assms by (cases "x = p") (auto simp: evict_set_def)
qed

lemma counts_owners_unindexed:
  assumes "lens_ok s" "links_ok s" "p < pool_size s" "counts_ok s" "key_at s ! p = None"
  shows "counts_ok (set_owners p n s)"
proof (rule counts_uptoI)
  have "evict_set (set_owners p n s) = evict_set s"
    using assms by (auto simp: evict_set_def nth_list_update)
  then show "evictable (set_owners p n s) = evict_set (set_owners p n s)"
    using counts_uptoD(1) [OF assms(4)] by simp
next
  fix q assume q: "q < pool_size (set_owners p n s)"
  have "pinned_kids (set_owners p n s) q = pinned_kids s q"
    by (rule pinned_kids_other [where p = p]) (use assms in \<open>auto simp: pinned_def not_kid\<close>)
  with counts_uptoD(2,3) [OF assms(4), of q] q
  show "0 \<le> held_below (set_owners p n s) ! q"
    and "held_below (set_owners p n s) ! q =
      int (pinned_kids (set_owners p n s) q) + (if None = Some q then 0 else 0)" by auto
qed

lemma counts_owners_shared:
  assumes "lens_ok s" "p < pool_size s" "counts_ok s" "1 < num_owners s ! p" "1 < n"
  shows "counts_ok (set_owners p n s)"
proof (rule counts_uptoI)
  have "evict_set (set_owners p n s) = evict_set s"
    using assms by (auto simp: evict_set_def nth_list_update)
  then show "evictable (set_owners p n s) = evict_set (set_owners p n s)"
    using counts_uptoD(1) [OF assms(3)] by simp
next
  fix q assume q: "q < pool_size (set_owners p n s)"
  have "pinned_kids (set_owners p n s) q = pinned_kids s q"
    by (rule pinned_kids_same) (use assms in \<open>auto simp: pinned_def nth_list_update\<close>)
  with counts_uptoD(2,3) [OF assms(3), of q] q
  show "0 \<le> held_below (set_owners p n s) ! q"
    and "held_below (set_owners p n s) ! q =
      int (pinned_kids (set_owners p n s) q) + (if None = Some q then 0 else 0)" by auto
qed

text \<open>A page that passes between one owner and more is pinned by it, unless already pinned below.\<close>

lemma pinned_kids_owners:
  assumes "lens_ok s" "p < pool_size s" "num_owners s ! p \<le> 1" "1 < n" "0 \<le> held_below s ! p"
  shows "pinned_kids (set_owners p n s) q =
    pinned_kids s q + (if parent s ! p = Some q \<and> held_below s ! p = 0 then 1 else 0)"
proof (cases "held_below s ! p = 0")
  case True
  then have "\<not> pinned s p" using assms(3) by (simp add: pinned_def)
  moreover have "pinned (set_owners p n s) p" using assms by (simp add: pinned_def)
  ultimately show ?thesis using True pinned_kids_flip [OF assms(1,2), of "set_owners p n s" q]
    by (auto simp: pinned_def)
next
  case False
  have "pinned_kids (set_owners p n s) q = pinned_kids s q"
    by (rule pinned_kids_same) (use False assms in \<open>auto simp: pinned_def nth_list_update\<close>)
  with False show ?thesis by simp
qed

lemma retain1_counts:
  assumes ok: "lens_ok s" "links_ok s" "owned_ok s" and p: "p < pool_size s" "0 < num_owners s ! p"
    and counts: "index_set s \<Longrightarrow> counts_ok s"
  obtains s' where "retain1 p s = Inr s'" "index_set s \<Longrightarrow> counts_ok s'"
proof (cases "index_set s \<and> num_owners s ! p = 1 \<and> key_at s ! p \<noteq> None")
  case False
  let ?t = "set_owners p (num_owners s ! p + 1) s"
  have "retain1 p s = Inr ?t"
    using False ok(1) p set_shared_skip [of ?t p True]
    by (auto simp: retain1_def owners_def Let_def)
  moreover have "counts_ok ?t" if "index_set s"
    using that False counts p counts_owners_unindexed [OF ok(1,2) p(1)]
      counts_owners_shared [OF ok(1) p(1)] by (cases "num_owners s ! p = 1") auto
  ultimately show ?thesis using that by blast
next
  case True
  let ?t = "set_owners p 2 s"
  from True counts have c: "counts_ok s" by simp
  note D = counts_uptoD [OF c]
  have h: "0 \<le> held_below s ! p" using D(2) p(1) by blast
  have pk: "int (pinned_kids ?t q) = int (pinned_kids s q) +
      (if parent s ! p = Some q \<and> held_below s ! p = 0 then 1 else 0)" for q
    using pinned_kids_owners [OF ok(1) p(1) _ _ h, of 2 q] True by simp
  have "\<exists>s'. set_shared p True ?t = Inr s' \<and> counts_ok s'"
  proof (rule set_shared_True_counts [of ?t p])
    show "lens_ok ?t" "links_ok ?t" "p < pool_size ?t" "key_at ?t ! p \<noteq> None" "1 < num_owners ?t ! p"
      using ok p True by simp_all
    show "owned_ok ?t" using ok p by (intro owned_ok_owners) simp_all
    show "evictable ?t - {p} = evict_set ?t"
      by (simp add: evict_set_owners [OF ok(1) p(1)] D(1))
    show "p \<notin> evictable ?t" if "held_below ?t ! p \<noteq> 0"
      using that D(1) by (simp add: evict_set_def)
  next
    fix q assume "q < pool_size ?t"
    with D(2,3) [of q] show "0 \<le> held_below ?t ! q \<and> held_below ?t ! q = int (pinned_kids ?t q) +
        (if parent ?t ! p = Some q \<and> held_below ?t ! p = 0 then - 1 else 0)"
      by (auto simp: pk)
  qed blast
  with True p ok(1) that show ?thesis by (auto simp: retain1_def owners_def numeral_2_eq_2)
qed

lemma release1_counts:
  assumes ok: "lens_ok s" "links_ok s" "owned_ok s" and p: "p < pool_size s"
    and own: "(if key_at s ! p \<noteq> None then 2 else 1) \<le> num_owners s ! p"
    and counts: "index_set s \<Longrightarrow> counts_ok s"
  obtains s' freed' where "release1 p (freed, s) = Inr (freed', s')" "index_set s \<Longrightarrow> counts_ok s'"
proof (cases "index_set s \<and> num_owners s ! p = 2 \<and> key_at s ! p \<noteq> None")
  case False
  let ?t = "set_owners p (num_owners s ! p - 1) s"
  let ?w = "map_option (hq_queue (key_at s ! p)) (writes s)"
  have c: "counts_ok ?t" if "index_set s"
    using that False counts own counts_owners_unindexed [OF ok(1,2) p]
      counts_owners_shared [OF ok(1) p] by (cases "key_at s ! p = None") auto
  consider "num_owners s ! p = 1" | "num_owners s ! p = 2" "index_set s"
    | "num_owners s ! p \<noteq> 1" "\<not> (num_owners s ! p = 2 \<and> index_set s)" by blast
  then show ?thesis
  proof cases
    case 1
    with p ok(1) have "release1 p (freed, s) =
        Inr (freed @ [p], ?t\<lparr>sealed := (sealed s)[p := False], writes := writes s\<rparr>)"
      by (simp add: release1_def owners_def Let_def)
    with c that show ?thesis by simp
  next
    case 2
    with False p ok(1) set_shared_skip [of ?t p False] have "release1 p (freed, s) =
        Inr (freed, ?t\<lparr>sealed := sealed s, writes := ?w\<rparr>)"
      by (simp add: release1_def owners_def Let_def)
    with c that show ?thesis by simp
  next
    case 3
    with own p ok(1) have "release1 p (freed, s) = Inr (freed, ?t)"
      by (auto simp: release1_def owners_def Let_def split: if_splits)
    with c that show ?thesis by blast
  qed
next
  case True
  let ?t = "set_owners p 1 s"
  from True counts have c: "counts_ok s" by simp
  note D = counts_uptoD [OF c]
  have h: "0 \<le> held_below s ! p" using D(2) p by blast
  have pk: "int (pinned_kids s q) = int (pinned_kids ?t q) +
      (if parent s ! p = Some q \<and> held_below s ! p = 0 then 1 else 0)" for q
  proof -
    have "(num_owners s)[p := 2] = num_owners s"
      using list_update_id [of "num_owners s" p] True by simp
    then have "set_owners p 2 ?t = s" by simp
    with pinned_kids_owners [of ?t p 2 q] h ok(1) p show ?thesis by simp
  qed
  have "\<exists>s'. set_shared p False ?t = Inr s' \<and> counts_ok s'"
  proof (rule set_shared_False_counts [of ?t p])
    show "lens_ok ?t" "links_ok ?t" "p < pool_size ?t" "key_at ?t ! p \<noteq> None" "num_owners ?t ! p = 1"
      using ok p True by simp_all
    show "owned_ok ?t" using ok p by (intro owned_ok_owners) simp_all
    have "p \<notin> evict_set s" using True by (simp add: evict_set_def)
    then show "evictable ?t = evict_set ?t - {p}"
      by (auto simp: evict_set_owners [OF ok(1) p(1)] D(1))
  next
    fix q assume "q < pool_size ?t"
    with D(2,3) [of q] show "0 \<le> held_below ?t ! q \<and> held_below ?t ! q = int (pinned_kids ?t q) +
        (if parent ?t ! p = Some q \<and> held_below ?t ! p = 0 then 1 else 0)"
      by (auto simp: pk)
  qed blast
  then obtain s' where s': "set_shared p False ?t = Inr s'" "counts_ok s'" by blast
  from set_shared_frame [OF s'(1)] have "key_at s' = key_at s" by (simp add: same_index_def)
  with s' True p ok(1) that show ?thesis
    by (simp add: release1_def owners_def Let_def)
qed

end
