(* ===== verification/Page_Ops.thy ===== *)
theory Page_Ops imports Page_Inv begin

text \<open>
  The operations of the arena and the index keep \<open>pool_inv\<close>: each lemma says that the
  call returns (no exception) under the caller's obligations, what it does to the owner
  counts, and that the invariant holds afterwards.
\<close>

section \<open>Retaining and releasing lists of pages\<close>

lemma arena_ok_owners:
  assumes "arena_ok freed s" "lens_ok s" "p < pool_size s" "0 < num_owners s ! p" "0 < n"
  shows "arena_ok freed (set_owners p n s)"
proof -
  have "{q. q \<in> al_stock (allocator s) \<and> (num_owners s)[p := n] ! q = 0} =
      {q. q \<in> al_stock (allocator s) \<and> num_owners s ! q = 0}"
    using assms(2-5) by (auto simp: nth_list_update)
  moreover have "\<forall>q < pool_size s. q \<notin> al_stock (allocator s) \<longrightarrow> (num_owners s)[p := n] ! q = 0"
    using assms by (auto simp: arena_ok_def nth_list_update)
  moreover have "\<forall>q < pool_size s. (num_owners s)[p := n] ! q = 0 \<longrightarrow> \<not> sealed s ! q"
    using assms by (auto simp: arena_ok_def nth_list_update)
  ultimately show ?thesis using assms(1) by (simp add: arena_ok_def)
qed

lemma arena_ok_cong:
  assumes "arena_ok freed s" "allocator t = allocator s" "num_owners t = num_owners s" "sealed t = sealed s"
  shows "arena_ok freed t"
  using assms by (simp add: arena_ok_def)

lemma lens_ok_same_index:
  assumes "lens_ok s" "same_index s t" "length (num_owners t) = length (num_owners s)"
    "length (sealed t) = length (sealed s)" "pool_size t = pool_size s"
  shows "lens_ok t"
  using assms unfolding lens_ok_def same_index_def Let_def by simp

lemma links_ok_same_index:
  "same_index s t \<Longrightarrow> pool_size t = pool_size s \<Longrightarrow> links_ok t = links_ok s"
  by (simp add: links_ok_def same_index_def)

lemma retain1_core:
  assumes ok: "core_ok freed s" and p: "p < pool_size s" "0 < num_owners s ! p"
  obtains s' where "retain1 p s = Inr s'" "core_ok freed s'" "same_index s s'"
    "allocator s' = allocator s" "sealed s' = sealed s"
    "num_owners s' = (num_owners s)[p := num_owners s ! p + 1]"
proof -
  note C = core_okD [OF ok]
  obtain s' where s': "retain1 p s = Inr s'" "index_set s \<Longrightarrow> counts_ok s'"
    using retain1_counts [OF C(1-3) p] C(6) by blast
  note F = retain1_frame [OF s'(1)]
  have "arena_ok freed (set_owners p (num_owners s ! p + 1) s)"
    using arena_ok_owners [OF C(4,1) p, of "num_owners s ! p + 1"] by simp
  then have "arena_ok freed s'" by (rule arena_ok_cong) (simp_all add: F)
  moreover have "lens_ok s'" by (rule lens_ok_same_index [OF C(1) F(1)]) (simp_all add: F)
  moreover have "links_ok s'" using links_ok_same_index [OF F(1)] F(2) C(2) by simp
  moreover have "owned_ok (set_owners p (num_owners s ! p + 1) s)"
    by (rule owned_ok_owners [OF C(1,3) p(1)]) simp
  then have "owned_ok s'" using F by (simp add: owned_ok_def same_index_def)
  moreover have "sealed_ok s'" using C(5) F by (simp add: sealed_ok_def same_index_def)
  moreover have "index_set s' = index_set s" using F(1) by (simp add: same_index_def)
  ultimately have "core_ok freed s'" using s'(2) by (simp add: core_ok_def)
  with s'(1) F that show ?thesis by blast
qed

lemma retain_core:
  assumes "core_ok freed s" and "\<And>p. p \<in> set ps \<Longrightarrow> p < pool_size s \<and> 0 < num_owners s ! p"
  obtains s' where "retain ps s = Inr s'" "core_ok freed s'" "same_index s s'"
    "allocator s' = allocator s" "sealed s' = sealed s"
    "\<And>p. p < pool_size s \<Longrightarrow> num_owners s' ! p = num_owners s ! p + count_list ps p"
proof -
  have "\<exists>s'. retain ps s = Inr s' \<and> core_ok freed s' \<and> same_index s s' \<and>
      allocator s' = allocator s \<and> sealed s' = sealed s \<and>
      (\<forall>p < pool_size s. num_owners s' ! p = num_owners s ! p + count_list ps p)"
    using assms
  proof (induction ps arbitrary: s)
    case Nil
    then show ?case by (simp add: retain_def)
  next
    case (Cons x ps)
    from Cons.prems(2) have x: "x < pool_size s" "0 < num_owners s ! x" by simp_all
    obtain t where t: "retain1 x s = Inr t" "core_ok freed t" "same_index s t"
      "allocator t = allocator s" "sealed t = sealed s"
      "num_owners t = (num_owners s)[x := num_owners s ! x + 1]"
      using retain1_core [OF Cons.prems(1) x] by blast
    have len: "length (num_owners s) = pool_size s" using core_okD(1) [OF Cons.prems(1)] by simp
    have up: "num_owners t ! p = num_owners s ! p + (if p = x then 1 else 0)" if "p < pool_size s" for p
      using that len t(6) by (simp add: nth_list_update)
    have "p < pool_size t \<and> 0 < num_owners t ! p" if "p \<in> set ps" for p
      using Cons.prems(2) [of p] that up [of p] t(4) by auto
    from Cons.IH [OF t(2) this] obtain s' where s': "retain ps t = Inr s'" "core_ok freed s'"
      "same_index t s'" "allocator s' = allocator t" "sealed s' = sealed t"
      "\<forall>p < pool_size t. num_owners s' ! p = num_owners t ! p + count_list ps p" by blast
    have "\<forall>p < pool_size s. num_owners s' ! p = num_owners s ! p + count_list (x # ps) p"
      using s'(6) t(4) up by simp
    with t s' same_index_trans [OF t(3) s'(3)] show ?case
      by (auto simp: retain_def)
  qed
  with that show ?thesis by blast
qed

lemma release1_core:
  assumes ok: "core_ok freed s" and p: "p < pool_size s"
    and own: "(if key_at s ! p \<noteq> None then 2 else 1) \<le> num_owners s ! p"
  obtains s' freed' where "release1 p (freed, s) = Inr (freed', s')" "core_ok freed' s'"
    "same_index s s'" "allocator s' = allocator s"
    "num_owners s' = (num_owners s)[p := num_owners s ! p - 1]"
proof -
  note C = core_okD [OF ok]
  let ?n = "num_owners s ! p"
  obtain s' freed' where s': "release1 p (freed, s) = Inr (freed', s')" "index_set s \<Longrightarrow> counts_ok s'"
    using release1_counts [OF C(1-3) p own] C(6) by blast
  note F = release1_frame [OF s'(1)]
  have key: "?n = 1 \<Longrightarrow> key_at s ! p = None" using own by (auto split: if_splits)
  have sl: "sealed s' = (if ?n = 1 then (sealed s)[p := False] else sealed s)"
    using s'(1) by (auto simp: release1_def owners_def Let_def get_at_Inr set_at_Inr same_arena_def
        dest!: set_shared_frame split: if_splits)
  have stock: "p \<in> al_stock (allocator s)"
    using C(4) p F(4) by (auto simp: arena_ok_def)
  have "arena_ok freed' s'"
  proof (cases "?n = 1")
    case False
    with F(4) have "arena_ok freed (set_owners p (?n - 1) s)"
      by (intro arena_ok_owners [OF C(4,1) p]) simp_all
    then show ?thesis using False F sl by (auto intro: arena_ok_cong)
  next
    case True
    have "p \<notin> set freed \<union> set (al_pages (allocator s))"
      using C(4) True by (simp add: arena_ok_def)
    moreover have "{q. q \<in> al_stock (allocator s) \<and> (num_owners s)[p := 0] ! q = 0} =
        insert p {q. q \<in> al_stock (allocator s) \<and> num_owners s ! q = 0}"
      using p C(1) stock by (auto simp: nth_list_update)
    ultimately show ?thesis using C(4,1) True F sl p stock
      by (auto simp: arena_ok_def nth_list_update split: if_splits)
  qed
  moreover have "lens_ok s'" by (rule lens_ok_same_index [OF C(1) F(1)]) (simp_all add: F)
  moreover have "links_ok s'" using links_ok_same_index [OF F(1)] F(2) C(2) by simp
  moreover have "owned_ok (set_owners p (?n - 1) s)"
    by (rule owned_ok_owners [OF C(1,3) p]) (use own in \<open>auto split: if_splits\<close>)
  then have "owned_ok s'" using F by (simp add: owned_ok_def same_index_def)
  moreover have "sealed_ok s'"
    unfolding sealed_ok_def
  proof (intro allI impI)
    fix q assume "q < pool_size s'" "key_at s' ! q \<noteq> None"
    then have "q < pool_size s" "key_at s ! q \<noteq> None" using F(1,2) by (simp_all add: same_index_def)
    with C(5) sl key show "sealed s' ! q" by (cases "q = p") (auto simp: sealed_ok_def)
  qed
  moreover have "index_set s' = index_set s" using F(1) by (simp add: same_index_def)
  ultimately have "core_ok freed' s'" using s'(2) by (simp add: core_ok_def)
  with s'(1) F that show ?thesis by blast
qed

lemma release_loop_core:
  assumes "core_ok freed s" and "\<And>p. p \<in> set ps \<Longrightarrow> p < pool_size s"
    and "\<And>p. p \<in> set ps \<Longrightarrow> count_list ps p + (if key_at s ! p \<noteq> None then 1 else 0) \<le> num_owners s ! p"
  shows "\<exists>freed' s'. rfold release1 ps (freed, s) = Inr (freed', s') \<and> core_ok freed' s' \<and>
    same_index s s' \<and> allocator s' = allocator s \<and>
    (\<forall>p < pool_size s. num_owners s' ! p = num_owners s ! p - count_list ps p)"
  using assms
proof (induction ps arbitrary: freed s)
  case Nil
  then show ?case by simp
next
  case (Cons x ps)
  from Cons.prems(2) have x: "x < pool_size s" by simp
  have own: "(if key_at s ! x \<noteq> None then 2 else 1) \<le> num_owners s ! x"
    using Cons.prems(3) [of x] by auto
  obtain t freed1 where t: "release1 x (freed, s) = Inr (freed1, t)" "core_ok freed1 t"
    "same_index s t" "allocator t = allocator s"
    "num_owners t = (num_owners s)[x := num_owners s ! x - 1]"
    using release1_core [OF Cons.prems(1) x own] by blast
  have len: "length (num_owners s) = pool_size s" using core_okD(1) [OF Cons.prems(1)] by simp
  have up: "num_owners t ! p = num_owners s ! p - (if p = x then 1 else 0)" if "p < pool_size s" for p
    using that len t(5) by (simp add: nth_list_update)
  have key: "key_at t = key_at s" using t(3) by (simp add: same_index_def)
  have "p < pool_size t" if "p \<in> set ps" for p using Cons.prems(2) [of p] that t(4) by simp
  moreover have "count_list ps p + (if key_at t ! p \<noteq> None then 1 else 0) \<le> num_owners t ! p"
    if "p \<in> set ps" for p
    using Cons.prems(2,3) [of p] that up [of p] key by (auto split: if_splits)
  ultimately obtain freed' s' where s': "rfold release1 ps (freed1, t) = Inr (freed', s')"
    "core_ok freed' s'" "same_index t s'" "allocator s' = allocator t"
    "\<forall>p < pool_size t. num_owners s' ! p = num_owners t ! p - count_list ps p"
    using Cons.IH [OF t(2)] by blast
  have "\<forall>p < pool_size s. num_owners s' ! p = num_owners s ! p - count_list (x # ps) p"
    using s'(5) t(4) up by auto
  with t s' same_index_trans [OF t(3) s'(3)] show ?case by auto
qed

text \<open>At its end a release gives the freed pages back to the free list.\<close>

lemma give_back_core:
  assumes "core_ok freed s"
  shows "core_ok [] (s\<lparr>allocator := al_free freed (allocator s)\<rparr>)"
proof -
  let ?t = "s\<lparr>allocator := al_free freed (allocator s)\<rparr>"
  note C = core_okD [OF assms]
  have b: "pool_size ?t = pool_size s" by (simp add: al.put_back_bound)
  have "arena_ok [] ?t"
    using C(4) b by (auto simp: arena_ok_def al.put_back_distinct)
  moreover have "lens_ok ?t"
    by (rule lens_ok_same_index [OF C(1)]) (simp_all add: same_index_def al.put_back_bound)
  moreover have "links_ok ?t" using C(2) b by (simp add: links_ok_def)
  moreover have "owned_ok ?t" using C(3) b by (simp add: owned_ok_def)
  moreover have "sealed_ok ?t" using C(5) b by (simp add: sealed_ok_def)
  moreover have "counts_ok ?t = counts_ok s"
    using b by (simp add: counts_upto_def evict_set_def pinned_kids_def kids_def pinned_def)
  ultimately show ?thesis using C(6) by (simp add: core_ok_def)
qed

lemma release_core:
  assumes "core_ok [] s" and "\<And>p. p \<in> set ps \<Longrightarrow> p < pool_size s"
    and "\<And>p. p \<in> set ps \<Longrightarrow> count_list ps p + (if key_at s ! p \<noteq> None then 1 else 0) \<le> num_owners s ! p"
  obtains s' where "release ps s = Inr s'" "core_ok [] s'" "same_index s s'"
    "pool_size s' = pool_size s" "al_stock (allocator s') = al_stock (allocator s)"
    "\<And>p. p < pool_size s \<Longrightarrow> num_owners s' ! p = num_owners s ! p - count_list ps p"
proof -
  obtain freed t where t: "rfold release1 ps ([], s) = Inr (freed, t)" "core_ok freed t"
    "same_index s t" "allocator t = allocator s"
    "\<forall>p < pool_size s. num_owners t ! p = num_owners s ! p - count_list ps p"
    using release_loop_core [OF assms] by blast
  let ?s = "t\<lparr>allocator := al_free freed (allocator t)\<rparr>"
  have "release ps s = Inr ?s" using t(1) by (simp add: release_def)
  moreover note give_back_core [OF t(2)]
  moreover have "same_index s ?s" using t(3) by (simp add: same_index_def)
  ultimately show ?thesis using t(4,5) that by (simp add: al.put_back_bound)
qed

section \<open>Acquiring pages\<close>

text \<open>The sharing counts read the owners of indexed pages only.\<close>

lemma counts_ok_agree:
  assumes "counts_ok s" "lens_ok s" "links_ok s"
    and "parent t = parent s" "key_at t = key_at s" "held_below t = held_below s"
    "evictable t = evictable s" "pool_size t = pool_size s"
    and own: "\<And>p. p < pool_size s \<Longrightarrow> key_at s ! p \<noteq> None \<Longrightarrow> num_owners t ! p = num_owners s ! p"
  shows "counts_ok t"
proof (rule counts_uptoI)
  have "evict_set t = evict_set s"
    using assms(2,5,6) own by (auto simp: evict_set_def)
  then show "evictable t = evict_set t" using counts_uptoD(1) [OF assms(1)] assms(7) by simp
next
  fix q assume q: "q < pool_size t"
  have "{c \<in> kids t q. pinned t c} = {c \<in> kids s q. pinned s c}"
    using assms(2-6) own by (auto simp: kids_def pinned_def links_ok_def)
  then have "pinned_kids t q = pinned_kids s q" by (simp add: pinned_kids_def)
  with counts_uptoD(2,3) [OF assms(1), of q] q assms(6,8)
  show "0 \<le> held_below t ! q"
    and "held_below t ! q = int (pinned_kids t q) + (if None = Some q then 0 else 0)" by auto
qed

lemma rfold_set_at:
  assumes "\<And>p. p \<in> set ps \<Longrightarrow> p < length xs"
  shows "\<exists>ys. rfold (\<lambda>p xs. set_at xs p v) ps xs = Inr ys \<and> length ys = length xs \<and>
    (\<forall>p < length xs. ys ! p = (if p \<in> set ps then v else xs ! p))"
  using assms
proof (induction ps arbitrary: xs)
  case (Cons x ps)
  then have x: "x < length xs" by simp
  with Cons.prems Cons.IH [of "xs[x := v]"] obtain ys where
    "rfold (\<lambda>p xs. set_at xs p v) ps (xs[x := v]) = Inr ys" "length ys = length xs"
    "\<forall>p < length xs. ys ! p = (if p \<in> set ps then v else xs[x := v] ! p)" by auto
  with x show ?case by (auto simp: nth_list_update)
qed simp

lemma pool_invD:
  assumes "pool_inv s"
  shows "core_ok [] s" "tree_ok {} s" "lens_ok s" "links_ok s" "owned_ok s" "arena_ok [] s" "sealed_ok s"
    "index_set s \<Longrightarrow> counts_ok s" "names_ok s" "ranked s" "children_ok s" "leaves_ok {} s"
  using assms by (simp_all add: pool_inv_def core_ok_def tree_ok_def)

lemma free_page_unindexed:
  assumes "pool_inv s" "p \<in> set (al_pages (allocator s))"
  shows "p < pool_size s" "num_owners s ! p = 0" "key_at s ! p = None"
proof -
  from assms have "p \<in> al_stock (allocator s)" "num_owners s ! p = 0"
    using pool_invD(6) [OF assms(1)] by (auto simp: arena_ok_def)
  then show "p < pool_size s" "num_owners s ! p = 0" by (auto dest: al_stock_bound)
  with pool_invD(5) [OF assms(1)] show "key_at s ! p = None"
    by (auto simp: owned_ok_def)
qed

lemma acquire_None:
  assumes "num_free s < n"
  shows "acquire n s = Inr (None, s)"
  using assms al.try_alloc_None [of n "allocator s"] by (simp add: acquire_def)

lemma acquire_inv:
  assumes inv: "pool_inv s" and n: "n \<le> num_free s"
  obtains ps s' where "acquire n s = Inr (Some ps, s')" "pool_inv s'" "length ps = n" "distinct ps"
    "set ps \<subseteq> set (al_pages (allocator s))" "same_index s s'" "pool_size s' = pool_size s"
    "num_free s = n + num_free s'" "al_stock (allocator s') = al_stock (allocator s)"
    "\<And>p. p < pool_size s \<Longrightarrow> num_owners s' ! p = (if p \<in> set ps then 1 else num_owners s ! p)"
proof -
  from n obtain ps al where al: "al_try_allocate n (allocator s) = Some (ps, al)"
    using al.try_alloc_ok [of n "allocator s"] by auto
  note A = al.try_alloc_Some [OF al] and B = al.try_alloc_set [OF al]
  have I: "p < pool_size s \<and> num_owners s ! p = 0 \<and> key_at s ! p = None" if "p \<in> set ps" for p
    using free_page_unindexed [OF inv, of p] that B by simp
  note P = pool_invD [OF inv]
  from I have "\<And>p. p \<in> set ps \<Longrightarrow> p < length (num_owners s)" using P(3) by simp
  from rfold_set_at [OF this, of _ "1"] P(3) obtain ow where
    ow: "rfold (\<lambda>p xs. set_at xs p 1) ps (num_owners s) = Inr ow" "length ow = pool_size s"
      "\<And>p. p < pool_size s \<Longrightarrow> ow ! p = (if p \<in> set ps then 1 else num_owners s ! p)" by auto
  let ?s = "s\<lparr>allocator := al, num_owners := ow,
    trail := map_option (\<lambda>t. (Suc (fst t), trail_hash s t ps)) (trail s)\<rparr>"
  have b: "pool_size ?s = pool_size s" using A by simp
  have si: "same_index s ?s" by (simp add: same_index_def)
  have "distinct (al_pages (allocator s))" using P(6) by (simp add: arena_ok_def)
  note D = al.try_alloc_distinct [OF al this]
  have "arena_ok [] ?s"
  proof -
    have "set (al_pages al) = {p. p \<in> al_stock al \<and> ow ! p = 0}"
    proof (intro set_eqI)
      fix p
      have "p < pool_size s" if "p \<in> al_stock al" using al_stock_bound [OF that] b by simp
      moreover have "p \<in> set ps \<union> set (al_pages al) \<longleftrightarrow> p \<in> al_stock al \<and> num_owners s ! p = 0"
        using P(6) B al_stock_try [OF al] by (simp add: arena_ok_def)
      ultimately show "p \<in> set (al_pages al) \<longleftrightarrow> p \<in> {p. p \<in> al_stock al \<and> ow ! p = 0}"
        using D(3) ow(3) [of p] by (cases "p \<in> al_stock al"; cases "p \<in> set ps") auto
    qed
    moreover have "ow ! p = 0" if "p < pool_size s" "p \<notin> al_stock al" for p
      using that P(6) B ow(3) [of p] al_stock_try [OF al] by (auto simp: arena_ok_def)
    ultimately show ?thesis
      using P(6) D(2) b ow(3) by (auto simp: arena_ok_def split: if_splits)
  qed
  moreover have "lens_ok ?s" by (rule lens_ok_same_index [OF P(3) si]) (use ow b P(3) in simp_all)
  moreover have "links_ok ?s" using links_ok_same_index [OF si b] P(4) by simp
  moreover have "owned_ok ?s" using P(5) b ow(3) I by (auto simp: owned_ok_def)
  moreover have "sealed_ok ?s" using P(7) b by (simp add: sealed_ok_def)
  moreover have "counts_ok ?s" if "index_set s"
    by (rule counts_ok_agree [OF P(8) P(3,4)]) (use that b ow(3) I in auto)
  moreover have "tree_ok {} ?s" using tree_ok_same_index [OF si b] P(2) by simp
  ultimately have "pool_inv ?s" by (simp add: pool_inv_def core_ok_def)
  moreover have "acquire n s = Inr (Some ps, ?s)" using al ow(1) by (simp add: acquire_def)
  ultimately show ?thesis
    using that [OF _ _ _ D(1), of ?s] A B b si ow(3) al.try_alloc_length [OF al] al_stock_try [OF al] by simp
qed

lemma retain_inv:
  assumes "pool_inv s" and "\<And>p. p \<in> set ps \<Longrightarrow> p < pool_size s \<and> 0 < num_owners s ! p"
  obtains s' where "retain ps s = Inr s'" "pool_inv s'" "same_index s s'"
    "allocator s' = allocator s" "sealed s' = sealed s"
    "\<And>p. p < pool_size s \<Longrightarrow> num_owners s' ! p = num_owners s ! p + count_list ps p"
proof -
  obtain s' where s': "retain ps s = Inr s'" "core_ok [] s'" "same_index s s'"
    "allocator s' = allocator s" "sealed s' = sealed s"
    "\<And>p. p < pool_size s \<Longrightarrow> num_owners s' ! p = num_owners s ! p + count_list ps p"
    by (rule retain_core [OF pool_invD(1) [OF assms(1)] assms(2)]) (assumption, rule that)
  have "tree_ok {} s'" using tree_ok_same_index [OF s'(3)] s'(4) pool_invD(2) [OF assms(1)] by simp
  with s'(2) have "pool_inv s'" by (simp add: pool_inv_def)
  then show ?thesis by (rule that [OF s'(1) _ s'(3-6)])
qed

lemma release_inv:
  assumes "pool_inv s" and "\<And>p. p \<in> set ps \<Longrightarrow> p < pool_size s"
    and "\<And>p. p \<in> set ps \<Longrightarrow> count_list ps p + (if key_at s ! p \<noteq> None then 1 else 0) \<le> num_owners s ! p"
  obtains s' where "release ps s = Inr s'" "pool_inv s'" "same_index s s'"
    "pool_size s' = pool_size s" "al_stock (allocator s') = al_stock (allocator s)"
    "\<And>p. p < pool_size s \<Longrightarrow> num_owners s' ! p = num_owners s ! p - count_list ps p"
proof -
  obtain s' where s': "release ps s = Inr s'" "core_ok [] s'" "same_index s s'"
    "pool_size s' = pool_size s" "al_stock (allocator s') = al_stock (allocator s)"
    "\<And>p. p < pool_size s \<Longrightarrow> num_owners s' ! p = num_owners s ! p - count_list ps p"
    by (rule release_core [OF pool_invD(1) [OF assms(1)] assms(2,3)]) (assumption, assumption, rule that)
  have "tree_ok {} s'" using tree_ok_same_index [OF s'(3)] s'(4) pool_invD(2) [OF assms(1)] by simp
  with s'(2) have "pool_inv s'" by (simp add: pool_inv_def)
  then show ?thesis by (rule that [OF s'(1) _ s'(3-6)])
qed

end
