(* ===== verification/Page_Insert.thy ===== *)
theory Page_Insert imports Page_Ops begin

text \<open>
  \<open>seal\<close>, \<open>touch\<close>, \<open>lookup\<close>, \<open>insert\<close> and \<open>insert_run\<close> of the
  arena and the index keep \<open>pool_inv\<close>; a run that was inserted is found whole by the next
  lookup, and a lookup returns the pages of the longest indexed prefix of the keys.
\<close>

section \<open>Sealing and touching\<close>

lemma seal_ok:
  assumes "\<And>p. p \<in> set ps \<Longrightarrow> p < length (sealed s)"
  obtains xs where "seal ps s = Inr (s\<lparr>sealed := xs\<rparr>)" "length xs = length (sealed s)"
    "\<And>p. p < length (sealed s) \<Longrightarrow> xs ! p = (p \<in> set ps \<or> sealed s ! p)"
  using rfold_set_at [of ps "sealed s" True] assms by (auto simp: seal_def)

lemma seal_inv:
  assumes "pool_inv s" and "\<And>p. p \<in> set ps \<Longrightarrow> p < pool_size s \<and> 0 < num_owners s ! p"
  obtains s' where "seal ps s = Inr s'" "pool_inv s'" "same_index s s'"
    "allocator s' = allocator s" "num_owners s' = num_owners s"
    "\<And>p. p < pool_size s \<Longrightarrow> sealed s' ! p = (p \<in> set ps \<or> sealed s ! p)"
proof -
  note P = pool_invD [OF assms(1)]
  obtain xs where xs: "seal ps s = Inr (s\<lparr>sealed := xs\<rparr>)" "length xs = pool_size s"
    "\<And>p. p < pool_size s \<Longrightarrow> xs ! p = (p \<in> set ps \<or> sealed s ! p)"
    using seal_ok [of ps s] assms(2) P(3) by auto
  let ?s = "s\<lparr>sealed := xs\<rparr>"
  have si: "same_index s ?s" by (simp add: same_index_def)
  have own: "p \<notin> set ps" if "num_owners s ! p = 0" for p using assms(2) [of p] that by auto
  have "lens_ok ?s" by (rule lens_ok_same_index [OF P(3) si]) (use xs(2) P(3) in simp_all)
  moreover have "arena_ok [] ?s" using P(6) xs(3) own by (auto simp: arena_ok_def)
  moreover have "sealed_ok ?s" using P(7) xs(3) by (auto simp: sealed_ok_def)
  moreover have "tree_ok {} ?s" using tree_ok_same_index [OF si] P(2) by simp
  ultimately have "pool_inv ?s" using P by (simp add: pool_inv_def core_ok_def)
  with xs si show ?thesis by (intro that [of ?s]) simp_all
qed

text \<open>Stamps and the clock only order eviction; the invariant does not read them.\<close>

lemma pool_inv_stamps:
  assumes "pool_inv s" and "length xs = length (stamp s)"
  shows "pool_inv (s\<lparr>clock := c, stamp := xs\<rparr>)"
proof -
  let ?t = "s\<lparr>clock := c, stamp := xs\<rparr>"
  note P = pool_invD [OF assms(1)]
  have "lens_ok ?t" using P(3) assms(2) unfolding lens_ok_def Let_def by simp
  moreover have "tree_ok {} ?t"
    using P(2) by (simp add: tree_ok_def names_ok_def ranked_def children_ok_def leaves_ok_def kids_def)
  ultimately show ?thesis
    using P by (simp add: pool_inv_def core_ok_def arena_ok_def sealed_ok_def)
qed

lemma touch_inv:
  assumes "pool_inv s" and "\<And>p. p \<in> set ps \<Longrightarrow> p < pool_size s"
  obtains c xs where "touch ps s = Inr (s\<lparr>clock := c, stamp := xs\<rparr>)"
    "pool_inv (s\<lparr>clock := c, stamp := xs\<rparr>)"
proof -
  note P = pool_invD [OF assms(1)]
  let ?ps = "filter (\<lambda>p. key_at s ! p \<noteq> None) ps"
  have len: "\<not> (\<exists>p \<in> set ps. length (key_at s) \<le> p)" using assms(2) P(3) by (auto simp: not_le)
  show ?thesis
  proof (cases "?ps = []")
    case True
    then have "touch ps s = Inr s" using len by (simp add: touch_def)
    then have "touch ps s = Inr (s\<lparr>clock := clock s, stamp := stamp s\<rparr>)" by simp
    with pool_inv_stamps [OF assms(1) refl] show ?thesis by (rule that [rotated])
  next
    case False
    have "\<exists>xs. rfold (\<lambda>p xs. set_at xs p (Suc (clock s))) ?ps (stamp s) = Inr xs \<and>
        length xs = length (stamp s) \<and>
        (\<forall>p < length (stamp s). xs ! p = (if p \<in> set ?ps then Suc (clock s) else stamp s ! p))"
      by (rule rfold_set_at) (use assms(2) P(3) in simp)
    then obtain xs where
      xs: "rfold (\<lambda>p xs. set_at xs p (Suc (clock s))) ?ps (stamp s) = Inr xs" "length xs = length (stamp s)"
      by blast
    have "touch ps s = Inr (s\<lparr>clock := Suc (clock s), stamp := xs\<rparr>)"
      using len False xs(1) by (simp add: touch_def Let_def)
    with pool_inv_stamps [OF assms(1) xs(2)] show ?thesis by (rule that [rotated])
  qed
qed

section \<open>Looking up\<close>

text \<open>The pages of a lookup are those of the longest prefix of keys the index names.\<close>

lemma pages_for_eq:
  "pages_for ks s = map (\<lambda>k. the (map_of (by_key s) k)) (takeWhile (\<lambda>k. map_of (by_key s) k \<noteq> None) ks)"
  by (induction ks) (auto split: option.splits)

lemma pages_for_cong: "by_key t = by_key s \<Longrightarrow> pages_for ks t = pages_for ks s"
  by (simp add: pages_for_eq)

lemma names_okD:
  assumes "names_ok s"
  shows "distinct (map fst (by_key s))"
    and "map_of (by_key s) k = Some p \<longleftrightarrow> p < pool_size s \<and> key_at s ! p = Some k"
  using assms by (simp_all add: names_ok_def)

lemma pages_for_indexed:
  assumes "names_ok s" "p \<in> set (pages_for ks s)"
  shows "p < pool_size s" "\<exists>k \<in> set ks. key_at s ! p = Some k"
proof -
  from assms(2) obtain k where "k \<in> set ks" "map_of (by_key s) k = Some p"
    by (auto simp: pages_for_eq dest!: set_takeWhileD)
  with names_okD(2) [OF assms(1)] show "p < pool_size s" "\<exists>k \<in> set ks. key_at s ! p = Some k" by auto
qed

lemma lookup_inv:
  assumes "pool_inv s"
  obtains s' where "lookup ks s = Inr (pages_for ks s, s')" "pool_inv s'" "by_key s' = by_key s"
    "allocator s' = allocator s" "num_owners s' = num_owners s"
proof -
  note N = pool_invD(9) [OF assms]
  obtain c xs where t: "touch (pages_for ks s) s = Inr (s\<lparr>clock := c, stamp := xs\<rparr>)"
    "pool_inv (s\<lparr>clock := c, stamp := xs\<rparr>)"
    by (rule touch_inv [OF assms]) (rule pages_for_indexed(1) [OF N], assumption, rule that)
  from t(1) have "lookup ks s = Inr (pages_for ks s, s\<lparr>clock := c, stamp := xs\<rparr>)"
    by (simp add: lookup_def Let_def)
  with t(2) show ?thesis by (intro that [of "s\<lparr>clock := c, stamp := xs\<rparr>"]) simp_all
qed

section \<open>Inserting one page\<close>

text \<open>
  The state once a page is named, sealed and held by the index, before the sharing counts,
  the parent's child count and the heap hear of it.
\<close>

definition named :: "'k \<Rightarrow> nat \<Rightarrow> nat option \<Rightarrow> 'k pool \<Rightarrow> 'k pool" where
  "named key p par s = s\<lparr>clock := Suc (clock s), filed := Suc (filed s),
     by_key := dict_set key p (by_key s), key_at := (key_at s)[p := Some key],
     parent := (parent s)[p := par], children := (children s)[p := 0],
     held_below := (held_below s)[p := 0], stamp := (stamp s)[p := Suc (clock s)],
     sealed := (sealed s)[p := True], num_owners := (num_owners s)[p := num_owners s ! p + 1]\<rparr>"

lemma named_sel [simp]:
  "clock (named key p par s) = Suc (clock s)"
  "by_key (named key p par s) = dict_set key p (by_key s)"
  "key_at (named key p par s) = (key_at s)[p := Some key]"
  "parent (named key p par s) = (parent s)[p := par]"
  "children (named key p par s) = (children s)[p := 0]"
  "held_below (named key p par s) = (held_below s)[p := 0]"
  "sealed (named key p par s) = (sealed s)[p := True]"
  "num_owners (named key p par s) = (num_owners s)[p := num_owners s ! p + 1]"
  "allocator (named key p par s) = allocator s"
  "index_set (named key p par s) = index_set s"
  "evictable (named key p par s) = evictable s"
  "leaves (named key p par s) = leaves s"
  by (simp_all add: named_def)

text \<open>What \<open>insert\<close> needs: a held page the index does not name, and a parent it does.\<close>

definition can_file :: "nat \<Rightarrow> nat option \<Rightarrow> 'k pool \<Rightarrow> bool" where
  "can_file p par s \<longleftrightarrow> p < pool_size s \<and> 0 < num_owners s ! p \<and> key_at s ! p = None \<and>
     (\<forall>q. par = Some q \<longrightarrow> q < pool_size s \<and> key_at s ! q \<noteq> None)"

lemma named_core:
  assumes inv: "pool_inv s" and ok: "can_file p par s"
  shows "lens_ok (named key p par s)" "links_ok (named key p par s)" "owned_ok (named key p par s)"
    "arena_ok [] (named key p par s)" "sealed_ok (named key p par s)"
proof -
  let ?t = "named key p par s"
  note P = pool_invD [OF inv]
  have p: "p < pool_size s" "0 < num_owners s ! p" "key_at s ! p = None" using ok by (simp_all add: can_file_def)
  have par: "q < pool_size s" "key_at s ! q \<noteq> None" if "par = Some q" for q
    using ok that by (simp_all add: can_file_def)
  show "lens_ok ?t" using P(3) unfolding lens_ok_def Let_def named_def by simp
  show "links_ok ?t"
    unfolding links_ok_def
  proof (intro allI impI)
    fix c q assume c: "c < pool_size ?t" "parent ?t ! c = Some q"
    show "key_at ?t ! c \<noteq> None \<and> q < pool_size ?t \<and> key_at ?t ! q \<noteq> None"
    proof (cases "c = p")
      case True
      with c p P(3) have "par = Some q" by simp
      with par [of q] p P(3) True show ?thesis by (cases "q = p") auto
    next
      case False
      with c P(3) have "parent s ! c = Some q" "c < pool_size s" by simp_all
      with P(4) have "key_at s ! c \<noteq> None" "q < pool_size s" "key_at s ! q \<noteq> None"
        by (auto simp: links_ok_def)
      with False p P(3) show ?thesis by (cases "q = p") auto
    qed
  qed
  show "owned_ok ?t"
    unfolding owned_ok_def
  proof (intro allI impI)
    fix q assume "q < pool_size ?t" "key_at ?t ! q \<noteq> None"
    with P(3,5) p show "0 < num_owners ?t ! q" by (cases "q = p") (auto simp: owned_ok_def)
  qed
  have "arena_ok [] (set_owners p (num_owners s ! p + 1) s)"
    by (rule arena_ok_owners [OF P(6,3) p(1,2)]) simp
  then show "arena_ok [] ?t"
    using p P(3) by (auto simp: arena_ok_def nth_list_update)
  show "sealed_ok ?t"
    unfolding sealed_ok_def
  proof (intro allI impI)
    fix q assume "q < pool_size ?t" "key_at ?t ! q \<noteq> None"
    with P(3,7) p show "sealed ?t ! q" by (cases "q = p") (auto simp: sealed_ok_def)
  qed
qed

text \<open>The page's holder besides the index pins the pages above it, once.\<close>

lemma named_shared:
  assumes inv: "pool_inv s" and ok: "can_file p par s" and idx: "index_set s"
  obtains t where "set_shared p True (named key p par s) = Inr t" "counts_ok t"
proof -
  let ?t = "named key p par s"
  note P = pool_invD [OF inv] and N = named_core [OF inv ok, of key]
  note C = counts_uptoD [OF P(8) [OF idx]]
  have p: "p < pool_size s" "0 < num_owners s ! p" "key_at s ! p = None" using ok by (simp_all add: can_file_def)
  have kid: "p \<notin> kids s q" for q using not_kid [OF P(4,3) p(3)] .
  have none: "parent s ! c \<noteq> Some p" if "c < pool_size s" for c
    using P(4) that p(3) by (auto simp: links_ok_def)
  have par: "par \<noteq> Some p" using ok by (auto simp: can_file_def)
  have "kids s p = {}" using none P(3) by (auto simp: kids_def)
  then have held0: "held_below s ! p = 0" using C(3) [OF p(1)] by (simp add: pinned_kids_def)
  have pk: "pinned_kids ?t q = pinned_kids s q + (if par = Some q then 1 else 0)"
    if "q < pool_size s" for q
  proof -
    have "{c \<in> kids ?t q. pinned ?t c} =
        (if par = Some q then insert p {c \<in> kids s q. pinned s c} else {c \<in> kids s q. pinned s c})"
      using p P(3) kid [of q] held0 by (auto simp: kids_def pinned_def nth_list_update split: if_splits)
    moreover have "finite {c \<in> kids s q. pinned s c}" by (simp add: kids_def)
    ultimately show ?thesis using kid [of q] by (simp add: pinned_kids_def)
  qed
  have "\<exists>t. set_shared p True ?t = Inr t \<and> counts_ok t"
  proof (rule set_shared_True_counts [OF N(1-3)])
    show "p < pool_size ?t" "key_at ?t ! p \<noteq> None" "1 < num_owners ?t ! p" using p P(3) by simp_all
    have "p \<notin> evict_set s" using p by (simp add: evict_set_def)
    moreover have "evict_set ?t = evict_set s"
      using p P(3) by (auto simp: evict_set_def nth_list_update)
    ultimately show "evictable ?t - {p} = evict_set ?t" using C(1) by auto
    show "p \<notin> evictable ?t" if "held_below ?t ! p \<noteq> 0" using that p P(3) by simp
  next
    fix q assume "q < pool_size ?t"
    then have q: "q < pool_size s" by simp
    have "held_below ?t ! q = held_below s ! q" using held0 p P(3) by (cases "q = p") auto
    with C(2,3) [OF q] pk [OF q] p P(3) show "0 \<le> held_below ?t ! q \<and> held_below ?t ! q = int (pinned_kids ?t q) +
        (if parent ?t ! p = Some q \<and> held_below ?t ! p = 0 then - 1 else 0)" by auto
  qed blast
  with that show ?thesis by blast
qed


text \<open>\<open>insert\<close> runs \<open>set_shared\<close> once on the named page, whichever call reports it.\<close>

lemma insert_page_run:
  assumes inv: "pool_inv s" and ok: "can_file p par s" and fresh: "map_of (by_key s) key = None"
  obtains par' t where "par' = None \<or> par' = par" "can_file p par' s"
    "if index_set s then set_shared p True (named key p par' s) = Inr t else t = named key p par' s"
    "insert_page key p par s = rbind (add_child par' t)
       (\<lambda>u. Inr (True, u\<lparr>leaves := heappush (clock u, p) (leaves u)\<rparr>))"
proof -
  note P = pool_invD [OF inv]
  have p: "p < pool_size s" "0 < num_owners s ! p" "key_at s ! p = None" using ok by (simp_all add: can_file_def)
  obtain par' where par': "insert_parent par s = Inr par'" "par' = None \<or> par' = par"
  proof (cases "\<exists>q. par = Some q \<and> index_set s \<and> num_owners s ! q = 1")
    case True
    with ok P(3) show ?thesis by (intro that [of None]) (auto simp: insert_parent_def owners_def can_file_def)
  next
    case False
    with ok P(3) show ?thesis
      by (intro that [of par]) (auto simp: insert_parent_def owners_def can_file_def split: option.splits)
  qed
  with ok have ok': "can_file p par' s" by (auto simp: can_file_def)
  let ?n = "named key p par' s"
  have "\<exists>t. set_shared p True ?n = Inr t" if "index_set s"
    by (rule named_shared [OF inv ok' that]) blast
  then have "\<exists>t. if index_set s then set_shared p True ?n = Inr t else t = ?n"
    by (cases "index_set s") simp_all
  then obtain t where t: "if index_set s then set_shared p True ?n = Inr t else t = ?n" ..
  have own: "num_owners t = num_owners ?n" "index_set t = index_set s"
    using t set_shared_frame [of p True ?n t]
    by (auto simp: same_index_def same_arena_def split: if_splits)
  have par: "(case par of None \<Rightarrow> Inr True | Some q \<Rightarrow>
      rbind (get_at (key_at s) q) (\<lambda>k. Inr (k \<noteq> None))) = Inr True"
    using ok P(3) by (auto simp: can_file_def split: option.splits)
  obtain m where m: "name_page key p par' s = Inr m" "sealed m = sealed s"
    "?n = m\<lparr>sealed := (sealed s)[p := True], num_owners := (num_owners s)[p := num_owners s ! p + 1]\<rparr>"
    "num_owners m = num_owners s" "index_set m = index_set s"
    using p P(3) by (simp add: name_page_def named_def not_le)
  have core: "rbind (retain [p] (m\<lparr>sealed := (sealed s)[p := True]\<rparr>)) (\<lambda>s.
      if index_set s then rbind (owners p s) (\<lambda>n. if n > 2 then set_shared p True s else Inr s) else Inr s) = Inr t"
  proof (cases "index_set s \<and> num_owners s ! p = 1")
    case True
    then have "retain [p] (m\<lparr>sealed := (sealed s)[p := True]\<rparr>) = Inr t"
      using t m p P(3) by (simp add: retain_def retain1_def owners_def Let_def)
    moreover have "num_owners t ! p = 2" using True own p P(3) by simp
    ultimately show ?thesis using own p P(3) True by (simp add: owners_def)
  next
    case False
    then have "retain [p] (m\<lparr>sealed := (sealed s)[p := True]\<rparr>) = Inr ?n"
      using m p P(3) by (auto simp: retain_def retain1_def owners_def Let_def)
    with False t p P(3) show ?thesis by (auto simp: owners_def split: if_splits)
  qed
  have "insert_page key p par s = rbind (rbind (rbind (retain [p] (m\<lparr>sealed := (sealed s)[p := True]\<rparr>))
      (\<lambda>s. if index_set s then rbind (owners p s) (\<lambda>n. if n > 2 then set_shared p True s else Inr s) else Inr s))
      (add_child par')) (\<lambda>u. Inr (True, u\<lparr>leaves := heappush (clock u, p) (leaves u)\<rparr>))"
    using par fresh p par'(1) m P(3)
    by (simp add: insert_page_def seal_def rbind_assoc [symmetric])
  then have "insert_page key p par s = rbind (add_child par' t)
       (\<lambda>u. Inr (True, u\<lparr>leaves := heappush (clock u, p) (leaves u)\<rparr>))"
    by (simp only: core rbind_simps)
  with that par'(2) ok' t show ?thesis by blast
qed

text \<open>The index's half of the invariant, once the child count and the heap are up to date.\<close>

lemma filed_tree:
  assumes inv: "pool_inv s" and ok: "can_file p par s" and fresh: "map_of (by_key s) key = None"
    and u: "by_key u = dict_set key p (by_key s)" "key_at u = (key_at s)[p := Some key]"
      "parent u = (parent s)[p := par]" "pool_size u = pool_size s"
      "leaves u = heappush (c, p) (leaves s)"
      "\<And>q. q < pool_size s \<Longrightarrow> children u ! q =
        (if q = p then 0 else children s ! q) + (if par = Some q then 1 else 0)"
  shows "tree_ok {} u"
proof -
  note P = pool_invD [OF inv]
  have p: "p < pool_size s" "key_at s ! p = None" using ok by (simp_all add: can_file_def)
  have par: "par \<noteq> Some p" "\<And>q. par = Some q \<Longrightarrow> q < pool_size s" using ok by (auto simp: can_file_def)
  have none: "parent s ! c \<noteq> Some p" if "c < pool_size s" for c
    using P(4) that p(2) by (auto simp: links_ok_def)
  have "names_ok u"
    unfolding names_ok_def
  proof (intro conjI allI)
    show "distinct (map fst (by_key u))" using names_okD(1) [OF P(9)] u(1) by simp
    fix k q
    show "map_of (by_key u) k = Some q \<longleftrightarrow> q < pool_size u \<and> key_at u ! q = Some k"
      using names_okD(2) [OF P(9), of k q] names_okD(2) [OF P(9), of key q] fresh u(1,2,4) p P(3)
      by (cases "q = p"; cases "k = key") auto
  qed
  moreover have "ranked u"
  proof -
    from P(10) obtain rank :: "nat \<Rightarrow> nat" where
      r: "\<And>c q. c < pool_size s \<Longrightarrow> parent s ! c = Some q \<Longrightarrow> rank q < rank c"
      by (auto simp: ranked_def)
    have "\<forall>c q. c < pool_size u \<longrightarrow> parent u ! c = Some q \<longrightarrow>
        (rank(p := Suc (case par of None \<Rightarrow> 0 | Some q \<Rightarrow> rank q))) q <
        (rank(p := Suc (case par of None \<Rightarrow> 0 | Some q \<Rightarrow> rank q))) c"
      using r none par u(3,4) p P(3) by (auto simp: nth_list_update)
    then show ?thesis unfolding ranked_def by blast
  qed
  moreover have "children_ok u"
    unfolding children_ok_def
  proof (intro allI impI)
    fix q assume "q < pool_size u"
    then have q: "q < pool_size s" using u(4) by simp
    have kid: "p \<notin> kids s q" by (rule not_kid [OF P(4,3) p(2)])
    have "kids u q = (if par = Some q then insert p (kids s q) else kids s q)"
      using u(3) p P(3) kid by (auto simp: kids_def nth_list_update split: if_splits)
    moreover have "kids s p = {}" using none P(3) by (auto simp: kids_def)
    ultimately show "children u ! q = int (card (kids u q))"
      using P(11) q u(6) [OF q] kid par(1) by (auto simp: children_ok_def)
  qed
  moreover have "leaves_ok {} u"
    unfolding leaves_ok_def
  proof (intro conjI allI impI ballI)
    show "sorted (leaves u)" using P(12) u(5) by (simp add: leaves_ok_def heappush_def sorted_insort)
    show "snd e < pool_size u" if "e \<in> set (leaves u)" for e
      using that P(12) u(4,5) p by (auto simp: leaves_ok_def)
  next
    fix q assume q: "q < pool_size u" "key_at u ! q \<noteq> None \<and> children u ! q = 0"
    show "q \<in> snd ` (set (leaves u) \<union> {})"
    proof (cases "q = p")
      case True
      then show ?thesis using u(5) by force
    next
      case False
      have "0 \<le> children s ! q" using P(11) q(1) u(4) by (simp add: children_ok_def)
      with False q u(2,4) u(6) [of q] p P(3) have "key_at s ! q \<noteq> None" "children s ! q = 0"
        by (auto split: if_splits)
      with P(12) q(1) u(4) have "q \<in> snd ` set (leaves s)" by (simp add: leaves_ok_def)
      then show ?thesis using u(5) by auto
    qed
  qed
  ultimately show ?thesis by (simp add: tree_ok_def)
qed

lemma insert_page_inv:
  assumes inv: "pool_inv s" and ok: "can_file p par s" and fresh: "map_of (by_key s) key = None"
  obtains s' where "insert_page key p par s = Inr (True, s')" "pool_inv s'"
    "by_key s' = by_key s @ [(key, p)]" "key_at s' = (key_at s)[p := Some key]"
    "allocator s' = allocator s" "num_owners s' = (num_owners s)[p := num_owners s ! p + 1]"
    "index_set s' = index_set s"
proof -
  note P = pool_invD [OF inv]
  obtain par' t where par': "par' = None \<or> par' = par" and ok': "can_file p par' s"
    and t: "if index_set s then set_shared p True (named key p par' s) = Inr t else t = named key p par' s"
    and run: "insert_page key p par s = rbind (add_child par' t)
       (\<lambda>u. Inr (True, u\<lparr>leaves := heappush (clock u, p) (leaves u)\<rparr>))"
    by (rule insert_page_run [OF assms]) (rule that)
  let ?n = "named key p par' s"
  note N = named_core [OF inv ok', of key]
  have F: "same_index ?n t" "same_arena ?n t"
    using t set_shared_frame [of p True ?n t] by (auto split: if_splits)
  have cnt: "counts_ok t" if "index_set s"
    by (rule named_shared [OF inv ok' that, where key = key]) (use t that in simp)
  have tl: "lens_ok t" by (rule lens_ok_same_index [OF N(1) F(1)]) (use F(2) in \<open>simp_all add: same_arena_def\<close>)
  obtain ch where ch: "add_child par' t = Inr (t\<lparr>children := ch\<rparr>)" "length ch = pool_size s"
    "\<And>q. q < pool_size s \<Longrightarrow> ch ! q = (if q = p then 0 else children s ! q) + (if par' = Some q then 1 else 0)"
  proof (cases par')
    case None
    with F(1) P(3) ok' show ?thesis
      by (intro that [of "children t"]) (auto simp: add_child_def same_index_def can_file_def)
  next
    case (Some q)
    with ok' have q: "q < pool_size s" "q \<noteq> p" by (auto simp: can_file_def)
    with F(1) P(3) ok' Some show ?thesis
      by (intro that [of "(children t)[q := children t ! q + 1]"])
        (auto simp: add_child_def same_index_def can_file_def nth_list_update)
  qed
  let ?u = "t\<lparr>children := ch, leaves := heappush (clock t, p) (leaves t)\<rparr>"
  have eqs: "allocator t = allocator s" "num_owners t = (num_owners s)[p := num_owners s ! p + 1]"
    "sealed t = sealed ?n" "key_at t = (key_at s)[p := Some key]" "parent t = (parent s)[p := par']"
    "by_key t = dict_set key p (by_key s)" "leaves t = leaves s" "index_set t = index_set s"
    using F by (simp_all add: same_index_def same_arena_def)
  have "tree_ok {} ?u"
    by (rule filed_tree [OF inv ok' fresh, where c = "clock t"]) (use eqs ch(3) in simp_all)
  moreover have "core_ok [] ?u"
  proof -
    have "lens_ok ?u" using tl ch(2) eqs(1) unfolding lens_ok_def Let_def by simp
    moreover have "links_ok ?u" using N(2) eqs by (simp add: links_ok_def)
    moreover have "owned_ok ?u" using N(3) eqs by (simp add: owned_ok_def)
    moreover have "arena_ok [] ?u" using arena_ok_cong [OF N(4), of ?u] eqs by simp
    moreover have "sealed_ok ?u" using N(5) eqs by (simp add: sealed_ok_def)
    ultimately show ?thesis using cnt eqs(8) by (simp add: core_ok_def)
  qed
  ultimately have "pool_inv ?u" by (simp add: pool_inv_def)
  with run ch(1) eqs fresh show ?thesis by (intro that [of ?u]) (simp_all add: dict_set_fresh)
qed

section \<open>Inserting a run\<close>

text \<open>The first writer wins: a key already indexed keeps its page, and nothing changes.\<close>

lemma insert_page_first_writer:
  assumes "map_of (by_key s) key = Some p'"
    and "\<And>q. par = Some q \<Longrightarrow> q < length (key_at s) \<and> key_at s ! q \<noteq> None"
  shows "insert_page key p par s = Inr (False, s)"
proof (cases par)
  case (Some q)
  with assms(2) have "q < length (key_at s)" "key_at s ! q \<noteq> None" by blast+
  with Some assms(1) show ?thesis by (auto simp: insert_page_def)
qed (simp add: insert_page_def assms(1))

text \<open>
  A run's pages can be filed where its keys are not indexed yet; where one is, the page
  handed in is not looked at.
\<close>

definition can_file_run :: "'k list \<Rightarrow> nat list \<Rightarrow> 'k pool \<Rightarrow> bool" where
  "can_file_run ks ps s \<longleftrightarrow> length ks = length ps \<and> distinct ps \<and>
     (\<forall>(k, p) \<in> set (zip ks ps). map_of (by_key s) k = None \<longrightarrow> can_file p None s)"

lemma can_file_parent:
  assumes "can_file p None s" and "\<And>q. par = Some q \<Longrightarrow> q < pool_size s \<and> key_at s ! q \<noteq> None"
  shows "can_file p par s"
  using assms by (simp add: can_file_def)

lemma insert_run_inv:
  assumes "pool_inv s" and "can_file_run ks ps s"
    and "\<And>q. par = Some q \<Longrightarrow> q < pool_size s \<and> key_at s ! q \<noteq> None"
  shows "\<exists>n s' new. insert_run ks ps par s = Inr (n, s') \<and> pool_inv s' \<and>
    by_key s' = by_key s @ new \<and> length new = n \<and> set new \<subseteq> set (zip ks ps) \<and>
    (\<forall>k \<in> set ks. map_of (by_key s') k \<noteq> None) \<and> allocator s' = allocator s \<and>
    index_set s' = index_set s \<and>
    (\<forall>p < pool_size s. num_owners s' ! p = num_owners s ! p + (if p \<in> snd ` set new then 1 else 0))"
  using assms
proof (induction ks ps par s rule: insert_run.induct)
  case (1 par s)
  then show ?case by simp
next
  case (2 key ks p ps par s)
  note IH = "2.IH" and inv = "2.prems"(1) and run = "2.prems"(2) and par = "2.prems"(3)
  note P = pool_invD [OF inv]
  have here: "can_file p None s" if "map_of (by_key s) key = None"
    using run that by (auto simp: can_file_run_def)
  have rest: "length ks = length ps" "p \<notin> set ps" "distinct ps"
    "\<And>k p'. (k, p') \<in> set (zip ks ps) \<Longrightarrow> map_of (by_key s) k = None \<Longrightarrow> can_file p' None s"
    using run by (auto simp: can_file_run_def)
  have par': "q < length (key_at s) \<and> key_at s ! q \<noteq> None" if "par = Some q" for q
    using par [OF that] P(3) by simp
  show ?case
  proof (cases "map_of (by_key s) key")
    case (Some q)
    have ins: "insert_page key p par s = Inr (False, s)"
      by (rule insert_page_first_writer [OF Some par'])
    have q: "q < pool_size s" "key_at s ! q = Some key"
      using names_okD(2) [OF P(9), of key q] Some by auto
    have a: "can_file_run ks ps s" using rest by (auto simp: can_file_run_def)
    have b: "(if False then Inr p else
        case map_of (by_key s) key of None \<Rightarrow> Inl KeyError | Some p \<Rightarrow> Inr p) = Inr q" using Some by simp
    have c: "r < pool_size s \<and> key_at s ! r \<noteq> None" if "Some q = Some r" for r using that q by simp
    obtain n s' new where r: "insert_run ks ps (Some q) s = Inr (n, s')" "pool_inv s'"
      "by_key s' = by_key s @ new" "length new = n" "set new \<subseteq> set (zip ks ps)"
      "\<forall>k \<in> set ks. map_of (by_key s') k \<noteq> None" "allocator s' = allocator s" "index_set s' = index_set s"
      "\<forall>p < pool_size s. num_owners s' ! p = num_owners s ! p + (if p \<in> snd ` set new then 1 else 0)"
      by (rule IH(1) [OF ins refl b inv a c, THEN exE]) (assumption, elim exE conjE, rule that)
    have "map_of (by_key s') key \<noteq> None" using r(3) Some by (simp add: map_add_Some_iff)
    with ins r Some show ?thesis
      by (intro exI [of _ n] exI [of _ s'] exI [of _ new]) auto
  next
    case None
    obtain t where t: "insert_page key p par s = Inr (True, t)" "pool_inv t"
      "by_key t = by_key s @ [(key, p)]" "key_at t = (key_at s)[p := Some key]"
      "allocator t = allocator s" "num_owners t = (num_owners s)[p := num_owners s ! p + 1]"
      "index_set t = index_set s"
      by (rule insert_page_inv [OF inv can_file_parent [OF here [OF None] par] None]) (assumption, rule that)
    have p: "p < pool_size s" using here [OF None] by (simp add: can_file_def)
    have len: "length (key_at s) = pool_size s" "length (num_owners s) = pool_size s" using P(3) by simp_all
    have a: "can_file_run ks ps t"
      unfolding can_file_run_def
    proof (intro conjI ballI, safe)
      fix k p' assume kp: "(k, p') \<in> set (zip ks ps)" "map_of (by_key t) k = None"
      then have "map_of (by_key s) k = None" using t(3) by (simp split: option.splits)
      with rest kp have "can_file p' None s" by blast
      moreover have "p' \<noteq> p" using kp(1) rest(2) by (auto dest: set_zip_rightD)
      ultimately show "can_file p' None t" using t(4-6) len by (simp add: can_file_def)
    qed (use rest in simp_all)
    have b: "(if True then Inr p else
        case map_of (by_key t) key of None \<Rightarrow> Inl KeyError | Some p \<Rightarrow> Inr p) = Inr p" by simp
    have c: "r < pool_size t \<and> key_at t ! r \<noteq> None" if "Some p = Some r" for r
      using that p t(4,5) len by simp
    obtain n s' new where r: "insert_run ks ps (Some p) t = Inr (n, s')" "pool_inv s'"
      "by_key s' = by_key t @ new" "length new = n" "set new \<subseteq> set (zip ks ps)"
      "\<forall>k \<in> set ks. map_of (by_key s') k \<noteq> None" "allocator s' = allocator t" "index_set s' = index_set t"
      "\<forall>p < pool_size t. num_owners s' ! p = num_owners t ! p + (if p \<in> snd ` set new then 1 else 0)"
      by (rule IH(1) [OF t(1) refl b t(2) a c, THEN exE]) (assumption, elim exE conjE, rule that)
    have "map_of (by_key s') key \<noteq> None" using r(3) t(3) by (simp add: map_add_Some_iff split: option.splits)
    moreover have "p \<notin> snd ` set new" using r(5) rest(2) by (auto dest: set_zip_rightD)
    ultimately show ?thesis using t r len p
      by (intro exI [of _ "Suc n"] exI [of _ s'] exI [of _ "(key, p) # new"]) (auto simp: nth_list_update)
  qed
qed (simp_all add: can_file_run_def)

definition parent_ok :: "nat option \<Rightarrow> 'k pool \<Rightarrow> bool" where
  "parent_ok par s \<longleftrightarrow> (\<forall>q. par = Some q \<longrightarrow> q < pool_size s \<and> key_at s ! q \<noteq> None)"

lemma insert_run_ok:
  assumes "pool_inv s" "can_file_run ks ps s" "parent_ok par s"
  obtains n s' new where "insert_run ks ps par s = Inr (n, s')" "pool_inv s'"
    "by_key s' = by_key s @ new" "length new = n" "set new \<subseteq> set (zip ks ps)"
    "\<forall>k \<in> set ks. map_of (by_key s') k \<noteq> None" "allocator s' = allocator s" "index_set s' = index_set s"
    "\<forall>p < pool_size s. num_owners s' ! p = num_owners s ! p + (if p \<in> snd ` set new then 1 else 0)"
proof -
  have "\<And>q. par = Some q \<Longrightarrow> q < pool_size s \<and> key_at s ! q \<noteq> None"
    using assms(3) by (simp add: parent_ok_def)
  then show ?thesis
    by (rule insert_run_inv [OF assms(1,2), THEN exE]) (assumption, elim exE conjE, rule that)
qed

lemma pages_for_all:
  assumes "\<And>k. k \<in> set ks \<Longrightarrow> map_of (by_key s) k \<noteq> None"
  shows "pages_for ks s = map (\<lambda>k. the (map_of (by_key s) k)) ks"
proof -
  have "takeWhile (\<lambda>k. map_of (by_key s) k \<noteq> None) ks = ks" using assms by (simp add: takeWhile_eq_all_conv)
  then show ?thesis by (simp only: pages_for_eq)
qed

end
