(* ===== verification/Page_Evict_Inv.thy ===== *)
theory Page_Evict_Inv imports Page_Insert begin

text \<open>
  Eviction keeps \<open>pool_inv\<close> and is complete: \<open>evict n\<close> drops exactly
  \<open>min n (card (evictable s))\<close> pages, each held by the index alone, which is what
  \<open>assert_evictable\<close> checks at run time.
\<close>

section \<open>Popping the oldest leaf\<close>

definition popped :: "(nat \<times> nat) set \<Rightarrow> 'k pool \<Rightarrow> (nat \<times> nat) option \<Rightarrow> (nat \<times> nat) list \<Rightarrow> bool" where
  "popped extra s e h \<longleftrightarrow> (case e of
     None \<Rightarrow> h = [] \<and> leaves_ok extra (s\<lparr>leaves := []\<rparr>)
   | Some e \<Rightarrow> snd e < pool_size s \<and> key_at s ! snd e \<noteq> None \<and> children s ! snd e = 0 \<and>
       leaves_ok (insert e extra) (s\<lparr>leaves := h\<rparr>))"

lemma leaves_ok_pop:
  assumes "leaves_ok extra s" "leaves s = (st, p) # h"
  shows "p < pool_size s" "leaves_ok (insert (st, p) extra) (s\<lparr>leaves := h\<rparr>)"
    "key_at s ! p = None \<or> children s ! p \<noteq> 0 \<Longrightarrow> leaves_ok extra (s\<lparr>leaves := h\<rparr>)"
    "leaves_ok extra (s\<lparr>leaves := heappush (x, p) h\<rparr>)"
  using assms by (auto simp: leaves_ok_def heappush_def sorted_insort set_insort_key image_iff)

lemma pop_leaf_ok:
  assumes "lens_ok s" "leaves_ok extra s"
  shows "\<exists>e h. pop_leaf s = Inr (e, s\<lparr>leaves := h\<rparr>) \<and> popped extra s e h"
  using assms
proof (induction s rule: pop_leaf.induct)
  case (1 s)
  show ?case
  proof (cases "leaves s")
    case Nil
    then have "pop_leaf s = Inr (None, s\<lparr>leaves := []\<rparr>)" by (simp add: pop_leaf.simps [of s])
    with "1.prems"(2) Nil show ?thesis by (auto simp: popped_def leaves_ok_def)
  next
    case (Cons e h)
    then obtain st p where l: "leaves s = (st, p) # h" by (cases e) auto
    note L = leaves_ok_pop [OF "1.prems"(2) l]
    from L(1) "1.prems"(1) have p: "p < length (key_at s)" "p < length (children s)" "p < length (stamp s)"
      by simp_all
    have lens: "lens_ok (s\<lparr>leaves := h'\<rparr>)" for h' using "1.prems"(1) by simp
    have pop_eq: "popped extra (s\<lparr>leaves := h'\<rparr>) e' g = popped extra s e' g" for h' e' g
      by (simp add: popped_def split: option.splits)
    consider (d) "key_at s ! p = None \<or> children s ! p \<noteq> 0"
      | (s) "key_at s ! p \<noteq> None" "children s ! p = 0" "stamp s ! p \<noteq> st"
      | (f) "key_at s ! p \<noteq> None" "children s ! p = 0" "stamp s ! p = st" by blast
    then show ?thesis
    proof cases
      case d
      have "pop_leaf s = pop_leaf (s\<lparr>leaves := h\<rparr>)"
        using d l p by (auto simp: pop_leaf.simps [of s])
      moreover have "\<exists>e h'. pop_leaf (s\<lparr>leaves := h\<rparr>) = Inr (e, (s\<lparr>leaves := h\<rparr>)\<lparr>leaves := h'\<rparr>) \<and>
          popped extra (s\<lparr>leaves := h\<rparr>) e h'"
      proof (cases "key_at s ! p = None")
        case True
        show ?thesis by (rule "1.IH"(1) [OF l refl get_at_ok [OF p(1)] True lens L(3) [OF d]])
      next
        case False
        have c: "children s ! p \<noteq> 0" by (rule disjE [OF d]) (use False in simp_all)
        show ?thesis
          by (rule "1.IH"(2) [OF l refl get_at_ok [OF p(1)] False get_at_ok [OF p(2)] c lens L(3) [OF d]])
      qed
      ultimately show ?thesis using pop_eq by simp
    next
      case s
      have "pop_leaf s = pop_leaf (s\<lparr>leaves := heappush (stamp s ! p, p) h\<rparr>)"
        using s l p by (auto simp: pop_leaf.simps [of s])
      moreover have "\<not> children s ! p \<noteq> 0" using s(2) by simp
      note "1.IH"(3) [OF l refl get_at_ok [OF p(1)] s(1) get_at_ok [OF p(2)] this get_at_ok [OF p(3)] s(3) lens L(4)]
      ultimately show ?thesis using pop_eq by simp
    next
      case f
      have "pop_leaf s = Inr (Some (st, p), s\<lparr>leaves := h\<rparr>)"
        using f l p by (auto simp: pop_leaf.simps [of s])
      with f L(1,2) show ?thesis by (auto simp: popped_def)
    qed
  qed
qed

section \<open>Removing a leaf the index alone holds\<close>

definition removed :: "nat \<Rightarrow> 'k \<Rightarrow> 'k pool \<Rightarrow> 'k pool" where
  "removed p key s = s\<lparr>evictable := evictable s - {p}, by_key := dict_del key (by_key s),
     key_at := (key_at s)[p := None], parent := (parent s)[p := None],
     num_owners := (num_owners s)[p := 0], sealed := (sealed s)[p := False],
     allocator := al_free [p] (allocator s)\<rparr>"

lemma removed_sel [simp]:
  "evictable (removed p key s) = evictable s - {p}" "by_key (removed p key s) = dict_del key (by_key s)"
  "key_at (removed p key s) = (key_at s)[p := None]" "parent (removed p key s) = (parent s)[p := None]"
  "num_owners (removed p key s) = (num_owners s)[p := 0]" "sealed (removed p key s) = (sealed s)[p := False]"
  "allocator (removed p key s) = al_free [p] (allocator s)" "held_below (removed p key s) = held_below s"
  "children (removed p key s) = children s" "stamp (removed p key s) = stamp s"
  "leaves (removed p key s) = leaves s" "index_set (removed p key s) = index_set s"
  by (simp_all add: removed_def)

text \<open>A page eviction may drop: indexed, held by the index alone, and with no child.\<close>

definition bare_leaf :: "nat \<Rightarrow> 'k \<Rightarrow> 'k pool \<Rightarrow> bool" where
  "bare_leaf p key s \<longleftrightarrow> p < pool_size s \<and> key_at s ! p = Some key \<and> num_owners s ! p = 1 \<and>
     children s ! p = 0"

lemma bare_leafD:
  assumes "bare_leaf p key s"
  shows "p < pool_size s" "key_at s ! p = Some key" "num_owners s ! p = 1" "children s ! p = 0"
  using assms by (simp_all add: bare_leaf_def)

lemma remove_page_run:
  assumes "lens_ok s" "map_of (by_key s) key \<noteq> None" "bare_leaf p key s"
  shows "remove_page p s = drop_child (parent s ! p) (removed p key s)"
proof -
  note B = bare_leafD [OF assms(3)]
  have "release [p] (unname_page p key s) = Inr (removed p key s)"
    using assms(1) B
    by (simp add: release_def release1_def owners_def Let_def unname_page_def removed_def)
  with assms(1,2) B show ?thesis by (auto simp: remove_page_def)
qed

lemma no_kids_leaf:
  assumes "children_ok s" "p < pool_size s" "children s ! p = 0"
  shows "kids s p = {}"
  using assms by (simp add: children_ok_def)

lemma removed_core:
  assumes core: "core_ok [] s" and tree: "children_ok s" and leaf: "bare_leaf p key s"
  shows "core_ok [] (removed p key s)" and "counts_ok s \<Longrightarrow> counts_ok (removed p key s)"
proof -
  let ?t = "removed p key s"
  note C = core_okD [OF core] and B = bare_leafD [OF leaf]
  have size: "pool_size ?t = pool_size s" by (simp add: al.put_back_bound)
  have kids0: "kids s p = {}" by (rule no_kids_leaf [OF tree B(1,4)])
  then have none: "parent s ! c \<noteq> Some p" if "c < pool_size s" for c
    using that C(1) by (auto simp: kids_def)
  have "lens_ok ?t" using C(1) size unfolding lens_ok_def Let_def by simp
  moreover have "links_ok ?t"
    unfolding links_ok_def
  proof (intro allI impI)
    fix c q assume c: "c < pool_size ?t" "parent ?t ! c = Some q"
    then have "c \<noteq> p" using B(1) C(1) by auto
    with c size have "c < pool_size s" "parent s ! c = Some q" by simp_all
    with none [of c] C(2) have "key_at s ! c \<noteq> None" "q < pool_size s" "key_at s ! q \<noteq> None" "q \<noteq> p"
      by (auto simp: links_ok_def)
    with \<open>c \<noteq> p\<close> size show "key_at ?t ! c \<noteq> None \<and> q < pool_size ?t \<and> key_at ?t ! q \<noteq> None" by simp
  qed
  moreover have "owned_ok ?t"
    unfolding owned_ok_def
  proof (intro allI impI)
    fix q assume "q < pool_size ?t" "key_at ?t ! q \<noteq> None"
    with C(1,3) B size show "0 < num_owners ?t ! q" by (cases "q = p") (auto simp: owned_ok_def)
  qed
  moreover have "sealed_ok ?t"
    unfolding sealed_ok_def
  proof (intro allI impI)
    fix q assume "q < pool_size ?t" "key_at ?t ! q \<noteq> None"
    with C(1,5) B size show "sealed ?t ! q" by (cases "q = p") (auto simp: sealed_ok_def)
  qed
  moreover have "arena_ok [] ?t"
  proof -
    have "p \<in> al_stock (allocator s)" using C(4) B(1,3) by (auto simp: arena_ok_def)
    moreover have "p \<notin> set (al_pages (allocator s))" using C(4) B(3) by (simp add: arena_ok_def)
    ultimately show ?thesis using C(1,4) B(1) size
      by (auto simp: arena_ok_def al.put_back_distinct nth_list_update split: if_splits)
  qed
  moreover have counts: "counts_ok ?t" if "counts_ok s"
  proof (rule counts_uptoI)
    note D = counts_uptoD [OF that]
    have "evict_set ?t = evict_set s - {p}"
      using B(1) C(1) by (auto simp: evict_set_def nth_list_update split: if_splits)
    then show "evictable ?t = evict_set ?t" using D(1) by simp
    have held0: "held_below s ! p = 0" using D(3) [OF B(1)] kids0 by (simp add: pinned_kids_def)
    fix q assume "q < pool_size ?t"
    then have q: "q < pool_size s" using size by simp
    have "{c \<in> kids ?t q. pinned ?t c} = {c \<in> kids s q. pinned s c}"
      using B(1,3) C(1) held0 by (auto simp: kids_def pinned_def nth_list_update split: if_splits)
    then have "pinned_kids ?t q = pinned_kids s q" by (simp add: pinned_kids_def)
    with D(2,3) [OF q] show "0 \<le> held_below ?t ! q"
      and "held_below ?t ! q = int (pinned_kids ?t q) + (if None = Some q then 0 else 0)" by simp_all
  qed
  ultimately show "core_ok [] ?t" using C(6) by (simp add: core_ok_def)
  show "counts_ok ?t" if "counts_ok s" by (rule counts [OF that])
qed

text \<open>The parent loses a child; when it was the last one, the parent becomes a leaf on the heap.\<close>

definition child_dropped :: "nat option \<Rightarrow> 'k pool \<Rightarrow> 'k pool" where
  "child_dropped par t = (case par of None \<Rightarrow> t | Some q \<Rightarrow>
     t\<lparr>children := (children t)[q := children t ! q - 1],
       leaves := (if children t ! q = 1 \<and> key_at t ! q \<noteq> None
         then heappush (stamp t ! q, q) (leaves t) else leaves t)\<rparr>)"

lemma child_dropped_sel [simp]:
  "by_key (child_dropped par t) = by_key t" "key_at (child_dropped par t) = key_at t"
  "parent (child_dropped par t) = parent t" "allocator (child_dropped par t) = allocator t"
  "num_owners (child_dropped par t) = num_owners t" "sealed (child_dropped par t) = sealed t"
  "evictable (child_dropped par t) = evictable t" "index_set (child_dropped par t) = index_set t"
  "lens_ok (child_dropped par t) = lens_ok t" "links_ok (child_dropped par t) = links_ok t"
  "owned_ok (child_dropped par t) = owned_ok t"
  "counts_upto d pend (child_dropped par t) = counts_upto d pend t"
  by (simp_all add: child_dropped_def split: option.splits)

lemma drop_child_ok:
  assumes "lens_ok t" "\<And>q. par = Some q \<Longrightarrow> q < pool_size t"
  shows "drop_child par t = Inr (child_dropped par t)"
proof (cases par)
  case (Some q)
  with assms(2) have "q < pool_size t" by blast
  with Some assms(1) show ?thesis
    by (cases "key_at t ! q") (auto simp: drop_child_def child_dropped_def Let_def)
qed (simp add: drop_child_def child_dropped_def)

lemma removed_tree:
  assumes lens: "lens_ok s" and links: "links_ok s" and tree: "tree_ok (insert (st, p) extra) s"
    and leaf: "bare_leaf p key s"
    and t: "by_key t = dict_del key (by_key s)" "key_at t = (key_at s)[p := None]"
      "parent t = (parent s)[p := None]" "pool_size t = pool_size s"
      "children t = (case parent s ! p of None \<Rightarrow> children s
         | Some q \<Rightarrow> (children s)[q := children s ! q - 1])"
      "leaves t = leaves s \<or> (\<exists>q. parent s ! p = Some q \<and> leaves t = heappush (x q, q) (leaves s))"
      "\<And>q. parent s ! p = Some q \<Longrightarrow> children s ! q = 1 \<Longrightarrow> leaves t = heappush (x q, q) (leaves s)"
  shows "tree_ok extra t"
proof -
  note B = bare_leafD [OF leaf]
  have T: "names_ok s" "ranked s" "children_ok s" "leaves_ok (insert (st, p) extra) s"
    using tree by (simp_all add: tree_ok_def)
  have kids0: "kids s p = {}" by (rule no_kids_leaf [OF T(3) B(1,4)])
  have par: "q < pool_size s" "key_at s ! q \<noteq> None" "q \<noteq> p" if "parent s ! p = Some q" for q
    using that B(1) links kids0 lens by (auto simp: links_ok_def kids_def)
  have "names_ok t"
    unfolding names_ok_def
  proof (intro conjI allI)
    show "distinct (map fst (by_key t))" using names_okD(1) [OF T(1)] t(1) by simp
    fix k q
    show "map_of (by_key t) k = Some q \<longleftrightarrow> q < pool_size t \<and> key_at t ! q = Some k"
      using names_okD(2) [OF T(1), of k q] names_okD(2) [OF T(1), of key p]
        names_okD(2) [OF T(1), of k p] t(1,2,4) B lens
      by (cases "q = p"; cases "k = key") auto
  qed
  moreover have "ranked t"
  proof -
    from T(2) obtain rank :: "nat \<Rightarrow> nat" where
      r: "\<And>c q. c < pool_size s \<Longrightarrow> parent s ! c = Some q \<Longrightarrow> rank q < rank c" by (auto simp: ranked_def)
    have "rank q < rank c" if c: "c < pool_size t" "parent t ! c = Some q" for c q
    proof (rule r)
      show "c < pool_size s" using c(1) t(4) by simp
      show "parent s ! c = Some q" using c t(3,4) B(1) lens by (cases "c = p") simp_all
    qed
    then show ?thesis unfolding ranked_def by blast
  qed
  moreover have "children_ok t"
    unfolding children_ok_def
  proof (intro allI impI)
    fix q assume "q < pool_size t"
    then have q: "q < pool_size s" using t(4) by simp
    have k: "kids t q = kids s q - {p}"
      using t(3) lens B(1) by (auto simp: kids_def nth_list_update split: if_splits)
    have iff: "p \<in> kids s q \<longleftrightarrow> parent s ! p = Some q" using B(1) lens by (simp add: kids_def)
    have "int (card (kids t q)) = int (card (kids s q)) - (if parent s ! p = Some q then 1 else 0)"
    proof (cases "p \<in> kids s q")
      case True
      have "Suc (card (kids s q - {p})) = card (kids s q)" by (rule card_Suc_Diff1 [OF finite_kids True])
      with True iff k show ?thesis by simp
    next
      case False
      with iff k show ?thesis by simp
    qed
    moreover have "children t ! q = children s ! q - (if parent s ! p = Some q then 1 else 0)"
      using t(5) q lens by (cases "parent s ! p") (simp_all add: nth_list_update)
    ultimately show "children t ! q = int (card (kids t q))" using T(3) q by (simp add: children_ok_def)
  qed
  moreover have "leaves_ok extra t"
    unfolding leaves_ok_def
  proof (intro conjI allI impI ballI)
    show "sorted (leaves t)" using T(4) t(6) by (auto simp: leaves_ok_def heappush_def sorted_insort)
    show "snd e < pool_size t" if "e \<in> set (leaves t)" for e
      using that T(4) t(4,6) par(1) by (auto simp: leaves_ok_def)
  next
    fix r assume r: "r < pool_size t" "key_at t ! r \<noteq> None \<and> children t ! r = 0"
    then have r': "r \<noteq> p" "r < pool_size s" "key_at s ! r \<noteq> None"
      using t(2,4) B(1) lens by (auto simp: nth_list_update split: if_splits)
    show "r \<in> snd ` (set (leaves t) \<union> extra)"
    proof (cases "children s ! r = 0")
      case True
      with T(4) r' have "r \<in> snd ` (set (leaves s) \<union> extra)" by (auto simp: leaves_ok_def)
      with t(6) show ?thesis by auto
    next
      case False
      have up: "(children s)[x := y] ! r = (if r = x then y else children s ! r)" for x y
        using lens r'(2) by simp
      from False r t(5) have "parent s ! p = Some r" "children s ! r = 1"
        by (cases "parent s ! p", auto simp: up split: if_splits)+
      then show ?thesis using t(7) by force
    qed
  qed
  ultimately show ?thesis by (simp add: tree_ok_def)
qed

lemma remove_page_inv:
  assumes core: "core_ok [] s" and tree: "tree_ok (insert (st, p) extra) s" and leaf: "bare_leaf p key s"
  obtains s' where "remove_page p s = Inr s'" "core_ok [] s'" "tree_ok extra s'" "counts_ok s \<Longrightarrow> counts_ok s'"
    "pool_size s' = pool_size s" "num_free s' = Suc (num_free s)" "index_set s' = index_set s"
    "by_key s' = dict_del key (by_key s)" "key_at s' = (key_at s)[p := None]"
    "num_owners s' = (num_owners s)[p := 0]" "evictable s' = evictable s - {p}"
    "al_stock (allocator s') = al_stock (allocator s)"
proof -
  note C = core_okD [OF core] and B = bare_leafD [OF leaf]
  have T: "names_ok s" "children_ok s" using tree by (simp_all add: tree_ok_def)
  let ?r = "removed p key s"
  note R = removed_core [OF core T(2) leaf]
  have size: "pool_size ?r = pool_size s" by (simp add: al.put_back_bound)
  have nm: "map_of (by_key s) key = Some p" using names_okD(2) [OF T(1)] B by simp
  have kids0: "kids s p = {}" by (rule no_kids_leaf [OF T(2) B(1,4)])
  have par: "q < pool_size s" "key_at s ! q \<noteq> None" "q \<noteq> p" if "parent s ! p = Some q" for q
    using that B(1) C(2) kids0 C(1) by (auto simp: links_ok_def kids_def)
  let ?t = "child_dropped (parent s ! p) ?r"
  have "drop_child (parent s ! p) ?r = Inr ?t"
    by (rule drop_child_ok [OF core_okD(1) [OF R(1)]]) (use par(1) size in simp)
  then have "remove_page p s = Inr ?t"
    using remove_page_run [OF C(1) _ leaf] nm by simp
  moreover have "tree_ok extra ?t"
    by (rule removed_tree [OF C(1,2) tree leaf, where x = "\<lambda>q. stamp s ! q"])
      (use size par in \<open>auto simp: child_dropped_def split: option.splits\<close>)
  moreover have "core_ok [] ?t"
  proof -
    have "arena_ok [] ?t" by (rule arena_ok_cong [OF core_okD(4) [OF R(1)]]) simp_all
    moreover have "sealed_ok ?t" using core_okD(5) [OF R(1)] by (simp add: sealed_ok_def)
    ultimately show ?thesis using core_okD(1-3,6) [OF R(1)] by (simp add: core_ok_def)
  qed
  moreover have "counts_ok ?t" if "counts_ok s" using R(2) [OF that] by simp
  ultimately show ?thesis using size by (intro that [of ?t]) simp_all
qed

section \<open>What an eviction does\<close>

text \<open>
  Dropping the keys \<open>ks\<close> takes \<open>s\<close> to \<open>s'\<close>: each key's page had one owner, the
  index, and is now free and unindexed; every other page is as it was.
\<close>

definition evicted :: "'k pool \<Rightarrow> 'k list \<Rightarrow> 'k pool \<Rightarrow> bool" where
  "evicted s ks s' \<longleftrightarrow> num_free s' = num_free s + length ks \<and> pool_size s' = pool_size s \<and>
     index_set s' = index_set s \<and> al_stock (allocator s') = al_stock (allocator s) \<and> distinct ks \<and>
     (\<forall>k \<in> set ks. \<exists>p < pool_size s. key_at s ! p = Some k) \<and>
     (\<forall>p < pool_size s. if key_at s ! p \<in> Some ` set ks
        then num_owners s ! p = 1 \<and> key_at s' ! p = None \<and> num_owners s' ! p = 0
        else key_at s' ! p = key_at s ! p \<and> num_owners s' ! p = num_owners s ! p) \<and>
     (counts_ok s \<longrightarrow> counts_ok s' \<and> card (evictable s) = length ks + card (evictable s'))"

lemma evicted_same:
  assumes "allocator s' = allocator s" "num_owners s' = num_owners s" "key_at s' = key_at s"
    "index_set s' = index_set s" "evictable s' = evictable s" "counts_ok s \<Longrightarrow> counts_ok s'"
  shows "evicted s [] s'"
  using assms by (simp add: evicted_def)

lemma evicted_trans:
  assumes "evicted s ks t" "evicted t ls u"
  shows "evicted s (ks @ ls) u"
proof -
  have at: "key_at t ! p = (if key_at s ! p \<in> Some ` set ks then None else key_at s ! p)"
    "num_owners t ! p = (if key_at s ! p \<in> Some ` set ks then 0 else num_owners s ! p)"
    "key_at s ! p \<in> Some ` set ks \<Longrightarrow> num_owners s ! p = 1"
    if "p < pool_size s" for p
    using assms(1) that by (auto simp: evicted_def split: if_splits)
  have size: "pool_size t = pool_size s" using assms(1) by (simp add: evicted_def)
  have ls: "\<exists>p < pool_size s. key_at s ! p = Some l \<and> l \<notin> set ks"
    if "l \<in> set ls" for l
  proof -
    from assms(2) that size obtain p where p: "p < pool_size s" "key_at t ! p = Some l"
      by (auto simp: evicted_def)
    with at(1) [OF p(1)] have "key_at s ! p = Some l \<and> Some l \<notin> Some ` set ks" by (auto split: if_splits)
    with p(1) show ?thesis by blast
  qed
  have page: "if key_at s ! p \<in> Some ` set (ks @ ls)
      then num_owners s ! p = 1 \<and> key_at u ! p = None \<and> num_owners u ! p = 0
      else key_at u ! p = key_at s ! p \<and> num_owners u ! p = num_owners s ! p" if p: "p < pool_size s" for p
  proof (cases "key_at s ! p \<in> Some ` set ks")
    case True
    with at [OF p] have "key_at t ! p = None" "num_owners t ! p = 0" "num_owners s ! p = 1" by simp_all
    moreover have "if key_at t ! p \<in> Some ` set ls then num_owners t ! p = 1 \<and> key_at u ! p = None \<and> num_owners u ! p = 0
        else key_at u ! p = key_at t ! p \<and> num_owners u ! p = num_owners t ! p"
      using assms(2) p size by (simp add: evicted_def)
    ultimately show ?thesis using True by auto
  next
    case False
    with at [OF p] have "key_at t ! p = key_at s ! p" "num_owners t ! p = num_owners s ! p" by simp_all
    moreover have "if key_at t ! p \<in> Some ` set ls then num_owners t ! p = 1 \<and> key_at u ! p = None \<and> num_owners u ! p = 0
        else key_at u ! p = key_at t ! p \<and> num_owners u ! p = num_owners t ! p"
      using assms(2) p size by (simp add: evicted_def)
    ultimately show ?thesis using False by (cases "key_at s ! p \<in> Some ` set ls") (simp_all add: image_Un)
  qed
  have "set ks \<inter> set ls = {}" using ls by blast
  moreover have "\<forall>k \<in> set (ks @ ls). \<exists>p < pool_size s. key_at s ! p = Some k"
  proof
    fix k assume "k \<in> set (ks @ ls)"
    then consider "k \<in> set ks" | "k \<in> set ls" by auto
    then show "\<exists>p < pool_size s. key_at s ! p = Some k"
    proof cases
      case 1
      then show ?thesis using assms(1) by (simp add: evicted_def)
    next
      case 2
      from ls [OF this] show ?thesis by blast
    qed
  qed
  ultimately show ?thesis using assms page
    by (simp add: evicted_def)
qed

lemma remove_page_evicted:
  assumes "core_ok [] s" "tree_ok (insert (st, p) extra) s" "bare_leaf p key s"
  obtains s' where "remove_page p s = Inr s'" "core_ok [] s'" "tree_ok extra s'" "evicted s [key] s'"
proof -
  note B = bare_leafD [OF assms(3)] and C = core_okD [OF assms(1)]
  obtain s' where s': "remove_page p s = Inr s'" "core_ok [] s'" "tree_ok extra s'"
    "counts_ok s \<Longrightarrow> counts_ok s'" "pool_size s' = pool_size s" "num_free s' = Suc (num_free s)"
    "index_set s' = index_set s" "by_key s' = dict_del key (by_key s)" "key_at s' = (key_at s)[p := None]"
    "num_owners s' = (num_owners s)[p := 0]" "evictable s' = evictable s - {p}"
    "al_stock (allocator s') = al_stock (allocator s)"
    by (rule remove_page_inv [OF assms]) (rule that; assumption)
  have T: "names_ok s" "children_ok s" using assms(2) by (simp_all add: tree_ok_def)
  have only: "q = p" if "q < pool_size s" "key_at s ! q = Some key" for q
    using names_okD(2) [OF T(1), of key q] names_okD(2) [OF T(1), of key p] that B by simp
  have "card (evictable s) = Suc (card (evictable s'))" if "counts_ok s"
  proof -
    note D = counts_uptoD [OF that]
    have "kids s p = {}" by (rule no_kids_leaf [OF T(2) B(1,4)])
    then have "held_below s ! p = 0" using D(3) [OF B(1)] by (simp add: pinned_kids_def)
    then have "p \<in> evictable s" using D(1) B C(1) by (simp add: evict_set_def)
    moreover have "finite (evictable s)" using D(1) by simp
    ultimately have "Suc (card (evictable s - {p})) = card (evictable s)" by (rule card_Suc_Diff1 [rotated])
    then show ?thesis using s'(11) by simp
  qed
  moreover have "if key_at s ! q \<in> Some ` set [key]
        then num_owners s ! q = 1 \<and> key_at s' ! q = None \<and> num_owners s' ! q = 0
        else key_at s' ! q = key_at s ! q \<and> num_owners s' ! q = num_owners s ! q" if "q < pool_size s" for q
  proof (cases "q = p")
    case True
    then show ?thesis using s'(9,10) B C(1) by simp
  next
    case False
    then have "key_at s ! q \<noteq> Some key" using only [OF that] by blast
    with False s'(9,10) show ?thesis by (simp add: eq_commute)
  qed
  moreover have "\<exists>q < pool_size s. key_at s ! q = Some key" using B by blast
  ultimately have "evicted s [key] s'" using s'(4-7,12) by (simp add: evicted_def)
  with s'(1-3) that show ?thesis by blast
qed

section \<open>The eviction loop\<close>

text \<open>Entries passed over belong to pages with a second owner.\<close>

definition passed_ok :: "(nat \<times> nat) list \<Rightarrow> 'k pool \<Rightarrow> bool" where
  "passed_ok es s \<longleftrightarrow> (\<forall>e \<in> set es. snd e < pool_size s \<and> 1 < num_owners s ! snd e)"

definition no_bare_leaf :: "'k pool \<Rightarrow> bool" where
  "no_bare_leaf s \<longleftrightarrow> (\<forall>p < pool_size s. key_at s ! p \<noteq> None \<and> children s ! p = 0 \<longrightarrow> 1 < num_owners s ! p)"

lemma core_ok_leaves [simp]: "core_ok freed (s\<lparr>leaves := h\<rparr>) = core_ok freed s"
  by (simp add: core_ok_def arena_ok_def sealed_ok_def)

lemma tree_ok_leaves: "leaves_ok extra (s\<lparr>leaves := h\<rparr>) \<Longrightarrow> tree_ok extra' s \<Longrightarrow> tree_ok extra (s\<lparr>leaves := h\<rparr>)"
  by (simp add: tree_ok_def names_ok_def ranked_def children_ok_def kids_def)

lemma passed_ok_evicted:
  assumes "passed_ok es s" "evicted s ks s'"
  shows "passed_ok es s'"
  unfolding passed_ok_def
proof (intro ballI)
  fix e assume "e \<in> set es"
  with assms(1) have e: "snd e < pool_size s" "1 < num_owners s ! snd e" by (simp_all add: passed_ok_def)
  with assms(2) show "snd e < pool_size s' \<and> 1 < num_owners s' ! snd e"
    by (auto simp: evicted_def split: if_splits)
qed

lemma evict_loop_inv:
  assumes "core_ok [] s" "tree_ok (set passed) s" "passed_ok passed s" "spare = None" "spared = []"
  shows "\<exists>ks passed' s'. evict_loop n spare dropped passed spared s = Inr (dropped @ ks, passed', [], s') \<and>
    core_ok [] s' \<and> tree_ok (set passed') s' \<and> passed_ok passed' s' \<and> evicted s ks s' \<and>
    length (dropped @ ks) \<le> max n (length dropped) \<and>
    (length (dropped @ ks) < n \<longrightarrow> no_bare_leaf s')"
  using assms
proof (induction n spare dropped passed spared s rule: evict_loop.induct)
  case (1 n spare dropped passed spared s)
  note prems = "1.prems"(1-3) and none = "1.prems"(4,5)
  note C = core_okD [OF prems(1)]
  show ?case
  proof (cases "n \<le> length dropped")
    case True
    then have "evict_loop n spare dropped passed spared s = Inr (dropped @ [], passed, [], s)"
      using none by (simp add: evict_loop.simps)
    moreover have "evicted s [] s" by (rule evicted_same) simp_all
    ultimately show ?thesis using prems True by (intro exI [of _ "[]"] exI [of _ passed] exI [of _ s]) auto
  next
    case False
    have "leaves_ok (set passed) s" using prems(2) by (simp add: tree_ok_def)
    then obtain e h where pop: "pop_leaf s = Inr (e, s\<lparr>leaves := h\<rparr>)" "popped (set passed) s e h"
      using pop_leaf_ok [OF C(1)] by blast
    let ?u = "s\<lparr>leaves := h\<rparr>"
    show ?thesis
    proof (cases e)
      case None
      with pop have h: "h = []" "leaves_ok (set passed) (s\<lparr>leaves := []\<rparr>)" by (simp_all add: popped_def)
      have "evict_loop n spare dropped passed spared s = Inr (dropped @ [], passed, [], ?u)"
        using False none None pop(1) by (simp add: evict_loop.simps [of n] next_leaf_def)
      moreover have "tree_ok (set passed) ?u" unfolding h(1) by (rule tree_ok_leaves [OF h(2) prems(2)])
      moreover have "evicted s [] ?u" by (rule evicted_same) simp_all
      moreover have "no_bare_leaf ?u"
        using h(2) prems(3) by (fastforce simp: no_bare_leaf_def leaves_ok_def passed_ok_def)
      moreover have "passed_ok passed ?u" using prems(3) by (simp add: passed_ok_def)
      ultimately show ?thesis using prems(1) False
        by (intro exI [of _ "[]"] exI [of _ passed] exI [of _ ?u]) auto
    next
      case (Some en)
      with pop(2) have en: "snd en < pool_size s" "key_at s ! snd en \<noteq> None" "children s ! snd en = 0"
        "leaves_ok (insert en (set passed)) ?u" by (simp_all add: popped_def)
      have nl: "next_leaf spared s = Inr (Some (en, False), [], ?u)"
        using pop(1) Some none by (simp add: next_leaf_def)
      have own: "owners (snd en) ?u = Inr (num_owners s ! snd en)" using en(1) C(1) by (simp add: owners_def)
      have tree: "tree_ok (insert en (set passed)) ?u" by (rule tree_ok_leaves [OF en(4) prems(2)])
      have core: "core_ok [] ?u" using prems(1) by simp
      have same: "evicted s [] ?u" by (rule evicted_same) simp_all
      show ?thesis
      proof (cases "1 < num_owners s ! snd en")
        case True
        have "passed_ok (passed @ [en]) ?u" using prems(3) en(1) True by (auto simp: passed_ok_def)
        moreover have "tree_ok (set (passed @ [en])) ?u" using tree by simp
        ultimately obtain ks passed' s' where r:
          "evict_loop n spare dropped (passed @ [en]) [] ?u = Inr (dropped @ ks, passed', [], s')"
          "core_ok [] s'" "tree_ok (set passed') s'" "passed_ok passed' s'" "evicted ?u ks s'"
          "length (dropped @ ks) \<le> max n (length dropped)" "length (dropped @ ks) < n \<longrightarrow> no_bare_leaf s'"
          using "1.IH"(1) [OF False nl refl refl refl refl own True core _ _ none(1) refl] by blast
        have "evict_loop n spare dropped passed spared s = Inr (dropped @ ks, passed', [], s')"
          using r(1) nl own True False by (simp add: evict_loop.simps [of n spare dropped passed])
        with r evicted_trans [OF same r(5)] show ?thesis by auto
      next
        case one: False
        then have o1: "num_owners s ! snd en = 1" using C(3) en(1,2) by (auto simp: owned_ok_def)
        obtain key where key: "key_at s ! snd en = Some key" using en(2) by blast
        have leaf: "bare_leaf (snd en) key ?u" using en o1 key by (simp add: bare_leaf_def)
        have kat: "get_at (key_at ?u) (snd en) = Inr (Some key)" using key en(1) C(1) by simp
        obtain t where t: "remove_page (snd en) ?u = Inr t" "core_ok [] t" "tree_ok (set passed) t"
          "evicted ?u [key] t"
          by (rule remove_page_evicted [of ?u "fst en" "snd en", OF core _ leaf]) (use tree in simp, rule that)
        have ev: "evicted s [key] t" using evicted_trans [OF same t(4)] by simp
        have nospare: "\<not> (\<not> False \<and> (case spare of None \<Rightarrow> False | Some f \<Rightarrow> f key))" using none(1) by simp
        obtain ks passed' s' where r:
          "evict_loop n spare (dropped @ [key]) passed [] t = Inr ((dropped @ [key]) @ ks, passed', [], s')"
          "core_ok [] s'" "tree_ok (set passed') s'" "passed_ok passed' s'" "evicted t ks s'"
          "length ((dropped @ [key]) @ ks) \<le> max n (length (dropped @ [key]))"
          "length ((dropped @ [key]) @ ks) < n \<longrightarrow> no_bare_leaf s'"
          using "1.IH"(3) [OF False nl refl refl refl refl own one kat refl nospare t(1) t(2,3)
              passed_ok_evicted [OF prems(3) ev] none(1) refl] by blast
        have "evict_loop n spare dropped passed spared s = Inr (dropped @ (key # ks), passed', [], s')"
          using r(1) nl own one False kat t(1) none(1) by (simp add: evict_loop.simps [of n None dropped passed])
        moreover have "evicted s (key # ks) s'" using evicted_trans [OF ev r(5)] by simp
        ultimately show ?thesis using r(2-4,6,7) False
          by (intro exI [of _ "key # ks"] exI [of _ passed'] exI [of _ s']) auto
      qed
    qed
  qed
qed

section \<open>Eviction is complete\<close>

text \<open>
  With no bare leaf left, nothing is evictable: of the evictable pages, the one furthest
  from its root would be a leaf.
\<close>

lemma no_bare_leaf_evictable:
  assumes "lens_ok s" "owned_ok s" "links_ok s" "ranked s" "children_ok s" "counts_ok s" "no_bare_leaf s"
  shows "evictable s = {}"
proof (rule ccontr)
  note D = counts_uptoD [OF assms(6)]
  assume "evictable s \<noteq> {}"
  then have ne: "evict_set s \<noteq> {}" using D(1) by simp
  obtain rank :: "nat \<Rightarrow> nat" where
    r: "\<And>c q. c < pool_size s \<Longrightarrow> parent s ! c = Some q \<Longrightarrow> rank q < rank c"
    using assms(4) by (auto simp: ranked_def)
  have "Max (rank ` evict_set s) \<in> rank ` evict_set s" by (rule Max_in) (simp_all add: ne)
  then obtain p where p0: "p \<in> evict_set s" "rank p = Max (rank ` evict_set s)" by auto
  then have p: "p \<in> evict_set s" "\<And>q. q \<in> evict_set s \<Longrightarrow> rank q \<le> rank p"
    by simp_all
  from p(1) assms(1) have P: "p < pool_size s" "key_at s ! p \<noteq> None" "num_owners s ! p = 1" "held_below s ! p = 0"
    by (auto simp: evict_set_def)
  have "children s ! p \<noteq> 0" using assms(7) P by (auto simp: no_bare_leaf_def)
  then obtain c where c: "c \<in> kids s p" using assms(5) P(1) by (fastforce simp: children_ok_def)
  then have c': "c < pool_size s" "parent s ! c = Some p" using assms(1) by (simp_all add: kids_def)
  have "{d \<in> kids s p. pinned s d} = {}" using D(3) [OF P(1)] P(4) by (simp add: pinned_kids_def)
  with c have "\<not> pinned s c" by blast
  moreover have ck: "key_at s ! c \<noteq> None" using assms(3) c' by (auto simp: links_ok_def)
  moreover have "0 < num_owners s ! c" using assms(2) c'(1) ck by (auto simp: owned_ok_def)
  ultimately have "c \<in> evict_set s" using c'(1) D(2) [OF c'(1)] assms(1) by (auto simp: pinned_def evict_set_def)
  with p(2) r [OF c'] show False by fastforce
qed

lemma leaves_ok_push:
  assumes "leaves_ok (set es) s" "\<And>e. e \<in> set es \<Longrightarrow> snd e < pool_size s"
  shows "leaves_ok {} (s\<lparr>leaves := fold heappush es (leaves s)\<rparr>)"
proof -
  have "sorted (fold heappush es h)" if "sorted h" for h :: "(nat \<times> nat) list"
    using that by (induction es arbitrary: h) (simp_all add: heappush_def sorted_insort)
  moreover have "set (fold heappush es h) = set es \<union> set h" for h :: "(nat \<times> nat) list"
    by (induction es arbitrary: h) auto
  ultimately show ?thesis using assms by (auto simp: leaves_ok_def)
qed

lemma evict_None:
  assumes "pool_inv s"
  obtains ks s' where "evict n None s = Inr (ks, s')" "pool_inv s'" "evicted s ks s'" "length ks \<le> n"
    "counts_ok s \<Longrightarrow> length ks = min n (card (evictable s))"
proof -
  note P = pool_invD [OF assms]
  obtain ks passed t where t: "evict_loop n None [] [] [] s = Inr (ks, passed, [], t)"
    "core_ok [] t" "tree_ok (set passed) t" "passed_ok passed t" "evicted s ks t"
    "length ks \<le> n" "length ks < n \<longrightarrow> no_bare_leaf t"
    using evict_loop_inv [of s "[]" None "[]" n "[]"] P(1,2) by (auto simp: passed_ok_def)
  let ?u = "t\<lparr>leaves := fold heappush passed (leaves t)\<rparr>"
  have "evict n None s = Inr (ks, ?u)" using t(1) by (simp add: evict_def)
  moreover have "pool_inv ?u"
  proof -
    have "leaves_ok {} ?u"
      by (rule leaves_ok_push) (use t(3,4) in \<open>auto simp: tree_ok_def passed_ok_def\<close>)
    with t(2,3) show ?thesis using tree_ok_leaves by (auto simp: pool_inv_def)
  qed
  moreover have "evicted t [] ?u" by (rule evicted_same) simp_all
  then have "evicted s ks ?u" using evicted_trans [OF t(5), of "[]" ?u] by simp
  moreover have "length ks = min n (card (evictable s))" if "counts_ok s"
  proof -
    have c: "counts_ok t" "card (evictable s) = length ks + card (evictable t)"
      using t(5) that by (simp_all add: evicted_def)
    note T = core_okD [OF t(2)]
    have "evictable t = {}" if "no_bare_leaf t"
      by (rule no_bare_leaf_evictable [OF T(1,3,2) _ _ c(1) that]) (use t(3) in \<open>simp_all add: tree_ok_def\<close>)
    with t(6,7) c(2) show ?thesis by (cases "length ks < n") auto
  qed
  ultimately show ?thesis using t(6) by (intro that [of ks ?u]) simp_all
qed

lemma assert_evictable_ok:
  assumes "pool_inv s" "counts_ok s"
  shows "assert_evictable s = Inr ()"
proof -
  let ?c = "s\<lparr>index_set := False, writes := None\<rparr>"
  note P = pool_invD [OF assms(1)]
  have "core_ok [] ?c" using P(1) by (simp add: core_ok_def arena_ok_def sealed_ok_def)
  moreover have "tree_ok {} ?c"
    using P(2) by (simp add: tree_ok_def names_ok_def ranked_def children_ok_def leaves_ok_def kids_def)
  ultimately have inv: "pool_inv ?c" by (simp add: pool_inv_def)
  have "counts_ok ?c"
    using assms(2) by (simp add: counts_upto_def evict_set_def pinned_kids_def kids_def pinned_def)
  moreover obtain ks s' where "evict (card (evictable s)) None ?c = Inr (ks, s')"
    "counts_ok ?c \<Longrightarrow> length ks = min (card (evictable s)) (card (evictable ?c))"
    by (rule evict_None [OF inv]) (rule that)
  ultimately show ?thesis by (simp add: assert_evictable_def)
qed

end
