(* ===== verification/Host_Pool.thy ===== *)
theory Host_Pool imports Page_Evict_Inv begin

text \<open>
  The host side of a paged KV pool: \<open>CPUPagePool\<close> (\<open>mstar/engine/resources/kv/cpu_page_pool.py\<close>),
  where offloaded streams live, and the pages of a stream over its pool's groups
  (\<open>held_pages\<close>, \<open>on_pages\<close> of \<open>kv/cache.py\<close>). Its arena and index are a \<open>pool\<close> of \<open>Page_Pool\<close> that
  does not report to its index. The copies themselves (CUDA streams over pinned memory) and the log
  lines are left out; the counters the log prints are kept.
\<close>

section \<open>Streams on the host\<close>

record group_pages =
  gp_pages :: "nat list"
  gp_stored_len :: nat
  gp_released :: nat
  gp_generation :: nat

definition held_pages :: "group_pages list \<Rightarrow> nat list" where
  "held_pages gs = concat (map gp_pages gs)"

fun on_pages :: "group_pages list \<Rightarrow> nat list \<Rightarrow> group_pages list" where
  "on_pages [] pages = []"
| "on_pages (g # gs) pages = g\<lparr>gp_pages := take (length (gp_pages g)) pages\<rparr> # on_pages gs (drop (length (gp_pages g)) pages)"

record 'k offloaded_stream =
  os_groups :: "group_pages list"
  os_position :: nat
  os_protected :: nat
  os_keys :: "'k list"

text \<open>A stream has a first group; with that group alone its pages are the stream's.\<close>

definition os_first_pages :: "'k offloaded_stream \<Rightarrow> nat list res" where
  "os_first_pages st = rbind (get_at (os_groups st) 0) (\<lambda>g. Inr (gp_pages g))"

definition host_pages :: "'k offloaded_stream \<Rightarrow> nat list res" where
  "host_pages st = (if length (os_groups st) > 1 then Inr (held_pages (os_groups st)) else os_first_pages st)"

section \<open>The pool\<close>

record 'k cpu_pool =
  cp_pages :: "'k pool"
  cp_offloaded :: "(string, (string, 'k offloaded_stream) dict) dict"
  cp_dropped :: nat
  cp_written :: nat
  cp_cancelled :: nat

definition new_cpu_pool :: "allocator \<Rightarrow> 'k cpu_pool" where
  "new_cpu_pool al = \<lparr>cp_pages = new_pool al False, cp_offloaded = [], cp_dropped = 0, cp_written = 0, cp_cancelled = 0\<rparr>"

definition streams_of :: "string \<Rightarrow> 'k cpu_pool \<Rightarrow> (string, 'k offloaded_stream) dict" where
  "streams_of rid c = (case map_of (cp_offloaded c) rid of None \<Rightarrow> [] | Some d \<Rightarrow> d)"

definition is_offloaded :: "string \<Rightarrow> 'k cpu_pool \<Rightarrow> bool" where
  "is_offloaded rid c \<longleftrightarrow> streams_of rid c \<noteq> []"

definition on_arena :: "('k pool \<Rightarrow> 'k pool res) \<Rightarrow> 'k cpu_pool \<Rightarrow> 'k cpu_pool res" where
  "on_arena f c = rbind (f (cp_pages c)) (\<lambda>s. Inr (c\<lparr>cp_pages := s\<rparr>))"

definition retain_run :: "'k list \<Rightarrow> 'k cpu_pool \<Rightarrow> (nat list \<times> 'k cpu_pool) res" where
  "retain_run keys c = rbind (lookup keys (cp_pages c)) (\<lambda>(pages, s).
     rbind (retain pages s) (\<lambda>s. Inr (pages, c\<lparr>cp_pages := s\<rparr>)))"

definition host_take :: "nat \<Rightarrow> 'k cpu_pool \<Rightarrow> (nat list option \<times> 'k cpu_pool) res" where
  "host_take n c =
     rbind (if n > num_free (cp_pages c)
            then rbind (evict (n - num_free (cp_pages c)) None (cp_pages c)) (\<lambda>(_, s). Inr s)
            else Inr (cp_pages c)) (\<lambda>s.
     rbind (acquire (min n (num_free s)) s) (\<lambda>(pages, s). Inr (pages, c\<lparr>cp_pages := s\<rparr>)))"

text \<open>
  \<open>place\<close>: the pages of the device stream and those of the host to copy them to, or \<open>None\<close>. The
  keys name a prefix of the first group's pages, so no more are found than the stream has.
\<close>

definition host_place :: "string \<Rightarrow> string \<Rightarrow> group_pages list \<Rightarrow> 'k list \<Rightarrow> nat \<Rightarrow> nat \<Rightarrow> 'k cpu_pool \<Rightarrow>
    ((nat list \<times> nat list) option \<times> 'k cpu_pool) res" where
  "host_place rid label groups keys position protected c =
     rbind (retain_run keys c) (\<lambda>(found, c).
     let gpu = held_pages groups; n = length gpu - length found in
     rbind (host_take n c) (\<lambda>(cpu, c). case cpu of None \<Rightarrow> Inl TypeError | Some cpu \<Rightarrow>
       if length cpu < n then rbind (on_arena (release (cpu @ found)) c) (\<lambda>c. Inr (None, c))
       else Inr (Some (drop (length found) gpu, cpu),
         c\<lparr>cp_offloaded := dict_set rid (dict_set label
           \<lparr>os_groups = on_pages groups (found @ cpu), os_position = position, os_protected = protected, os_keys = keys\<rparr>
           (streams_of rid c)) (cp_offloaded c)\<rparr>)))"

definition insert_keys :: "string \<Rightarrow> string \<Rightarrow> 'k cpu_pool \<Rightarrow> 'k cpu_pool res" where
  "insert_keys rid label c = (case map_of (cp_offloaded c) rid of None \<Rightarrow> Inl KeyError | Some d \<Rightarrow>
     case map_of d label of None \<Rightarrow> Inl KeyError | Some st \<Rightarrow>
       rbind (os_first_pages st) (\<lambda>pages.
       on_arena (\<lambda>s. rbind (insert_run (os_keys st) (take (length (os_keys st)) pages) None s) (\<lambda>(_, s). Inr s)) c))"

definition count_dropped :: "'k list \<Rightarrow> 'k cpu_pool \<Rightarrow> 'k cpu_pool" where
  "count_dropped keys c = c\<lparr>cp_dropped := cp_dropped c + length (filter (\<lambda>k. page_for k (cp_pages c) = None) keys)\<rparr>"

text \<open>One round of \<open>file_writes\<close>: the count of pages filed goes along.\<close>

definition file_one :: "'k set \<Rightarrow> 'k \<times> nat \<times> 'k option \<Rightarrow> nat \<times> 'k cpu_pool \<Rightarrow> (nat \<times> 'k cpu_pool) res" where
  "file_one cancelled = (\<lambda>(key, page, par) (filed, c). if key \<in> cancelled then Inr (filed, c) else
     rbind (insert_page key page (case par of None \<Rightarrow> None | Some k \<Rightarrow> page_for k (cp_pages c)) (cp_pages c))
       (\<lambda>(new, s). Inr (if new then Suc filed else filed, c\<lparr>cp_pages := s\<rparr>)))"

definition file_writes :: "'k list \<Rightarrow> nat list \<Rightarrow> 'k option list \<Rightarrow> 'k set \<Rightarrow> 'k cpu_pool \<Rightarrow> 'k cpu_pool res" where
  "file_writes keys pages parents cancelled c =
     rbind (rfold (file_one cancelled) (zip keys (zip pages parents)) (0, c)) (\<lambda>(filed, c).
     if length keys \<noteq> length pages \<or> length keys \<noteq> length parents then Inl ValueError else
     rbind (on_arena (release pages) c) (\<lambda>c.
       Inr (c\<lparr>cp_written := cp_written c + filed, cp_cancelled := cp_cancelled c + card cancelled\<rparr>)))"

definition host_pop :: "string \<Rightarrow> string \<Rightarrow> 'k cpu_pool \<Rightarrow> 'k offloaded_stream option \<times> 'k cpu_pool" where
  "host_pop rid label c = (case map_of (streams_of rid c) label of None \<Rightarrow> (None, c)
     | Some st \<Rightarrow> let d = dict_del label (streams_of rid c) in
         (Some st, c\<lparr>cp_offloaded := (if d = [] then dict_del rid (cp_offloaded c) else dict_set rid d (cp_offloaded c))\<rparr>))"

definition host_discard :: "string \<Rightarrow> string \<Rightarrow> 'k cpu_pool \<Rightarrow> 'k cpu_pool res" where
  "host_discard rid label c = (case host_pop rid label c of (None, c) \<Rightarrow> Inr c
     | (Some st, c) \<Rightarrow> rbind (host_pages st) (\<lambda>ps. on_arena (release ps) c))"

definition host_remove_request :: "string \<Rightarrow> 'k cpu_pool \<Rightarrow> 'k cpu_pool res" where
  "host_remove_request rid c = rfold (\<lambda>(_, st) c. rbind (host_pages st) (\<lambda>ps. on_arena (release ps) c))
     (streams_of rid c) (c\<lparr>cp_offloaded := dict_del rid (cp_offloaded c)\<rparr>)"

end
