(* ===== verification/Host_Writes.thy ===== *)
theory Host_Writes imports Host_Pool begin

text \<open>
  \<open>HostWrites\<close> (\<open>mstar/engine/resources/kv/host_writes.py\<close>): cached device pages copied to the host
  before the device evicts them. The device's pool is at hand because the walk up from a queued page
  reads its index; the queue itself is the \<open>writes\<close> field of that pool's arena, where
  releases feed it (\<open>hq_queue\<close> of \<open>Page_Pool\<close>). A write is an object the code compares by identity, so each
  has a number here. Its event is \<open>None\<close> until the copies are launched; whether a recorded event has
  completed (\<open>query()\<close>) is the device's to say, a flag here.

  The walk up follows parent links, a loop that ends only on a forest: it is a partial function, and so
  is what calls it.
\<close>

section \<open>State\<close>

record 'k host_write =
  hw_keys :: "'k list"
  hw_pages :: "nat list"
  hw_host_pages :: "nat list"
  hw_parents :: "'k option list"
  hw_anchors :: "nat list"
  hw_event :: "bool option"
  hw_cancelled :: "'k set"

record 'k host_writes =
  hs_pool :: "'k cpu_pool"
  hs_index :: "'k pool"
  hs_per_step :: nat
  hs_writing :: "'k \<rightharpoonup> nat"
  hs_in_flight :: "(nat \<times> 'k host_write) list"
  hs_next :: nat

definition new_host_writes :: "'k cpu_pool \<Rightarrow> 'k pool \<Rightarrow> nat \<Rightarrow> 'k host_writes res" where
  "new_host_writes c device page_bytes = (if page_bytes = 0 then Inl ZeroDivisionError else
     Inr \<lparr>hs_pool = c, hs_index = device\<lparr>writes := Some \<lparr>hq_queued = [], hq_commits = 0, hq_image_ends = {}\<rparr>\<rparr>,
       hs_per_step = min 16 (max 1 (33554432 div page_bytes)),
       hs_writing = Map.empty, hs_in_flight = [], hs_next = 0\<rparr>)"

definition hs_queue :: "'k host_writes \<Rightarrow> 'k host_queue" where
  "hs_queue h = (case writes (hs_index h) of None \<Rightarrow> \<lparr>hq_queued = [], hq_commits = 0, hq_image_ends = {}\<rparr> | Some q \<Rightarrow> q)"

definition on_queue :: "('k host_queue \<Rightarrow> 'k host_queue) \<Rightarrow> 'k host_writes \<Rightarrow> 'k host_writes" where
  "on_queue f h = h\<lparr>hs_index := (hs_index h)\<lparr>writes := Some (f (hs_queue h))\<rparr>\<rparr>"

definition add_image_end :: "'k \<Rightarrow> 'k host_writes \<Rightarrow> 'k host_writes" where
  "add_image_end key = on_queue (\<lambda>q. q\<lparr>hq_image_ends := insert key (hq_image_ends q)\<rparr>)"

definition count_commit :: "'k host_writes \<Rightarrow> 'k host_writes" where
  "count_commit = on_queue (\<lambda>q. q\<lparr>hq_commits := Suc (hq_commits q)\<rparr>)"

definition on_write :: "nat \<Rightarrow> ('k host_write \<Rightarrow> 'k host_write) \<Rightarrow> 'k host_writes \<Rightarrow> 'k host_writes" where
  "on_write i f h = h\<lparr>hs_in_flight := map (\<lambda>(j, w). (j, if j = i then f w else w)) (hs_in_flight h)\<rparr>"

text \<open>The write a key is being copied by, while it is in flight.\<close>

definition write_of :: "'k \<Rightarrow> 'k host_writes \<Rightarrow> 'k host_write option" where
  "write_of key h = (case hs_writing h key of None \<Rightarrow> None | Some i \<Rightarrow> map_of (hs_in_flight h) i)"

definition awaits :: "'k \<Rightarrow> 'k host_writes \<Rightarrow> bool" where
  "awaits key h \<longleftrightarrow> (map_of (hq_queued (hs_queue h)) key \<noteq> None \<or> hs_writing h key \<noteq> None) \<and>
     page_for key (cp_pages (hs_pool h)) = None"

definition evicted_one :: "'k \<Rightarrow> 'k host_writes \<Rightarrow> 'k host_writes" where
  "evicted_one key h = (let h = on_queue (\<lambda>q. q\<lparr>hq_queued := dict_del key (hq_queued q), hq_image_ends := hq_image_ends q - {key}\<rparr>) h in
     case hs_writing h key of None \<Rightarrow> h
     | Some i \<Rightarrow> on_write i (\<lambda>w. if hw_event w \<noteq> Some True then w\<lparr>hw_cancelled := insert key (hw_cancelled w)\<rparr> else w) h)"

definition evicted_keys :: "'k list \<Rightarrow> 'k host_writes \<Rightarrow> 'k host_writes" where
  "evicted_keys keys h = fold evicted_one keys h"

section \<open>Taking a step's share\<close>

text \<open>\<open>_unwritten_chain\<close>: the chain is built in front, so it comes out root first.\<close>

partial_function (option) unwritten_chain ::
  "'k host_writes \<Rightarrow> 'k set \<Rightarrow> 'k option \<Rightarrow> 'k list \<Rightarrow> ('k list \<times> nat option) res option" where
  "unwritten_chain h took key chain = (case key of None \<Rightarrow> Some (Inr (chain, None)) | Some k \<Rightarrow>
     if k \<in> took then Some (Inr (chain, None)) else
     case page_for k (cp_pages (hs_pool h)) of Some p \<Rightarrow> Some (Inr (chain, Some p)) | None \<Rightarrow>
     if (case write_of k h of None \<Rightarrow> False | Some w \<Rightarrow> k \<notin> hw_cancelled w) then Some (Inr (chain, None)) else
     case page_for k (hs_index h) of None \<Rightarrow> Some (Inl TypeError) | Some p \<Rightarrow>
     case parent_key p (hs_index h) of Inl e \<Rightarrow> Some (Inl e) | Inr par \<Rightarrow> unwritten_chain h took par (k # chain))"

declare unwritten_chain.simps [code]

text \<open>
  The loop of \<open>take\<close> over the queue: the keys so far with what is left of the queue, and the
  anchors, a set in the code, in the order they are met.
\<close>

function take_keys :: "'k host_writes \<Rightarrow> nat \<Rightarrow> ('k, nat) dict \<Rightarrow> 'k list \<Rightarrow> nat list \<Rightarrow>
    ('k list \<times> nat list \<times> ('k, nat) dict) res option" where
  "take_keys h done queue keys anchors = (case queue of [] \<Rightarrow> Some (Inr (keys, anchors, []))
   | (key, commits) # rest \<Rightarrow>
       if hs_per_step h \<le> length keys \<or> commits > done then Some (Inr (keys, anchors, queue)) else
       case unwritten_chain h (set keys) (Some key) [] of None \<Rightarrow> None
       | Some (Inl e) \<Rightarrow> Some (Inl e)
       | Some (Inr (chain, anchor)) \<Rightarrow>
           let room = hs_per_step h - length keys; fits = length chain \<le> room; chain = take room chain;
             anchors = (case anchor of Some p \<Rightarrow> if chain \<noteq> [] \<and> p \<notin> set anchors then anchors @ [p] else anchors | None \<Rightarrow> anchors)
           in take_keys h done (if fits then rest else queue) (keys @ chain) anchors)"
  by pat_completeness auto
termination
  by (relation "measures [\<lambda>(h, _, _, keys, _). hs_per_step h - length keys, \<lambda>(_, _, queue, _, _). length queue]") auto


declare take_keys.simps [simp del]

definition pages_to_write :: "'k list \<Rightarrow> 'k pool \<Rightarrow> (nat list \<times> 'k option list) res" where
  "pages_to_write keys s = rfold (\<lambda>key (pages, parents). case page_for key s of None \<Rightarrow> Inl TypeError
     | Some p \<Rightarrow> rbind (parent_key p s) (\<lambda>par. Inr (pages @ [p], parents @ [par]))) keys ([], [])"

definition list_write :: "'k list \<Rightarrow> nat list \<Rightarrow> nat list \<Rightarrow> 'k host_writes \<Rightarrow> (nat option \<times> 'k host_writes) res" where
  "list_write keys host anchors h = rbind (pages_to_write keys (hs_index h)) (\<lambda>(pages, parents).
     Inr (Some (hs_next h), h\<lparr>hs_next := Suc (hs_next h),
       hs_writing := fold (\<lambda>key m. m(key \<mapsto> hs_next h)) keys (hs_writing h),
       hs_in_flight := hs_in_flight h @ [(hs_next h, \<lparr>hw_keys = keys, hw_pages = pages, hw_host_pages = host,
         hw_parents = parents, hw_anchors = anchors, hw_event = None, hw_cancelled = {}\<rparr>)]\<rparr>))"

definition on_host :: "('k cpu_pool \<Rightarrow> ('a \<times> 'k cpu_pool) res) \<Rightarrow> 'k host_writes \<Rightarrow> ('a \<times> 'k host_writes) res" where
  "on_host f h = rbind (f (hs_pool h)) (\<lambda>(x, c). Inr (x, h\<lparr>hs_pool := c\<rparr>))"

definition on_host' :: "('k cpu_pool \<Rightarrow> 'k cpu_pool res) \<Rightarrow> 'k host_writes \<Rightarrow> 'k host_writes res" where
  "on_host' f h = rbind (f (hs_pool h)) (\<lambda>c. Inr (h\<lparr>hs_pool := c\<rparr>))"

definition write_keys :: "'k list \<Rightarrow> nat list \<Rightarrow> 'k host_writes \<Rightarrow> (nat option \<times> 'k host_writes) res" where
  "write_keys keys anchors h = (if keys = [] then Inr (None, h) else
     rbind (on_host' (on_arena (retain anchors)) h) (\<lambda>h.
     rbind (on_host (host_take (length keys)) h) (\<lambda>(host, h).
     if host = None \<or> host = Some [] then rbind (on_host' (on_arena (release anchors)) h) (\<lambda>h. Inr (None, h))
     else list_write (take (length (the host)) keys) (the host) anchors h)))"

definition take_writes :: "nat \<Rightarrow> 'k host_writes \<Rightarrow> (nat option \<times> 'k host_writes) res option" where
  "take_writes done h = (case take_keys h done (hq_queued (hs_queue h)) [] [] of None \<Rightarrow> None
     | Some r \<Rightarrow> Some (rbind r (\<lambda>(keys, anchors, rest). write_keys keys anchors (on_queue (\<lambda>q. q\<lparr>hq_queued := rest\<rparr>) h))))"

section \<open>Launching and landing\<close>

definition launch :: "nat \<Rightarrow> bool \<Rightarrow> 'k host_writes \<Rightarrow> 'k host_writes" where
  "launch i failed = on_write i (\<lambda>w. w\<lparr>hw_event := Some False,
     hw_cancelled := (if failed then hw_cancelled w \<union> set (hw_keys w) else hw_cancelled w)\<rparr>)"

text \<open>The device finishes the copies before the event.\<close>

definition complete_event :: "nat \<Rightarrow> 'k host_writes \<Rightarrow> 'k host_writes" where
  "complete_event i = on_write i (\<lambda>w. if hw_event w = Some False then w\<lparr>hw_event := Some True\<rparr> else w)"

definition land_write :: "nat \<times> 'k host_write \<Rightarrow> 'k host_writes \<Rightarrow> 'k host_writes res" where
  "land_write = (\<lambda>(i, w) h. if hw_event w \<noteq> Some True then Inr h else
     rbind (on_host' (file_writes (hw_keys w) (hw_host_pages w) (hw_parents w) (hw_cancelled w))
       (h\<lparr>hs_writing := fold (\<lambda>key m. if m key = Some i then m(key := None) else m) (hw_keys w) (hs_writing h)\<rparr>)) (\<lambda>h.
     rbind (on_host' (on_arena (release (hw_anchors w))) h) (\<lambda>h.
     Inr (h\<lparr>hs_in_flight := filter (\<lambda>(j, _). j \<noteq> i) (hs_in_flight h)\<rparr>))))"

definition land :: "'k host_writes \<Rightarrow> 'k host_writes res" where
  "land h = rfold land_write (hs_in_flight h) h"

definition landing :: "'k host_writes \<Rightarrow> bool" where
  "landing h \<longleftrightarrow> hs_in_flight h \<noteq> []"

definition host_pages_held :: "'k host_writes \<Rightarrow> nat list" where
  "host_pages_held h = concat (map (\<lambda>(i, w). hw_host_pages w @ hw_anchors w) (hs_in_flight h))"

section \<open>The manager's check of the host pool\<close>

text \<open>
  \<open>_owned_pages\<close> and \<open>_assert_host_pages_conserved\<close> of \<open>kv/manager.py\<close>, which debug runs make:
  \<open>copies\<close> are the host pages of each copy back to the device. A counter is the list it counts.
\<close>

definition owned_pages :: "'k pool \<Rightarrow> nat list res" where
  "owned_pages s = (let total = al_max (allocator s); free = al_pages (allocator s) in
     if length (num_owners s) < total then Inl IndexError else
     let owned = filter (\<lambda>p. 0 < num_owners s ! p) [0..<total] in
     if set free \<inter> set owned \<noteq> {} then Inl AssertionError else
     if length free + length owned \<noteq> total then Inl AssertionError else Inr owned)"

definition stream_refs :: "'k cpu_pool \<Rightarrow> nat list res" where
  "stream_refs c = rfold (\<lambda>st ps. rbind (host_pages st) (\<lambda>qs. Inr (ps @ qs))) (concat (map (\<lambda>(_, d). map snd d) (cp_offloaded c))) []"

definition assert_host_pages_conserved :: "nat list list \<Rightarrow> 'k host_writes \<Rightarrow> unit res" where
  "assert_host_pages_conserved copies h = (let s = cp_pages (hs_pool h) in
     rbind (owned_pages s) (\<lambda>owned. rbind (stream_refs (hs_pool h)) (\<lambda>streams.
     let refs = index_pages s @ streams @ concat copies @ host_pages_held h in
     if \<forall>p \<in> set owned \<union> set refs. (if p \<in> set owned then num_owners s ! p else 0) = count_list refs p
     then Inr () else Inl AssertionError)))"

end
