(* ===== verification/Host_Inv.thy ===== *)
theory Host_Inv imports Host_Writes begin

text \<open>
  What the host pool's owner counts mean. \<open>cpu_ok c X\<close>: a page has one owner for its key in the index, one
  for every offloaded stream that names it and one for every reference in \<open>X\<close>, those held outside the pool (a
  write in flight, a copy back to the device). A page without a key is referred to once at
  most, and a stream's keyed pages are filed under its keys or not at all.
\<close>

section \<open>Sums over dicts\<close>

definition dict_sum :: "('v \<Rightarrow> 'a::comm_monoid_add) \<Rightarrow> ('k, 'v) dict \<Rightarrow> 'a" where
  "dict_sum f d = sum_list (map (f \<circ> snd) d)"

lemma dict_sum_simps [simp]: "dict_sum f [] = 0" "dict_sum f (p # d) = f (snd p) + dict_sum f d"
  by (simp_all add: dict_sum_def)

lemma dict_sum_set: "dict_sum f (dict_set k v d) + (case map_of d k of None \<Rightarrow> 0 | Some u \<Rightarrow> f u) = dict_sum f d + f v"
  by (induction d) (auto simp: ac_simps split: option.splits)

lemma dict_del_absent: "k \<notin> fst ` set d \<Longrightarrow> dict_del k d = d"
  by (auto simp: dict_del_def filter_id_conv)

lemma dict_sum_del:
  "distinct (map fst d) \<Longrightarrow> dict_sum f (dict_del k d) + (case map_of d k of None \<Rightarrow> 0 | Some u \<Rightarrow> f u) = dict_sum f d"
proof (induction d)
  case (Cons p d)
  then show ?case
    using dict_del_absent [of k d] map_of_eq_None_iff [of d k]
    by (cases "fst p = k") (auto simp: dict_del_def ac_simps split: option.splits)
qed (simp add: dict_del_def)

lemma dict_del_subset: "set (dict_del k d) \<subseteq> set d"
  by (auto simp: dict_del_def)

section \<open>The invariant\<close>

definition stream_pages :: "'k offloaded_stream \<Rightarrow> nat multiset" where
  "stream_pages st = mset (held_pages (os_groups st))"

definition streams_held :: "'k cpu_pool \<Rightarrow> nat multiset" where
  "streams_held c = dict_sum (dict_sum stream_pages) (cp_offloaded c)"

definition offloaded_streams :: "'k cpu_pool \<Rightarrow> 'k offloaded_stream set" where
  "offloaded_streams c = {st. \<exists>rid d l. (rid, d) \<in> set (cp_offloaded c) \<and> (l, st) \<in> set d}"

definition stream_ok :: "'k pool \<Rightarrow> 'k offloaded_stream \<Rightarrow> bool" where
  "stream_ok s st \<longleftrightarrow> os_groups st \<noteq> [] \<and> length (os_keys st) \<le> length (gp_pages (hd (os_groups st))) \<and> distinct (os_keys st) \<and>
     (\<forall>i < length (os_keys st). key_at s ! (gp_pages (hd (os_groups st)) ! i) = None \<or>
        key_at s ! (gp_pages (hd (os_groups st)) ! i) = Some (os_keys st ! i))"

definition dicts_ok :: "'k cpu_pool \<Rightarrow> bool" where
  "dicts_ok c \<longleftrightarrow> distinct (map fst (cp_offloaded c)) \<and> (\<forall>(rid, d) \<in> set (cp_offloaded c). distinct (map fst d))"

text \<open>The host's arena hands out every page it has and does not report to the index.\<close>

definition host_arena :: "'k pool \<Rightarrow> bool" where
  "host_arena s \<longleftrightarrow> \<not> index_set s \<and> al_stock (allocator s) = {0..<pool_size s}"

text \<open>The counts alone, with the references in \<open>H\<close>.\<close>

definition owned_by :: "'k pool \<Rightarrow> nat multiset \<Rightarrow> bool" where
  "owned_by s H \<longleftrightarrow> pool_inv s \<and> host_arena s \<and> (\<forall>p \<in># H. p < pool_size s) \<and>
     (\<forall>p < pool_size s. num_owners s ! p = (if key_at s ! p = None then 0 else 1) + count H p) \<and>
     (\<forall>p < pool_size s. key_at s ! p = None \<longrightarrow> count H p \<le> 1)"

definition cpu_ok :: "'k cpu_pool \<Rightarrow> nat multiset \<Rightarrow> bool" where
  "cpu_ok c X \<longleftrightarrow> owned_by (cp_pages c) (streams_held c + X) \<and> dicts_ok c \<and> (\<forall>st \<in> offloaded_streams c. stream_ok (cp_pages c) st)"

lemma owned_byD:
  assumes "owned_by s H"
  shows "pool_inv s" "p \<in># H \<Longrightarrow> p < pool_size s"
    "p < pool_size s \<Longrightarrow> num_owners s ! p = (if key_at s ! p = None then 0 else 1) + count H p"
    "p < pool_size s \<Longrightarrow> key_at s ! p = None \<Longrightarrow> count H p \<le> 1"
    "host_arena s"
  using assms by (auto simp: owned_by_def)

section \<open>The calls on the counts\<close>

lemma owned_lookup:
  assumes "owned_by s H"
  obtains s' where "lookup ks s = Inr (pages_for ks s, s')" "owned_by s' H" "by_key s' = by_key s" "key_at s' = key_at s"
    "pool_size s' = pool_size s"
proof -
  note O = owned_byD [OF assms]
  have "\<And>p. p \<in> set (pages_for ks s) \<Longrightarrow> p < pool_size s" using pages_for_indexed(1) [OF pool_invD(9) [OF O(1)]] .
  from touch_inv [OF O(1) this] obtain c xs where "touch (pages_for ks s) s = Inr (s\<lparr>clock := c, stamp := xs\<rparr>)"
    "pool_inv (s\<lparr>clock := c, stamp := xs\<rparr>)" by metis
  with assms that [of "s\<lparr>clock := c, stamp := xs\<rparr>"] show ?thesis by (simp add: lookup_def owned_by_def host_arena_def)
qed

lemma owned_retain:
  assumes "owned_by s H" and "\<And>p. p \<in> set ps \<Longrightarrow> p < pool_size s \<and> key_at s ! p \<noteq> None"
  obtains s' where "retain ps s = Inr s'" "owned_by s' (H + mset ps)" "key_at s' = key_at s" "by_key s' = by_key s"
    "pool_size s' = pool_size s"
proof -
  note O = owned_byD [OF assms(1)]
  have "\<And>p. p \<in> set ps \<Longrightarrow> p < pool_size s \<and> 0 < num_owners s ! p" using assms(2) O(3) by fastforce
  from retain_inv [OF O(1) this] obtain s' where s': "retain ps s = Inr s'" "pool_inv s'" "same_index s s'"
    "allocator s' = allocator s" "\<And>p. p < pool_size s \<Longrightarrow> num_owners s' ! p = num_owners s ! p + count_list ps p" by metis
  have k: "key_at s' = key_at s" "by_key s' = by_key s" using s'(3) by (simp_all add: same_index_def)
  have ar: "host_arena s'" using s'(3,4) O(5) by (simp add: host_arena_def same_index_def)
  have "owned_by s' (H + mset ps)"
    unfolding owned_by_def k s'(4)
  proof (intro conjI allI ballI impI s'(2) ar)
    show "p < pool_size s" if "p \<in># H + mset ps" for p using that O(2) assms(2) by auto
    show "num_owners s' ! p = (if key_at s ! p = None then 0 else 1) + count (H + mset ps) p" if "p < pool_size s" for p
      using s'(5) [OF that] O(3) [OF that] by (simp add: count_mset)
    show "count (H + mset ps) p \<le> 1" if "p < pool_size s" "key_at s ! p = None" for p
    proof -
      have "p \<notin> set ps" using assms(2) that(2) by blast
      then show ?thesis using O(4) [OF that] by (simp add: count_mset count_notin)
    qed
  qed
  with s' k that show ?thesis by simp
qed

lemma owned_release:
  assumes "owned_by s (H + mset ps)"
  obtains s' where "release ps s = Inr s'" "owned_by s' H" "key_at s' = key_at s" "by_key s' = by_key s" "pool_size s' = pool_size s"
    "parent s' = parent s"
proof -
  note O = owned_byD [OF assms]
  have sz: "\<And>p. p \<in> set ps \<Longrightarrow> p < pool_size s" using O(2) by simp
  have "\<And>p. p \<in> set ps \<Longrightarrow> count_list ps p + (if key_at s ! p \<noteq> None then 1 else 0) \<le> num_owners s ! p"
    using O(3) [OF sz] by (simp add: count_mset)
  from release_inv [OF O(1) sz this] obtain s' where s': "release ps s = Inr s'" "pool_inv s'" "same_index s s'"
    "pool_size s' = pool_size s" "\<And>p. p < pool_size s \<Longrightarrow> num_owners s' ! p = num_owners s ! p - count_list ps p"
    "al_stock (allocator s') = al_stock (allocator s)" by metis
  have k: "key_at s' = key_at s" "by_key s' = by_key s" using s'(3) by (simp_all add: same_index_def)
  have ar: "host_arena s'" using s'(3,4,6) O(5) by (simp add: host_arena_def same_index_def)
  have "owned_by s' H"
    unfolding owned_by_def k s'(4)
  proof (intro conjI allI ballI impI s'(2) ar)
    show "p < pool_size s" if "p \<in># H" for p using that O(2) by auto
    show "num_owners s' ! p = (if key_at s ! p = None then 0 else 1) + count H p" if "p < pool_size s" for p
      using s'(5) [OF that] O(3) [OF that] by (simp add: count_mset)
    show "count H p \<le> 1" if "p < pool_size s" "key_at s ! p = None" for p using O(4) [OF that] by simp
  qed
  with s' k that show ?thesis by (simp add: same_index_def)
qed

lemma owned_evict:
  assumes "owned_by s H"
  obtains ks s' where "evict n None s = Inr (ks, s')" "owned_by s' H" "pool_size s' = pool_size s"
    "\<And>p. p \<in># H \<Longrightarrow> key_at s' ! p = key_at s ! p"
    "\<And>p k. p < pool_size s \<Longrightarrow> key_at s' ! p = Some k \<Longrightarrow> key_at s ! p = Some k"
proof -
  note O = owned_byD [OF assms]
  obtain ks s' where e: "evict n None s = Inr (ks, s')" "pool_inv s'" "evicted s ks s'"
    by (rule evict_None [OF O(1)]) (rule that)
  have sz: "pool_size s' = pool_size s" using e(3) by (simp add: evicted_def)
  have page: "if key_at s ! p \<in> Some ` set ks then num_owners s ! p = 1 \<and> key_at s' ! p = None \<and> num_owners s' ! p = 0
      else key_at s' ! p = key_at s ! p \<and> num_owners s' ! p = num_owners s ! p" if "p < pool_size s" for p
    using e(3) that unfolding evicted_def by blast
  have gone: "count H p = 0" if "p < pool_size s" "key_at s ! p \<in> Some ` set ks" for p
    using page [OF that(1)] that(2) O(3) [OF that(1)] by (auto split: if_splits)
  have ar: "host_arena s'" using e(3) O(5) by (simp add: host_arena_def evicted_def)
  have "owned_by s' H"
    unfolding owned_by_def sz
  proof (intro conjI allI ballI impI e(2) ar)
    show "p < pool_size s" if "p \<in># H" for p using that O(2) by simp
    show "num_owners s' ! p = (if key_at s' ! p = None then 0 else 1) + count H p" if "p < pool_size s" for p
      using page [OF that] O(3) [OF that] gone [OF that] by (auto split: if_splits)
    show "count H p \<le> 1" if "p < pool_size s" "key_at s' ! p = None" for p
      using page [OF that(1)] gone [OF that(1)] O(4) [OF that(1)] that(2) by (auto split: if_splits)
  qed
  moreover have "key_at s' ! p = key_at s ! p" if "p \<in># H" for p
    using page [of p] gone [of p] O(2) [OF that] that by (auto simp: count_eq_zero_iff split: if_splits)
  moreover have "key_at s ! p = Some k" if "p < pool_size s" "key_at s' ! p = Some k" for p k
    using page [OF that(1)] that(2) by (auto split: if_splits)
  ultimately show ?thesis using that e(1) sz by blast
qed

lemma owned_acquire:
  assumes "owned_by s H" and "n \<le> num_free s"
  obtains ps s' where "acquire n s = Inr (Some ps, s')" "owned_by s' (H + mset ps)" "key_at s' = key_at s" "by_key s' = by_key s"
    "pool_size s' = pool_size s" "length ps = n" "distinct ps" "\<And>p. p \<in> set ps \<Longrightarrow> key_at s ! p = None \<and> p \<notin># H"
proof -
  note O = owned_byD [OF assms(1)]
  from acquire_inv [OF O(1) assms(2)] obtain ps s' where a: "acquire n s = Inr (Some ps, s')" "pool_inv s'" "length ps = n"
    "distinct ps" "set ps \<subseteq> set (al_pages (allocator s))" "same_index s s'" "pool_size s' = pool_size s"
    "\<And>p. p < pool_size s \<Longrightarrow> num_owners s' ! p = (if p \<in> set ps then 1 else num_owners s ! p)"
    "al_stock (allocator s') = al_stock (allocator s)" by metis
  have k: "key_at s' = key_at s" "by_key s' = by_key s" using a(6) by (simp_all add: same_index_def)
  have free: "p < pool_size s" "key_at s ! p = None" "count H p = 0" if "p \<in> set ps" for p
  proof -
    from that a(5) have "p \<in> set (al_pages (allocator s))" by blast
    from free_page_unindexed [OF O(1) this] show "p < pool_size s" "key_at s ! p = None" "count H p = 0"
      using O(3) [of p] by simp_all
  qed
  have one: "count (mset ps) p = (if p \<in> set ps then 1 else 0)" for p using a(4) by (simp add: distinct_count_atmost_1)
  have ar: "host_arena s'" using a(6,7,9) O(5) by (simp add: host_arena_def same_index_def)
  have "owned_by s' (H + mset ps)"
    unfolding owned_by_def k a(7)
  proof (intro conjI allI ballI impI a(2) ar)
    show "p < pool_size s" if "p \<in># H + mset ps" for p using that O(2) free by auto
    show "num_owners s' ! p = (if key_at s ! p = None then 0 else 1) + count (H + mset ps) p" if "p < pool_size s" for p
      using a(8) [OF that] O(3) [OF that] free [of p] one [of p] by auto
    show "count (H + mset ps) p \<le> 1" if "p < pool_size s" "key_at s ! p = None" for p
      using O(4) [OF that] free [of p] one [of p] by auto
  qed
  moreover have "key_at s ! p = None \<and> p \<notin># H" if "p \<in> set ps" for p using free [OF that] by (simp add: count_eq_zero_iff)
  ultimately show ?thesis using that [OF a(1)] k a(3,4,7) by blast
qed

lemma owned_take:
  assumes "owned_by (cp_pages c) H"
  obtains ps s where "host_take n c = Inr (Some ps, c\<lparr>cp_pages := s\<rparr>)" "owned_by s (H + mset ps)" "pool_size s = pool_size (cp_pages c)"
    "length ps \<le> n" "distinct ps" "\<And>p. p \<in> set ps \<Longrightarrow> key_at s ! p = None \<and> p \<notin># H"
    "\<And>p. p \<in># H \<Longrightarrow> key_at s ! p = key_at (cp_pages c) ! p"
proof -
  obtain t where t: "(if n > num_free (cp_pages c)
      then rbind (evict (n - num_free (cp_pages c)) None (cp_pages c)) (\<lambda>(_, s). Inr s) else Inr (cp_pages c)) = Inr t"
    "owned_by t H" "pool_size t = pool_size (cp_pages c)" "\<And>p. p \<in># H \<Longrightarrow> key_at t ! p = key_at (cp_pages c) ! p"
  proof (cases "n > num_free (cp_pages c)")
    case True
    obtain ks u where "evict (n - num_free (cp_pages c)) None (cp_pages c) = Inr (ks, u)" "owned_by u H"
      "pool_size u = pool_size (cp_pages c)" "\<And>p. p \<in># H \<Longrightarrow> key_at u ! p = key_at (cp_pages c) ! p"
      by (rule owned_evict [OF assms]) (rule that)
    with True show ?thesis by (intro that [of u]) simp_all
  next
    case False
    with assms show ?thesis by (intro that [of "cp_pages c"]) simp_all
  qed
  obtain ps s where s: "acquire (min n (num_free t)) t = Inr (Some ps, s)" "owned_by s (H + mset ps)" "key_at s = key_at t"
    "pool_size s = pool_size t" "length ps = min n (num_free t)" "distinct ps" "\<And>p. p \<in> set ps \<Longrightarrow> key_at t ! p = None \<and> p \<notin># H"
    by (rule owned_acquire [OF t(2), of "min n (num_free t)"]) (simp, rule that)
  have "host_take n c = Inr (Some ps, c\<lparr>cp_pages := s\<rparr>)" unfolding host_take_def t(1) rbind_simps s(1) prod.case by (rule refl)
  with s t show ?thesis by (intro that [of ps s]) simp_all
qed

text \<open>Filing a page that is held once and has no key.\<close>

lemma insert_page_parent:
  assumes "insert_page key p par s = Inr (True, s')" "\<not> index_set s"
  shows "parent s' = (parent s)[p := par]"
proof -
  have ip: "insert_parent par s = Inr par" using assms(2) by (simp add: insert_parent_def split: option.splits)
  have fm: "parent m = (parent s)[p := par] \<and> index_set m = index_set s" if "name_page key p par s = Inr m" for m
    using that by (auto simp: name_page_def Let_def split: if_splits)
  have fu: "parent u = parent m \<and> index_set u = index_set m" if "seal [p] m = Inr u" for m u :: "'a pool"
    using that by (auto simp: seal_def rbind_eq_Inr)
  have fv: "parent v = parent u \<and> index_set v = index_set u" if "retain [p] u = Inr v" for u v :: "'a pool"
    using retain_frame [OF that] by (simp add: same_index_def)
  have fw: "parent w = parent v" if "add_child par v = Inr w" for v w :: "'a pool"
    using that by (auto simp: add_child_def rbind_eq_Inr split: option.splits)
  show ?thesis using assms unfolding insert_page_def ip
    by (auto simp: rbind_eq_Inr split: if_splits dest!: fm fu fv fw)
qed

lemma owned_insert:
  assumes "owned_by s H" and p: "p \<in># H" "key_at s ! p = None"
    and par: "\<And>q. par = Some q \<Longrightarrow> q < pool_size s \<and> key_at s ! q \<noteq> None"
  obtains new s' where "insert_page key p par s = Inr (new, s')" "owned_by s' H" "pool_size s' = pool_size s"
    "key_at s' = (if new then (key_at s)[p := Some key] else key_at s)" "new \<longleftrightarrow> map_of (by_key s) key = None"
    "parent s' = (if new then (parent s)[p := par] else parent s)"
proof -
  note O = owned_byD [OF assms(1)]
  note L = pool_invD(3) [OF O(1)]
  have pl: "p < pool_size s" using O(2) p(1) .
  show ?thesis
  proof (cases "map_of (by_key s) key")
    case (Some q)
    have "insert_page key p par s = Inr (False, s)"
    proof (rule insert_page_first_writer [OF Some])
      fix q assume "par = Some q"
      from par [OF this] show "q < length (key_at s) \<and> key_at s ! q \<noteq> None" using L by simp
    qed
    then show ?thesis by (rule that) (use assms(1) Some in simp_all)
  next
    case None
    have "0 < count H p" using p(1) by simp
    then have "0 < num_owners s ! p" using O(3) [OF pl] by simp
    moreover have "\<forall>q. par = Some q \<longrightarrow> q < pool_size s \<and> key_at s ! q \<noteq> None" by (intro allI impI par)
    ultimately have "can_file p par s" unfolding can_file_def by (intro conjI pl p(2))
    from insert_page_inv [OF O(1) this None] obtain s' where i: "insert_page key p par s = Inr (True, s')" "pool_inv s'"
      "key_at s' = (key_at s)[p := Some key]" "allocator s' = allocator s" "num_owners s' = (num_owners s)[p := num_owners s ! p + 1]"
      "index_set s' = index_set s" by metis
    have len: "length (key_at s) = pool_size s" "length (num_owners s) = pool_size s" using L by simp_all
    have ar: "host_arena s'" using i(4,6) O(5) by (simp add: host_arena_def)
    have "owned_by s' H"
      unfolding owned_by_def i(3-5)
    proof (intro conjI allI ballI impI i(2) ar)
      show "q < pool_size s" if "q \<in># H" for q using that O(2) by simp
      show "(num_owners s)[p := num_owners s ! p + 1] ! q = (if (key_at s)[p := Some key] ! q = None then 0 else 1) + count H q"
        if "q < pool_size s" for q using O(3) [OF that] p len pl by (cases "q = p") auto
      show "count H q \<le> 1" if "q < pool_size s" "(key_at s)[p := Some key] ! q = None" for q
        using O(4) [OF that(1)] that(2) len pl by (cases "q = p") auto
    qed
    moreover have "parent s' = (parent s)[p := par]"
      using O(5) by (intro insert_page_parent [OF i(1)]) (simp add: host_arena_def)
    ultimately show ?thesis using i None by (intro that [of True s']) simp_all
  qed
qed

lemma owned_insert_run:
  assumes "owned_by s H" and run: "can_file_run ks ps s"
  obtains n s' where "insert_run ks ps None s = Inr (n, s')" "owned_by s' H" "pool_size s' = pool_size s"
    "\<And>p. p < pool_size s \<Longrightarrow> key_at s' ! p = key_at s ! p \<or>
      key_at s ! p = None \<and> (\<exists>k. (k, p) \<in> set (zip ks ps) \<and> key_at s' ! p = Some k)"
proof -
  note O = owned_byD [OF assms(1)]
  have par: "parent_ok None s" by (simp add: parent_ok_def)
  obtain n s' new where i: "insert_run ks ps None s = Inr (n, s')" "pool_inv s'" "by_key s' = by_key s @ new"
    "set new \<subseteq> set (zip ks ps)" "allocator s' = allocator s"
    "\<forall>p < pool_size s. num_owners s' ! p = num_owners s ! p + (if p \<in> snd ` set new then 1 else 0)" "index_set s' = index_set s"
    by (rule insert_run_ok [OF O(1) run par]) (rule that)
  note N = names_okD [OF pool_invD(9) [OF O(1)]] and N' = names_okD [OF pool_invD(9) [OF i(2)]]
  have old: "key_at s ! p = Some k \<longleftrightarrow> (k, p) \<in> set (by_key s)" if "p < pool_size s" for p k
    using N(2) [of k p] that N(1) by simp
  have new: "key_at s' ! p = Some k \<longleftrightarrow> (k, p) \<in> set (by_key s) \<or> (k, p) \<in> set new" if "p < pool_size s" for p k
    using N'(2) [of k p] that map_of_eq_Some_iff [OF N'(1), of k p] unfolding i(3,5) set_append by blast
  have unkeyed: "key_at s ! p = None" if "(k, p) \<in> set new" for k p
  proof -
    have "k \<notin> fst ` set (by_key s)" using N'(1) that unfolding i(3) by force
    then have "map_of (by_key s) k = None" by (simp add: map_of_eq_None_iff)
    with run i(4) that show ?thesis by (auto simp: can_file_run_def can_file_def)
  qed
  have same: "key_at s' ! p = key_at s ! p" if "p < pool_size s" "p \<notin> snd ` set new" for p
  proof (cases "key_at s ! p")
    case None
    then have "\<forall>k. key_at s' ! p \<noteq> Some k" using new [OF that(1)] old [OF that(1)] that(2) by (metis image_eqI option.distinct(1) snd_conv)
    with None show ?thesis by (cases "key_at s' ! p") auto
  next
    case (Some k)
    then show ?thesis using new [OF that(1), of k] old [OF that(1), of k] by simp
  qed
  have fresh: "key_at s ! p = None \<and> (\<exists>k. (k, p) \<in> set (zip ks ps) \<and> key_at s' ! p = Some k)"
    if "p < pool_size s" "p \<in> snd ` set new" for p
    using that(2) new [OF that(1)] i(4) unkeyed by force
  have ar: "host_arena s'" using i(5,7) O(5) by (simp add: host_arena_def)
  have "owned_by s' H"
    unfolding owned_by_def i(5)
  proof (intro conjI allI ballI impI i(2) ar)
    show "p < pool_size s" if "p \<in># H" for p using that O(2) by simp
    show "num_owners s' ! p = (if key_at s' ! p = None then 0 else 1) + count H p" if "p < pool_size s" for p
    proof (cases "p \<in> snd ` set new")
      case True
      then show ?thesis using i(6) that O(3) [OF that] fresh [OF that True] by auto
    next
      case False
      then show ?thesis using i(6) that O(3) [OF that] same [OF that False] by auto
    qed
    show "count H p \<le> 1" if "p < pool_size s" "key_at s' ! p = None" for p
      using O(4) [OF that(1)] same [OF that(1)] fresh [OF that(1)] that(2) by fastforce
  qed
  moreover have "key_at s' ! p = key_at s ! p \<or> key_at s ! p = None \<and> (\<exists>k. (k, p) \<in> set (zip ks ps) \<and> key_at s' ! p = Some k)"
    if "p < pool_size s" for p
  proof (cases "p \<in> snd ` set new")
    case True
    then show ?thesis using fresh [OF that] by simp
  next
    case False
    then show ?thesis using same [OF that] by simp
  qed
  ultimately show ?thesis using that [OF i(1)] i(5) by simp
qed

end
