(* ===== verification/Host_Ops.thy ===== *)
theory Host_Ops imports Host_Inv begin

text \<open>
  The calls on a host pool keep \<open>cpu_ok\<close> and never raise, given what their callers promise.
\<close>

section \<open>The offloaded streams as a list\<close>

definition flat :: "'k cpu_pool \<Rightarrow> 'k offloaded_stream list" where
  "flat c = concat (map (\<lambda>(_, d). map snd d) (cp_offloaded c))"

lemma dict_sum_flat: "dict_sum (dict_sum f) off = sum_list (map f (concat (map (\<lambda>(_, d). map snd d) off)))"
  by (induction off) (auto simp: dict_sum_def comp_def)

lemma streams_held_flat: "streams_held c = sum_list (map stream_pages (flat c))"
  by (simp add: streams_held_def flat_def dict_sum_flat)

lemma offloaded_flat: "offloaded_streams c = set (flat c)"
  by (force simp: offloaded_streams_def flat_def)

lemma sum_list_member: "x \<in> set xs \<Longrightarrow> f x \<subseteq># sum_list (map f xs)" for f :: "'a \<Rightarrow> 'b multiset"
  by (induction xs) (auto intro: subset_mset.add_increasing2 subset_mset.add_increasing)

lemma sum_list_two:
  fixes f :: "'a \<Rightarrow> 'b multiset"
  assumes "x \<in> set xs" "y \<in> set xs" "x \<noteq> y"
  shows "f x + f y \<subseteq># sum_list (map f xs)"
  using assms
proof (induction xs)
  case (Cons a xs)
  consider "x = a" "y \<in> set xs" | "y = a" "x \<in> set xs" | "x \<in> set xs" "y \<in> set xs" using Cons.prems by auto
  then show ?case
  proof cases
    case 1
    then show ?thesis using sum_list_member [of y xs f] by simp
  next
    case 2
    then show ?thesis using sum_list_member [of x xs f] by (simp add: add.commute)
  next
    case 3
    then show ?thesis using Cons.IH Cons.prems(3) by (simp add: subset_mset.add_increasing)
  qed
qed simp

lemma stream_in_held: "st \<in> offloaded_streams c \<Longrightarrow> stream_pages st \<subseteq># streams_held c"
  unfolding offloaded_flat streams_held_flat by (rule sum_list_member)

lemma cpu_okD:
  assumes "cpu_ok c X"
  shows "owned_by (cp_pages c) (streams_held c + X)" "dicts_ok c" "st \<in> offloaded_streams c \<Longrightarrow> stream_ok (cp_pages c) st"
  using assms by (auto simp: cpu_ok_def)

lemma first_pages_held: "os_groups st \<noteq> [] \<Longrightarrow> i < length (gp_pages (hd (os_groups st))) \<Longrightarrow> gp_pages (hd (os_groups st)) ! i \<in># stream_pages st"
  by (cases "os_groups st") (auto simp: stream_pages_def held_pages_def)

lemma stream_okD:
  assumes "stream_ok s st"
  shows "os_groups st \<noteq> []" "length (os_keys st) \<le> length (gp_pages (hd (os_groups st)))" "distinct (os_keys st)"
    "i < length (os_keys st) \<Longrightarrow> key_at s ! (gp_pages (hd (os_groups st)) ! i) = None \<or>
       key_at s ! (gp_pages (hd (os_groups st)) ! i) = Some (os_keys st ! i)"
  using assms by (auto simp: stream_ok_def)

lemma stream_ok_same:
  assumes "stream_ok s st" "\<And>p. p \<in># stream_pages st \<Longrightarrow> key_at t ! p = key_at s ! p"
  shows "stream_ok t st"
  unfolding stream_ok_def
proof (intro conjI allI impI stream_okD(1-3) [OF assms(1)])
  fix i assume "i < length (os_keys st)"
  then show "key_at t ! (gp_pages (hd (os_groups st)) ! i) = None \<or> key_at t ! (gp_pages (hd (os_groups st)) ! i) = Some (os_keys st ! i)"
    using stream_okD(1,2,4) [OF assms(1)] assms(2) [OF first_pages_held] by (metis dual_order.strict_trans1)
qed

lemma held_pages_update [simp]: "streams_held (c\<lparr>cp_pages := s\<rparr>) = streams_held c" "offloaded_streams (c\<lparr>cp_pages := s\<rparr>) = offloaded_streams c"
  "dicts_ok (c\<lparr>cp_pages := s\<rparr>) = dicts_ok c" "streams_of rid (c\<lparr>cp_pages := s\<rparr>) = streams_of rid c"
  by (simp_all add: streams_held_def offloaded_streams_def dicts_ok_def streams_of_def)

lemma cpu_ok_pages:
  assumes "cpu_ok c X" "owned_by s (streams_held c + X')" "\<And>p. p \<in># streams_held c \<Longrightarrow> key_at s ! p = key_at (cp_pages c) ! p"
  shows "cpu_ok (c\<lparr>cp_pages := s\<rparr>) X'"
proof -
  have "stream_ok s st" if st: "st \<in> offloaded_streams c" for st
    by (rule stream_ok_same [OF cpu_okD(3) [OF assms(1) st]]) (use stream_in_held [OF st] assms(3) in \<open>auto dest: mset_subset_eqD\<close>)
  with assms(2) cpu_okD(2) [OF assms(1)] show ?thesis by (simp add: cpu_ok_def)
qed

section \<open>Retaining, taking, releasing\<close>

lemma on_arena_release:
  assumes "cpu_ok c (X + mset ps)"
  obtains s where "on_arena (release ps) c = Inr (c\<lparr>cp_pages := s\<rparr>)" "cpu_ok (c\<lparr>cp_pages := s\<rparr>) X"
    "key_at s = key_at (cp_pages c)" "by_key s = by_key (cp_pages c)" "pool_size s = pool_size (cp_pages c)" "parent s = parent (cp_pages c)"
proof -
  have o: "owned_by (cp_pages c) (streams_held c + X + mset ps)" using cpu_okD(1) [OF assms] by (simp add: ac_simps)
  obtain s where s: "release ps (cp_pages c) = Inr s" "owned_by s (streams_held c + X)" "key_at s = key_at (cp_pages c)"
    "by_key s = by_key (cp_pages c)" "pool_size s = pool_size (cp_pages c)" "parent s = parent (cp_pages c)"
    by (rule owned_release [OF o]) (rule that)
  have "cpu_ok (c\<lparr>cp_pages := s\<rparr>) X" by (rule cpu_ok_pages [OF assms s(2)]) (simp add: s(3))
  with s that show ?thesis by (simp add: on_arena_def)
qed

lemma on_arena_retain:
  assumes "cpu_ok c X" "\<And>p. p \<in> set ps \<Longrightarrow> p < pool_size (cp_pages c) \<and> key_at (cp_pages c) ! p \<noteq> None"
  obtains s where "on_arena (retain ps) c = Inr (c\<lparr>cp_pages := s\<rparr>)" "cpu_ok (c\<lparr>cp_pages := s\<rparr>) (X + mset ps)"
    "key_at s = key_at (cp_pages c)" "by_key s = by_key (cp_pages c)" "pool_size s = pool_size (cp_pages c)"
proof -
  obtain s where s: "retain ps (cp_pages c) = Inr s" "owned_by s (streams_held c + X + mset ps)" "key_at s = key_at (cp_pages c)"
    "by_key s = by_key (cp_pages c)" "pool_size s = pool_size (cp_pages c)"
    by (rule owned_retain [OF cpu_okD(1) [OF assms(1)] assms(2)]) (assumption, rule that)
  have "cpu_ok (c\<lparr>cp_pages := s\<rparr>) (X + mset ps)" by (rule cpu_ok_pages [OF assms(1)]) (use s(2,3) in \<open>simp_all add: ac_simps\<close>)
  with s that show ?thesis by (simp add: on_arena_def)
qed

lemma retain_run_ok:
  assumes "cpu_ok c X"
  obtains s where "retain_run keys c = Inr (pages_for keys (cp_pages c), c\<lparr>cp_pages := s\<rparr>)"
    "cpu_ok (c\<lparr>cp_pages := s\<rparr>) (X + mset (pages_for keys (cp_pages c)))"
    "key_at s = key_at (cp_pages c)" "by_key s = by_key (cp_pages c)" "pool_size s = pool_size (cp_pages c)"
proof -
  note O = cpu_okD(1) [OF assms]
  let ?ps = "pages_for keys (cp_pages c)"
  obtain t where t: "lookup keys (cp_pages c) = Inr (?ps, t)" "owned_by t (streams_held c + X)" "by_key t = by_key (cp_pages c)"
    "key_at t = key_at (cp_pages c)" "pool_size t = pool_size (cp_pages c)"
    by (rule owned_lookup [OF O]) (rule that)
  have "\<And>p. p \<in> set ?ps \<Longrightarrow> p < pool_size t \<and> key_at t ! p \<noteq> None"
    using pages_for_indexed [OF pool_invD(9) [OF owned_byD(1) [OF O]]] unfolding t(4,5) by fastforce
  then obtain s where s: "retain ?ps t = Inr s" "owned_by s (streams_held c + X + mset ?ps)" "key_at s = key_at t" "by_key s = by_key t"
    "pool_size s = pool_size t" by (rule owned_retain [OF t(2)]) (assumption, rule that)
  have "cpu_ok (c\<lparr>cp_pages := s\<rparr>) (X + mset ?ps)" by (rule cpu_ok_pages [OF assms]) (use s(2,3) t(4) in \<open>simp_all add: ac_simps\<close>)
  with s t show ?thesis by (intro that [of s]) (simp_all add: retain_run_def)
qed

lemma host_take_ok:
  assumes "cpu_ok c X"
  obtains ps s where "host_take n c = Inr (Some ps, c\<lparr>cp_pages := s\<rparr>)" "cpu_ok (c\<lparr>cp_pages := s\<rparr>) (X + mset ps)"
    "length ps \<le> n" "distinct ps" "\<And>p. p \<in> set ps \<Longrightarrow> key_at s ! p = None \<and> p \<notin># streams_held c + X"
    "\<And>p. p \<in># streams_held c + X \<Longrightarrow> key_at s ! p = key_at (cp_pages c) ! p" "pool_size s = pool_size (cp_pages c)"
proof -
  obtain ps s where s: "host_take n c = Inr (Some ps, c\<lparr>cp_pages := s\<rparr>)" "owned_by s (streams_held c + X + mset ps)" "pool_size s = pool_size (cp_pages c)"
    "length ps \<le> n" "distinct ps" "\<And>p. p \<in> set ps \<Longrightarrow> key_at s ! p = None \<and> p \<notin># streams_held c + X"
    "\<And>p. p \<in># streams_held c + X \<Longrightarrow> key_at s ! p = key_at (cp_pages c) ! p"
    by (rule owned_take [OF cpu_okD(1) [OF assms], of n]) (rule that)
  have "cpu_ok (c\<lparr>cp_pages := s\<rparr>) (X + mset ps)" by (rule cpu_ok_pages [OF assms]) (use s(2,7) in \<open>simp_all add: ac_simps\<close>)
  with s that show ?thesis by blast
qed

section \<open>Taking a stream out\<close>

lemma streams_of_Some:
  assumes "dicts_ok c" "map_of (streams_of rid c) label = Some st"
  shows "map_of (cp_offloaded c) rid = Some (streams_of rid c)" "distinct (map fst (streams_of rid c))"
    "st \<in> offloaded_streams c"
proof -
  show m: "map_of (cp_offloaded c) rid = Some (streams_of rid c)" using assms(2) by (auto simp: streams_of_def split: option.splits)
  then have "(rid, streams_of rid c) \<in> set (cp_offloaded c)" by (rule map_of_SomeD)
  then show "distinct (map fst (streams_of rid c))" "st \<in> offloaded_streams c"
    using assms(1) map_of_SomeD [OF assms(2)] by (auto simp: dicts_ok_def offloaded_streams_def)
qed

lemma distinct_streams_of: "dicts_ok c \<Longrightarrow> distinct (map fst (streams_of rid c))"
  using map_of_SomeD [of "cp_offloaded c" rid]
  by (cases "map_of (cp_offloaded c) rid") (auto simp: dicts_ok_def streams_of_def)

lemma dicts_ok_dict_set:
  assumes "dicts_ok c" "distinct (map fst d)"
  shows "dicts_ok (c\<lparr>cp_offloaded := dict_set rid d (cp_offloaded c)\<rparr>)"
  using assms set_dict_set [of rid d "cp_offloaded c"] by (auto simp: dicts_ok_def)

lemma dicts_ok_dict_del:
  assumes "dicts_ok c"
  shows "dicts_ok (c\<lparr>cp_offloaded := dict_del rid (cp_offloaded c)\<rparr>)"
  using assms dict_del_subset [of rid "cp_offloaded c"] by (auto simp: dicts_ok_def)

lemma host_pop_ok:
  assumes ok: "cpu_ok c X" and st: "map_of (streams_of rid c) label = Some st"
  obtains c' where "host_pop rid label c = (Some st, c')" "cpu_ok c' (X + stream_pages st)" "cp_pages c' = cp_pages c"
    "os_groups st \<noteq> []"
proof -
  note D = streams_of_Some [OF cpu_okD(2) [OF ok] st]
  let ?d = "dict_del label (streams_of rid c)" and ?F = "dict_sum (dict_sum stream_pages)"
  define off where "off = (if ?d = [] then dict_del rid (cp_offloaded c) else dict_set rid ?d (cp_offloaded c))"
  let ?c = "c\<lparr>cp_offloaded := off\<rparr>"
  have d: "dict_sum stream_pages ?d + stream_pages st = dict_sum stream_pages (streams_of rid c)"
    using dict_sum_del [OF D(2), of stream_pages label] st by simp
  have f: "?F off + dict_sum stream_pages (streams_of rid c) = ?F (cp_offloaded c) + dict_sum stream_pages ?d"
    using dict_sum_set [of "dict_sum stream_pages" rid ?d "cp_offloaded c"]
      dict_sum_del [of "cp_offloaded c" "dict_sum stream_pages" rid] cpu_okD(2) [OF ok] D(1)
    by (auto simp: off_def dicts_ok_def)
  have "?F off + stream_pages st + dict_sum stream_pages ?d = ?F off + dict_sum stream_pages (streams_of rid c)"
    unfolding d [symmetric] by (simp only: ac_simps)
  then have "?F off + stream_pages st = ?F (cp_offloaded c)" unfolding f add_right_cancel .
  then have held: "streams_held ?c + stream_pages st = streams_held c" by (simp add: streams_held_def)
  have sub: "offloaded_streams ?c \<subseteq> offloaded_streams c"
  proof
    fix x assume "x \<in> offloaded_streams ?c"
    then obtain r e l where x: "(r, e) \<in> set off" "(l, x) \<in> set e" by (auto simp: offloaded_streams_def)
    have "(r, e) \<in> set (cp_offloaded c) \<or> e = ?d"
      using x(1) set_dict_set [of rid ?d "cp_offloaded c"] dict_del_subset [of rid "cp_offloaded c"] by (auto simp: off_def split: if_splits)
    then show "x \<in> offloaded_streams c"
      using x(2) map_of_SomeD [OF D(1)] dict_del_subset [of label "streams_of rid c"] by (auto simp: offloaded_streams_def)
  qed
  have "dicts_ok ?c" using dicts_ok_dict_set [OF cpu_okD(2) [OF ok], of ?d rid] dicts_ok_dict_del [OF cpu_okD(2) [OF ok], of rid] D(2)
    by (auto simp: off_def)
  moreover have "owned_by (cp_pages c) (streams_held ?c + (X + stream_pages st))"
    using cpu_okD(1) [OF ok] unfolding held [symmetric] by (simp only: ac_simps)
  ultimately have "cpu_ok ?c (X + stream_pages st)" using cpu_okD(3) [OF ok] sub by (auto simp: cpu_ok_def)
  moreover have "host_pop rid label c = (Some st, ?c)" by (simp add: host_pop_def st off_def Let_def)
  ultimately show ?thesis using that stream_okD(1) [OF cpu_okD(3) [OF ok D(3)]] by simp
qed

lemma host_pages_eq: "os_groups st \<noteq> [] \<Longrightarrow> host_pages st = Inr (held_pages (os_groups st))"
  by (cases "os_groups st") (auto simp: host_pages_def os_first_pages_def get_at_def held_pages_def)

lemma host_discard_ok:
  assumes "cpu_ok c X"
  obtains c' where "host_discard rid label c = Inr c'" "cpu_ok c' X"
    "\<And>p. key_at (cp_pages c') ! p = key_at (cp_pages c) ! p" "pool_size (cp_pages c') = pool_size (cp_pages c)"
proof (cases "map_of (streams_of rid c) label")
  case None
  then show ?thesis using assms that [of c] by (simp add: host_discard_def host_pop_def)
next
  case (Some st)
  obtain c1 where c1: "host_pop rid label c = (Some st, c1)" "cpu_ok c1 (X + stream_pages st)" "cp_pages c1 = cp_pages c"
    "os_groups st \<noteq> []" by (rule host_pop_ok [OF assms Some]) (rule that)
  obtain s where "on_arena (release (held_pages (os_groups st))) c1 = Inr (c1\<lparr>cp_pages := s\<rparr>)" "cpu_ok (c1\<lparr>cp_pages := s\<rparr>) X"
    "key_at s = key_at (cp_pages c1)" "pool_size s = pool_size (cp_pages c1)"
    by (rule on_arena_release [OF c1(2) [unfolded stream_pages_def]]) (rule that)
  with c1 show ?thesis by (intro that [of "c1\<lparr>cp_pages := s\<rparr>"]) (simp_all add: host_discard_def host_pages_eq)
qed

lemma dict_sum_del_key:
  assumes "dicts_ok c"
  shows "streams_held (c\<lparr>cp_offloaded := dict_del rid (cp_offloaded c)\<rparr>) + dict_sum stream_pages (streams_of rid c) = streams_held c"
proof -
  have "distinct (map fst (cp_offloaded c))" using assms by (simp add: dicts_ok_def)
  from dict_sum_del [OF this, of "dict_sum stream_pages" rid] show ?thesis
    by (cases "map_of (cp_offloaded c) rid") (simp_all add: streams_held_def streams_of_def)
qed

lemma host_remove_request_ok:
  assumes ok: "cpu_ok c X"
  obtains c' where "host_remove_request rid c = Inr c'" "cpu_ok c' X"
    "\<And>p. key_at (cp_pages c') ! p = key_at (cp_pages c) ! p" "pool_size (cp_pages c') = pool_size (cp_pages c)"
proof -
  let ?c = "c\<lparr>cp_offloaded := dict_del rid (cp_offloaded c)\<rparr>" and ?d = "streams_of rid c"
  have all: "st \<in> offloaded_streams c" if "(l, st) \<in> set ?d" for l st
    using that map_of_SomeD [of "cp_offloaded c" rid]
    by (cases "map_of (cp_offloaded c) rid") (auto simp: streams_of_def offloaded_streams_def)
  have "owned_by (cp_pages c) (streams_held ?c + (X + dict_sum stream_pages ?d))"
    using cpu_okD(1) [OF ok] unfolding dict_sum_del_key [OF cpu_okD(2) [OF ok], of rid, symmetric] by (simp only: ac_simps)
  moreover have "offloaded_streams ?c \<subseteq> offloaded_streams c"
    using dict_del_subset [of rid "cp_offloaded c"] by (auto simp: offloaded_streams_def)
  ultimately have start: "cpu_ok ?c (X + dict_sum stream_pages ?d)"
    using dicts_ok_dict_del [OF cpu_okD(2) [OF ok]] cpu_okD(3) [OF ok] by (auto simp: cpu_ok_def)
  have "\<exists>c'. rfold (\<lambda>(_, st) c. rbind (host_pages st) (\<lambda>ps. on_arena (release ps) c)) d c1 = Inr c' \<and> cpu_ok c' X \<and>
      key_at (cp_pages c') = key_at (cp_pages c1) \<and> pool_size (cp_pages c') = pool_size (cp_pages c1)"
    if "cpu_ok c1 (X + dict_sum stream_pages d)" "\<forall>(l, st) \<in> set d. os_groups st \<noteq> []" for c1 d
    using that
  proof (induction d arbitrary: c1)
    case (Cons e d)
    obtain l st where e: "e = (l, st)" by (cases e)
    have "cpu_ok c1 (X + dict_sum stream_pages d + mset (held_pages (os_groups st)))"
      using Cons.prems(1) unfolding stream_pages_def [symmetric] by (simp add: e ac_simps)
    then obtain s where s: "on_arena (release (held_pages (os_groups st))) c1 = Inr (c1\<lparr>cp_pages := s\<rparr>)"
      "cpu_ok (c1\<lparr>cp_pages := s\<rparr>) (X + dict_sum stream_pages d)" "key_at s = key_at (cp_pages c1)" "pool_size s = pool_size (cp_pages c1)"
      by (rule on_arena_release) (rule that)
    from Cons.IH [OF s(2)] Cons.prems(2) s show ?case by (auto simp: e host_pages_eq)
  qed simp
  from this [OF start] all stream_okD(1) [OF cpu_okD(3) [OF ok]] obtain c' where
    "host_remove_request rid c = Inr c'" "cpu_ok c' X" "key_at (cp_pages c') = key_at (cp_pages c)" "pool_size (cp_pages c') = pool_size (cp_pages c)"
    unfolding host_remove_request_def by fastforce
  then show ?thesis using that by simp
qed

section \<open>Placing a stream\<close>

lemma held_on_pages: "length ps = length (held_pages gs) \<Longrightarrow> held_pages (on_pages gs ps) = ps"
proof (induction gs arbitrary: ps)
  case (Cons g gs)
  then have "held_pages (on_pages gs (drop (length (gp_pages g)) ps)) = drop (length (gp_pages g)) ps" by (simp add: held_pages_def)
  then show ?case by (simp add: held_pages_def)
qed (simp add: held_pages_def)

lemma on_pages_hd: "gs \<noteq> [] \<Longrightarrow> gp_pages (hd (on_pages gs ps)) = take (length (gp_pages (hd gs))) ps \<and> on_pages gs ps \<noteq> []"
  by (cases gs) auto

text \<open>What \<open>_offload_stream\<close> hands in: the keys of a prefix of the stream's first pages, of a stream not on the host.\<close>

definition can_place :: "string \<Rightarrow> string \<Rightarrow> group_pages list \<Rightarrow> 'k list \<Rightarrow> 'k cpu_pool \<Rightarrow> bool" where
  "can_place rid label groups keys c \<longleftrightarrow> map_of (streams_of rid c) label = None \<and> groups \<noteq> [] \<and>
     length keys \<le> length (gp_pages (hd groups)) \<and> distinct keys"

lemma pages_for_length: "length (pages_for ks s) \<le> length ks"
  by (induction ks) (auto split: option.splits)

lemma pages_for_nth: "i < length (pages_for ks s) \<Longrightarrow> map_of (by_key s) (ks ! i) = Some (pages_for ks s ! i)"
proof (induction ks arbitrary: i)
  case (Cons k ks)
  then show ?case by (cases i) (auto split: option.splits)
qed simp

lemma held_place:
  assumes "map_of (streams_of rid c) label = None"
  shows "streams_held (c\<lparr>cp_offloaded := dict_set rid (dict_set label st (streams_of rid c)) (cp_offloaded c)\<rparr>) = streams_held c + stream_pages st"
proof -
  let ?D = "dict_sum stream_pages (streams_of rid c)"
  have d: "dict_sum stream_pages (dict_set label st (streams_of rid c)) = ?D + stream_pages st"
    using dict_sum_set [of stream_pages label st "streams_of rid c"] assms by simp
  have "dict_sum (dict_sum stream_pages) (dict_set rid (dict_set label st (streams_of rid c)) (cp_offloaded c)) + ?D =
      dict_sum (dict_sum stream_pages) (cp_offloaded c) + stream_pages st + ?D"
    using dict_sum_set [of "dict_sum stream_pages" rid "dict_set label st (streams_of rid c)" "cp_offloaded c"] unfolding d
    by (auto simp: streams_of_def ac_simps split: option.splits)
  then show ?thesis by (simp add: streams_held_def)
qed

lemma host_place_ok:
  assumes ok: "cpu_ok c X" and can: "can_place rid label groups keys c"
  obtains c' where "host_place rid label groups keys pos prot c = Inr (None, c')" "cpu_ok c' X"
      "pool_size (cp_pages c') = pool_size (cp_pages c)" "\<And>p. p \<in># streams_held c + X \<Longrightarrow> key_at (cp_pages c') ! p = key_at (cp_pages c) ! p"
      "cp_offloaded c' = cp_offloaded c"
  | c' found cpu where "host_place rid label groups keys pos prot c = Inr (Some (drop (length found) (held_pages groups), cpu), c')" "cpu_ok c' X"
      "pool_size (cp_pages c') = pool_size (cp_pages c)" "\<And>p. p \<in># streams_held c + X \<Longrightarrow> key_at (cp_pages c') ! p = key_at (cp_pages c) ! p"
      "found = pages_for keys (cp_pages c)" "length found + length cpu = length (held_pages groups)"
      "map_of (streams_of rid c') label = Some \<lparr>os_groups = on_pages groups (found @ cpu), os_position = pos, os_protected = prot, os_keys = keys\<rparr>"
      "streams_held c' = streams_held c + mset (found @ cpu)" "streams_of rid c' = dict_set label
        \<lparr>os_groups = on_pages groups (found @ cpu), os_position = pos, os_protected = prot, os_keys = keys\<rparr> (streams_of rid c)"
      "distinct cpu" "\<And>p. p \<in> set cpu \<Longrightarrow> key_at (cp_pages c') ! p = None \<and> p \<notin># streams_held c + X \<and> p \<notin> set found"
proof -
  let ?gpu = "held_pages groups" and ?found = "pages_for keys (cp_pages c)"
  let ?n = "length ?gpu - length ?found"
  note C = can [unfolded can_place_def]
  obtain s where s: "retain_run keys c = Inr (?found, c\<lparr>cp_pages := s\<rparr>)" "cpu_ok (c\<lparr>cp_pages := s\<rparr>) (X + mset ?found)"
    "key_at s = key_at (cp_pages c)" "by_key s = by_key (cp_pages c)" "pool_size s = pool_size (cp_pages c)"
    by (rule retain_run_ok [OF ok, of keys]) (rule that)
  obtain cpu t where t: "host_take ?n (c\<lparr>cp_pages := s\<rparr>) = Inr (Some cpu, c\<lparr>cp_pages := t\<rparr>)"
    "cpu_ok (c\<lparr>cp_pages := t\<rparr>) (X + mset ?found + mset cpu)" "length cpu \<le> ?n"
    "\<And>p. p \<in> set cpu \<Longrightarrow> key_at t ! p = None \<and> p \<notin># streams_held c + (X + mset ?found)"
    "\<And>p. p \<in># streams_held c + (X + mset ?found) \<Longrightarrow> key_at t ! p = key_at s ! p" "pool_size t = pool_size s" "distinct cpu"
    by (rule host_take_ok [OF s(2), of ?n]) (auto intro: that)
  show ?thesis
  proof (cases "length cpu < ?n")
    case True
    have "cpu_ok (c\<lparr>cp_pages := t\<rparr>) (X + mset (cpu @ ?found))" using t(2) by (simp add: ac_simps)
    then obtain u where u: "on_arena (release (cpu @ ?found)) (c\<lparr>cp_pages := t\<rparr>) = Inr (c\<lparr>cp_pages := u\<rparr>)" "cpu_ok (c\<lparr>cp_pages := u\<rparr>) X"
      "key_at u = key_at t" "pool_size u = pool_size t"
      by (rule on_arena_release) (auto intro: that)
    have "host_place rid label groups keys pos prot c = Inr (None, c\<lparr>cp_pages := u\<rparr>)"
      unfolding host_place_def s(1) rbind_simps prod.case Let_def t(1) option.case if_P [OF True] u(1) by (rule refl)
    then show ?thesis by (rule that(1)) (use u(2-4) t(5,6) s(3,5) in auto)
  next
    case False
    have found: "length ?found \<le> length ?gpu"
      using pages_for_length [of keys "cp_pages c"] C by (cases groups) (auto simp: held_pages_def)
    with False t(3) have len: "length ?found + length cpu = length ?gpu" by simp
    define st where "st = \<lparr>os_groups = on_pages groups (?found @ cpu), os_position = pos, os_protected = prot, os_keys = keys\<rparr>"
    let ?c = "(c\<lparr>cp_pages := t\<rparr>)\<lparr>cp_offloaded := dict_set rid (dict_set label st (streams_of rid c)) (cp_offloaded c)\<rparr>"
    have "held_pages (on_pages groups (?found @ cpu)) = ?found @ cpu" using held_on_pages [of "?found @ cpu" groups] len by simp
    then have pages: "stream_pages st = mset (?found @ cpu)" by (simp add: stream_pages_def st_def)
    have held: "streams_held ?c = streams_held c + mset (?found @ cpu)" using held_place [of rid "c\<lparr>cp_pages := t\<rparr>" label st] C pages by simp
    have "owned_by t (streams_held ?c + X)" using cpu_okD(1) [OF t(2)] unfolding held by (simp add: ac_simps)
    moreover have "dicts_ok ?c"
      using dicts_ok_dict_set [of "c\<lparr>cp_pages := t\<rparr>" "dict_set label st (streams_of rid c)" rid] cpu_okD(2) [OF ok]
        distinct_dict_set [OF distinct_streams_of [OF cpu_okD(2) [OF ok]]] by simp
    moreover have "stream_ok t x" if "x \<in> offloaded_streams ?c" for x
    proof (cases "x = st")
      case True
      show ?thesis
        unfolding stream_ok_def True
      proof (intro conjI allI impI)
        have hd: "gp_pages (hd (os_groups st)) = take (length (gp_pages (hd groups))) (?found @ cpu) \<and> os_groups st \<noteq> []"
          using on_pages_hd [of groups "?found @ cpu"] C by (simp add: st_def)
        then show "os_groups st \<noteq> []" by blast
        have "length (gp_pages (hd groups)) \<le> length ?gpu" using C by (cases groups) (simp_all add: held_pages_def)
        with hd C len show l: "length (os_keys st) \<le> length (gp_pages (hd (os_groups st)))"
          using pages_for_length [of keys "cp_pages c"] by (simp add: st_def)
        show "distinct (os_keys st)" using C by (simp add: st_def)
        fix i assume i: "i < length (os_keys st)"
        then have p: "gp_pages (hd (os_groups st)) ! i = (?found @ cpu) ! i" "i < length (?found @ cpu)"
          using hd l len C by (auto simp del: take_append simp: st_def)
        show "key_at t ! (gp_pages (hd (os_groups st)) ! i) = None \<or> key_at t ! (gp_pages (hd (os_groups st)) ! i) = Some (os_keys st ! i)"
        proof (cases "i < length ?found")
          case True
          then have "map_of (by_key (cp_pages c)) (keys ! i) = Some (?found ! i)" by (rule pages_for_nth)
          then have "key_at (cp_pages c) ! (?found ! i) = Some (keys ! i)"
            using names_okD(2) [OF pool_invD(9) [OF owned_byD(1) [OF cpu_okD(1) [OF ok]]]] by blast
          moreover have "?found ! i \<in># streams_held c + (X + mset ?found)" using True by simp
          ultimately show ?thesis using True t(5) s(3) p(1) by (simp add: nth_append st_def)
        next
          case False
          then have "(?found @ cpu) ! i \<in> set cpu" using p(2) by (simp add: nth_append)
          then show ?thesis using t(4) p(1) by simp
        qed
      qed
    next
      case False
      then have x: "x \<in> offloaded_streams c"
        using that map_of_SomeD [of "cp_offloaded c" rid]
          set_dict_set [of rid "dict_set label st (streams_of rid c)" "cp_offloaded c"] set_dict_set [of label st "streams_of rid c"]
        by (cases "map_of (cp_offloaded c) rid") (fastforce simp: offloaded_streams_def streams_of_def)+
      have "key_at t ! p = key_at (cp_pages c) ! p" if "p \<in># stream_pages x" for p
        using t(5) s(3) mset_subset_eqD [OF stream_in_held [OF x] that] by simp
      then show ?thesis by (rule stream_ok_same [OF cpu_okD(3) [OF ok x]])
    qed
    ultimately have ok': "cpu_ok ?c X" by (simp add: cpu_ok_def)
    have place: "host_place rid label groups keys pos prot c = Inr (Some (drop (length ?found) ?gpu, cpu), ?c)"
      unfolding host_place_def s(1) rbind_simps prod.case Let_def t(1) option.case if_not_P [OF False] st_def by simp
    have sel: "cp_pages ?c = t" by simp
    have size: "pool_size (cp_pages ?c) = pool_size (cp_pages c)" unfolding sel t(6) s(5) ..
    have keys: "key_at (cp_pages ?c) ! p = key_at (cp_pages c) ! p" if "p \<in># streams_held c + X" for p
      unfolding sel using t(5) [of p] s(3) that by auto
    have stored: "map_of (streams_of rid ?c) label =
        Some \<lparr>os_groups = on_pages groups (?found @ cpu), os_position = pos, os_protected = prot, os_keys = keys\<rparr>"
      by (simp add: streams_of_def st_def)
    have streams: "streams_of rid ?c = dict_set label
        \<lparr>os_groups = on_pages groups (?found @ cpu), os_position = pos, os_protected = prot, os_keys = keys\<rparr> (streams_of rid c)"
      by (simp add: streams_of_def st_def)
    have fresh: "key_at (cp_pages ?c) ! p = None \<and> p \<notin># streams_held c + X \<and> p \<notin> set ?found" if "p \<in> set cpu" for p
      unfolding sel using t(4) [OF that] by auto
    show ?thesis by (rule that(2) [OF place ok' size keys refl len stored held streams t(7) fresh])
  qed
qed

section \<open>Filing\<close>

lemma length_filter_count: "length (filter ((=) x) xs) = count (mset xs) x"
  by (induction xs) auto

lemma mset_take_subset: "mset (take n xs) \<subseteq># mset xs"
  by (metis append_take_drop_id mset_append mset_subset_eq_add_left)

lemma first_pages_subset: "os_groups st \<noteq> [] \<Longrightarrow> mset (gp_pages (hd (os_groups st))) \<subseteq># stream_pages st"
  by (cases "os_groups st") (auto simp: stream_pages_def held_pages_def)

lemma count_two:
  assumes "i < length xs" "j < length xs" "i \<noteq> j" "xs ! i = xs ! j"
  shows "2 \<le> count (mset xs) (xs ! i)"
proof -
  have "card {i, j} \<le> card {n. n < length xs \<and> xs ! i = xs ! n}" by (rule card_mono) (use assms in auto)
  also have "\<dots> = length (filter ((=) (xs ! i)) xs)" by (simp add: length_filter_conv_card)
  also have "\<dots> = count (mset xs) (xs ! i)" by (rule length_filter_count)
  finally show ?thesis using assms(3) by simp
qed

lemma unkeyed_once:
  assumes "cpu_ok c X" "p \<in># streams_held c + X" "key_at (cp_pages c) ! p = None"
  shows "count (streams_held c) p + count X p = 1"
proof -
  note O = owned_byD [OF cpu_okD(1) [OF assms(1)]]
  have "count (streams_held c + X) p \<le> 1" using O(4) [OF O(2) [OF assms(2)] assms(3)] .
  moreover have "0 < count (streams_held c + X) p" using assms(2) by (simp only: count_greater_zero_iff)
  ultimately show ?thesis unfolding count_union by linarith
qed

lemma stream_run:
  assumes ok: "cpu_ok c X" and st: "st \<in> offloaded_streams c"
  shows "can_file_run (os_keys st) (take (length (os_keys st)) (gp_pages (hd (os_groups st)))) (cp_pages c)"
proof -
  note S = stream_okD [OF cpu_okD(3) [OF ok st]] and O = owned_byD [OF cpu_okD(1) [OF ok]]
  let ?ps = "take (length (os_keys st)) (gp_pages (hd (os_groups st)))"
  have len: "length ?ps = length (os_keys st)" using S(2) by simp
  have nth: "?ps ! i = gp_pages (hd (os_groups st)) ! i" if "i < length (os_keys st)" for i using that by simp
  have sub: "mset ?ps \<subseteq># stream_pages st"
    by (rule subset_mset.order_trans [OF mset_take_subset first_pages_subset [OF S(1)]])
  have in_held: "p \<in># streams_held c" if "p \<in> set ?ps" for p
    using that mset_subset_eqD [OF subset_mset.order_trans [OF sub stream_in_held [OF st]], of p] by (simp only: set_mset_mset)
  have twice: False if "i < length ?ps" "j < length ?ps" "i \<noteq> j" "?ps ! i = ?ps ! j" "key_at (cp_pages c) ! (?ps ! i) = None" for i j
  proof -
    have "2 \<le> count (streams_held c) (?ps ! i)"
      using count_two [OF that(1-4)] mset_subset_eq_count [OF subset_mset.order_trans [OF sub stream_in_held [OF st]], of "?ps ! i"] by linarith
    moreover have "?ps ! i \<in># streams_held c + X" using in_held [OF nth_mem [OF that(1)]] by simp
    ultimately show False using unkeyed_once [OF ok _ that(5)] by fastforce
  qed
  have "distinct ?ps"
    unfolding distinct_conv_nth
  proof (intro allI impI notI)
    fix i j assume ij: "i < length ?ps" "j < length ?ps" "i \<noteq> j" "?ps ! i = ?ps ! j"
    show False
    proof (cases "key_at (cp_pages c) ! (?ps ! i)")
      case None
      with twice [OF ij] show False .
    next
      case (Some k)
      have "i < length (os_keys st)" "j < length (os_keys st)" using ij(1,2) len by simp_all
      then have "k = os_keys st ! i" "k = os_keys st ! j" using S(4) [of i] S(4) [of j] Some ij(4) nth by auto
      with S(3) ij(3) \<open>i < length (os_keys st)\<close> \<open>j < length (os_keys st)\<close> show False by (simp add: nth_eq_iff_index_eq)
    qed
  qed
  moreover have "can_file p None (cp_pages c)" if kp: "(k, p) \<in> set (zip (os_keys st) ?ps)" "map_of (by_key (cp_pages c)) k = None" for k p
  proof -
    obtain i where i: "i < length (os_keys st)" "k = os_keys st ! i" "p = ?ps ! i" using kp(1) len by (auto simp: set_zip)
    have p: "p \<in># streams_held c" using in_held i len by (metis nth_mem)
    then have pl: "p < pool_size (cp_pages c)" using O(2) by simp
    have "key_at (cp_pages c) ! p \<noteq> Some k" using names_okD(2) [OF pool_invD(9) [OF O(1)], of k p] kp(2) pl by simp
    then have un: "key_at (cp_pages c) ! p = None" using S(4) [OF i(1)] i nth by auto
    have "0 < num_owners (cp_pages c) ! p" using O(3) [OF pl] p un by simp
    with un pl show ?thesis by (simp add: can_file_def)
  qed
  ultimately show ?thesis using len by (auto simp: can_file_run_def)
qed

lemma stream_page_index:
  assumes "mset ps \<subseteq># H" "count H p \<le> 1" "i < length ps" "j < length ps" "ps ! i = p" "ps ! j = p"
  shows "i = j"
  using count_two [OF assms(3,4)] mset_subset_eq_count [OF assms(1), of p] assms(2,5,6) by fastforce

lemma insert_keys_ok:
  assumes ok: "cpu_ok c X" and st: "map_of (streams_of rid c) label = Some st"
  obtains s where "insert_keys rid label c = Inr (c\<lparr>cp_pages := s\<rparr>)" "cpu_ok (c\<lparr>cp_pages := s\<rparr>) X"
    "pool_size s = pool_size (cp_pages c)" "\<And>p. p \<in># X \<Longrightarrow> key_at s ! p = key_at (cp_pages c) ! p"
proof -
  note D = streams_of_Some [OF cpu_okD(2) [OF ok] st]
  note S = stream_okD [OF cpu_okD(3) [OF ok D(3)]] and O = owned_byD [OF cpu_okD(1) [OF ok]]
  let ?ps = "take (length (os_keys st)) (gp_pages (hd (os_groups st)))"
  obtain n s where s: "insert_run (os_keys st) ?ps None (cp_pages c) = Inr (n, s)" "owned_by s (streams_held c + X)" "pool_size s = pool_size (cp_pages c)"
    "\<And>p. p < pool_size (cp_pages c) \<Longrightarrow> key_at s ! p = key_at (cp_pages c) ! p \<or>
      key_at (cp_pages c) ! p = None \<and> (\<exists>k. (k, p) \<in> set (zip (os_keys st) ?ps) \<and> key_at s ! p = Some k)"
    by (rule owned_insert_run [OF cpu_okD(1) [OF ok] stream_run [OF ok D(3)]]) (rule that)
  text \<open>A page that got a key is the stream's alone, at one place of it.\<close>
  have new: "key_at (cp_pages c) ! p = None \<and> count X p = 0 \<and> p \<in># stream_pages st \<and>
      (\<exists>i < length (os_keys st). gp_pages (hd (os_groups st)) ! i = p \<and> key_at s ! p = Some (os_keys st ! i))"
    if p: "p < pool_size (cp_pages c)" "key_at s ! p \<noteq> key_at (cp_pages c) ! p" for p
  proof -
    obtain k where k: "key_at (cp_pages c) ! p = None" "(k, p) \<in> set (zip (os_keys st) ?ps)" "key_at s ! p = Some k"
      using s(4) [OF p(1)] p(2) by auto
    then obtain i where i: "i < length (os_keys st)" "gp_pages (hd (os_groups st)) ! i = p" "k = os_keys st ! i" by (auto simp: set_zip)
    have ps: "p \<in># stream_pages st" using first_pages_held [OF S(1), of i] i S(2) by simp
    then have ph: "p \<in># streams_held c" by (rule mset_subset_eqD [OF stream_in_held [OF D(3)]])
    then have "0 < count (streams_held c) p" by (simp only: count_greater_zero_iff)
    moreover have "count (streams_held c) p + count X p = 1" by (rule unkeyed_once [OF ok _ k(1)]) (use ph in simp)
    ultimately have "count X p = 0" by linarith
    with k i ps show ?thesis by blast
  qed
  have streams: "stream_ok s x" if x: "x \<in> offloaded_streams c" for x
    unfolding stream_ok_def
  proof (intro conjI allI impI stream_okD(1-3) [OF cpu_okD(3) [OF ok x]])
    note T = stream_okD [OF cpu_okD(3) [OF ok x]]
    fix i assume i: "i < length (os_keys x)"
    let ?p = "gp_pages (hd (os_groups x)) ! i"
    have px: "?p \<in># stream_pages x" using first_pages_held [OF T(1), of i] i T(2) by simp
    then have ph: "?p \<in># streams_held c" by (rule mset_subset_eqD [OF stream_in_held [OF x]])
    then have pl: "?p < pool_size (cp_pages c)" using O(2) by simp
    show "key_at s ! ?p = None \<or> key_at s ! ?p = Some (os_keys x ! i)"
    proof (cases "key_at s ! ?p = key_at (cp_pages c) ! ?p")
      case True
      then show ?thesis using T(4) [OF i] by simp
    next
      case False
      from new [OF pl False] obtain j where j: "key_at (cp_pages c) ! ?p = None" "?p \<in># stream_pages st" "j < length (os_keys st)"
        "gp_pages (hd (os_groups st)) ! j = ?p" "key_at s ! ?p = Some (os_keys st ! j)" by blast
      have one: "count (streams_held c) ?p \<le> 1" using unkeyed_once [OF ok _ j(1)] ph by fastforce
      have "x = st"
      proof (rule ccontr)
        assume "x \<noteq> st"
        then have "stream_pages x + stream_pages st \<subseteq># streams_held c"
          using sum_list_two [of x "flat c" st stream_pages] x D(3) by (simp add: streams_held_flat offloaded_flat)
        from mset_subset_eq_count [OF this, of ?p] one px j(2) show False
          by (simp flip: count_greater_zero_iff)
      qed
      moreover have "i = j"
        by (rule stream_page_index [OF subset_mset.order_trans [OF first_pages_subset [OF S(1)] stream_in_held [OF D(3)]] one])
          (use i j S(2) \<open>x = st\<close> in auto)
      ultimately show ?thesis using j(5) by simp
    qed
  qed
  have "insert_keys rid label c = Inr (c\<lparr>cp_pages := s\<rparr>)"
    using D(1) st S(1) s(1) by (simp add: insert_keys_def on_arena_def os_first_pages_def get_at_def hd_conv_nth)
  moreover have "cpu_ok (c\<lparr>cp_pages := s\<rparr>) X" using s(2) cpu_okD(2) [OF ok] streams by (simp add: cpu_ok_def)
  moreover have "key_at s ! p = key_at (cp_pages c) ! p" if "p \<in># X" for p
    using new [OF O(2)] that by (fastforce simp flip: count_greater_zero_iff)
  ultimately show ?thesis using that s(3) by blast
qed

lemma page_for_indexed:
  assumes "owned_by s H" "page_for k s = Some q"
  shows "q < pool_size s \<and> key_at s ! q \<noteq> None"
  using names_okD(2) [OF pool_invD(9) [OF owned_byD(1) [OF assms(1)]], of k q] assms(2) by (simp add: page_for_def)

lemma page_for_eq:
  assumes "owned_by s H"
  shows "page_for k s = Some q \<longleftrightarrow> q < pool_size s \<and> key_at s ! q = Some k"
  using names_okD(2) [OF pool_invD(9) [OF owned_byD(1) [OF assms]], of k q] by (simp add: page_for_def)

text \<open>What one round changes of the names: a key not yet on the host, and not cancelled, names the page now.\<close>

lemma insert_names:
  assumes "owned_by s H" "owned_by t H" "pool_size t = pool_size s" "p < pool_size s" "key_at s ! p = None"
    and "key_at t = (if new then (key_at s)[p := Some k] else key_at s)" "new \<longleftrightarrow> map_of (by_key s) k = None"
  shows "page_for k t = (if page_for k s = None then Some p else page_for k s)" "k' \<noteq> k \<Longrightarrow> page_for k' t = page_for k' s"
proof -
  have len: "length (key_at s) = pool_size s" using pool_invD(3) [OF owned_byD(1) [OF assms(1)]] by simp
  have eq: "page_for k' t = Some q \<longleftrightarrow> (if k' = k \<and> new then q = p else page_for k' s = Some q)" for k' q
  proof (cases new)
    case True
    then have "page_for k s = None" using assms(7) by (simp add: page_for_def)
    then have "\<not> (q < pool_size s \<and> key_at s ! q = Some k)" using page_for_eq [OF assms(1), of k q] by simp
    then show ?thesis using True assms(3-6) len unfolding page_for_eq [OF assms(1)] page_for_eq [OF assms(2)]
      by (auto simp: nth_list_update split: if_splits)
  next
    case False
    then show ?thesis using assms(3,6) unfolding page_for_eq [OF assms(1)] page_for_eq [OF assms(2)] by simp
  qed
  have new: "new \<longleftrightarrow> page_for k s = None" using assms(7) by (simp add: page_for_def)
  show "page_for k t = (if page_for k s = None then Some p else page_for k s)"
    using eq [of k] new by (cases "page_for k s"; cases "page_for k t") auto
  show "k' \<noteq> k \<Longrightarrow> page_for k' t = page_for k' s" using eq [of k'] by (cases "page_for k' s"; cases "page_for k' t") auto
qed

definition named_one :: "'k set \<Rightarrow> 'k \<Rightarrow> nat \<Rightarrow> 'k option \<Rightarrow> 'k pool \<Rightarrow> 'k pool \<Rightarrow> bool" where
  "named_one cancelled k p par s t \<longleftrightarrow> (\<forall>k'. page_for k' t = (if k' = k \<and> k \<notin> cancelled \<and> page_for k s = None then Some p else page_for k' s)) \<and>
     parent t = (if k \<notin> cancelled \<and> page_for k s = None
       then (parent s)[p := (case par of None \<Rightarrow> None | Some q \<Rightarrow> page_for q s)] else parent s)"

lemma file_one_ok:
  assumes ok: "cpu_ok c X" and p: "p \<in># X" "key_at (cp_pages c) ! p = None"
  obtains m s where "file_one cancelled (k, p, par) (n, c) = Inr (m, c\<lparr>cp_pages := s\<rparr>)" "cpu_ok (c\<lparr>cp_pages := s\<rparr>) X"
    "pool_size s = pool_size (cp_pages c)" "\<And>q. q \<noteq> p \<Longrightarrow> key_at s ! q = key_at (cp_pages c) ! q"
    "named_one cancelled k p par (cp_pages c) s"
proof (cases "k \<in> cancelled")
  case True
  then show ?thesis using ok that [of n "cp_pages c"] by (simp add: file_one_def named_one_def)
next
  case False
  note O = cpu_okD(1) [OF ok]
  have par: "\<And>q. (case par of None \<Rightarrow> None | Some k \<Rightarrow> page_for k (cp_pages c)) = Some q \<Longrightarrow>
      q < pool_size (cp_pages c) \<and> key_at (cp_pages c) ! q \<noteq> None"
    using page_for_indexed [OF O] by (cases par) auto
  have pH: "p \<in># streams_held c + X" using p(1) by simp
  obtain new s where s: "insert_page k p (case par of None \<Rightarrow> None | Some k \<Rightarrow> page_for k (cp_pages c)) (cp_pages c) = Inr (new, s)"
    "owned_by s (streams_held c + X)" "pool_size s = pool_size (cp_pages c)"
    "key_at s = (if new then (key_at (cp_pages c))[p := Some k] else key_at (cp_pages c))" "new \<longleftrightarrow> map_of (by_key (cp_pages c)) k = None"
    "parent s = (if new then (parent (cp_pages c))[p := (case par of None \<Rightarrow> None | Some k \<Rightarrow> page_for k (cp_pages c))] else parent (cp_pages c))"
    by (rule owned_insert [OF O pH p(2) par]) (assumption, rule that)
  have keys: "key_at s ! q = key_at (cp_pages c) ! q" if "q \<noteq> p" for q using s(4) that by simp
  have "0 < count X p" using p(1) by (simp only: count_greater_zero_iff)
  moreover have "count (streams_held c) p + count X p = 1" by (rule unkeyed_once [OF ok pH p(2)])
  ultimately have "count (streams_held c) p = 0" by linarith
  then have "p \<notin># streams_held c" by (simp add: count_eq_zero_iff)
  then have "cpu_ok (c\<lparr>cp_pages := s\<rparr>) X" by (intro cpu_ok_pages [OF ok s(2)] keys) auto
  moreover have "file_one cancelled (k, p, par) (n, c) = Inr (if new then Suc n else n, c\<lparr>cp_pages := s\<rparr>)"
    unfolding file_one_def prod.case if_not_P [OF False] s(1) rbind_simps by simp
  moreover have "named_one cancelled k p par (cp_pages c) s"
  proof -
    note N = insert_names [OF O s(2,3) owned_byD(2) [OF O pH] p(2) s(4,5)]
    have "new \<longleftrightarrow> page_for k (cp_pages c) = None" using s(5) by (simp add: page_for_def)
    with False s(6) have "parent s = (if k \<notin> cancelled \<and> page_for k (cp_pages c) = None
        then (parent (cp_pages c))[p := (case par of None \<Rightarrow> None | Some k \<Rightarrow> page_for k (cp_pages c))] else parent (cp_pages c))" by simp
    moreover have "page_for k' s = (if k' = k \<and> k \<notin> cancelled \<and> page_for k (cp_pages c) = None then Some p else page_for k' (cp_pages c))" for k'
      using N False by (cases "k' = k") auto
    ultimately show ?thesis unfolding named_one_def by blast
  qed
  ultimately show ?thesis using that s(3) keys by blast
qed

text \<open>The names a write gives, for the entries of a run from first to last.\<close>

definition named_all :: "'k set \<Rightarrow> ('k \<times> nat \<times> 'k option) list \<Rightarrow> 'k pool \<Rightarrow> 'k pool \<Rightarrow> bool" where
  "named_all cancelled ts s t \<longleftrightarrow>
     (\<forall>k. k \<notin> fst ` set ts - cancelled \<or> page_for k s \<noteq> None \<longrightarrow> page_for k t = page_for k s) \<and>
     (\<forall>j < length ts. \<forall>k p par. ts ! j = (k, p, par) \<longrightarrow> k \<notin> cancelled \<longrightarrow> page_for k s = None \<longrightarrow> page_for k t = Some p \<and>
        ((case par of None \<Rightarrow> True | Some q \<Rightarrow> q \<notin> fst ` set (drop j ts)) \<longrightarrow>
          parent t ! p = (case par of None \<Rightarrow> None | Some q \<Rightarrow> page_for q t)))"

lemma named_all_Cons:
  assumes one: "named_one cancelled k p par s u" and all: "named_all cancelled ts u t"
    and fresh: "k \<notin> fst ` set ts" and here: "p < length (parent s)" and stay: "parent t ! p = parent u ! p"
  shows "named_all cancelled ((k, p, par) # ts) s t"
proof -
  have rest: "page_for k' t = page_for k' u" if "k' \<notin> fst ` set ts - cancelled \<or> page_for k' u \<noteq> None" for k'
    using all that by (simp add: named_all_def)
  have u: "page_for k' u = (if k' = k \<and> k \<notin> cancelled \<and> page_for k s = None then Some p else page_for k' s)" for k'
    using one by (simp add: named_one_def)
  show ?thesis
    unfolding named_all_def
  proof (intro conjI allI impI)
    fix k' assume "k' \<notin> fst ` set ((k, p, par) # ts) - cancelled \<or> page_for k' s \<noteq> None"
    then show "page_for k' t = page_for k' s" using rest [of k'] u [of k'] by (auto split: if_splits)
  next
    fix j k' p' par'
    assume j: "j < length ((k, p, par) # ts)" "((k, p, par) # ts) ! j = (k', p', par')" "k' \<notin> cancelled" "page_for k' s = None"
    have "page_for k' t = Some p' \<and>
        ((case par' of None \<Rightarrow> True | Some q \<Rightarrow> q \<notin> fst ` set (drop j ((k, p, par) # ts))) \<longrightarrow>
          parent t ! p' = (case par' of None \<Rightarrow> None | Some q \<Rightarrow> page_for q t))"
    proof (cases j)
      case 0
      then have e: "k' = k" "p' = p" "par' = par" using j(2) by simp_all
      have "parent u ! p = (case par of None \<Rightarrow> None | Some q \<Rightarrow> page_for q s)"
        using one j(3,4) here unfolding e by (simp add: named_one_def)
      moreover have "page_for q t = page_for q s" if "q \<notin> fst ` set ((k, p, par) # ts)" for q using that rest [of q] u [of q] by simp
      ultimately show ?thesis using rest [of k] u [of k] fresh j(3,4) stay unfolding e 0 by (auto split: option.splits)
    next
      case (Suc i)
      then have i: "i < length ts" "ts ! i = (k', p', par')" using j(1,2) by simp_all
      then have "k' \<in> fst ` set ts" by (metis fst_conv image_eqI nth_mem)
      then have "page_for k' u = None" using fresh u [of k'] j(4) by auto
      with all i j(3) have "page_for k' t = Some p' \<and> ((case par' of None \<Rightarrow> True | Some q \<Rightarrow> q \<notin> fst ` set (drop i ts)) \<longrightarrow>
          parent t ! p' = (case par' of None \<Rightarrow> None | Some q \<Rightarrow> page_for q t))" unfolding named_all_def by blast
      then show ?thesis unfolding Suc drop_Suc_Cons .
    qed
    then show "page_for k' t = Some p'"
      "(case par' of None \<Rightarrow> True | Some q \<Rightarrow> q \<notin> fst ` set (drop j ((k, p, par) # ts))) \<Longrightarrow>
          parent t ! p' = (case par' of None \<Rightarrow> None | Some q \<Rightarrow> page_for q t)" by blast+
  qed
qed

lemma file_all_ok:
  assumes "cpu_ok c X" "mset (map (fst \<circ> snd) ts) \<subseteq># X" "\<And>p. p \<in> set (map (fst \<circ> snd) ts) \<Longrightarrow> key_at (cp_pages c) ! p = None"
    and "distinct (map fst ts)"
  shows "\<exists>m s. rfold (file_one cancelled) ts (n, c) = Inr (m, c\<lparr>cp_pages := s\<rparr>) \<and> cpu_ok (c\<lparr>cp_pages := s\<rparr>) X \<and>
    pool_size s = pool_size (cp_pages c) \<and> (\<forall>q. q \<notin> set (map (fst \<circ> snd) ts) \<longrightarrow> key_at s ! q = key_at (cp_pages c) ! q \<and> parent s ! q = parent (cp_pages c) ! q) \<and>
    named_all cancelled ts (cp_pages c) s"
  using assms
proof (induction ts arbitrary: c n)
  case (Cons t ts)
  obtain k p par where t: "t = (k, p, par)" by (cases t) auto
  have pX: "p \<in># X" using Cons.prems(2) by (auto simp: t dest: mset_subset_eq_insertD)
  have un: "key_at (cp_pages c) ! p = None" using Cons.prems(3) by (simp add: t)
  have fresh: "p \<notin> set (map (fst \<circ> snd) ts)"
  proof
    assume "p \<in> set (map (fst \<circ> snd) ts)"
    then have "0 < count (mset (map (fst \<circ> snd) ts)) p" by (simp only: count_greater_zero_iff set_mset_mset)
    moreover have "Suc (count (mset (map (fst \<circ> snd) ts)) p) \<le> count X p"
      using mset_subset_eq_count [OF Cons.prems(2), of p] by (simp add: t comp_def)
    ultimately have "1 < count X p" by linarith
    moreover have "count (streams_held c) p + count X p = 1" by (rule unkeyed_once [OF Cons.prems(1) _ un]) (use pX in simp)
    ultimately show False by linarith
  qed
  obtain m s where s: "file_one cancelled (k, p, par) (n, c) = Inr (m, c\<lparr>cp_pages := s\<rparr>)" "cpu_ok (c\<lparr>cp_pages := s\<rparr>) X"
    "pool_size s = pool_size (cp_pages c)" "\<And>q. q \<noteq> p \<Longrightarrow> key_at s ! q = key_at (cp_pages c) ! q"
    "named_one cancelled k p par (cp_pages c) s"
    by (rule file_one_ok [OF Cons.prems(1) pX un]) (rule that)
  have sub: "mset (map (fst \<circ> snd) ts) \<subseteq># X" 
    using Cons.prems(2) by (rule subset_mset.order_trans [rotated]) (simp add: comp_def)
  have rest: "key_at (cp_pages (c\<lparr>cp_pages := s\<rparr>)) ! q = None" if "q \<in> set (map (fst \<circ> snd) ts)" for q
    using that fresh Cons.prems(3) [of q] s(4) [of q] by (cases "q = p") auto
  have ks: "k \<notin> fst ` set ts" "distinct (map fst ts)" using Cons.prems(4) by (simp_all add: t)
  obtain m' s' where r: "rfold (file_one cancelled) ts (m, c\<lparr>cp_pages := s\<rparr>) = Inr (m', c\<lparr>cp_pages := s'\<rparr>)" "cpu_ok (c\<lparr>cp_pages := s'\<rparr>) X"
    "pool_size s' = pool_size s" "\<forall>q. q \<notin> set (map (fst \<circ> snd) ts) \<longrightarrow> key_at s' ! q = key_at s ! q \<and> parent s' ! q = parent s ! q"
    "named_all cancelled ts s s'"
    using Cons.IH [OF s(2) sub rest ks(2), of m] by auto
  note O = cpu_okD(1) [OF Cons.prems(1)]
  have "p < pool_size (cp_pages c)" using owned_byD(2) [OF O] pX by simp
  then have "p < length (parent (cp_pages c))" using pool_invD(3) [OF owned_byD(1) [OF O]] by simp
  then have "named_all cancelled (t # ts) (cp_pages c) s'" unfolding t
    by (rule named_all_Cons [OF s(5) r(5) ks(1)]) (use r(4) fresh in blast)
  moreover have "parent s ! q = parent (cp_pages c) ! q" if "q \<noteq> p" for q using s(5) that by (simp add: named_one_def)
  ultimately show ?case using r s by (intro exI [of _ m'] exI [of _ s']) (simp add: t)
next
  case Nil
  then show ?case by (intro exI [of _ n] exI [of _ "cp_pages c"]) (simp add: named_all_def)
qed

lemma cpu_ok_counters [simp]:
  "cpu_ok (c\<lparr>cp_dropped := n\<rparr>) X = cpu_ok c X" "cpu_ok (c\<lparr>cp_written := n\<rparr>) X = cpu_ok c X" "cpu_ok (c\<lparr>cp_cancelled := n\<rparr>) X = cpu_ok c X"
  by (simp_all add: cpu_ok_def streams_held_def dicts_ok_def offloaded_streams_def)

lemma file_writes_ok:
  assumes ok: "cpu_ok c (X + mset pages)" and len: "length keys = length pages" "length parents = length pages"
    and un: "\<And>p. p \<in> set pages \<Longrightarrow> key_at (cp_pages c) ! p = None" and d: "distinct keys"
  obtains c' where "file_writes keys pages parents cancelled c = Inr c'" "cpu_ok c' X" "pool_size (cp_pages c') = pool_size (cp_pages c)"
    "\<And>p. p \<notin> set pages \<Longrightarrow> key_at (cp_pages c') ! p = key_at (cp_pages c) ! p" "streams_held c' = streams_held c"
    "named_all cancelled (zip keys (zip pages parents)) (cp_pages c) (cp_pages c')"
proof -
  let ?ts = "zip keys (zip pages parents)"
  have ps: "map (fst \<circ> snd) ?ts = pages"
  proof -
    have "map snd ?ts = zip pages parents" using len by simp
    then show ?thesis using len by (metis length_map list.map_comp map_fst_zip)
  qed
  have ks: "distinct (map fst ?ts)" using d len by simp
  obtain m s where s: "rfold (file_one cancelled) ?ts (0, c) = Inr (m, c\<lparr>cp_pages := s\<rparr>)" "cpu_ok (c\<lparr>cp_pages := s\<rparr>) (X + mset pages)"
    "pool_size s = pool_size (cp_pages c)" "\<forall>q. q \<notin> set pages \<longrightarrow> key_at s ! q = key_at (cp_pages c) ! q \<and> parent s ! q = parent (cp_pages c) ! q"
    "named_all cancelled ?ts (cp_pages c) s"
    using file_all_ok [OF ok, of ?ts cancelled 0] un ks unfolding ps by auto
  obtain t where t: "on_arena (release pages) (c\<lparr>cp_pages := s\<rparr>) = Inr (c\<lparr>cp_pages := t\<rparr>)" "cpu_ok (c\<lparr>cp_pages := t\<rparr>) X"
    "key_at t = key_at s" "pool_size t = pool_size s" "by_key t = by_key s" "parent t = parent s"
    by (rule on_arena_release [OF s(2)]) (auto intro: that)
  have pf: "page_for k t = page_for k s" for k by (simp add: page_for_def t(5))
  have names: "named_all cancelled ?ts (cp_pages c) t" using s(5) t(6) unfolding named_all_def pf by simp
  let ?c = "c\<lparr>cp_pages := t, cp_written := cp_written c + m, cp_cancelled := cp_cancelled c + card cancelled\<rparr>"
  have "file_writes keys pages parents cancelled c = Inr ?c"
    unfolding file_writes_def s(1) rbind_simps prod.case using len t(1) by simp
  moreover have "cpu_ok ?c X" using t(2) by simp
  ultimately show ?thesis by (rule that) (use s(3,4) t(3,4) names in \<open>simp_all add: streams_held_def\<close>)
qed

end
