(* ===== verification/Host_Runs.thy ===== *)
theory Host_Runs imports Host_Ops begin

text \<open>
  The host pool together with the writes to it, over a device pool that may change in any way that keeps its own
  invariant and every queued key indexed. The walk up the device's index ends because its parent
  links form a forest, and what a step takes puts every page after its missing ancestors.
\<close>

section \<open>The walk up\<close>

text \<open>Where the walk may stop above a key.\<close>

definition reached :: "'k host_writes \<Rightarrow> 'k set \<Rightarrow> 'k option \<Rightarrow> bool" where
  "reached h took par \<longleftrightarrow> (case par of None \<Rightarrow> True | Some k \<Rightarrow> k \<in> took \<or> page_for k (cp_pages (hs_pool h)) \<noteq> None \<or>
     (\<exists>w. write_of k h = Some w \<and> k \<notin> hw_cancelled w))"

definition anchor_for :: "'k host_writes \<Rightarrow> 'k set \<Rightarrow> 'k option \<Rightarrow> nat option" where
  "anchor_for h took par = (case par of None \<Rightarrow> None | Some k \<Rightarrow> if k \<in> took then None else page_for k (cp_pages (hs_pool h)))"



definition walk_ok :: "'k host_writes \<Rightarrow> 'k set \<Rightarrow> 'k option \<Rightarrow> 'k list \<Rightarrow> bool" where
  "walk_ok h took par ks \<longleftrightarrow> (\<forall>i < length ks. \<exists>p. page_for (ks ! i) (hs_index h) = Some p \<and>
     parent_key p (hs_index h) = Inr (if i = 0 then par else Some (ks ! (i - 1))) \<and> \<not> reached h took (Some (ks ! i))) \<and>
     reached h took par"

lemma parent_key_indexed:
  assumes "pool_inv s" "page_for k s = Some p"
  shows "\<exists>par. parent_key p s = Inr par \<and> (par = None \<and> parent s ! p = None \<or>
    (\<exists>q k'. parent s ! p = Some q \<and> par = Some k' \<and> page_for k' s = Some q))"
proof -
  note P = pool_invD [OF assms(1)]
  have p: "p < pool_size s" "key_at s ! p = Some k" using names_okD(2) [OF P(9), of k p] assms(2) by (simp_all add: page_for_def)
  show ?thesis
  proof (cases "parent s ! p")
    case None
    then show ?thesis using p P(3) by (simp add: parent_key_def)
  next
    case (Some q)
    then have q: "q < pool_size s" "key_at s ! q \<noteq> None" using P(4) p by (auto simp: links_ok_def)
    then obtain k' where k': "key_at s ! q = Some k'" by auto
    then have "page_for k' s = Some q" using names_okD(2) [OF P(9), of k' q] q by (simp add: page_for_def)
    with Some k' q p P(3) show ?thesis by (simp add: parent_key_def)
  qed
qed

lemma chain_returns:
  assumes inv: "pool_inv (hs_index h)" and k: "\<And>k. key = Some k \<Longrightarrow> page_for k (hs_index h) \<noteq> None"
  shows "\<exists>ks par. unwritten_chain h took key chain = Some (Inr (ks @ chain, anchor_for h took par)) \<and> walk_ok h took par ks \<and>
    (if ks = [] then par = key else key = Some (last ks))"
proof -
  obtain rank :: "nat \<Rightarrow> nat" where rank: "\<forall>p q. p < pool_size (hs_index h) \<longrightarrow> parent (hs_index h) ! p = Some q \<longrightarrow> rank q < rank p"
    using pool_invD(10) [OF inv] by (auto simp: ranked_def)
  define m where "m = (case key of None \<Rightarrow> 0 | Some k \<Rightarrow> Suc (rank (the (page_for k (hs_index h)))))"
  then show ?thesis using k
  proof (induction m arbitrary: key chain rule: less_induct)
    case (less m)
    note e = unwritten_chain.simps [of h took key chain]
    show ?case
    proof (cases "reached h took key")
      case True
      have "unwritten_chain h took key chain = Some (Inr (chain, anchor_for h took key))"
        using True by (subst e) (auto simp: reached_def anchor_for_def split: option.splits)
      then show ?thesis using True by (intro exI [of _ "[]"] exI [of _ key]) (simp add: walk_ok_def)
    next
      case False
      then obtain k where key: "key = Some k" by (cases key) (auto simp: reached_def)
      obtain p where p: "page_for k (hs_index h) = Some p" using less.prems(2) key by auto
      from parent_key_indexed [OF inv p] obtain par where par: "parent_key p (hs_index h) = Inr par"
        "par = None \<and> parent (hs_index h) ! p = None \<or>
         (\<exists>q k'. parent (hs_index h) ! p = Some q \<and> par = Some k' \<and> page_for k' (hs_index h) = Some q)" by blast
      have pl: "p < pool_size (hs_index h)" using names_okD(2) [OF pool_invD(9) [OF inv], of k p] p by (simp add: page_for_def)
      have step: "unwritten_chain h took key chain = unwritten_chain h took par (k # chain)"
        using False key p par(1) by (subst e) (auto simp: reached_def split: option.splits)
      have "(case par of None \<Rightarrow> 0 | Some k \<Rightarrow> Suc (rank (the (page_for k (hs_index h))))) < m"
        using par(2) rank pl p less.prems(1) key by auto
      from less.IH [OF this refl, of "k # chain"] par(2) obtain ks top where
        IH: "unwritten_chain h took par (k # chain) = Some (Inr (ks @ k # chain, anchor_for h took top))"
          "walk_ok h took top ks" "if ks = [] then top = par else par = Some (last ks)" by fastforce
      have "walk_ok h took top (ks @ [k])"
        unfolding walk_ok_def
      proof (intro conjI allI impI)
        show "reached h took top" using IH(2) by (simp add: walk_ok_def)
        fix i assume i: "i < length (ks @ [k])"
        show "\<exists>p. page_for ((ks @ [k]) ! i) (hs_index h) = Some p \<and>
            parent_key p (hs_index h) = Inr (if i = 0 then top else Some ((ks @ [k]) ! (i - 1))) \<and>
            \<not> reached h took (Some ((ks @ [k]) ! i))"
        proof (cases "i < length ks")
          case True
          with IH(2) obtain p' where "page_for (ks ! i) (hs_index h) = Some p'"
            "parent_key p' (hs_index h) = Inr (if i = 0 then top else Some (ks ! (i - 1)))" "\<not> reached h took (Some (ks ! i))"
            unfolding walk_ok_def by blast
          with True show ?thesis by (intro exI [of _ p']) (auto simp: nth_append)
        next
          case F: False
          with i have "i = length ks" by simp
          then show ?thesis using p par(1) IH(3) False key by (auto simp: nth_append last_conv_nth)
        qed
      qed
      then show ?thesis using IH(1) step key by (intro exI [of _ "ks @ [k]"] exI [of _ top]) simp
    qed
  qed
qed

section \<open>What a step takes\<close>

definition above :: "'k pool \<Rightarrow> 'k \<Rightarrow> 'k \<Rightarrow> bool" where
  "above s k k' \<longleftrightarrow> (\<exists>p. page_for k s = Some p \<and> parent_key p s = Inr (Some k'))"

definition queued_by :: "nat \<Rightarrow> ('k, nat) dict \<Rightarrow> 'k \<Rightarrow> bool" where
  "queued_by done queue k \<longleftrightarrow> (\<exists>c. (k, c) \<in> set queue \<and> c \<le> done)"

text \<open>A key taken: indexed, without a copy on the host or on its way there, an ancestor of a queued key or one
  itself, and with its parent before it or where the walk may stop.\<close>

definition taken_ok :: "'k host_writes \<Rightarrow> nat \<Rightarrow> ('k, nat) dict \<Rightarrow> 'k list \<Rightarrow> nat list \<Rightarrow> nat \<Rightarrow> bool" where
  "taken_ok h done queue keys anchors i \<longleftrightarrow> (\<exists>p par. page_for (keys ! i) (hs_index h) = Some p \<and> parent_key p (hs_index h) = Inr par \<and>
     reached h (set (take i keys)) par \<and> \<not> reached h (set (take i keys)) (Some (keys ! i)) \<and>
     (\<exists>k. queued_by done queue k \<and> rtranclp (above (hs_index h)) k (keys ! i)) \<and>
     (case anchor_for h (set (take i keys)) par of None \<Rightarrow> True | Some q \<Rightarrow> q \<in> set anchors))"

definition takes_ok :: "'k host_writes \<Rightarrow> nat \<Rightarrow> ('k, nat) dict \<Rightarrow> 'k list \<Rightarrow> nat list \<Rightarrow> bool" where
  "takes_ok h done queue keys anchors \<longleftrightarrow> length keys \<le> hs_per_step h \<and> (\<forall>i < length keys. taken_ok h done queue keys anchors i) \<and>
     (\<forall>a \<in> set anchors. \<exists>k. page_for k (cp_pages (hs_pool h)) = Some a)"

lemma reached_mono: "took \<subseteq> took' \<Longrightarrow> reached h took par \<Longrightarrow> reached h took' par"
  by (auto simp: reached_def split: option.splits)

lemma not_reached_other: "\<not> reached h took (Some k) \<Longrightarrow> k \<notin> took' \<Longrightarrow> \<not> reached h took' (Some k)"
  by (auto simp: reached_def)

lemma chain_above:
  assumes "walk_ok h took par ks" "i < length ks"
  shows "rtranclp (above (hs_index h)) (last ks) (ks ! i)"
proof -
  have "rtranclp (above (hs_index h)) (last ks) (ks ! (length ks - 1 - n))" if "n < length ks" for n
    using that
  proof (induction n)
    case 0
    then have "ks \<noteq> []" by auto
    then show ?case by (simp add: last_conv_nth)
  next
    case (Suc n)
    let ?i = "length ks - 1 - n"
    have i: "?i < length ks" "0 < ?i" "?i - 1 = length ks - 1 - Suc n" using Suc.prems by linarith+
    then have "above (hs_index h) (ks ! ?i) (ks ! (?i - 1))" using assms(1) by (auto simp: walk_ok_def above_def)
    with Suc i(3) show ?case by (metis Suc_lessD rtranclp.rtrancl_into_rtrancl)
  qed
  from this [of "length ks - 1 - i"] assms(2) show ?thesis by simp
qed

text \<open>No key comes twice on the way up: the walk stays out of what it passed.\<close>

lemma chain_distinct:
  assumes inv: "pool_inv (hs_index h)" and c: "walk_ok h took par ks"
  shows "distinct ks"
proof -
  obtain rank :: "nat \<Rightarrow> nat" where rank: "\<forall>p q. p < pool_size (hs_index h) \<longrightarrow> parent (hs_index h) ! p = Some q \<longrightarrow> rank q < rank p"
    using pool_invD(10) [OF inv] by (auto simp: ranked_def)
  let ?r = "\<lambda>k. rank (the (page_for k (hs_index h)))"
  have up: "?r (ks ! i) < ?r (ks ! Suc i)" if i: "Suc i < length ks" for i
  proof -
    obtain p where p: "page_for (ks ! Suc i) (hs_index h) = Some p" "parent_key p (hs_index h) = Inr (Some (ks ! i))"
      using c i by (fastforce simp: walk_ok_def)
    have pl: "p < pool_size (hs_index h)" using names_okD(2) [OF pool_invD(9) [OF inv], of "ks ! Suc i" p] p(1) by (simp add: page_for_def)
    obtain q where "parent (hs_index h) ! p = Some q" "page_for (ks ! i) (hs_index h) = Some q"
      using parent_key_indexed [OF inv p(1)] p(2) by auto
    with rank pl p(1) show ?thesis by simp
  qed
  have "sorted_wrt (<) (map ?r ks)"
    unfolding sorted_wrt_iff_nth_Suc_transp [OF transp_on_less] using up by auto
  then have "distinct (map ?r ks)" unfolding strict_sorted_iff by blast
  then show ?thesis by (simp add: distinct_map)
qed

lemma takes_ok_extend:
  assumes inv: "pool_inv (hs_index h)" and ok: "takes_ok h done queue keys anchors"
    and c: "walk_ok h (set keys) par ks" and q: "queued_by done queue (last ks)"
    and n: "length keys + length (take n ks) \<le> hs_per_step h"
    and a: "set anchors \<subseteq> set anchors'" "\<forall>a \<in> set anchors'. \<exists>k. page_for k (cp_pages (hs_pool h)) = Some a"
      "take n ks \<noteq> [] \<Longrightarrow> case anchor_for h (set keys) par of None \<Rightarrow> True | Some q \<Rightarrow> q \<in> set anchors'"
  shows "takes_ok h done queue (keys @ take n ks) anchors'"
  unfolding takes_ok_def
proof (intro conjI allI impI a(2))
  show "length (keys @ take n ks) \<le> hs_per_step h" using n by simp
  fix i assume i: "i < length (keys @ take n ks)"
  show "taken_ok h done queue (keys @ take n ks) anchors' i"
  proof (cases "i < length keys")
    case True
    then have "taken_ok h done queue keys anchors i" using ok by (simp add: takes_ok_def)
    moreover have "take i (keys @ take n ks) = take i keys" "(keys @ take n ks) ! i = keys ! i" using True by (simp_all add: nth_append)
    ultimately show ?thesis unfolding taken_ok_def using a(1) by (fastforce split: option.splits)
  next
    case False
    define j where "j = i - length keys"
    have j: "j < length ks" "i = length keys + j" "j < n" using False i by (simp_all add: j_def)
    have at: "(keys @ take n ks) ! i = ks ! j" "take i (keys @ take n ks) = keys @ take j ks" using j by (simp_all add: nth_append min_def)
    obtain p where p: "page_for (ks ! j) (hs_index h) = Some p"
      "parent_key p (hs_index h) = Inr (if j = 0 then par else Some (ks ! (j - 1)))" "\<not> reached h (set keys) (Some (ks ! j))"
      using c j(1) by (auto simp: walk_ok_def)
    have before: "ks ! (j - 1) \<in> set (take j ks)" if "j \<noteq> 0"
      using that j(1) by (metis diff_less in_set_conv_nth length_take less_numeral_extra(1) min.absorb4 nth_take not_gr_zero)
    have fresh: "ks ! j \<notin> set (take j ks)"
    proof
      assume "ks ! j \<in> set (take j ks)"
      then obtain m where "m < j" "ks ! m = ks ! j" using j(1) by (auto simp: in_set_conv_nth)
      with chain_distinct [OF inv c] j(1) show False by (simp add: nth_eq_iff_index_eq)
    qed
    have r: "reached h (set (keys @ take j ks)) (if j = 0 then par else Some (ks ! (j - 1)))"
    proof (cases "j = 0")
      case True
      then show ?thesis using c by (simp add: walk_ok_def)
    next
      case False
      then show ?thesis using before by (simp add: reached_def)
    qed
    have nr: "\<not> reached h (set (keys @ take j ks)) (Some (ks ! j))"
      by (rule not_reached_other [OF p(3)]) (use p(3) fresh in \<open>auto simp: reached_def\<close>)
    have anc: "case anchor_for h (set (keys @ take j ks)) (if j = 0 then par else Some (ks ! (j - 1))) of None \<Rightarrow> True | Some q \<Rightarrow> q \<in> set anchors'"
    proof (cases "j = 0")
      case True
      have "take n ks \<noteq> []" using j by (cases ks) auto
      from a(3) [OF this] True show ?thesis by simp
    next
      case False
      then show ?thesis using before by (simp add: anchor_for_def)
    qed
    show ?thesis unfolding taken_ok_def at using p(1,2) r nr anc q chain_above [OF c j(1)] by blast
  qed
qed

text \<open>The loop of \<open>take\<close> ends, with what it took.\<close>

lemma take_keys_ok:
  assumes inv: "pool_inv (hs_index h)" and idx: "\<And>k c. (k, c) \<in> set queue \<Longrightarrow> page_for k (hs_index h) \<noteq> None"
    and sub: "set queue \<subseteq> set whole" and ok: "takes_ok h done whole keys anchors"
  shows "\<exists>keys' anchors' rest. take_keys h done queue keys anchors = Some (Inr (keys', anchors', rest)) \<and>
    takes_ok h done whole keys' anchors' \<and> (\<exists>gone. queue = gone @ rest)"
  using inv idx sub ok
proof (induction h "done" queue keys anchors rule: take_keys.induct)
  case (1 h d queue keys anchors)
  note e = take_keys.simps [of h d queue keys anchors]
  show ?case
  proof (cases queue)
    case Nil
    with "1.prems"(4) show ?thesis by (subst e) simp
  next
    case (Cons kc rest)
    obtain key commits where kc: "kc = (key, commits)" by (cases kc)
    show ?thesis
    proof (cases "hs_per_step h \<le> length keys \<or> commits > d")
      case True
      with "1.prems"(4) Cons kc show ?thesis by (subst e) auto
    next
      case False
      have "page_for key (hs_index h) \<noteq> None" by (rule "1.prems"(2) [of key commits]) (simp add: Cons kc)
      then obtain ks par where ks: "unwritten_chain h (set keys) (Some key) [] = Some (Inr (ks, anchor_for h (set keys) par))"
        "walk_ok h (set keys) par ks" "if ks = [] then par = Some key else Some key = Some (last ks)"
        using chain_returns [OF "1.prems"(1), of "Some key" "set keys" "[]"] by auto
      let ?room = "hs_per_step h - length keys"
      let ?anchors = "case anchor_for h (set keys) par of Some p \<Rightarrow>
        if take ?room ks \<noteq> [] \<and> p \<notin> set anchors then anchors @ [p] else anchors | None \<Rightarrow> anchors"
      have hosted: "\<exists>k. page_for k (cp_pages (hs_pool h)) = Some p" if "anchor_for h (set keys) par = Some p" for p
        using that by (auto simp: anchor_for_def split: option.splits if_splits)
      have next_ok: "takes_ok h d whole (keys @ take ?room ks) ?anchors"
      proof (cases "ks = []")
        case True
        then show ?thesis using "1.prems"(4) by (auto split: option.splits)
      next
        case ne: False
        show ?thesis
        proof (rule takes_ok_extend [OF "1.prems"(1,4) ks(2)])
          show "queued_by d whole (last ks)"
            using ks(3) ne False "1.prems"(3) Cons kc by (auto simp: queued_by_def)
          show "length keys + length (take ?room ks) \<le> hs_per_step h" using "1.prems"(4) by (auto simp: takes_ok_def)
          show "set anchors \<subseteq> set ?anchors" by (auto split: option.splits)
          show "\<forall>a \<in> set ?anchors. \<exists>k. page_for k (cp_pages (hs_pool h)) = Some a"
            using "1.prems"(4) hosted by (auto simp: takes_ok_def split: option.splits if_splits)
        qed (auto split: option.splits)
      qed
      have step: "take_keys h d queue keys anchors =
          take_keys h d (if length ks \<le> ?room then rest else queue) (keys @ take ?room ks) ?anchors"
        by (subst e) (use Cons kc False ks(1) in \<open>simp add: Let_def\<close>)
      have "\<exists>keys' anchors' rest'. take_keys h d (if length ks \<le> ?room then rest else queue) (keys @ take ?room ks) ?anchors =
          Some (Inr (keys', anchors', rest')) \<and> takes_ok h d whole keys' anchors' \<and>
          (\<exists>gone. (if length ks \<le> ?room then rest else queue) = gone @ rest')"
      proof (rule "1.IH" [OF Cons kc [symmetric] False ks(1) refl refl refl refl refl refl "1.prems"(1) _ _ next_ok])
        show "page_for k (hs_index h) \<noteq> None" if "(k, c) \<in> set (if length ks \<le> ?room then rest else queue)" for k c
          by (rule "1.prems"(2) [of k c]) (use that Cons in \<open>auto split: if_splits\<close>)
        show "set (if length ks \<le> ?room then rest else queue) \<subseteq> set whole" using "1.prems"(3) Cons by auto
      qed
      then show ?thesis unfolding step using Cons by (auto split: if_splits)
    qed
  qed
qed

section \<open>The invariant\<close>

definition in_writes :: "'k host_writes \<Rightarrow> nat multiset" where
  "in_writes h = mset (host_pages_held h)"

definition write_ok :: "'k pool \<Rightarrow> 'k host_write \<Rightarrow> bool" where
  "write_ok s w \<longleftrightarrow> length (hw_host_pages w) = length (hw_keys w) \<and> length (hw_parents w) = length (hw_keys w) \<and>
     distinct (hw_keys w) \<and> (\<forall>j < length (hw_keys w). \<forall>q. hw_parents w ! j = Some q \<longrightarrow> q \<notin> set (drop j (hw_keys w))) \<and>
     (\<forall>p \<in> set (hw_host_pages w). key_at s ! p = None)"

definition device_ok :: "'k host_writes \<Rightarrow> bool" where
  "device_ok h \<longleftrightarrow> pool_inv (hs_index h) \<and> writes (hs_index h) \<noteq> None \<and>
     (\<forall>(k, c) \<in> set (hq_queued (hs_queue h)). page_for k (hs_index h) \<noteq> None)"

definition host_inv :: "'k host_writes \<Rightarrow> nat multiset \<Rightarrow> bool" where
  "host_inv h C \<longleftrightarrow> cpu_ok (hs_pool h) (in_writes h + C) \<and> device_ok h \<and> distinct (map fst (hs_in_flight h)) \<and>
     (\<forall>(i, w) \<in> set (hs_in_flight h). i < hs_next h \<and> write_ok (cp_pages (hs_pool h)) w)"

lemma host_invD:
  assumes "host_inv h C"
  shows "cpu_ok (hs_pool h) (in_writes h + C)" "device_ok h" "distinct (map fst (hs_in_flight h))"
    "(i, w) \<in> set (hs_in_flight h) \<Longrightarrow> i < hs_next h \<and> write_ok (cp_pages (hs_pool h)) w"
  using assms by (auto simp: host_inv_def)

lemma in_writes_member: "(i, w) \<in> set (hs_in_flight h) \<Longrightarrow> mset (hw_host_pages w) + mset (hw_anchors w) \<subseteq># in_writes h"
proof -
  assume "(i, w) \<in> set (hs_in_flight h)"
  then obtain us vs where "hs_in_flight h = us @ (i, w) # vs" by (auto dest: split_list)
  then show ?thesis by (simp add: in_writes_def host_pages_held_def)
qed

lemma write_ok_same:
  "write_ok s w \<Longrightarrow> (\<And>p. p \<in> set (hw_host_pages w) \<Longrightarrow> key_at t ! p = key_at s ! p) \<Longrightarrow> write_ok t w"
  by (auto simp: write_ok_def)

text \<open>A call on the pool that leaves the keys of what writes and copies hold.\<close>

lemma host_inv_pool:
  assumes inv: "host_inv h C" and ok: "cpu_ok c (in_writes h + C')"
    and keys: "\<And>p. p \<in># in_writes h \<Longrightarrow> key_at (cp_pages (hs_pool h)) ! p = None \<Longrightarrow> key_at (cp_pages c) ! p = None"
  shows "host_inv (h\<lparr>hs_pool := c\<rparr>) C'"
proof -
  have "write_ok (cp_pages c) w" if w: "(i, w) \<in> set (hs_in_flight h)" for i w
  proof -
    have "p \<in># in_writes h" if "p \<in> set (hw_host_pages w)" for p
      using mset_subset_eqD [OF in_writes_member [OF w], of p] that by simp
    then show ?thesis using host_invD(4) [OF inv w] keys by (auto simp: write_ok_def)
  qed
  moreover have "in_writes (h\<lparr>hs_pool := c\<rparr>) = in_writes h" by (simp add: in_writes_def host_pages_held_def)
  moreover have "device_ok (h\<lparr>hs_pool := c\<rparr>) = device_ok h" by (simp add: device_ok_def hs_queue_def)
  ultimately show ?thesis using ok host_invD [OF inv] by (auto simp: host_inv_def)
qed

text \<open>A change that is not one of references: of the queue, the device, a write's event or what it cancels.\<close>

lemma host_inv_rest:
  assumes inv: "host_inv h C" and "hs_pool h' = hs_pool h" "hs_next h' = hs_next h" "device_ok h'"
    and flights: "map fst (hs_in_flight h') = map fst (hs_in_flight h)"
      "map (\<lambda>(i, w). (hw_keys w, hw_host_pages w, hw_parents w, hw_anchors w)) (hs_in_flight h') =
       map (\<lambda>(i, w). (hw_keys w, hw_host_pages w, hw_parents w, hw_anchors w)) (hs_in_flight h)"
  shows "host_inv h' C"
proof -
  let ?v = "\<lambda>(i::nat, w). (hw_keys w, hw_host_pages w, hw_parents w, hw_anchors w)"
  have held: "host_pages_held g = concat (map ((\<lambda>(_, ps, _, as). ps @ as) \<circ> ?v) (hs_in_flight g))" for g :: "'a host_writes"
    by (auto simp: host_pages_held_def intro!: arg_cong [of _ _ concat] map_cong)
  have "in_writes h' = in_writes h" unfolding in_writes_def held list.map_comp [symmetric] flights(2) by (rule refl)
  moreover have "i < hs_next h \<and> write_ok (cp_pages (hs_pool h)) w" if iw: "(i, w) \<in> set (hs_in_flight h')" for i w
  proof -
    obtain n where n: "n < length (hs_in_flight h')" "hs_in_flight h' ! n = (i, w)" using iw by (auto simp: in_set_conv_nth)
    have len: "length (hs_in_flight h') = length (hs_in_flight h)" using map_eq_imp_length_eq [OF flights(1)] .
    obtain j v where jv: "hs_in_flight h ! n = (j, v)" by (cases "hs_in_flight h ! n")
    have "j = i" "?v (j, v) = ?v (i, w)"
      using arg_cong [OF flights(1), of "\<lambda>xs. xs ! n"] arg_cong [OF flights(2), of "\<lambda>xs. xs ! n"] n len jv by simp_all
    moreover have "(j, v) \<in> set (hs_in_flight h)" using n(1) len jv by (metis nth_mem)
    ultimately show ?thesis using host_invD(4) [OF inv, of j v] by (simp add: write_ok_def)
  qed
  ultimately show ?thesis using host_invD(1,3) [OF inv] assms(2-4) flights(1) by (auto simp: host_inv_def)
qed

section \<open>Taking\<close>

definition parent_of :: "'k pool \<Rightarrow> 'k \<Rightarrow> 'k option" where
  "parent_of s k = projr (parent_key (the (page_for k s)) s)"

lemma pages_to_write_ok:
  assumes "pool_inv s" "\<And>k. k \<in> set keys \<Longrightarrow> page_for k s \<noteq> None"
  shows "pages_to_write keys s = Inr (map (\<lambda>k. the (page_for k s)) keys, map (parent_of s) keys)"
proof -
  have "rfold (\<lambda>key (pages, parents). case page_for key s of None \<Rightarrow> Inl TypeError
      | Some p \<Rightarrow> rbind (parent_key p s) (\<lambda>par. Inr (pages @ [p], parents @ [par]))) keys (ps, qs) =
    Inr (ps @ map (\<lambda>k. the (page_for k s)) keys, qs @ map (parent_of s) keys)" for ps qs
    using assms(2)
  proof (induction keys arbitrary: ps qs)
    case (Cons k keys)
    obtain p where p: "page_for k s = Some p" using Cons.prems [of k] by auto
    obtain par where par: "parent_key p s = Inr par" using parent_key_indexed [OF assms(1) p] by blast
    have "\<And>k'. k' \<in> set keys \<Longrightarrow> page_for k' s \<noteq> None" by (rule Cons.prems) simp
    from Cons.IH [OF this] p par show ?case by (simp add: parent_of_def)
  qed simp
  from this [of "[]" "[]"] show ?thesis by (simp add: pages_to_write_def)
qed

text \<open>A page that a write or a copy back holds keeps its name.\<close>

definition keys_kept :: "'k host_writes \<Rightarrow> nat multiset \<Rightarrow> 'k host_writes \<Rightarrow> bool" where
  "keys_kept h C h' \<longleftrightarrow> (\<forall>p k. p \<in># in_writes h + C \<longrightarrow> key_at (cp_pages (hs_pool h)) ! p = Some k \<longrightarrow>
     key_at (cp_pages (hs_pool h')) ! p = Some k)"

definition names_kept :: "'k host_writes \<Rightarrow> 'k host_writes \<Rightarrow> bool" where
  "names_kept h h' \<longleftrightarrow> (\<forall>p k. key_at (cp_pages (hs_pool h)) ! p = Some k \<longrightarrow> key_at (cp_pages (hs_pool h')) ! p = Some k)"

lemma names_kept_keys: "names_kept h h' \<Longrightarrow> keys_kept h C h'"
  by (simp add: names_kept_def keys_kept_def)

text \<open>The write that a step lists: its keys are a prefix of what the loop took, in that order.\<close>

definition listed :: "'k host_writes \<Rightarrow> nat \<Rightarrow> 'k host_writes \<Rightarrow> 'k list \<Rightarrow> nat list \<Rightarrow> bool" where
  "listed h i h' keys anchors \<longleftrightarrow> (\<exists>w n. hs_in_flight h' = hs_in_flight h @ [(i, w)] \<and> 0 < n \<and> hw_keys w = take n keys \<and> hw_keys w \<noteq> [] \<and>
     length (hw_host_pages w) = length (hw_keys w) \<and> hw_anchors w = anchors \<and> hw_event w = None \<and>
     hw_pages w = map (\<lambda>k. the (page_for k (hs_index h))) (hw_keys w) \<and> hw_parents w = map (parent_of (hs_index h)) (hw_keys w)) \<and>
     i = hs_next h \<and> hs_next h' = Suc i \<and> (\<forall>a \<in> set anchors. key_at (cp_pages (hs_pool h')) ! a = key_at (cp_pages (hs_pool h)) ! a)"

lemma takes_ok_order:
  assumes "takes_ok h d queue keys anchors"
  shows "distinct keys" "j < length keys \<Longrightarrow> parent_of (hs_index h) (keys ! j) = Some q \<Longrightarrow> q \<notin> set (drop j keys)"
proof -
  have T: "reached h (set (take i keys)) (parent_of (hs_index h) (keys ! i))" "\<not> reached h (set (take i keys)) (Some (keys ! i))"
    if "i < length keys" for i
    using assms that by (auto simp: takes_ok_def taken_ok_def parent_of_def)
  have "keys ! i \<noteq> keys ! j" if "i < j" "j < length keys" for i j
  proof -
    have "keys ! i \<in> set (take j keys)" using that by (auto simp: in_set_conv_nth intro!: exI [of _ i])
    with T(2) [OF that(2)] show ?thesis by (auto simp: reached_def)
  qed
  then show "distinct keys" unfolding distinct_conv_nth by (metis linorder_neqE_nat)
  assume j: "j < length keys" "parent_of (hs_index h) (keys ! j) = Some q"
  show "q \<notin> set (drop j keys)"
  proof
    assume "q \<in> set (drop j keys)"
    then obtain i where i: "i < length keys - j" "q = keys ! (j + i)" by (auto simp: in_set_conv_nth)
    have "reached h (set (take j keys)) (Some q)" using T(1) [OF j(1)] j(2) by simp
    then have "reached h (set (take (j + i) keys)) (Some q)"
      by (rule reached_mono [rotated]) (rule set_take_subset_set_take, simp)
    then show False using T(2) [of "j + i"] i by simp
  qed
qed

lemma write_keys_ok:
  assumes inv: "host_inv h C" and idx: "\<And>k. k \<in> set keys \<Longrightarrow> page_for k (hs_index h) \<noteq> None"
    and ord: "distinct keys" "\<And>j q. j < length keys \<Longrightarrow> parent_of (hs_index h) (keys ! j) = Some q \<Longrightarrow> q \<notin> set (drop j keys)"
    and anc: "\<forall>a \<in> set anchors. \<exists>k. page_for k (cp_pages (hs_pool h)) = Some a"
  obtains r h' where "write_keys keys anchors h = Inr (r, h')" "host_inv h' C" "hs_index h' = hs_index h"
    "\<And>i. r = Some i \<Longrightarrow> listed h i h' keys anchors" "keys_kept h C h'" "r = None \<Longrightarrow> hs_in_flight h' = hs_in_flight h \<and> hs_next h' = hs_next h"
proof (cases "keys = []")
  case True
  then show ?thesis using inv that [of None h] by (simp add: write_keys_def keys_kept_def)
next
  case False
  note I = host_invD [OF inv]
  let ?c = "hs_pool h"
  have "\<And>p. p \<in> set anchors \<Longrightarrow> p < pool_size (cp_pages ?c) \<and> key_at (cp_pages ?c) ! p \<noteq> None"
    using anc page_for_indexed [OF cpu_okD(1) [OF I(1)]] by blast
  then obtain s where s: "on_arena (retain anchors) ?c = Inr (?c\<lparr>cp_pages := s\<rparr>)"
    "cpu_ok (?c\<lparr>cp_pages := s\<rparr>) (in_writes h + C + mset anchors)" "key_at s = key_at (cp_pages ?c)"
    by (rule on_arena_retain [OF I(1)]) (assumption, rule that)
  obtain ps t where t: "host_take (length keys) (?c\<lparr>cp_pages := s\<rparr>) = Inr (Some ps, ?c\<lparr>cp_pages := t\<rparr>)"
    "cpu_ok (?c\<lparr>cp_pages := t\<rparr>) (in_writes h + C + mset anchors + mset ps)" "length ps \<le> length keys"
    "\<And>p. p \<in> set ps \<Longrightarrow> key_at t ! p = None" "\<And>p. p \<in># in_writes h + C + mset anchors \<Longrightarrow> key_at t ! p = key_at (cp_pages ?c) ! p"
    by (rule host_take_ok [OF s(2), of "length keys"]) (use s(3) in \<open>auto intro: that\<close>)
  have steps: "write_keys keys anchors h = (if ps = []
      then rbind (on_host' (on_arena (release anchors)) (h\<lparr>hs_pool := ?c\<lparr>cp_pages := t\<rparr>\<rparr>)) (\<lambda>h. Inr (None, h))
      else list_write (take (length ps) keys) ps anchors (h\<lparr>hs_pool := ?c\<lparr>cp_pages := t\<rparr>\<rparr>))"
  proof -
    have a: "on_host' (on_arena (retain anchors)) h = Inr (h\<lparr>hs_pool := ?c\<lparr>cp_pages := s\<rparr>\<rparr>)" by (simp add: on_host'_def s(1))
    have b: "on_host (host_take (length keys)) (h\<lparr>hs_pool := ?c\<lparr>cp_pages := s\<rparr>\<rparr>) = Inr (Some ps, h\<lparr>hs_pool := ?c\<lparr>cp_pages := t\<rparr>\<rparr>)"
      by (simp add: on_host_def t(1))
    show ?thesis unfolding write_keys_def if_not_P [OF False] a rbind_simps b prod.case by simp
  qed
  show ?thesis
  proof (cases "ps = []")
    case True
    have "cpu_ok (?c\<lparr>cp_pages := t\<rparr>) (in_writes h + C + mset anchors)" using t(2) True by simp
    then obtain u where u: "on_arena (release anchors) (?c\<lparr>cp_pages := t\<rparr>) = Inr (?c\<lparr>cp_pages := u\<rparr>)"
      "cpu_ok (?c\<lparr>cp_pages := u\<rparr>) (in_writes h + C)" "key_at u = key_at t"
      by (rule on_arena_release) (auto intro: that)
    have "host_inv (h\<lparr>hs_pool := ?c\<lparr>cp_pages := u\<rparr>\<rparr>) C"
      by (rule host_inv_pool [OF inv u(2)]) (use u(3) t(5) in simp)
    moreover have "write_keys keys anchors h = Inr (None, h\<lparr>hs_pool := ?c\<lparr>cp_pages := u\<rparr>\<rparr>)"
      unfolding steps by (simp add: True on_host'_def u(1))
    moreover have "keys_kept h C (h\<lparr>hs_pool := ?c\<lparr>cp_pages := u\<rparr>\<rparr>)" using u(3) t(5) by (simp add: keys_kept_def)
    ultimately show ?thesis using that [of None] by simp
  next
    case ne: False
    let ?keys = "take (length ps) keys"
    have "pool_inv (hs_index h)" using I(2) by (simp add: device_ok_def)
    from pages_to_write_ok [OF this, of ?keys] idx
    have pw: "pages_to_write ?keys (hs_index h) = Inr (map (\<lambda>k. the (page_for k (hs_index h))) ?keys, map (parent_of (hs_index h)) ?keys)"
      by (auto dest: in_set_takeD)
    define w where "w = \<lparr>hw_keys = ?keys, hw_pages = map (\<lambda>k. the (page_for k (hs_index h))) ?keys, hw_host_pages = ps,
      hw_parents = map (parent_of (hs_index h)) ?keys, hw_anchors = anchors, hw_event = None, hw_cancelled = {}\<rparr>"
    let ?h = "h\<lparr>hs_pool := ?c\<lparr>cp_pages := t\<rparr>, hs_next := Suc (hs_next h),
      hs_writing := fold (\<lambda>key m. m(key \<mapsto> hs_next h)) ?keys (hs_writing h), hs_in_flight := hs_in_flight h @ [(hs_next h, w)]\<rparr>"
    have run: "write_keys keys anchors h = Inr (Some (hs_next h), ?h)"
      unfolding steps by (simp add: ne list_write_def pw w_def)
    have iw: "in_writes ?h = in_writes h + mset anchors + mset ps"
      by (simp add: in_writes_def host_pages_held_def w_def ac_simps)
    have "cpu_ok (?c\<lparr>cp_pages := t\<rparr>) (in_writes ?h + C)" using t(2) unfolding iw by (simp add: ac_simps)
    moreover have "device_ok ?h" using I(2) by (simp add: device_ok_def hs_queue_def)
    moreover have "distinct (map fst (hs_in_flight ?h))" using I(3,4) by fastforce
    moreover have "write_ok t w"
    proof -
      have "q \<notin> set (drop j ?keys)" if "j < length ?keys" "parent_of (hs_index h) (?keys ! j) = Some q" for j q
      proof -
        have "q \<notin> set (drop j keys)" by (rule ord(2)) (use that in simp_all)
        moreover have "set (drop j ?keys) \<subseteq> set (drop j keys)" by (simp add: drop_take set_take_subset)
        ultimately show ?thesis by blast
      qed
      then show ?thesis using t(3,4) ord(1) by (simp add: write_ok_def w_def)
    qed
    moreover have "i < hs_next h \<and> write_ok t v" if v: "(i, v) \<in> set (hs_in_flight h)" for i v
    proof -
      have "p \<in># in_writes h" if "p \<in> set (hw_host_pages v)" for p
        using mset_subset_eqD [OF in_writes_member [OF v], of p] that by simp
      then have "key_at t ! p = key_at (cp_pages ?c) ! p" if "p \<in> set (hw_host_pages v)" for p using that t(5) [of p] by simp
      then show ?thesis using I(4) [OF v] write_ok_same [of "cp_pages ?c" v t] by blast
    qed
    ultimately have "host_inv ?h C" unfolding host_inv_def by fastforce
    moreover have "listed h (hs_next h) ?h keys anchors"
      unfolding listed_def by (intro conjI exI [of _ w] exI [of _ "length ps"]) (use ne t(3,5) False in \<open>auto simp: w_def\<close>)
    moreover have "keys_kept h C ?h" using t(5) by (simp add: keys_kept_def)
    ultimately show ?thesis using that [OF run] by simp
  qed
qed

lemma on_queue_sel [simp]:
  "hs_pool (on_queue f h) = hs_pool h" "hs_next (on_queue f h) = hs_next h" "hs_in_flight (on_queue f h) = hs_in_flight h"
  "hs_writing (on_queue f h) = hs_writing h" "hs_per_step (on_queue f h) = hs_per_step h" "hs_queue (on_queue f h) = f (hs_queue h)"
  "hs_index (on_queue f h) = (hs_index h)\<lparr>writes := Some (f (hs_queue h))\<rparr>"
  by (simp_all add: on_queue_def hs_queue_def)

lemma pool_inv_writes [simp]: "pool_inv (s\<lparr>writes := q\<rparr>) = pool_inv s"
  by (simp add: pool_inv_def core_ok_def tree_ok_def arena_ok_def sealed_ok_def ranked_def children_ok_def leaves_ok_def kids_def names_ok_def)

end
