(* ===== verification/Host_Reach.thy ===== *)
theory Host_Reach imports Host_Runs begin

text \<open>
  The calls of \<open>HostWrites\<close> keep the invariant, and the runs of host pool, writes and device.
\<close>

section \<open>Taking a step's share\<close>

lemma page_for_writes [simp]:
  "page_for k (s\<lparr>writes := q\<rparr>) = page_for k s" "parent_key p (s\<lparr>writes := q\<rparr>) = parent_key p s"
  "parent_of (s\<lparr>writes := q\<rparr>) = parent_of s"
proof -
  show page: "page_for k (s\<lparr>writes := q\<rparr>) = page_for k s" for k by (simp add: page_for_def)
  show par: "parent_key p (s\<lparr>writes := q\<rparr>) = parent_key p s" for p by (simp add: parent_key_def cong: option.case_cong)
  show "parent_of (s\<lparr>writes := q\<rparr>) = parent_of s" unfolding parent_of_def by (intro ext) (simp only: page par)
qed

lemma device_okD:
  assumes "device_ok h"
  shows "pool_inv (hs_index h)" "(k, c) \<in> set (hq_queued (hs_queue h)) \<Longrightarrow> page_for k (hs_index h) \<noteq> None"
  using assms by (auto simp: device_ok_def)

lemma host_inv_queue:
  assumes "host_inv h C" "set (hq_queued (f (hs_queue h))) \<subseteq> set (hq_queued (hs_queue h))"
  shows "host_inv (on_queue f h) C"
  by (rule host_inv_rest [OF assms(1)]) (use host_invD(2) [OF assms(1)] assms(2) in \<open>auto simp: device_ok_def\<close>)

lemma take_writes_ok:
  assumes inv: "host_inv h C"
  obtains r h' where "take_writes d h = Some (Inr (r, h'))" "host_inv h' C" "keys_kept h C h'" "r = None \<Longrightarrow> hs_in_flight h' = hs_in_flight h \<and> hs_next h' = hs_next h"
    "\<And>i. r = Some i \<Longrightarrow> \<exists>keys anchors. takes_ok h d (hq_queued (hs_queue h)) keys anchors \<and> listed h i h' keys anchors"
proof -
  let ?q = "hq_queued (hs_queue h)"
  note D = device_okD [OF host_invD(2) [OF inv]]
  have start: "takes_ok h d ?q [] []" by (simp add: takes_ok_def)
  have ix: "page_for k (hs_index h) \<noteq> None" if "(k, c) \<in> set ?q" for k and c :: nat by (rule D(2) [OF that])
  obtain keys anchors rest gone where t: "take_keys h d ?q [] [] = Some (Inr (keys, anchors, rest))" "takes_ok h d ?q keys anchors" "?q = gone @ rest"
    using take_keys_ok [where queue = ?q and whole = ?q, OF D(1) _ order.refl start] ix by blast
  let ?h = "on_queue (\<lambda>q. q\<lparr>hq_queued := rest\<rparr>) h"
  have inv': "host_inv ?h C" by (rule host_inv_queue [OF inv]) (simp add: t(3))
  have idx: "page_for k (hs_index ?h) \<noteq> None" if "k \<in> set keys" for k
    using t(2) that by (auto simp: takes_ok_def taken_ok_def in_set_conv_nth)
  have anc: "\<forall>a \<in> set anchors. \<exists>k. page_for k (cp_pages (hs_pool ?h)) = Some a" using t(2) by (simp add: takes_ok_def)
  have ord: "distinct keys" "\<And>j q. j < length keys \<Longrightarrow> parent_of (hs_index ?h) (keys ! j) = Some q \<Longrightarrow> q \<notin> set (drop j keys)"
    using takes_ok_order [OF t(2)] by simp_all
  obtain r h' where w: "write_keys keys anchors ?h = Inr (r, h')" "host_inv h' C" "\<And>i. r = Some i \<Longrightarrow> listed ?h i h' keys anchors"
    "keys_kept ?h C h'" "r = None \<Longrightarrow> hs_in_flight h' = hs_in_flight ?h \<and> hs_next h' = hs_next ?h"
    by (rule write_keys_ok [OF inv' idx ord anc]) (assumption, assumption, assumption, rule that)
  have "listed ?h i h' keys anchors = listed h i h' keys anchors" for i by (simp add: listed_def)
  moreover have "take_writes d h = Some (Inr (r, h'))" by (simp add: take_writes_def t(1) w(1))
  moreover have "keys_kept h C h'" using w(4) by (simp add: keys_kept_def in_writes_def host_pages_held_def)
  ultimately show ?thesis using that w(2,3,5) t(2) by simp blast
qed

section \<open>Events\<close>

lemma on_write_flights:
  assumes "\<And>w. hw_keys (f w) = hw_keys w \<and> hw_host_pages (f w) = hw_host_pages w \<and> hw_parents (f w) = hw_parents w \<and> hw_anchors (f w) = hw_anchors w"
    and "host_inv h C"
  shows "host_inv (on_write i f h) C"
proof (rule host_inv_rest [OF assms(2)])
  show "map fst (hs_in_flight (on_write i f h)) = map fst (hs_in_flight h)" by (auto simp: on_write_def)
  show "map (\<lambda>(i, w). (hw_keys w, hw_host_pages w, hw_parents w, hw_anchors w)) (hs_in_flight (on_write i f h)) =
      map (\<lambda>(i, w). (hw_keys w, hw_host_pages w, hw_parents w, hw_anchors w)) (hs_in_flight h)"
    using assms(1) by (auto simp: on_write_def)
qed (use host_invD(2) [OF assms(2)] in \<open>simp_all add: on_write_def device_ok_def hs_queue_def\<close>)

lemma launch_ok: "host_inv h C \<Longrightarrow> host_inv (launch i failed h) C"
  unfolding launch_def by (rule on_write_flights) simp_all

lemma complete_event_ok: "host_inv h C \<Longrightarrow> host_inv (complete_event i h) C"
  unfolding complete_event_def by (rule on_write_flights) simp_all

lemma evicted_one_ok: "host_inv h C \<Longrightarrow> host_inv (evicted_one k h) C"
proof -
  assume "host_inv h C"
  then have q: "host_inv (on_queue (\<lambda>q. q\<lparr>hq_queued := dict_del k (hq_queued q), hq_image_ends := hq_image_ends q - {k}\<rparr>) h) C"
    by (rule host_inv_queue) (simp add: dict_del_subset)
  show ?thesis unfolding evicted_one_def Let_def
    by (auto split: option.splits intro: q on_write_flights [OF _ q])
qed

lemma evicted_keys_ok: "host_inv h C \<Longrightarrow> host_inv (evicted_keys ks h) C"
  unfolding evicted_keys_def by (induction ks arbitrary: h) (simp_all add: evicted_one_ok)

section \<open>Landing\<close>

lemma in_writes_split:
  assumes "distinct (map fst (hs_in_flight h))" "(i, w) \<in> set (hs_in_flight h)"
  shows "in_writes h = mset (hw_host_pages w) + mset (hw_anchors w) +
    mset (concat (map (\<lambda>(i, w). hw_host_pages w @ hw_anchors w) (filter (\<lambda>(j, _). j \<noteq> i) (hs_in_flight h))))"
proof -
  obtain us vs where f: "hs_in_flight h = us @ (i, w) # vs" using assms(2) by (auto dest: split_list)
  have "filter (\<lambda>(j, _). j \<noteq> i) us = us" "filter (\<lambda>(j, _). j \<noteq> i) vs = vs"
    using assms(1) unfolding f by (force simp: filter_id_conv)+
  then show ?thesis by (simp add: in_writes_def host_pages_held_def f ac_simps)
qed

lemma land_write_ok:
  assumes inv: "host_inv h C" and iw: "(i, w) \<in> set (hs_in_flight h)"
  obtains h' where "land_write (i, w) h = Inr h'" "host_inv h' C"
    "hw_event w = Some True \<Longrightarrow> named_all (hw_cancelled w) (zip (hw_keys w) (zip (hw_host_pages w) (hw_parents w))) (cp_pages (hs_pool h)) (cp_pages (hs_pool h'))"
    "names_kept h h'"
    "hs_in_flight h' = (if hw_event w = Some True then filter (\<lambda>(j, _). j \<noteq> i) (hs_in_flight h) else hs_in_flight h)"
proof (cases "hw_event w = Some True")
  case False
  then show ?thesis using inv that [of h] by (simp add: land_write_def names_kept_def)
next
  case True
  note I = host_invD [OF inv]
  let ?fl = "filter (\<lambda>(j, _). j \<noteq> i) (hs_in_flight h)"
  let ?rest = "mset (concat (map (\<lambda>(i, w). hw_host_pages w @ hw_anchors w) ?fl))"
  let ?m = "fold (\<lambda>key m. if m key = Some i then m(key := None) else m) (hw_keys w) (hs_writing h)"
  note split = in_writes_split [OF I(3) iw]
  have W: "write_ok (cp_pages (hs_pool h)) w" using I(4) [OF iw] by blast
  have ok: "cpu_ok (hs_pool h) (?rest + C + mset (hw_anchors w) + mset (hw_host_pages w))"
    using I(1) unfolding split by (simp add: ac_simps)
  obtain c where c: "file_writes (hw_keys w) (hw_host_pages w) (hw_parents w) (hw_cancelled w) (hs_pool h) = Inr c"
    "cpu_ok c (?rest + C + mset (hw_anchors w))"
    "\<And>p. p \<notin> set (hw_host_pages w) \<Longrightarrow> key_at (cp_pages c) ! p = key_at (cp_pages (hs_pool h)) ! p"
    "named_all (hw_cancelled w) (zip (hw_keys w) (zip (hw_host_pages w) (hw_parents w))) (cp_pages (hs_pool h)) (cp_pages c)"
    by (rule file_writes_ok [OF ok]) (use W in \<open>auto simp: write_ok_def intro: that\<close>)
  obtain s where s: "on_arena (release (hw_anchors w)) c = Inr (c\<lparr>cp_pages := s\<rparr>)" "cpu_ok (c\<lparr>cp_pages := s\<rparr>) (?rest + C)"
    "key_at s = key_at (cp_pages c)" "by_key s = by_key (cp_pages c)" "parent s = parent (cp_pages c)"
    by (rule on_arena_release [OF c(2)]) (rule that)
  let ?h = "h\<lparr>hs_writing := ?m, hs_pool := c\<lparr>cp_pages := s\<rparr>, hs_in_flight := ?fl\<rparr>"
  have run: "land_write (i, w) h = Inr ?h" by (simp add: land_write_def True on_host'_def c(1) s(1))
  have iw': "in_writes ?h = ?rest" by (simp add: in_writes_def host_pages_held_def)
  have "write_ok s v" if v: "(j, v) \<in> set ?fl" for j v
  proof (rule write_ok_same)
    show "write_ok (cp_pages (hs_pool h)) v" using I(4) [of j v] v by auto
    fix p assume p: "p \<in> set (hw_host_pages v)"
    then have "p \<in># ?rest" using v by auto
    have "p \<notin> set (hw_host_pages w)"
    proof
      assume pw: "p \<in> set (hw_host_pages w)"
      then have "0 < count (mset (hw_host_pages w)) p" by (simp only: count_greater_zero_iff set_mset_mset)
      moreover have "0 < count ?rest p" using \<open>p \<in># ?rest\<close> by (simp only: count_greater_zero_iff)
      moreover have "count (streams_held (hs_pool h)) p + count (in_writes h + C) p = 1"
        by (rule unkeyed_once [OF I(1)]) (use pw W iw in \<open>auto simp: write_ok_def split\<close>)
      ultimately show False unfolding split count_union by linarith
    qed
    then show "key_at s ! p = key_at (cp_pages (hs_pool h)) ! p" using c(3) s(3) by simp
  qed
  moreover have "device_ok ?h" using I(2) by (simp add: device_ok_def hs_queue_def)
  moreover have "distinct (map fst ?fl)" using I(3) by (simp add: distinct_map_filter)
  ultimately have inv': "host_inv ?h C" using s(2) iw' I(4) by (auto simp: host_inv_def)
  have pf: "page_for k s = page_for k (cp_pages c)" for k by (simp add: page_for_def s(4))
  have names: "named_all (hw_cancelled w) (zip (hw_keys w) (zip (hw_host_pages w) (hw_parents w))) (cp_pages (hs_pool h)) s"
    using c(4) unfolding named_all_def pf s(5) .
  have "names_kept h ?h"
    unfolding names_kept_def
  proof (intro allI impI)
    fix p k assume p: "key_at (cp_pages (hs_pool h)) ! p = Some k"
    then have "p \<notin> set (hw_host_pages w)" using W by (auto simp: write_ok_def)
    then show "key_at (cp_pages (hs_pool ?h)) ! p = Some k" using p c(3) s(3) by simp
  qed
  then show ?thesis using that [OF run inv'] names True by simp
qed

lemma land_ok:
  assumes "host_inv h C"
  obtains h' where "land h = Inr h'" "host_inv h' C" "names_kept h h'" "hs_in_flight h' = filter (\<lambda>(_, w). hw_event w \<noteq> Some True) (hs_in_flight h)"
proof -
  have "\<exists>h'. rfold land_write L h = Inr h' \<and> host_inv h' C \<and> names_kept h h' \<and>
      hs_in_flight h' = filter (\<lambda>(j, w). \<not> ((j, w) \<in> set L \<and> hw_event w = Some True)) (hs_in_flight h)"
    if "host_inv h C" "set L \<subseteq> set (hs_in_flight h)" "distinct (map fst L)" for L h
    using that
  proof (induction L arbitrary: h)
    case (Cons e L)
    obtain i w where e: "e = (i, w)" by (cases e)
    have iw: "(i, w) \<in> set (hs_in_flight h)" using Cons.prems(2) e by simp
    obtain h1 where h1: "land_write (i, w) h = Inr h1" "host_inv h1 C" "names_kept h h1"
      "hs_in_flight h1 = (if hw_event w = Some True then filter (\<lambda>(j, _). j \<noteq> i) (hs_in_flight h) else hs_in_flight h)"
      by (rule land_write_ok [OF Cons.prems(1) iw]) (rule that)
    have out: "i \<notin> fst ` set L" using Cons.prems(3) e by simp
    have "set L \<subseteq> set (hs_in_flight h1)" using Cons.prems(2) out h1(4) by (force simp: e)
    then obtain h2 where h2: "rfold land_write L h1 = Inr h2" "host_inv h2 C" "names_kept h1 h2"
      "hs_in_flight h2 = filter (\<lambda>(j, w). \<not> ((j, w) \<in> set L \<and> hw_event w = Some True)) (hs_in_flight h1)"
      using Cons.IH [OF h1(2)] Cons.prems(3) by auto
    have same: "v = w" if "(i, v) \<in> set (hs_in_flight h)" for v
      using that iw host_invD(3) [OF Cons.prems(1)] by (metis Some_eq_map_of_iff option.inject)
    have "hs_in_flight h2 = filter (\<lambda>(j, w). \<not> ((j, w) \<in> set (e # L) \<and> hw_event w = Some True)) (hs_in_flight h)"
      unfolding h2(4) h1(4) using same by (auto simp: e intro!: filter_cong)
    moreover have "names_kept h h2" using h1(3) h2(3) by (simp add: names_kept_def)
    ultimately show ?case using h1(1) h2(1,2) e by auto
  qed (simp add: names_kept_def)
  from this [OF assms order.refl host_invD(3) [OF assms]] obtain h' where h': "land h = Inr h'" "host_inv h' C" "names_kept h h'"
    "hs_in_flight h' = filter (\<lambda>(j, w). \<not> ((j, w) \<in> set (hs_in_flight h) \<and> hw_event w = Some True)) (hs_in_flight h)"
    by (auto simp: land_def)
  have "hs_in_flight h' = filter (\<lambda>(_, w). hw_event w \<noteq> Some True) (hs_in_flight h)"
    unfolding h'(4) by (rule filter_cong) auto
  with h' that show ?thesis by blast
qed

end
