(* ===== verification/Host_Steps.thy ===== *)
theory Host_Steps imports Host_Reach begin

text \<open>
  The runs of a host pool with the writes to it: the calls that the KV manager makes on \<open>CPUPagePool\<close> and
  \<open>HostWrites\<close> in any order, next to a device pool that changes on its own. The second
  argument holds the pages that copies back to the device (\<open>HostCopy.host_pages\<close>) have retained.
\<close>

section \<open>The device\<close>

text \<open>The device's pool goes on to another state, and the keys its index lost are reported.\<close>

definition on_device :: "'k pool \<Rightarrow> 'k list \<Rightarrow> 'k host_writes \<Rightarrow> 'k host_writes" where
  "on_device d lost h = evicted_keys lost (h\<lparr>hs_index := d\<rparr>)"

lemma evicted_one_rest:
  "hs_pool (evicted_one k h) = hs_pool h" "hs_next (evicted_one k h) = hs_next h"
  "map fst (hs_in_flight (evicted_one k h)) = map fst (hs_in_flight h)"
  "map (\<lambda>(i, w). (hw_keys w, hw_host_pages w, hw_parents w, hw_anchors w)) (hs_in_flight (evicted_one k h)) =
   map (\<lambda>(i, w). (hw_keys w, hw_host_pages w, hw_parents w, hw_anchors w)) (hs_in_flight h)"
  by (auto simp: evicted_one_def Let_def on_write_def split: option.splits)

lemma evicted_keys_rest:
  "hs_pool (evicted_keys ks h) = hs_pool h" "hs_next (evicted_keys ks h) = hs_next h"
  "map fst (hs_in_flight (evicted_keys ks h)) = map fst (hs_in_flight h)"
  "map (\<lambda>(i, w). (hw_keys w, hw_host_pages w, hw_parents w, hw_anchors w)) (hs_in_flight (evicted_keys ks h)) =
   map (\<lambda>(i, w). (hw_keys w, hw_host_pages w, hw_parents w, hw_anchors w)) (hs_in_flight h)"
  unfolding evicted_keys_def by (induction ks arbitrary: h) (simp_all add: evicted_one_rest)

lemma on_device_ok: "host_inv h C \<Longrightarrow> device_ok (on_device d lost h) \<Longrightarrow> host_inv (on_device d lost h) C"
  unfolding on_device_def by (rule host_inv_rest [where h = h]) (simp_all add: evicted_keys_rest)

section \<open>Steps\<close>

inductive host_step :: "'k host_writes \<Rightarrow> nat multiset \<Rightarrow> 'k host_writes \<Rightarrow> nat multiset \<Rightarrow> bool" where
  step_place: "can_place rid label groups keys (hs_pool h) \<Longrightarrow>
    host_place rid label groups keys position protected (hs_pool h) = Inr (r, c) \<Longrightarrow> host_step h C (h\<lparr>hs_pool := c\<rparr>) C"
| step_insert_keys: "insert_keys rid label (hs_pool h) = Inr c \<Longrightarrow> host_step h C (h\<lparr>hs_pool := c\<rparr>) C"
| step_discard: "host_discard rid label (hs_pool h) = Inr c \<Longrightarrow> host_step h C (h\<lparr>hs_pool := c\<rparr>) C"
| step_remove_request: "host_remove_request rid (hs_pool h) = Inr c \<Longrightarrow> host_step h C (h\<lparr>hs_pool := c\<rparr>) C"
| step_copy_back: "retain_run keys (hs_pool h) = Inr (ps, c) \<Longrightarrow> host_step h C (h\<lparr>hs_pool := c\<rparr>) (C + mset ps)"
| step_copied_back: "mset ps \<subseteq># C \<Longrightarrow> on_arena (release ps) (hs_pool h) = Inr c \<Longrightarrow> host_step h C (h\<lparr>hs_pool := c\<rparr>) (C - mset ps)"
| step_count_dropped: "host_step h C (h\<lparr>hs_pool := count_dropped keys (hs_pool h)\<rparr>) C"
| step_commit: "host_step h C (count_commit h) C"
| step_image_end: "host_step h C (add_image_end key h) C"
| step_device: "device_ok (on_device d lost h) \<Longrightarrow> host_step h C (on_device d lost h) C"
| step_take: "take_writes done h = Some (Inr (r, h')) \<Longrightarrow> host_step h C h' C"
| step_launch: "host_step h C (launch i failed h) C"
| step_event: "host_step h C (complete_event i h) C"
| step_land: "land h = Inr h' \<Longrightarrow> host_step h C h' C"

inductive_cases host_stepE: "host_step h C h' C'"

inductive host_reach :: "'k host_writes \<Rightarrow> nat multiset \<Rightarrow> bool" where
  host_new: "pool_inv d \<Longrightarrow> new_host_writes (new_cpu_pool (Queue_Free (new_page_allocator n))) d page_bytes = Inr h \<Longrightarrow>
    host_reach h {#}"
| host_next: "host_reach h C \<Longrightarrow> host_step h C h' C' \<Longrightarrow> host_reach h' C'"

lemma new_cpu_pool_ok: "cpu_ok (new_cpu_pool (Queue_Free (new_page_allocator n))) {#}"
proof -
  let ?al = "Queue_Free (new_page_allocator n)"
  have "pool_inv (cp_pages (new_cpu_pool ?al))"
    unfolding new_cpu_pool_def cpu_pool.simps by (rule pool_inv_new [of _ n]) simp
  then show ?thesis
    by (auto simp: cpu_ok_def owned_by_def host_arena_def streams_held_def dicts_ok_def offloaded_streams_def new_cpu_pool_def new_pool_def Let_def
        al_stock_def new_page_allocator_def)
qed

lemma new_host_writes_ok:
  assumes "pool_inv d" "new_host_writes (new_cpu_pool (Queue_Free (new_page_allocator n))) d page_bytes = Inr h"
  shows "host_inv h {#}"
  using assms new_cpu_pool_ok [of n]
  by (auto simp: new_host_writes_def host_inv_def in_writes_def host_pages_held_def device_ok_def hs_queue_def split: if_splits)

lemma pool_step_ok:
  assumes "host_inv h C" "cpu_ok c (in_writes h + C')"
    and "\<And>p. p \<in># in_writes h + C \<Longrightarrow> key_at (cp_pages c) ! p = key_at (cp_pages (hs_pool h)) ! p"
  shows "host_inv (h\<lparr>hs_pool := c\<rparr>) C' \<and> keys_kept h C (h\<lparr>hs_pool := c\<rparr>)"
  by (intro conjI host_inv_pool [OF assms(1,2)]) (use assms(3) in \<open>simp_all add: keys_kept_def\<close>)

lemma keys_kept_same: "hs_pool h' = hs_pool h \<Longrightarrow> keys_kept h C h'"
  by (simp add: keys_kept_def)

lemma host_step_kept:
  assumes "host_step h C h' C'" "host_inv h C"
  shows "host_inv h' C' \<and> keys_kept h C h'"
  using assms
proof (induction rule: host_step.induct)
  case (step_place rid label groups keys h position protected r c C)
  note I = host_invD(1) [OF step_place(3)]
  have "cpu_ok c (in_writes h + C) \<and> (\<forall>p \<in># streams_held (hs_pool h) + (in_writes h + C). key_at (cp_pages c) ! p = key_at (cp_pages (hs_pool h)) ! p)"
    by (rule host_place_ok [OF I step_place(1), of position protected]) (use step_place(2) in simp_all)
  then show ?case by (intro pool_step_ok [OF step_place(3)]) auto
next
  case (step_insert_keys rid label h c C)
  note I = host_invD(1) [OF step_insert_keys(2)]
  obtain st where st: "map_of (streams_of rid (hs_pool h)) label = Some st"
    using step_insert_keys(1) by (auto simp: insert_keys_def streams_of_def split: option.splits)
  obtain s where s: "insert_keys rid label (hs_pool h) = Inr ((hs_pool h)\<lparr>cp_pages := s\<rparr>)" "cpu_ok ((hs_pool h)\<lparr>cp_pages := s\<rparr>) (in_writes h + C)"
    "\<And>p. p \<in># in_writes h + C \<Longrightarrow> key_at s ! p = key_at (cp_pages (hs_pool h)) ! p"
    by (rule insert_keys_ok [OF I st]) (rule that)
  with step_insert_keys(1) show ?case by (intro pool_step_ok [OF step_insert_keys(2)]) auto
next
  case (step_discard rid label h c C)
  obtain c' where c: "host_discard rid label (hs_pool h) = Inr c'" "cpu_ok c' (in_writes h + C)"
    "\<And>p. key_at (cp_pages c') ! p = key_at (cp_pages (hs_pool h)) ! p"
    by (rule host_discard_ok [OF host_invD(1) [OF step_discard(2)], of rid label]) (rule that)
  with step_discard(1) show ?case by (intro pool_step_ok [OF step_discard(2)]) auto
next
  case (step_remove_request rid h c C)
  obtain c' where c: "host_remove_request rid (hs_pool h) = Inr c'" "cpu_ok c' (in_writes h + C)"
    "\<And>p. key_at (cp_pages c') ! p = key_at (cp_pages (hs_pool h)) ! p"
    by (rule host_remove_request_ok [OF host_invD(1) [OF step_remove_request(2)], of rid]) (rule that)
  with step_remove_request(1) show ?case by (intro pool_step_ok [OF step_remove_request(2)]) auto
next
  case (step_copy_back keys h ps c C)
  obtain s where s: "retain_run keys (hs_pool h) = Inr (pages_for keys (cp_pages (hs_pool h)), (hs_pool h)\<lparr>cp_pages := s\<rparr>)"
    "cpu_ok ((hs_pool h)\<lparr>cp_pages := s\<rparr>) (in_writes h + C + mset (pages_for keys (cp_pages (hs_pool h))))" "key_at s = key_at (cp_pages (hs_pool h))"
    by (rule retain_run_ok [OF host_invD(1) [OF step_copy_back(2)], of keys]) (rule that)
  with step_copy_back(1) show ?case by (intro pool_step_ok [OF step_copy_back(2)]) (auto simp: ac_simps)
next
  case (step_copied_back ps C h c)
  have "cpu_ok (hs_pool h) (in_writes h + (C - mset ps) + mset ps)"
    using host_invD(1) [OF step_copied_back(3)] subset_mset.diff_add [OF step_copied_back(1)] by (simp add: add.assoc del: subset_mset.add_diff_assoc)
  then obtain s where "on_arena (release ps) (hs_pool h) = Inr ((hs_pool h)\<lparr>cp_pages := s\<rparr>)"
    "cpu_ok ((hs_pool h)\<lparr>cp_pages := s\<rparr>) (in_writes h + (C - mset ps))" "key_at s = key_at (cp_pages (hs_pool h))"
    by (rule on_arena_release) (rule that)
  with step_copied_back(2) show ?case by (intro pool_step_ok [OF step_copied_back(3)]) auto
next
  case (step_count_dropped h C keys)
  then show ?case by (intro pool_step_ok [OF step_count_dropped]) (auto simp: count_dropped_def dest: host_invD(1))
next
  case (step_device d lost h C)
  have "hs_pool (on_device d lost h) = hs_pool h" by (simp add: on_device_def evicted_keys_rest)
  then show ?case using on_device_ok [OF step_device(2,1)] by (intro conjI keys_kept_same)
next
  case (step_take "done" h r h' C)
  have "\<exists>r h'. take_writes done h = Some (Inr (r, h')) \<and> host_inv h' C \<and> keys_kept h C h'" by (rule take_writes_ok [OF step_take(2)]) blast
  with step_take(1) show ?case by auto
next
  case (step_land h h' C)
  have "\<exists>h'. land h = Inr h' \<and> host_inv h' C \<and> keys_kept h C h'" by (rule land_ok [OF step_land(2)]) (blast intro: names_kept_keys)
  with step_land(1) show ?case by auto
qed (auto simp: count_commit_def add_image_end_def launch_def complete_event_def on_write_def intro: host_inv_queue keys_kept_same
    launch_ok [unfolded launch_def on_write_def] complete_event_ok [unfolded complete_event_def on_write_def])

lemma host_reach_inv: "host_reach h C \<Longrightarrow> host_inv h C"
  by (induction rule: host_reach.induct) (auto intro: new_host_writes_ok dest: host_step_kept)

section \<open>Writes in flight\<close>

text \<open>A write that was listed before a step and still is keeps all but its event and what it cancels.\<close>

definition same_write :: "'k host_write \<Rightarrow> 'k host_write \<Rightarrow> bool" where
  "same_write w v \<longleftrightarrow> hw_keys v = hw_keys w \<and> hw_pages v = hw_pages w \<and> hw_host_pages v = hw_host_pages w \<and> hw_parents v = hw_parents w \<and>
     hw_anchors v = hw_anchors w"

lemma same_write_refl [simp]: "same_write w w"
  by (simp add: same_write_def)

lemma same_write_trans: "same_write u v \<Longrightarrow> same_write v w \<Longrightarrow> same_write u w"
  by (simp add: same_write_def)

definition flights_kept :: "'k host_writes \<Rightarrow> 'k host_writes \<Rightarrow> bool" where
  "flights_kept h h' \<longleftrightarrow> hs_next h \<le> hs_next h' \<and>
     (\<forall>i v. (i, v) \<in> set (hs_in_flight h') \<longrightarrow> i < hs_next h \<longrightarrow> (\<exists>w. (i, w) \<in> set (hs_in_flight h) \<and> same_write w v))"

lemma flights_kept_refl [simp]: "flights_kept h h"
  by (auto simp: flights_kept_def)

lemma flights_kept_trans: "flights_kept h h' \<Longrightarrow> flights_kept h' h'' \<Longrightarrow> flights_kept h h''"
  unfolding flights_kept_def by (meson order.strict_trans2 order.trans same_write_trans)

lemma flights_kept_on_write:
  assumes "\<And>w. same_write w (f w)"
  shows "flights_kept h (on_write i f h)"
  using assms by (auto simp: flights_kept_def on_write_def)

lemma flights_kept_evicted: "flights_kept h (evicted_keys ks h)"
  unfolding evicted_keys_def
proof (induction ks arbitrary: h)
  case (Cons k ks)
  let ?h = "on_queue (\<lambda>q. q\<lparr>hq_queued := dict_del k (hq_queued q), hq_image_ends := hq_image_ends q - {k}\<rparr>) h"
  have q: "flights_kept h ?h" by (auto simp: flights_kept_def)
  have "flights_kept h (evicted_one k h)"
    by (cases "hs_writing ?h k") (auto simp: evicted_one_def Let_def same_write_def intro!: q flights_kept_trans [OF q flights_kept_on_write])
  from flights_kept_trans [OF this Cons.IH] show ?case by simp
qed simp

lemma host_step_flights:
  assumes "host_step h C h' C'" "host_inv h C"
  shows "flights_kept h h'"
  using assms
proof (induction rule: host_step.induct)
  case (step_device d lost h C)
  have "flights_kept h (h\<lparr>hs_index := d\<rparr>)" by (auto simp: flights_kept_def)
  from flights_kept_trans [OF this flights_kept_evicted] show ?case by (simp add: on_device_def)
next
  case (step_take "done" h r h' C)
  have "\<exists>r h'. take_writes done h = Some (Inr (r, h')) \<and> (r = None \<longrightarrow> hs_in_flight h' = hs_in_flight h \<and> hs_next h' = hs_next h) \<and>
      (\<forall>i. r = Some i \<longrightarrow> (\<exists>w. hs_in_flight h' = hs_in_flight h @ [(i, w)] \<and> i = hs_next h \<and> hs_next h' = Suc i))"
    by (rule take_writes_ok [OF step_take(2), where d = "done"]) (fastforce simp: listed_def)
  with step_take(1) show ?case by (cases r) (auto simp: flights_kept_def)
next
  case (step_land h h' C)
  have "\<exists>h'. land h = Inr h' \<and> hs_in_flight h' = filter (\<lambda>(_, w). hw_event w \<noteq> Some True) (hs_in_flight h)"
    by (rule land_ok [OF step_land(2)]) blast
  moreover have "hs_next h' = hs_next h"
  proof -
    have "hs_next g = hs_next h" if "rfold land_write L h = Inr g" for L and g h :: "'a host_writes"
      using that by (rule rfold_invariant [where P = "\<lambda>g. hs_next g = hs_next h"])
        (auto simp: land_write_def on_host'_def rbind_eq_Inr split: if_splits)
    with step_land(1) show ?thesis by (simp add: land_def)
  qed
  ultimately show ?case using step_land(1) by (auto simp: flights_kept_def)
next
  case (step_launch h C i failed)
  show ?case unfolding launch_def by (rule flights_kept_on_write) (simp add: same_write_def)
next
  case (step_event h C i)
  show ?case unfolding complete_event_def by (rule flights_kept_on_write) (simp add: same_write_def)
qed (auto simp: flights_kept_def count_commit_def add_image_end_def)

section \<open>Runs\<close>

inductive host_run :: "'k host_writes \<Rightarrow> nat multiset \<Rightarrow> 'k host_writes \<Rightarrow> nat multiset \<Rightarrow> bool" where
  run_nil: "host_run h C h C"
| run_step: "host_run h C h' C' \<Longrightarrow> host_step h' C' h'' C'' \<Longrightarrow> host_run h C h'' C''"

lemma host_run_reach: "host_run h C h' C' \<Longrightarrow> host_reach h C \<Longrightarrow> host_reach h' C'"
  by (induction rule: host_run.induct) (auto intro: host_next)

text \<open>What a write holds keeps its name until the write has landed.\<close>

lemma run_keeps:
  assumes "host_run h C h' C'" "host_inv h C" "(i, v) \<in> set (hs_in_flight h')" "i < hs_next h"
  shows "\<exists>w. (i, w) \<in> set (hs_in_flight h) \<and> same_write w v \<and>
    (\<forall>a \<in> set (hw_host_pages v @ hw_anchors v). \<forall>k. key_at (cp_pages (hs_pool h)) ! a = Some k \<longrightarrow> key_at (cp_pages (hs_pool h')) ! a = Some k)
    \<and> host_inv h' C' \<and> hs_next h \<le> hs_next h'"
  using assms
proof (induction arbitrary: v rule: host_run.induct)
  case (run_nil h C)
  then show ?case by auto
next
  case (run_step h C h' C' h'' C'')
  have ih: "host_inv h' C' \<and> hs_next h \<le> hs_next h'"
    using run_step(1,4)
  proof (induction rule: host_run.induct)
    case (run_step h C h' C' h'' C'')
    then show ?case using host_step_kept [OF run_step(2)] host_step_flights [OF run_step(2)] by (auto simp: flights_kept_def)
  qed simp
  from host_step_flights [OF run_step(2)] ih run_step(5,6) obtain u where u: "(i, u) \<in> set (hs_in_flight h')" "same_write u v"
    "hs_next h' \<le> hs_next h''" unfolding flights_kept_def by (meson order.strict_trans2)
  from run_step(3) [OF run_step(4) u(1) run_step(6)] obtain w where w: "(i, w) \<in> set (hs_in_flight h)" "same_write w u"
    "\<forall>a \<in> set (hw_host_pages u @ hw_anchors u). \<forall>k. key_at (cp_pages (hs_pool h)) ! a = Some k \<longrightarrow> key_at (cp_pages (hs_pool h')) ! a = Some k" by blast
  have k: "host_inv h'' C''" "keys_kept h' C' h''" using host_step_kept [OF run_step(2)] ih by simp_all
  have "a \<in># in_writes h' + C'" if "a \<in> set (hw_host_pages u @ hw_anchors u)" for a
    using mset_subset_eqD [OF in_writes_member [OF u(1)], of a] that by auto
  then have "\<forall>a \<in> set (hw_host_pages v @ hw_anchors v). \<forall>k. key_at (cp_pages (hs_pool h)) ! a = Some k \<longrightarrow> key_at (cp_pages (hs_pool h'')) ! a = Some k"
    using w(3) k(2) u(2) unfolding keys_kept_def same_write_def by metis
  then show ?case using w(1) same_write_trans [OF w(2) u(2)] k(1) ih u(3) by auto
qed

end
