(* ===== verification/Host_Check.thy ===== *)
theory Host_Check imports Host_Steps begin

text \<open>
  What the properties of the host pool rest on: the counts behind the manager's check, and where a landed
  write leaves its pages.
\<close>

section \<open>The manager's check\<close>

lemma distinct_index_pages:
  assumes "pool_inv s"
  shows "distinct (index_pages s)" "p \<in> set (index_pages s) \<longleftrightarrow> p < pool_size s \<and> key_at s ! p \<noteq> None"
proof -
  note N = names_okD [OF pool_invD(9) [OF assms]]
  have entry: "(k, q) \<in> set (by_key s) \<longleftrightarrow> q < pool_size s \<and> key_at s ! q = Some k" for k q
    using N(1,2) map_of_eq_Some_iff [OF N(1), of k q] by simp
  have "inj_on snd (set (by_key s))" using entry by (auto intro!: inj_onI)
  moreover have "distinct (by_key s)" using N(1) by (simp add: distinct_map)
  ultimately show "distinct (index_pages s)" by (simp add: index_pages_def distinct_map)
  show "p \<in> set (index_pages s) \<longleftrightarrow> p < pool_size s \<and> key_at s ! p \<noteq> None"
    using entry by (force simp: index_pages_def)
qed

lemma owned_pages_ok:
  assumes "owned_by s H"
  shows "owned_pages s = Inr (filter (\<lambda>p. 0 < num_owners s ! p) [0..<pool_size s])"
proof -
  note P = pool_invD [OF owned_byD(1) [OF assms]] and full = owned_byD(5) [OF assms, unfolded host_arena_def]
  have free: "distinct (al_pages (allocator s))" "set (al_pages (allocator s)) = {p. p < pool_size s \<and> num_owners s ! p = 0}"
    using P(6) full by (auto simp: arena_ok_def)
  have len: "length (num_owners s) = pool_size s" using P(3) by simp
  let ?owned = "filter (\<lambda>p. 0 < num_owners s ! p) [0..<pool_size s]"
  have a: "length (al_pages (allocator s)) = card {p. p < pool_size s \<and> num_owners s ! p = 0}"
    using distinct_card [OF free(1)] free(2) by simp
  have b: "length ?owned = card {p. p < pool_size s \<and> 0 < num_owners s ! p}"
    using distinct_card [of ?owned] by (simp add: conj_commute)
  have c: "card {p. p < pool_size s \<and> num_owners s ! p = 0} + card {p. p < pool_size s \<and> 0 < num_owners s ! p} = card {..<pool_size s}"
  proof -
    have U: "{..<pool_size s} = {p. p < pool_size s \<and> num_owners s ! p = 0} \<union> {p. p < pool_size s \<and> 0 < num_owners s ! p}" by auto
    show ?thesis unfolding U by (rule card_Un_disjoint [symmetric]) auto
  qed
  have "length (al_pages (allocator s)) + length ?owned = pool_size s" unfolding a b c by (rule card_lessThan)
  moreover have "set (al_pages (allocator s)) \<inter> set ?owned = {}" unfolding free(2) by auto
  ultimately show ?thesis using len by (simp add: owned_pages_def Let_def)
qed

lemma stream_refs_ok:
  assumes "cpu_ok c X"
  obtains ps where "stream_refs c = Inr ps" "mset ps = streams_held c"
proof -
  have "rfold (\<lambda>st ps. rbind (host_pages st) (\<lambda>qs. Inr (ps @ qs))) sts ps = Inr (ps @ concat (map (\<lambda>st. held_pages (os_groups st)) sts))"
    if "\<forall>st \<in> set sts. os_groups st \<noteq> []" for sts :: "'a offloaded_stream list" and ps
    using that by (induction sts arbitrary: ps) (simp_all add: host_pages_eq)
  moreover have "\<forall>st \<in> set (flat c). os_groups st \<noteq> []"
    using cpu_okD(3) [OF assms] by (auto simp: stream_ok_def offloaded_flat)
  ultimately have "stream_refs c = Inr (concat (map (\<lambda>st. held_pages (os_groups st)) (flat c)))"
    by (simp add: stream_refs_def flat_def)
  moreover have "mset (concat (map (\<lambda>st. held_pages (os_groups st)) (flat c))) = streams_held c"
    by (simp add: streams_held_flat stream_pages_def [abs_def] mset_concat comp_def)
  ultimately show ?thesis using that by blast
qed

lemma assert_host_ok:
  assumes "host_inv h C" "mset (concat copies) = C"
  shows "assert_host_pages_conserved copies h = Inr ()"
proof -
  let ?s = "cp_pages (hs_pool h)" and ?H = "streams_held (hs_pool h) + (in_writes h + C)"
  note O = cpu_okD(1) [OF host_invD(1) [OF assms(1)]]
  note P = distinct_index_pages [OF owned_byD(1) [OF O]]
  let ?owned = "filter (\<lambda>p. 0 < num_owners ?s ! p) [0..<pool_size ?s]"
  obtain ps where ps: "stream_refs (hs_pool h) = Inr ps" "mset ps = streams_held (hs_pool h)"
    by (rule stream_refs_ok [OF host_invD(1) [OF assms(1)]]) (rule that)
  let ?refs = "index_pages ?s @ ps @ concat copies @ host_pages_held h"
  have H: "mset (ps @ concat copies @ host_pages_held h) = ?H" using ps(2) assms(2) by (simp add: in_writes_def ac_simps)
  have cnt: "count_list ?refs p = (if p \<in> set (index_pages ?s) then 1 else 0) + count ?H p" for p
    unfolding H [symmetric] using P(1) by (simp add: count_mset [symmetric] distinct_count_atmost_1)
  have "(if p \<in> set ?owned then num_owners ?s ! p else 0) = count_list ?refs p" if "p \<in> set ?owned \<union> set ?refs" for p
  proof (cases "p < pool_size ?s")
    case True
    then show ?thesis unfolding cnt using owned_byD(3) [OF O True] P(2) [of p] by auto
  next
    case False
    then have "p \<notin># ?H" using owned_byD(2) [OF O] by blast
    then have "p \<notin> set (ps @ concat copies @ host_pages_held h)" unfolding H [symmetric] by simp
    with False P(2) [of p] that show ?thesis by auto
  qed
  then show ?thesis unfolding assert_host_pages_conserved_def Let_def owned_pages_ok [OF O] ps(1) rbind_simps by simp
qed

section \<open>Where a write's pages end up\<close>

lemma landed_names:
  assumes "host_inv h C" "(i, w) \<in> set (hs_in_flight h)" "hw_event w = Some True"
  obtains h' where "land_write (i, w) h = Inr h'" "host_inv h' C"
    "\<And>k. page_for k (cp_pages (hs_pool h)) \<noteq> None \<Longrightarrow> page_for k (cp_pages (hs_pool h')) = page_for k (cp_pages (hs_pool h))"
    "\<And>j. j < length (hw_keys w) \<Longrightarrow> hw_keys w ! j \<notin> hw_cancelled w \<Longrightarrow> page_for (hw_keys w ! j) (cp_pages (hs_pool h')) \<noteq> None"
    "\<And>j. j < length (hw_keys w) \<Longrightarrow> hw_keys w ! j \<notin> hw_cancelled w \<Longrightarrow> page_for (hw_keys w ! j) (cp_pages (hs_pool h)) = None \<Longrightarrow>
      page_for (hw_keys w ! j) (cp_pages (hs_pool h')) = Some (hw_host_pages w ! j) \<and>
      parent (cp_pages (hs_pool h')) ! (hw_host_pages w ! j) =
        (case hw_parents w ! j of None \<Rightarrow> None | Some q \<Rightarrow> page_for q (cp_pages (hs_pool h')))"
proof -
  let ?ts = "zip (hw_keys w) (zip (hw_host_pages w) (hw_parents w))"
  have W: "length (hw_host_pages w) = length (hw_keys w)" "length (hw_parents w) = length (hw_keys w)"
    "\<forall>j < length (hw_keys w). \<forall>q. hw_parents w ! j = Some q \<longrightarrow> q \<notin> set (drop j (hw_keys w))"
    using host_invD(4) [OF assms(1,2)] by (auto simp: write_ok_def)
  obtain h' where h': "land_write (i, w) h = Inr h'" "host_inv h' C"
    "named_all (hw_cancelled w) ?ts (cp_pages (hs_pool h)) (cp_pages (hs_pool h'))" "names_kept h h'"
    by (rule land_write_ok [OF assms(1,2)]) (use assms(3) in \<open>auto intro: that\<close>)
  have stay: "page_for k (cp_pages (hs_pool h')) = page_for k (cp_pages (hs_pool h))" if "page_for k (cp_pages (hs_pool h)) \<noteq> None" for k
    using h'(3) that by (simp add: named_all_def)
  have one: "page_for (hw_keys w ! j) (cp_pages (hs_pool h')) = Some (hw_host_pages w ! j) \<and>
      parent (cp_pages (hs_pool h')) ! (hw_host_pages w ! j) = (case hw_parents w ! j of None \<Rightarrow> None | Some q \<Rightarrow> page_for q (cp_pages (hs_pool h')))"
    if j: "j < length (hw_keys w)" "hw_keys w ! j \<notin> hw_cancelled w" "page_for (hw_keys w ! j) (cp_pages (hs_pool h)) = None" for j
  proof -
    have t: "j < length ?ts" "?ts ! j = (hw_keys w ! j, hw_host_pages w ! j, hw_parents w ! j)" using j(1) W(1,2) by simp_all
    have "fst ` set (drop j ?ts) = set (drop j (hw_keys w))"
      using W(1,2) by (simp add: drop_zip flip: set_map)
    then have "case hw_parents w ! j of None \<Rightarrow> True | Some q \<Rightarrow> q \<notin> fst ` set (drop j ?ts)"
      using W(3) j(1) by (auto split: option.splits)
    with h'(3) t j(2,3) show ?thesis unfolding named_all_def by blast
  qed
  have "page_for (hw_keys w ! j) (cp_pages (hs_pool h')) \<noteq> None" if "j < length (hw_keys w)" "hw_keys w ! j \<notin> hw_cancelled w" for j
  proof (cases "page_for (hw_keys w ! j) (cp_pages (hs_pool h))")
    case None
    then show ?thesis using one [OF that] by simp
  next
    case (Some p)
    then have "page_for (hw_keys w ! j) (cp_pages (hs_pool h')) = Some p" using h'(3) by (simp add: named_all_def)
    then show ?thesis by simp
  qed
  with h'(1,2) stay one that show ?thesis by blast
qed

section \<open>What a step lists\<close>

lemma take_lists:
  assumes "host_inv h C" "take_writes d h = Some (Inr (Some i, h'))"
  shows "\<exists>w. hs_in_flight h' = hs_in_flight h @ [(i, w)] \<and> hw_keys w \<noteq> [] \<and> length (hw_keys w) \<le> hs_per_step h \<and>
    length (hw_host_pages w) = length (hw_keys w) \<and> distinct (hw_keys w) \<and>
    (\<forall>j < length (hw_keys w). page_for (hw_keys w ! j) (hs_index h) = Some (hw_pages w ! j) \<and>
      parent_key (hw_pages w ! j) (hs_index h) = Inr (hw_parents w ! j) \<and> page_for (hw_keys w ! j) (cp_pages (hs_pool h)) = None \<and>
      (\<exists>k. queued_by d (hq_queued (hs_queue h)) k \<and> (above (hs_index h))\<^sup>*\<^sup>* k (hw_keys w ! j)) \<and>
      (case hw_parents w ! j of None \<Rightarrow> True | Some q \<Rightarrow> q \<in> set (take j (hw_keys w)) \<or>
        (\<exists>a \<in> set (hw_anchors w). page_for q (cp_pages (hs_pool h)) = Some a) \<or>
        page_for q (cp_pages (hs_pool h)) = None \<and> (\<exists>v. write_of q h = Some v \<and> q \<notin> hw_cancelled v))) \<and>
    host_inv h' C \<and> hs_next h' = Suc i \<and>
    (\<forall>a \<in> set (hw_anchors w). key_at (cp_pages (hs_pool h')) ! a = key_at (cp_pages (hs_pool h)) ! a)"
proof -
  have "\<exists>keys anchors. takes_ok h d (hq_queued (hs_queue h)) keys anchors \<and> listed h i h' keys anchors \<and> host_inv h' C"
    by (rule take_writes_ok [OF assms(1), where d = d]) (use assms(2) in auto)
  then obtain keys anchors where T: "takes_ok h d (hq_queued (hs_queue h)) keys anchors" "listed h i h' keys anchors" "host_inv h' C" by blast
  obtain w n where w: "hs_in_flight h' = hs_in_flight h @ [(i, w)]" "hw_keys w = take n keys" "hw_keys w \<noteq> []"
    "length (hw_host_pages w) = length (hw_keys w)" "hw_anchors w = anchors"
    "hw_pages w = map (\<lambda>k. the (page_for k (hs_index h))) (hw_keys w)" "hw_parents w = map (parent_of (hs_index h)) (hw_keys w)"
    using T(2) by (auto simp: listed_def)
  have one: "page_for (hw_keys w ! j) (hs_index h) = Some (hw_pages w ! j) \<and>
      parent_key (hw_pages w ! j) (hs_index h) = Inr (hw_parents w ! j) \<and> page_for (hw_keys w ! j) (cp_pages (hs_pool h)) = None \<and>
      (\<exists>k. queued_by d (hq_queued (hs_queue h)) k \<and> (above (hs_index h))\<^sup>*\<^sup>* k (hw_keys w ! j)) \<and>
      (case hw_parents w ! j of None \<Rightarrow> True | Some q \<Rightarrow> q \<in> set (take j (hw_keys w)) \<or>
        (\<exists>a \<in> set (hw_anchors w). page_for q (cp_pages (hs_pool h)) = Some a) \<or>
        page_for q (cp_pages (hs_pool h)) = None \<and> (\<exists>v. write_of q h = Some v \<and> q \<notin> hw_cancelled v))" if j: "j < length (hw_keys w)" for j
  proof -
    have at: "hw_keys w ! j = keys ! j" "take j (hw_keys w) = take j keys" "j < length keys" using j w(2) by simp_all
    then have "taken_ok h d (hq_queued (hs_queue h)) keys anchors j" using T(1) by (simp add: takes_ok_def)
    then obtain p par where p: "page_for (keys ! j) (hs_index h) = Some p" "parent_key p (hs_index h) = Inr par"
      "reached h (set (take j keys)) par" "\<not> reached h (set (take j keys)) (Some (keys ! j))"
      "\<exists>k. queued_by d (hq_queued (hs_queue h)) k \<and> (above (hs_index h))\<^sup>*\<^sup>* k (keys ! j)"
      "case anchor_for h (set (take j keys)) par of None \<Rightarrow> True | Some q \<Rightarrow> q \<in> set anchors"
      unfolding taken_ok_def by blast
    have q: "hw_pages w ! j = p" "hw_parents w ! j = par" using j p(1,2) at(1) w(6,7) by (simp_all add: parent_of_def)
    have "case par of None \<Rightarrow> True | Some q \<Rightarrow> q \<in> set (take j keys) \<or>
        (\<exists>a \<in> set anchors. page_for q (cp_pages (hs_pool h)) = Some a) \<or> page_for q (cp_pages (hs_pool h)) = None \<and> (\<exists>v. write_of q h = Some v \<and> q \<notin> hw_cancelled v)"
      using p(3,6) by (auto simp: reached_def anchor_for_def split: option.splits if_splits)
    then show ?thesis unfolding q at(1,2) w(5) using p(1,2,4,5) by (simp add: reached_def)
  qed
  have "length (hw_keys w) \<le> hs_per_step h" "distinct (hw_keys w)"
    using T(1) takes_ok_order(1) [OF T(1)] w(2) by (auto simp: takes_ok_def)
  with w one T(2,3) show ?thesis by (intro exI [of _ w]) (simp add: listed_def)
qed

lemma dict_del_set: "map_of d k = None \<Longrightarrow> dict_del k (dict_set k v d) = d"
  using dict_del_absent [of k d] by (simp add: dict_set_fresh dict_del_def map_of_eq_None_iff)

text \<open>The whole way of a write, from the step that lists it to its landing.\<close>

lemma landed_below:
  assumes "host_inv h C" "take_writes d h = Some (Inr (Some i, h1))" "host_run h1 C h2 C2"
    and iw: "(i, w) \<in> set (hs_in_flight h2)" "hw_event w = Some True"
    and j: "j < length (hw_keys w)" "hw_keys w ! j \<notin> hw_cancelled w" "page_for (hw_keys w ! j) (cp_pages (hs_pool h2)) = None"
  shows "\<exists>h3. land_write (i, w) h2 = Inr h3 \<and> page_for (hw_keys w ! j) (cp_pages (hs_pool h3)) = Some (hw_host_pages w ! j) \<and>
    parent (cp_pages (hs_pool h3)) ! (hw_host_pages w ! j) =
      (case hw_parents w ! j of None \<Rightarrow> None | Some q \<Rightarrow> page_for q (cp_pages (hs_pool h3))) \<and>
    (case hw_parents w ! j of None \<Rightarrow> True | Some q \<Rightarrow>
      page_for q (cp_pages (hs_pool h)) \<noteq> None \<or> q \<in> set (take j (hw_keys w)) - hw_cancelled w \<longrightarrow> page_for q (cp_pages (hs_pool h3)) \<noteq> None)"
proof -
  obtain v where v: "hs_in_flight h1 = hs_in_flight h @ [(i, v)]" "host_inv h1 C" "hs_next h1 = Suc i"
    and each: "\<forall>j < length (hw_keys v). page_for (hw_keys v ! j) (cp_pages (hs_pool h)) = None \<and>
      (case hw_parents v ! j of None \<Rightarrow> True | Some q \<Rightarrow> q \<in> set (take j (hw_keys v)) \<or>
        (\<exists>a \<in> set (hw_anchors v). page_for q (cp_pages (hs_pool h)) = Some a) \<or> page_for q (cp_pages (hs_pool h)) = None)"
    and stays: "\<forall>a \<in> set (hw_anchors v). key_at (cp_pages (hs_pool h1)) ! a = key_at (cp_pages (hs_pool h)) ! a"
    using take_lists [OF assms(1,2)] by (fastforce split: option.splits)
  have "i < hs_next h1" using v(3) by simp
  from run_keeps [OF assms(3) v(2) iw(1) this] obtain u where u: "(i, u) \<in> set (hs_in_flight h1)" "same_write u w" "host_inv h2 C2"
    "\<forall>a \<in> set (hw_anchors w). \<forall>k. key_at (cp_pages (hs_pool h1)) ! a = Some k \<longrightarrow> key_at (cp_pages (hs_pool h2)) ! a = Some k" by auto
  have "u = v" using u(1) v(1) host_invD(3) [OF v(2)] by (auto simp: image_iff)
  then have same: "hw_keys w = hw_keys v" "hw_parents w = hw_parents v" "hw_anchors w = hw_anchors v" using u(2) by (simp_all add: same_write_def)
  obtain h3 where h3: "land_write (i, w) h2 = Inr h3"
    "\<And>k. page_for k (cp_pages (hs_pool h2)) \<noteq> None \<Longrightarrow> page_for k (cp_pages (hs_pool h3)) = page_for k (cp_pages (hs_pool h2))"
    "\<And>j. j < length (hw_keys w) \<Longrightarrow> hw_keys w ! j \<notin> hw_cancelled w \<Longrightarrow> page_for (hw_keys w ! j) (cp_pages (hs_pool h3)) \<noteq> None"
    "page_for (hw_keys w ! j) (cp_pages (hs_pool h3)) = Some (hw_host_pages w ! j) \<and>
      parent (cp_pages (hs_pool h3)) ! (hw_host_pages w ! j) = (case hw_parents w ! j of None \<Rightarrow> None | Some q \<Rightarrow> page_for q (cp_pages (hs_pool h3)))"
    by (rule landed_names [OF u(3) iw]) (use j in blast)
  have "page_for q (cp_pages (hs_pool h3)) \<noteq> None" if q: "hw_parents w ! j = Some q"
    "page_for q (cp_pages (hs_pool h)) \<noteq> None \<or> q \<in> set (take j (hw_keys w)) - hw_cancelled w" for q
  proof (cases "q \<in> set (take j (hw_keys w))")
    case True
    then obtain m where m: "m < j" "q = hw_keys w ! m" using j(1) by (auto simp: in_set_conv_nth)
    then have "page_for q (cp_pages (hs_pool h)) = None" using each j(1) same(1) by simp
    then have "q \<notin> hw_cancelled w" using q(2) by simp
    then show ?thesis using h3(3) [of m] m j(1) by simp
  next
    case False
    then obtain a where a: "a \<in> set (hw_anchors w)" "page_for q (cp_pages (hs_pool h)) = Some a"
      using each j(1) same q by fastforce
    have "key_at (cp_pages (hs_pool h)) ! a = Some q" using a(2) page_for_eq [OF cpu_okD(1) [OF host_invD(1) [OF assms(1)]]] by simp
    then have "key_at (cp_pages (hs_pool h2)) ! a = Some q" using stays u(4) a(1) same(3) by simp
    moreover have "a \<in># in_writes h2" using mset_subset_eqD [OF in_writes_member [OF iw(1)], of a] a(1) by simp
    then have "a < pool_size (cp_pages (hs_pool h2))" using owned_byD(2) [OF cpu_okD(1) [OF host_invD(1) [OF u(3)]]] by simp
    ultimately have "page_for q (cp_pages (hs_pool h2)) = Some a" using page_for_eq [OF cpu_okD(1) [OF host_invD(1) [OF u(3)]]] by simp
    then show ?thesis using h3(2) [of q] by simp
  qed
  then show ?thesis using h3(1,4) by (intro exI [of _ h3]) (auto split: option.splits)
qed

end
