(* ===== verification/Page_Lru.thy ===== *)
theory Page_Lru imports Page_Evict_Inv begin

text \<open>
  Eviction against its specification. \<open>lru_pages\<close> drops, of the leaves that the index alone holds, the least recently used one
  each time, a leaf whose key \<open>spare\<close> accepts only when no other is left; it knows no heap. The heap of \<open>evict\<close>, with its stale,
  dead and passed-over entries, drops the same pages in the same order, and changes nothing of any other page.
\<close>

section \<open>The specification\<close>

definition spares :: "('k \<Rightarrow> bool) option \<Rightarrow> 'k pool \<Rightarrow> nat \<Rightarrow> bool" where
  "spares spare s p \<longleftrightarrow> (case spare of None \<Rightarrow> False | Some f \<Rightarrow> f (the (key_at s ! p)))"

text \<open>The pages, the pages of \<open>G\<close> dropped before, that the index alone holds and that have no child left.\<close>

definition free_leaves :: "nat list \<Rightarrow> 'k pool \<Rightarrow> nat list" where
  "free_leaves G s = filter (\<lambda>p. p \<notin> set G \<and> key_at s ! p \<noteq> None \<and> num_owners s ! p = 1 \<and>
     list_all (\<lambda>c. c \<in> set G \<or> parent s ! c \<noteq> Some p) [0..<pool_size s]) [0..<pool_size s]"

definition oldest :: "'k pool \<Rightarrow> nat list \<Rightarrow> nat" where
  "oldest s ps = snd (Min ((\<lambda>p. (stamp s ! p, p)) ` set ps))"

definition victims :: "('k \<Rightarrow> bool) option \<Rightarrow> 'k pool \<Rightarrow> nat list \<Rightarrow> nat list" where
  "victims spare s G = (let plain = filter (\<lambda>p. \<not> spares spare s p) (free_leaves G s) in
     if plain = [] then free_leaves G s else plain)"

primrec lru_pages :: "nat \<Rightarrow> ('k \<Rightarrow> bool) option \<Rightarrow> 'k pool \<Rightarrow> nat list \<Rightarrow> nat list" where
  "lru_pages 0 spare s G = []"
| "lru_pages (Suc n) spare s G = (let ps = victims spare s G in
     if ps = [] then [] else oldest s ps # lru_pages n spare s (G @ [oldest s ps]))"

text \<open>\<open>t\<close> is \<open>s\<close> without the pages \<open>G\<close>: they are unindexed and free, and every other page is as it was.\<close>

definition without :: "'k pool \<Rightarrow> nat list \<Rightarrow> 'k pool \<Rightarrow> bool" where
  "without s G t \<longleftrightarrow> distinct G \<and> (\<forall>p \<in> set G. p < pool_size s \<and> key_at s ! p \<noteq> None \<and> num_owners s ! p = 1) \<and>
     pool_size t = pool_size s \<and> num_free t = num_free s + length G \<and> al_stock (allocator t) = al_stock (allocator s) \<and>
     (\<forall>p < pool_size s. if p \<in> set G then key_at t ! p = None \<and> parent t ! p = None \<and> num_owners t ! p = 0 \<and> \<not> sealed t ! p
        else key_at t ! p = key_at s ! p \<and> parent t ! p = parent s ! p \<and> num_owners t ! p = num_owners s ! p \<and> sealed t ! p = sealed s ! p) \<and>
     by_key t = filter (\<lambda>e. snd e \<notin> set G) (by_key s) \<and> evictable t = evictable s - set G \<and>
     stamp t = stamp s \<and> clock t = clock s \<and> held_below t = held_below s \<and> filed t = filed s \<and> taken t = taken s \<and>
     index_set t = index_set s \<and> writes t = writes s \<and> trail t = trail s \<and> trail_hash t = trail_hash s"

lemma without_refl: "without s [] s"
  by (simp add: without_def)

lemma without_leaves [simp]: "without s G (t\<lparr>leaves := h\<rparr>) = without s G t"
  by (simp add: without_def)

lemma withoutD:
  assumes "without s G t"
  shows "pool_size t = pool_size s" "stamp t = stamp s" "index_set t = index_set s" "distinct G"
    "\<And>p. p \<in> set G \<Longrightarrow> p < pool_size s \<and> key_at s ! p \<noteq> None \<and> num_owners s ! p = 1"
    "\<And>p. p < pool_size s \<Longrightarrow> p \<in> set G \<Longrightarrow> key_at t ! p = None \<and> parent t ! p = None \<and> num_owners t ! p = 0"
    "\<And>p. p < pool_size s \<Longrightarrow> p \<notin> set G \<Longrightarrow> key_at t ! p = key_at s ! p \<and> parent t ! p = parent s ! p \<and> num_owners t ! p = num_owners s ! p"
  using assms unfolding without_def by (simp_all split: if_splits)

lemma remove_page_without:
  assumes w: "without s G t" and core: "core_ok [] t" and tree: "tree_ok (insert (st, p) extra) t" and leaf: "bare_leaf p key t"
  obtains t' where "remove_page p t = Inr t'" "core_ok [] t'" "tree_ok extra t'" "without s (G @ [p]) t'" "counts_ok t \<Longrightarrow> counts_ok t'"
    "t' = child_dropped (parent t ! p) (removed p key t)"
proof -
  note C = core_okD [OF core] and B = bare_leafD [OF leaf] and W = withoutD [OF w]
  have T: "names_ok t" "children_ok t" using tree by (simp_all add: tree_ok_def)
  obtain t' where t': "remove_page p t = Inr t'" "core_ok [] t'" "tree_ok extra t'" "counts_ok t \<Longrightarrow> counts_ok t'"
    "pool_size t' = pool_size t" "num_free t' = Suc (num_free t)" "index_set t' = index_set t" "by_key t' = dict_del key (by_key t)"
    "key_at t' = (key_at t)[p := None]" "num_owners t' = (num_owners t)[p := 0]" "evictable t' = evictable t - {p}"
    "al_stock (allocator t') = al_stock (allocator t)"
    by (rule remove_page_inv [OF core tree leaf]) (rule that; assumption)
  have nm: "map_of (by_key t) key = Some p" using names_okD(2) [OF T(1)] B by simp
  have kids0: "kids t p = {}" by (rule no_kids_leaf [OF T(2) B(1,4)])
  have par: "q < pool_size (removed p key t)" if "parent t ! p = Some q" for q
    using that B(1) C(2) kids0 C(1) by (auto simp: links_ok_def kids_def al.put_back_bound)
  have "lens_ok (removed p key t)" by (rule core_okD(1) [OF removed_core(1) [OF core T(2) leaf]])
  from drop_child_ok [OF this, of "parent t ! p"] par have dc: "drop_child (parent t ! p) (removed p key t) = Inr (child_dropped (parent t ! p) (removed p key t))"
    by blast
  then have e: "t' = child_dropped (parent t ! p) (removed p key t)" using remove_page_run [OF C(1) _ leaf] nm t'(1) by simp
  have p: "p < pool_size s" "p \<notin> set G" "key_at s ! p = Some key" "num_owners s ! p = 1"
    using W(1) W(6) [of p] W(7) [of p] B by fastforce+
  have unique: "(k, q) \<in> set (by_key t) \<Longrightarrow> k = key \<longleftrightarrow> q = p" for k q
    using map_of_eq_Some_iff [OF names_okD(1) [OF T(1)], of k q] names_okD(2) [OF T(1), of k q] nm B by auto
  have "by_key t' = filter (\<lambda>e. snd e \<noteq> p) (by_key t)"
    unfolding t'(8) dict_del_def by (rule filter_cong [OF refl]) (use unique in force)
  also have "\<dots> = filter (\<lambda>e. snd e \<notin> set (G @ [p])) (by_key s)"
    using w unfolding without_def by (simp add: conj_commute)
  finally have nms: "by_key t' = filter (\<lambda>e. snd e \<notin> set (G @ [p])) (by_key s)" .
  have len: "length (key_at t) = pool_size t" "length (num_owners t) = pool_size t" "length (parent t) = pool_size t" "length (sealed t) = pool_size t"
    using C(1) by simp_all
  have more: "parent t' = (parent t)[p := None]" "sealed t' = (sealed t)[p := False]" "stamp t' = stamp t" "clock t' = clock t" "held_below t' = held_below t"
    "filed t' = filed t" "taken t' = taken t" "writes t' = writes t" "trail t' = trail t" "trail_hash t' = trail_hash t"
    unfolding e by (simp_all add: child_dropped_def removed_def split: option.splits)
  have pages: "\<forall>q < pool_size s. if q \<in> set (G @ [p]) then key_at t' ! q = None \<and> parent t' ! q = None \<and> num_owners t' ! q = 0 \<and> \<not> sealed t' ! q
        else key_at t' ! q = key_at s ! q \<and> parent t' ! q = parent s ! q \<and> num_owners t' ! q = num_owners s ! q \<and> sealed t' ! q = sealed s ! q"
  proof (intro allI impI)
    fix q assume "q < pool_size s"
    with w have "if q \<in> set G then key_at t ! q = None \<and> parent t ! q = None \<and> num_owners t ! q = 0 \<and> \<not> sealed t ! q
        else key_at t ! q = key_at s ! q \<and> parent t ! q = parent s ! q \<and> num_owners t ! q = num_owners s ! q \<and> sealed t ! q = sealed s ! q"
      by (simp add: without_def)
    then show "if q \<in> set (G @ [p]) then key_at t' ! q = None \<and> parent t' ! q = None \<and> num_owners t' ! q = 0 \<and> \<not> sealed t' ! q
        else key_at t' ! q = key_at s ! q \<and> parent t' ! q = parent s ! q \<and> num_owners t' ! q = num_owners s ! q \<and> sealed t' ! q = sealed s ! q"
      using p(2) len B(1) unfolding more t'(9,10) by (cases "q = p") simp_all
  qed
  have "without s (G @ [p]) t'"
    unfolding without_def by (intro conjI pages nms) (use w p t' more in \<open>auto simp: without_def\<close>)
  with t' e that show ?thesis by blast
qed

section \<open>The heap\<close>

definition fresh :: "(nat \<times> nat) list \<Rightarrow> 'k pool \<Rightarrow> bool" where
  "fresh h s \<longleftrightarrow> (\<forall>e \<in> set h. fst e \<le> stamp s ! snd e)"

text \<open>
  The entries \<open>E\<close>, on the heap or taken off it, name each page once, each an indexed one, and a page's entry comes before
  those of its children and before their stamps. \<open>drop\<close> breaks this, which is why it must not meet \<open>spare\<close>.
\<close>

definition once :: "(nat \<times> nat) list \<Rightarrow> 'k pool \<Rightarrow> bool" where
  "once E s \<longleftrightarrow> distinct (map snd E) \<and> (\<forall>e \<in> set E. snd e < pool_size s \<and> key_at s ! snd e \<noteq> None) \<and>
     (\<forall>c q st. c < pool_size s \<longrightarrow> parent s ! c = Some q \<longrightarrow> (st, q) \<in> set E \<longrightarrow>
        st < stamp s ! c \<and> (\<forall>st'. (st', c) \<in> set E \<longrightarrow> st < st'))"

lemma once_subset:
  assumes "once E s" "distinct (map snd E')" "set E' \<subseteq> set E"
  shows "once E' s"
  using assms unfolding once_def by blast

lemma once_perm: "once E s \<Longrightarrow> mset E' = mset E \<Longrightarrow> once E' s"
  by (rule once_subset) (auto simp: once_def dest: mset_eq_setD, metis mset_eq_imp_distinct_iff mset_map)

lemma once_leaves [simp]: "once E (s\<lparr>leaves := h\<rparr>) = once E s"
  by (simp add: once_def)

lemma fresh_leaves [simp]: "fresh E (s\<lparr>leaves := h\<rparr>) = fresh E s"
  by (simp add: fresh_def)

text \<open>An entry of a page without children may be brought up to the page's stamp.\<close>

lemma once_restamp:
  assumes "once ((st, p) # E) s" "kids s p = {}" "lens_ok s" "st \<le> stamp s ! p"
  shows "once ((stamp s ! p, p) # E) s"
proof -
  have no: "parent s ! c \<noteq> Some p" if "c < pool_size s" for c using assms(2,3) that by (auto simp: kids_def)
  show ?thesis
    unfolding once_def
  proof (intro conjI allI impI)
    show "distinct (map snd ((stamp s ! p, p) # E))" using assms(1) by (simp add: once_def)
    show "\<forall>e \<in> set ((stamp s ! p, p) # E). snd e < pool_size s \<and> key_at s ! snd e \<noteq> None" using assms(1) by (simp add: once_def)
    fix c q st' assume c: "c < pool_size s" "parent s ! c = Some q" "(st', q) \<in> set ((stamp s ! p, p) # E)"
    then have "q \<noteq> p" using no by blast
    then have q: "(st', q) \<in> set ((st, p) # E)" using c(3) by simp
    with assms(1) c show "st' < stamp s ! c" unfolding once_def by blast
    fix st'' assume "(st'', c) \<in> set ((stamp s ! p, p) # E)"
    then consider "c = p" "st'' = stamp s ! p" | "(st'', c) \<in> set ((st, p) # E)" by auto
    then show "st' < st''"
    proof cases
      case 1
      then show ?thesis using \<open>st' < stamp s ! c\<close> by simp
    next
      case 2
      then show ?thesis using assms(1) c(1,2) q unfolding once_def by blast
    qed
  qed
qed

definition off :: "(nat \<times> nat) option \<Rightarrow> (nat \<times> nat) list" where
  "off e = (case e of None \<Rightarrow> [] | Some e \<Rightarrow> [e])"

lemma off_simps [simp]: "off None = []" "off (Some e) = [e]"
  by (simp_all add: off_def)

definition pop_good :: "'k pool \<Rightarrow> (nat \<times> nat) option \<Rightarrow> 'k pool \<Rightarrow> bool" where
  "pop_good s e t \<longleftrightarrow> sorted (leaves t) \<and> fresh (leaves t) s \<and>
     (\<forall>en. e = Some en \<longrightarrow> fst en = stamp s ! snd en \<and> (\<forall>e' \<in> set (leaves t). en \<le> e')) \<and>
     (\<forall>es. once (leaves s @ es) s \<longrightarrow> once (off e @ leaves t @ es) s)"

lemma pop_leaf_unfold:
  assumes "lens_ok s" "leaves s = (st, p) # h" "p < pool_size s"
  shows "pop_leaf s = (if key_at s ! p = None \<or> children s ! p \<noteq> 0 then pop_leaf (s\<lparr>leaves := h\<rparr>)
    else if stamp s ! p \<noteq> st then pop_leaf (s\<lparr>leaves := heappush (stamp s ! p, p) h\<rparr>) else Inr (Some (st, p), s\<lparr>leaves := h\<rparr>))"
  using assms by (auto simp: pop_leaf.simps [of s])

lemma pop_leaf_heap:
  assumes "lens_ok s" "children_ok s" "sorted (leaves s)" "fresh (leaves s) s" "\<forall>e \<in> set (leaves s). snd e < pool_size s"
    and "pop_leaf s = Inr (e, t)"
  shows "pop_good s e t"
  using assms
proof (induction "length (leaves s) + size (filter_mset (stale (stamp s)) (mset (leaves s)))" arbitrary: s rule: less_induct)
  case less
  show ?case
  proof (cases "leaves s")
    case Nil
    with less.prems(6) have "e = None" "t = s" by (simp_all add: pop_leaf.simps [of s])
    with Nil show ?thesis by (simp add: pop_good_def fresh_def)
  next
    case (Cons x h)
    obtain st p where l: "leaves s = (st, p) # h" using Cons by (cases x) auto
    have p: "p < pool_size s" "st \<le> stamp s ! p" using less.prems(4,5) l by (simp_all add: fresh_def)
    have h: "sorted h" "fresh h s" "\<forall>e' \<in> set h. snd e' < pool_size s" "\<forall>e' \<in> set h. (st, p) \<le> e'"
      using less.prems(3-5) l by (simp_all add: fresh_def)
    note run = pop_leaf_unfold [OF less.prems(1) l p(1)]
    have lift: "pop_good s e t" if g: "pop_good (s\<lparr>leaves := h'\<rparr>) e t" and o: "\<And>es. once (leaves s @ es) s \<Longrightarrow> once (h' @ es) s" for h'
      using g o unfolding pop_good_def fresh_def by simp
    show ?thesis
    proof (cases "key_at s ! p = None \<or> children s ! p \<noteq> 0")
      case True
      have "pop_good (s\<lparr>leaves := h\<rparr>) e t"
        by (rule less.hyps) (use less.prems run True h l in \<open>simp_all add: children_ok_def kids_def\<close>)
      then show ?thesis
      proof (rule lift)
        fix es assume "once (leaves s @ es) s"
        then show "once (h @ es) s" by (rule once_subset) (use \<open>once (leaves s @ es) s\<close> l in \<open>auto simp: once_def\<close>)
      qed
    next
      case leaf: False
      then have kids0: "kids s p = {}" using no_kids_leaf [OF less.prems(2) p(1)] by simp
      show ?thesis
      proof (cases "stamp s ! p = st")
        case False
        let ?h = "heappush (stamp s ! p, p) h"
        have pushed: "sorted ?h" "fresh ?h s" "\<forall>e' \<in> set ?h. snd e' < pool_size s" "mset ?h = {#(stamp s ! p, p)#} + mset h"
          using h p by (auto simp: heappush_def sorted_insort fresh_def set_insort_key)
        have again: "pop_leaf (s\<lparr>leaves := ?h\<rparr>) = Inr (e, t)" using less.prems(6) run leaf False by simp
        have kids: "children_ok (s\<lparr>leaves := ?h\<rparr>)" using less.prems(2) by (simp add: children_ok_def kids_def)
        have "pop_good (s\<lparr>leaves := ?h\<rparr>) e t"
          by (rule less.hyps [OF _ _ kids _ _ _ again])
            (use less.prems(1) False pushed l in \<open>simp_all add: stale_def\<close>)
        then show ?thesis
        proof (rule lift)
          fix es assume "once (leaves s @ es) s"
          then have "once ((st, p) # h @ es) s" using l by simp
          from once_restamp [OF this kids0 less.prems(1) p(2)] show "once (?h @ es) s" by (rule once_perm) (simp add: pushed(4))
        qed
      next
        case True
        then have "e = Some (st, p)" "t = s\<lparr>leaves := h\<rparr>" using less.prems(6) run leaf by simp_all
        then show ?thesis using h l True by (simp add: pop_good_def)
      qed
    qed
  qed
qed

end
