(* ===== verification/Page_Lru_Loop.thy ===== *)
theory Page_Lru_Loop imports Page_Lru begin

text \<open>
  The loop of \<open>evict\<close> against \<open>lru_pages\<close>: what holds between its iterations, and that each drops the page the
  specification names.
\<close>

section \<open>Between two iterations\<close>

definition spared_key :: "('k \<Rightarrow> bool) option \<Rightarrow> 'k \<Rightarrow> bool" where
  "spared_key spare k \<longleftrightarrow> (case spare of None \<Rightarrow> False | Some f \<Rightarrow> f k)"

text \<open>An entry set aside for being spared: the page's own stamp, and a key to spare while the page has one.\<close>

definition waits :: "('k \<Rightarrow> bool) option \<Rightarrow> nat \<times> nat \<Rightarrow> 'k pool \<Rightarrow> bool" where
  "waits spare e u \<longleftrightarrow> fst e = stamp u ! snd e \<and> num_owners u ! snd e \<le> 1 \<and>
     (\<forall>k. key_at u ! snd e = Some k \<longrightarrow> spared_key spare k)"

text \<open>\<open>G\<close> was dropped from \<open>s\<close>, which left \<open>u\<close>; the entries of \<open>hand\<close> are off the heap and not yet decided on.\<close>

definition evicting :: "('k \<Rightarrow> bool) option \<Rightarrow> 'k pool \<Rightarrow> nat list \<Rightarrow> (nat \<times> nat) list \<Rightarrow> (nat \<times> nat) list \<Rightarrow>
    (nat \<times> nat) list \<Rightarrow> 'k pool \<Rightarrow> bool" where
  "evicting spare s G hand passed spared u \<longleftrightarrow> without s G u \<and> core_ok [] u \<and>
     tree_ok (set (hand @ passed @ spared)) u \<and> passed_ok passed u \<and> fresh (leaves u @ hand @ passed @ spared) u \<and>
     sorted spared \<and> (\<forall>e \<in> set spared. waits spare e u) \<and>
     (\<forall>e \<in> set (hand @ passed @ spared). snd e < pool_size u \<and> children u ! snd e = 0)"

lemma evictingD:
  assumes "evicting spare s G hand passed spared u"
  shows "without s G u" "core_ok [] u" "tree_ok (set (hand @ passed @ spared)) u" "passed_ok passed u"
    "fresh (leaves u @ hand @ passed @ spared) u" "sorted spared" "\<And>e. e \<in> set spared \<Longrightarrow> waits spare e u"
    "\<And>e. e \<in> set (hand @ passed @ spared) \<Longrightarrow> snd e < pool_size u \<and> children u ! snd e = 0"
    "lens_ok u" "names_ok u" "children_ok u" "leaves_ok (set (hand @ passed @ spared)) u" "owned_ok u" "links_ok u"
  using assms core_okD [of "[]" u] unfolding evicting_def tree_ok_def by blast+

lemma evicting_pop:
  assumes ev: "evicting spare s G [] passed spared u" and pop: "pop_leaf u = Inr (e, t)"
  shows "evicting spare s G (off e) passed spared t" "pop_good u e t" "\<exists>h. t = u\<lparr>leaves := h\<rparr>"
    "e = None \<Longrightarrow> leaves t = []" "\<And>en. e = Some en \<Longrightarrow> key_at t ! snd en \<noteq> None \<and> fst en = stamp t ! snd en \<and> (\<forall>e' \<in> set (leaves t). en \<le> e')"
proof -
  note E = evictingD [OF ev]
  let ?X = "set (passed @ spared)"
  have lv: "leaves_ok ?X u" using E(12) by simp
  obtain h where h: "t = u\<lparr>leaves := h\<rparr>" "popped ?X u e h" using pop_leaf_ok [OF E(9) lv] pop by auto
  have good: "pop_good u e t"
    by (rule pop_leaf_heap [OF E(9,11) _ _ _ pop]) (use lv E(5) in \<open>auto simp: leaves_ok_def fresh_def\<close>)
  then show "pop_good u e t" "\<exists>h. t = u\<lparr>leaves := h\<rparr>" using h by blast+
  have fr: "fresh (leaves t) u" and en: "\<And>en. e = Some en \<Longrightarrow> fst en = stamp u ! snd en \<and> (\<forall>e' \<in> set (leaves t). en \<le> e')"
    using good by (simp_all add: pop_good_def)
  have tr: "tree_ok (set (off e @ passed @ spared)) t"
    unfolding h(1) by (rule tree_ok_leaves [OF _ E(3)]) (use h(2) in \<open>cases e; simp add: popped_def\<close>)
  have "fresh (leaves t @ off e @ passed @ spared) u"
    using fr E(5) en by (cases e) (auto simp: fresh_def)
  moreover have "\<forall>e' \<in> set (off e @ passed @ spared). snd e' < pool_size u \<and> children u ! snd e' = 0"
    using h(2) E(8) by (cases e) (auto simp: popped_def)
  ultimately show "evicting spare s G (off e) passed spared t"
    using E(1,2,4,6,7) tr unfolding h(1) evicting_def by (simp add: passed_ok_def waits_def)
  show "leaves t = []" if "e = None" using h that by (simp add: popped_def)
  show "key_at t ! snd en \<noteq> None \<and> fst en = stamp t ! snd en \<and> (\<forall>e' \<in> set (leaves t). en \<le> e')" if "e = Some en" for en
    using h en that by (simp add: popped_def)
qed

text \<open>The entry an iteration looks at.\<close>

definition looks :: "('k \<Rightarrow> bool) option \<Rightarrow> nat \<times> nat \<Rightarrow> bool \<Rightarrow> (nat \<times> nat) list \<Rightarrow> 'k pool \<Rightarrow> bool" where
  "looks spare en final spared t \<longleftrightarrow> fst en = stamp t ! snd en \<and>
     (if final then leaves t = [] \<and> waits spare en t \<and> (\<forall>e \<in> set spared. en \<le> e)
      else key_at t ! snd en \<noteq> None \<and> (\<forall>e \<in> set (leaves t). en \<le> e))"

lemma next_leaf_run:
  assumes "next_leaf spared u = Inr (pick, spared', t)"
  obtains (heap) en where "pop_leaf u = Inr (Some en, t)" "pick = Some (en, False)" "spared' = spared"
  | (wait) en where "pop_leaf u = Inr (None, t)" "pick = Some (en, True)" "spared = en # spared'"
  | (stop) "pop_leaf u = Inr (None, t)" "pick = None" "spared = []" "spared' = []"
proof -
  obtain e v where pop: "pop_leaf u = Inr (e, v)" using assms by (auto simp: next_leaf_def)
  show ?thesis
  proof (cases e)
    case (Some en)
    then show ?thesis using heap [of en] assms pop by (auto simp: next_leaf_def)
  next
    case None
    then show ?thesis using assms pop stop wait by (cases spared) (auto simp: next_leaf_def)
  qed
qed

lemma evicting_wait:
  assumes ev: "evicting spare s G [] passed (en # spared) t" and "leaves t = []"
  shows "evicting spare s G [en] passed spared t" "looks spare en True spared t"
proof -
  have "set ([] @ passed @ en # spared) = set ([en] @ passed @ spared)" by auto
  then show "evicting spare s G [en] passed spared t" using ev by (simp add: evicting_def fresh_def)
  show "looks spare en True spared t"
    using evictingD(6) [OF ev] evictingD(7) [OF ev, of en] assms(2) by (simp add: looks_def waits_def)
qed

lemma pop_once:
  assumes "pop_good u e t" "t = u\<lparr>leaves := h\<rparr>" "once (leaves u @ es) u"
  shows "once (off e @ leaves t @ es) t"
  using assms unfolding pop_good_def by simp

lemma evicting_next:
  assumes ev: "evicting spare s G [] passed spared u" and nl: "next_leaf spared u = Inr (pick, spared', t)"
  shows "case pick of None \<Rightarrow> spared = [] \<and> spared' = [] \<and> leaves t = [] \<and> evicting spare s G [] passed [] t
    | Some (en, final) \<Rightarrow> evicting spare s G [en] passed spared' t \<and> looks spare en final spared' t"
    "once (leaves u @ passed @ spared) u \<Longrightarrow> once (off (map_option fst pick) @ leaves t @ passed @ spared') t"
    "\<exists>h. t = u\<lparr>leaves := h\<rparr>"
proof -
  from nl have "(case pick of None \<Rightarrow> spared = [] \<and> spared' = [] \<and> leaves t = [] \<and> evicting spare s G [] passed [] t
      | Some (en, final) \<Rightarrow> evicting spare s G [en] passed spared' t \<and> looks spare en final spared' t) \<and>
    (once (leaves u @ passed @ spared) u \<longrightarrow> once (off (map_option fst pick) @ leaves t @ passed @ spared') t) \<and>
    (\<exists>h. t = u\<lparr>leaves := h\<rparr>)"
  proof (cases rule: next_leaf_run)
    case (heap en)
    note P = evicting_pop [OF ev heap(1)]
    obtain h where h: "t = u\<lparr>leaves := h\<rparr>" using P(3) by blast
    have "evicting spare s G [en] passed spared' t" "looks spare en False spared' t"
      using P(1) P(5) [of en] heap(3) by (simp_all add: looks_def)
    moreover note pop_once [OF P(2) h, of "passed @ spared"]
    ultimately show ?thesis using h heap(2,3) by auto
  next
    case (wait en)
    note P = evicting_pop [OF ev wait(1)]
    obtain h where h: "t = u\<lparr>leaves := h\<rparr>" using P(3) by blast
    have E: "evicting spare s G [] passed (en # spared') t" "leaves t = []" using P(1,4) wait(3) by simp_all
    have "once (en # leaves t @ passed @ spared') t" if "once (leaves u @ passed @ spared) u"
    proof -
      from pop_once [OF P(2) h that] wait(3) have "once (leaves t @ passed @ en # spared') t" by simp
      then show ?thesis by (rule once_perm) simp
    qed
    then show ?thesis using evicting_wait [OF E] h wait(2) by auto
  next
    case stop
    note P = evicting_pop [OF ev stop(1)]
    obtain h where h: "t = u\<lparr>leaves := h\<rparr>" using P(3) by blast
    have "evicting spare s G [] passed [] t" "leaves t = []" using P(1,4) stop(3) by simp_all
    moreover note pop_once [OF P(2) h, of "passed @ spared"]
    ultimately show ?thesis using h stop(2-4) by auto
  qed
  then show "case pick of None \<Rightarrow> spared = [] \<and> spared' = [] \<and> leaves t = [] \<and> evicting spare s G [] passed [] t
    | Some (en, final) \<Rightarrow> evicting spare s G [en] passed spared' t \<and> looks spare en final spared' t"
    "once (leaves u @ passed @ spared) u \<Longrightarrow> once (off (map_option fst pick) @ leaves t @ passed @ spared') t"
    "\<exists>h. t = u\<lparr>leaves := h\<rparr>" by blast+
qed

section \<open>The page the specification names\<close>

lemma free_leaf_now:
  assumes ev: "evicting spare s G hand passed spared u"
  shows "q \<in> set (free_leaves G s) \<longleftrightarrow> bare_leaf q (the (key_at u ! q)) u"
    and "q \<in> set (free_leaves G s) \<Longrightarrow> key_at u ! q = key_at s ! q"
proof -
  note E = evictingD [OF ev] and W = withoutD [OF evictingD(1) [OF ev]]
  have "q \<in> set (free_leaves G s) \<longleftrightarrow> bare_leaf q (the (key_at u ! q)) u \<and> q \<notin> set G"
  proof (cases "q < pool_size s \<and> q \<notin> set G")
    case True
    have "parent u ! c = Some q \<longleftrightarrow> c \<notin> set G \<and> parent s ! c = Some q" if "c < pool_size s" for c
      using W(6,7) [OF that] by (cases "c \<in> set G") simp_all
    then have "kids u q = {} \<longleftrightarrow> (\<forall>c < pool_size s. c \<in> set G \<or> parent s ! c \<noteq> Some q)"
      using E(9) W(1) by (auto simp: kids_def)
    moreover have "children u ! q = 0 \<longleftrightarrow> kids u q = {}" using E(11) True W(1) by (simp add: children_ok_def)
    ultimately show ?thesis using W(7) [of q] True W(1)
      by (auto simp: free_leaves_def bare_leaf_def list_all_iff)
  next
    case False
    then show ?thesis using W(1) by (auto simp: free_leaves_def bare_leaf_def)
  qed
  moreover have "\<not> bare_leaf q (the (key_at u ! q)) u" if "q \<in> set G"
    using W(5,6) [of q] that by (auto simp: bare_leaf_def)
  ultimately show now: "q \<in> set (free_leaves G s) \<longleftrightarrow> bare_leaf q (the (key_at u ! q)) u" by blast
  show "key_at u ! q = key_at s ! q" if "q \<in> set (free_leaves G s)"
    using that W(7) [of q] by (auto simp: free_leaves_def)
qed

text \<open>A free leaf has an entry, no later than its stamp, on the heap, in the hand or set aside.\<close>

lemma free_leaf_entry:
  assumes ev: "evicting spare s G hand passed spared u" and q: "q \<in> set (free_leaves G s)"
  obtains st where "(st, q) \<in> set (leaves u @ hand @ spared)" "st \<le> stamp s ! q"
proof -
  note E = evictingD [OF ev]
  have b: "bare_leaf q (the (key_at u ! q)) u" using free_leaf_now(1) [OF ev] q by blast
  have "key_at u ! q \<noteq> None" using bare_leafD(2) [OF b] by (metis option.distinct(1))
  then have "q \<in> snd ` (set (leaves u) \<union> set (hand @ passed @ spared))"
    using E(12) bare_leafD(1,4) [OF b] unfolding leaves_ok_def by blast
  then have "q \<in> snd ` set (leaves u @ hand @ passed @ spared)" by simp
  then obtain e where "e \<in> set (leaves u @ hand @ passed @ spared)" "q = snd e" by (rule imageE)
  then obtain st where st: "(st, q) \<in> set (leaves u @ hand @ passed @ spared)" by (metis prod.collapse)
  have "(st, q) \<notin> set passed" using E(4) bare_leafD(3) [OF b] by (auto simp: passed_ok_def)
  moreover have "fst (st, q) \<le> stamp u ! snd (st, q)" using E(5) st unfolding fresh_def by blast
  then have "st \<le> stamp s ! q" using withoutD(2) [OF E(1)] by simp
  ultimately show ?thesis using that st by auto
qed

lemma spares_now:
  assumes ev: "evicting spare s G hand passed spared u" and q: "q \<in> set (free_leaves G s)"
  shows "spares spare s q \<longleftrightarrow> spared_key spare (the (key_at u ! q))"
  using free_leaf_now(2) [OF ev q] by (simp add: spares_def spared_key_def split: option.splits)

lemma waits_spares:
  assumes ev: "evicting spare s G hand passed spared u" and q: "q \<in> set (free_leaves G s)" and w: "waits spare (st, q) u"
  shows "spares spare s q \<and> st = stamp s ! q"
proof -
  have "key_at u ! q \<noteq> None" using free_leaf_now(1) [OF ev] q by (auto simp: bare_leaf_def)
  then show ?thesis using w spares_now [OF ev q] withoutD(2) [OF evictingD(1) [OF ev]] by (auto simp: waits_def)
qed

lemma oldest_eq:
  assumes "p \<in> set ps" "\<And>q. q \<in> set ps \<Longrightarrow> (stamp s ! p, p) \<le> (stamp s ! q, q)"
  shows "oldest s ps = p"
proof -
  have "Min ((\<lambda>p. (stamp s ! p, p)) ` set ps) = (stamp s ! p, p)" by (rule Min_eqI) (use assms in auto)
  then show ?thesis by (simp add: oldest_def)
qed

lemma chosen:
  assumes ev: "evicting spare s G [en] passed spared t" and look: "looks spare en final spared t"
    and leaf: "bare_leaf (snd en) key t" and plain: "final \<or> \<not> spared_key spare key"
  shows "victims spare s G \<noteq> []" "oldest s (victims spare s G) = snd en"
proof -
  let ?p = "snd en"
  have k: "key_at t ! ?p = Some key" using bare_leafD [OF leaf] by blast
  have p: "?p \<in> set (free_leaves G s)" using free_leaf_now(1) [OF ev] leaf k by simp
  have st: "stamp t = stamp s" using withoutD(2) evictingD(1) [OF ev] by blast
  have en: "en = (stamp s ! ?p, ?p)" using look st by (cases en) (simp add: looks_def)
  have le: "en \<le> (st, q) \<Longrightarrow> st \<le> st' \<Longrightarrow> en \<le> (st', q)" for st st' q by (cases en) auto
  have "?p \<in> set (victims spare s G) \<and> (\<forall>q \<in> set (victims spare s G). en \<le> (stamp s ! q, q))"
  proof (cases final)
    case False
    then have np: "\<not> spares spare s ?p" using plain spares_now [OF ev p] k by simp
    then have vs: "set (victims spare s G) = {q \<in> set (free_leaves G s). \<not> spares spare s q}"
      using p by (auto simp: victims_def Let_def filter_empty_conv)
    have "en \<le> (stamp s ! q, q)" if q: "q \<in> set (free_leaves G s)" "\<not> spares spare s q" for q
    proof -
      obtain st where e: "(st, q) \<in> set (leaves t @ [en] @ spared)" "st \<le> stamp s ! q"
        by (rule free_leaf_entry [OF ev q(1)])
      have "(st, q) \<notin> set spared" using evictingD(7) [OF ev] waits_spares [OF ev q(1)] q(2) by blast
      then have "en \<le> (st, q)" using e(1) look False by (auto simp: looks_def)
      then show ?thesis using le e(2) by blast
    qed
    then show ?thesis using vs p np by blast
  next
    case True
    have all: "spares spare s q \<and> en \<le> (stamp s ! q, q)" if q: "q \<in> set (free_leaves G s)" for q
    proof -
      obtain st where "(st, q) \<in> set (leaves t @ [en] @ spared)" by (rule free_leaf_entry [OF ev q])
      then have "en \<le> (st, q) \<and> waits spare (st, q) t"
        using look True evictingD(7) [OF ev] by (auto simp: looks_def)
      then show ?thesis using waits_spares [OF ev q] by blast
    qed
    then have "victims spare s G = free_leaves G s" by (simp add: victims_def Let_def filter_empty_conv)
    then show ?thesis using p all by simp
  qed
  then show "victims spare s G \<noteq> []" "oldest s (victims spare s G) = ?p"
    using oldest_eq [of ?p "victims spare s G" s] en by auto
qed

lemma no_victims:
  assumes ev: "evicting spare s G [] passed [] t" and "leaves t = []"
  shows "victims spare s G = []" "no_bare_leaf t"
proof -
  have "free_leaves G s = []"
  proof (rule ccontr)
    assume "free_leaves G s \<noteq> []"
    then obtain q where "q \<in> set (free_leaves G s)" by (meson last_in_set)
    then show False by (rule free_leaf_entry [OF ev]) (use assms(2) in simp)
  qed
  then show "victims spare s G = []" by (simp add: victims_def Let_def)
  have "q \<notin> set (free_leaves G s)" for q using \<open>free_leaves G s = []\<close> by simp
  then have none: "\<not> bare_leaf q (the (key_at t ! q)) t" for q using free_leaf_now(1) [OF ev] by blast
  show "no_bare_leaf t"
    unfolding no_bare_leaf_def
  proof (intro allI impI)
    fix p assume p: "p < pool_size t" "key_at t ! p \<noteq> None \<and> children t ! p = 0"
    then have "0 < num_owners t ! p" using evictingD(13) [OF ev] by (auto simp: owned_ok_def)
    moreover have "num_owners t ! p \<noteq> 1" using none [of p] p by (auto simp: bare_leaf_def)
    ultimately show "1 < num_owners t ! p" by linarith
  qed
qed

end
