(* ===== verification/Page_Lru_Evict.thy ===== *)
theory Page_Lru_Evict imports Page_Lru_Loop begin

text \<open>
  \<open>evict\<close>, with whatever it is asked to spare, drops the pages \<open>lru_pages\<close> names, in that order, and nothing of any other page
  changes; and where no page was dropped by \<open>drop\<close> before, or nothing is spared, it returns.
\<close>

section \<open>What an iteration does with its entry\<close>

lemma evicting_pass:
  assumes ev: "evicting spare s G [en] passed spared t" and "1 < num_owners t ! snd en"
  shows "evicting spare s G [] (passed @ [en]) spared t"
proof -
  have "set ([] @ (passed @ [en]) @ spared) = set ([en] @ passed @ spared)" by auto
  then show ?thesis using ev assms(2) by (simp add: evicting_def fresh_def passed_ok_def)
qed

lemma evicting_spare:
  assumes ev: "evicting spare s G [en] passed spared t" and "fst en = stamp t ! snd en" "num_owners t ! snd en \<le> 1"
    "key_at t ! snd en = Some key" "spared_key spare key"
  shows "evicting spare s G [] passed (heappush en spared) t"
proof -
  have "set ([] @ passed @ heappush en spared) = set ([en] @ passed @ spared)" by auto
  moreover have "sorted (heappush en spared)" using evictingD(6) [OF ev] by (simp add: heappush_def sorted_insort)
  moreover have "waits spare en t" using assms(2-5) by (simp add: waits_def)
  ultimately show ?thesis using ev unfolding evicting_def fresh_def by simp
qed

text \<open>What removing a page does to the heap: nothing, or its parent, which had no entry there before it, is pushed.\<close>

lemma removed_leaves:
  assumes lens: "lens_ok t" and kids: "children_ok t" and links: "links_ok t" and leaf: "bare_leaf p key t"
  defines "v \<equiv> child_dropped (parent t ! p) (removed p key t)"
  shows "leaves v = leaves t \<or> (\<exists>q. parent t ! p = Some q \<and> q < pool_size v \<and> key_at v ! q \<noteq> None \<and> children v ! q = 0 \<and>
      leaves v = heappush (stamp v ! q, q) (leaves t))"
    and "e < pool_size t \<Longrightarrow> children t ! e = 0 \<Longrightarrow> children v ! e = 0 \<and> parent t ! p \<noteq> Some e"
    and "pool_size v = pool_size t" "stamp v = stamp t" "key_at v = (key_at t)[p := None]" "parent v = (parent t)[p := None]"
      "num_owners v = (num_owners t)[p := 0]"
proof -
  note B = bare_leafD [OF leaf]
  have size: "pool_size v = pool_size t" by (simp add: v_def al.put_back_bound)
  then show "pool_size v = pool_size t" .
  show st: "stamp v = stamp t" "key_at v = (key_at t)[p := None]" "parent v = (parent t)[p := None]" "num_owners v = (num_owners t)[p := 0]"
    unfolding v_def by (simp_all add: child_dropped_def split: option.splits)
  have kids0: "kids t p = {}" by (rule no_kids_leaf [OF kids B(1,4)])
  have par: "q < pool_size t" "key_at t ! q \<noteq> None" "q \<noteq> p" "children t ! q \<noteq> 0" if q: "parent t ! p = Some q" for q
  proof -
    show "q < pool_size t" "key_at t ! q \<noteq> None" "q \<noteq> p" using q B(1) links kids0 lens by (auto simp: links_ok_def kids_def)
    have "p \<in> kids t q" using q B(1) lens by (simp add: kids_def)
    then show "children t ! q \<noteq> 0" using no_kids_leaf [OF kids \<open>q < pool_size t\<close>] by blast
  qed
  show "leaves v = leaves t \<or> (\<exists>q. parent t ! p = Some q \<and> q < pool_size v \<and> key_at v ! q \<noteq> None \<and> children v ! q = 0 \<and>
      leaves v = heappush (stamp v ! q, q) (leaves t))"
  proof (cases "parent t ! p")
    case None
    then show ?thesis by (simp add: v_def child_dropped_def)
  next
    case (Some q)
    note q = par [OF Some]
    show ?thesis
    proof (cases "children t ! q = 1")
      case True
      have key: "key_at v ! q = key_at t ! q" using q(3) by (simp add: st(2))
      have "children v = (children t)[q := children t ! q - 1]" by (simp add: v_def child_dropped_def Some)
      then have kid: "children v ! q = 0" using True q(1) lens by simp
      have nn: "key_at v ! q \<noteq> None" using key q(2) by (rule ssubst)
      have "leaves v = (if children t ! q = 1 \<and> key_at v ! q \<noteq> None then heappush (stamp v ! q, q) (leaves t) else leaves t)"
        unfolding st(1,2) by (auto simp add: v_def child_dropped_def Some)
      then have up: "leaves v = heappush (stamp v ! q, q) (leaves t)" using True nn by (simp only: simp_thms if_True)
      have in_pool: "q < pool_size v" using q(1) size by simp
      show ?thesis by (intro disjI2 exI [of _ q] conjI) (rule Some in_pool nn kid up)+
    next
      case False
      then show ?thesis using Some by (simp add: v_def child_dropped_def)
    qed
  qed
  show "children v ! e = 0 \<and> parent t ! p \<noteq> Some e" if "e < pool_size t" "children t ! e = 0"
  proof (cases "parent t ! p")
    case None
    then show ?thesis using that by (simp add: v_def child_dropped_def)
  next
    case (Some q)
    then have "q \<noteq> e" using par(4) that(2) by blast
    then show ?thesis using that Some by (simp add: v_def child_dropped_def)
  qed
qed

lemma evicting_drop:
  assumes ev: "evicting spare s G [en] passed spared t" and leaf: "bare_leaf (snd en) key t"
  obtains v where "remove_page (snd en) t = Inr v" "evicting spare s (G @ [snd en]) [] passed spared v"
    "v = child_dropped (parent t ! snd en) (removed (snd en) key t)" "counts_ok t \<Longrightarrow> counts_ok v"
proof -
  note E = evictingD [OF ev] and B = bare_leafD [OF leaf]
  have tree: "tree_ok (insert (fst en, snd en) (set (passed @ spared))) t" using E(3) by simp
  obtain v where v: "remove_page (snd en) t = Inr v" "core_ok [] v" "tree_ok (set (passed @ spared)) v"
    "without s (G @ [snd en]) v" "counts_ok t \<Longrightarrow> counts_ok v"
    "v = child_dropped (parent t ! snd en) (removed (snd en) key t)"
    by (rule remove_page_without [OF E(1,2) tree leaf]) (rule that)
  note L = removed_leaves [OF E(9,11,14) leaf, folded v(6)]
  have fr: "\<forall>e \<in> set (leaves t @ en # passed @ spared). fst e \<le> stamp v ! snd e"
    using E(5) unfolding fresh_def L(4) by simp
  have "fresh (leaves v @ [] @ passed @ spared) v"
    using L(1) fr unfolding fresh_def by (elim disjE exE conjE) auto
  moreover have "passed_ok passed v"
    using E(4) B(3) L(3,7) B(1) unfolding passed_ok_def by (metis less_numeral_extra(4) nth_list_update_neq)
  moreover have "waits spare e v" if "e \<in> set spared" for e
  proof -
    have e: "waits spare e t" "snd e < pool_size t" using E(7) E(8) [of e] that by simp_all
    show ?thesis
    proof (cases "snd e = snd en")
      case True
      then show ?thesis using e E(9) unfolding waits_def L(4,5,7) by simp
    next
      case False
      then show ?thesis using e unfolding waits_def L(4,5,7) by simp
    qed
  qed
  moreover have "snd e < pool_size v \<and> children v ! snd e = 0" if "e \<in> set (passed @ spared)" for e
    using L(2) [of "snd e"] L(3) E(8) [of e] that by auto
  ultimately have "evicting spare s (G @ [snd en]) [] passed spared v"
    using v(2-4) E(6) unfolding evicting_def by auto
  with v that show ?thesis by blast
qed

section \<open>Entries stay single\<close>

lemma once_drop:
  assumes one: "once ((st, p) # E) t" and lens: "lens_ok t" and p: "p < pool_size t"
    and v: "pool_size v = pool_size t" "key_at v = (key_at t)[p := None]" "parent v = (parent t)[p := None]" "stamp v = stamp t"
  shows "once E v"
proof -
  have far: "snd e \<noteq> p" if "e \<in> set E" for e using one that by (auto simp: once_def)
  have up: "parent t ! c = Some q" if "parent v ! c = Some q" "c < pool_size t" for c q
    using that v(3) lens by (cases "c = p") simp_all
  show ?thesis
    unfolding once_def v(1,4)
  proof (intro conjI allI impI ballI)
    show "distinct (map snd E)" using one by (simp add: once_def)
    fix e assume "e \<in> set E"
    then show "snd e < pool_size t" "key_at v ! snd e \<noteq> None" using one far [of e] by (simp_all add: once_def v(2))
  next
    fix c q st' assume c: "c < pool_size t" "parent v ! c = Some q" "(st', q) \<in> set E"
    then have "parent t ! c = Some q" using up by blast
    then have all: "st' < stamp t ! c \<and> (\<forall>st''. (st'', c) \<in> set ((st, p) # E) \<longrightarrow> st' < st'')"
      using one c(1,3) unfolding once_def by (metis list.set_intros(2))
    then show "st' < stamp t ! c" by blast
    show "st' < st''" if "(st'', c) \<in> set E" for st'' using all that by simp
  qed
qed

lemma once_push:
  assumes one: "once E v" and q: "q < pool_size v" "key_at v ! q \<noteq> None" "kids v q = {}" "q \<notin> snd ` set E" and lens: "lens_ok v"
  shows "once ((stamp v ! q, q) # E) v"
proof -
  have no: "parent v ! c \<noteq> Some q" if "c < pool_size v" for c using q(3) lens that by (auto simp: kids_def)
  show ?thesis
    unfolding once_def
  proof (intro conjI allI impI ballI)
    show "distinct (map snd ((stamp v ! q, q) # E))" using one q(4) by (simp add: once_def)
    fix e assume "e \<in> set ((stamp v ! q, q) # E)"
    then show "snd e < pool_size v" "key_at v ! snd e \<noteq> None" using one q(1,2) by (auto simp: once_def)
  next
    fix c r st assume c: "c < pool_size v" "parent v ! c = Some r" "(st, r) \<in> set ((stamp v ! q, q) # E)"
    then have r: "(st, r) \<in> set E" using no by auto
    then have all: "st < stamp v ! c \<and> (\<forall>st'. (st', c) \<in> set E \<longrightarrow> st < st')" using one c(1,2) unfolding once_def by blast
    then show "st < stamp v ! c" by blast
    show "st < st'" if "(st', c) \<in> set ((stamp v ! q, q) # E)" for st' using all that by auto
  qed
qed

lemma evicting_once:
  assumes ev: "evicting spare s G [en] passed spared t" and leaf: "bare_leaf (snd en) key t"
    and v: "v = child_dropped (parent t ! snd en) (removed (snd en) key t)" "core_ok [] v" "children_ok v"
    and first: "\<forall>e \<in> set (leaves t). en \<le> e" and one: "once (en # leaves t @ passed @ spared) t"
  shows "once (leaves v @ passed @ spared) v"
proof -
  note E = evictingD [OF ev] and B = bare_leafD [OF leaf]
  note L = removed_leaves [OF E(9,11,14) leaf, folded v(1)]
  have lv: "lens_ok v" using core_okD(1) [OF v(2)] .
  have one': "once ((fst en, snd en) # leaves t @ passed @ spared) t" using one by simp
  have dropped: "once (leaves t @ passed @ spared) v" by (rule once_drop [OF one' E(9) B(1) L(3,5,6,4)])
  consider "leaves v = leaves t" | (pushed) q where "parent t ! snd en = Some q" "q < pool_size v" "key_at v ! q \<noteq> None" "children v ! q = 0"
    "leaves v = heappush (stamp v ! q, q) (leaves t)" using L(1) by blast
  then show ?thesis
  proof cases
    case 1
    with dropped show ?thesis by simp
  next
    case pushed
    have "q \<noteq> snd e" if e: "e \<in> set (leaves t @ passed @ spared)" for e
    proof
      assume q: "q = snd e"
      have "(fst e, q) \<in> set (en # leaves t @ passed @ spared)" using e q by simp
      then have lt: "fst e < fst en"
        using one pushed(1) B(1) unfolding once_def by (metis list.set_intros(1) prod.collapse)
      from e consider "e \<in> set (leaves t)" | "e \<in> set (passed @ spared)" by auto
      then show False
      proof cases
        case 1
        then have "en \<le> e" using first by blast
        with lt show False by (cases en; cases e) auto
      next
        case 2
        then show False using L(2) [of "snd e"] E(8) [of e] pushed(1) q by auto
      qed
    qed
    then have "q \<notin> snd ` set (leaves t @ passed @ spared)" by blast
    from once_push [OF dropped pushed(2,3) no_kids_leaf [OF v(3) pushed(2,4)] this lv]
    show ?thesis by (rule once_perm) (simp add: pushed(5) heappush_def)
  qed
qed

section \<open>The loop\<close>

lemma loop_stops:
  "\<not> n \<le> length dropped \<Longrightarrow> next_leaf spared u = Inr (None, spared', t) \<Longrightarrow>
    evict_loop n spare dropped passed spared u = Inr (dropped, passed, spared', t)"
  by (simp add: evict_loop.simps [of n])

lemma loop_goes_on:
  assumes "\<not> n \<le> length dropped" "next_leaf spared u = Inr (Some (en, final), spared', t)" "lens_ok t" "snd en < pool_size t"
  shows "evict_loop n spare dropped passed spared u = (if 1 < num_owners t ! snd en then evict_loop n spare dropped (passed @ [en]) spared' t
    else case key_at t ! snd en of None \<Rightarrow> Inl KeyError | Some key \<Rightarrow>
      if \<not> final \<and> spared_key spare key then evict_loop n spare dropped passed (heappush en spared') t
      else rbind (remove_page (snd en) t) (\<lambda>v. evict_loop n spare (dropped @ [key]) passed spared' v))"
  using assms by (simp add: evict_loop.simps [of n spare dropped passed spared u] owners_def spared_key_def cong: option.case_cong)

text \<open>
  What the loop returns, having \<open>G\<close> dropped of \<open>s\<close>. \<open>single\<close>: no page has two entries; then that stays so. \<open>sure\<close>: it must return.
\<close>

definition loop_lru :: "('k \<Rightarrow> bool) option \<Rightarrow> 'k pool \<Rightarrow> nat list \<Rightarrow> nat \<Rightarrow> 'k list \<Rightarrow> bool \<Rightarrow> bool \<Rightarrow>
    ('k list \<times> (nat \<times> nat) list \<times> (nat \<times> nat) list \<times> 'k pool) res \<Rightarrow> bool" where
  "loop_lru spare s G n dropped single sure r \<longleftrightarrow> (case r of Inl _ \<Rightarrow> \<not> sure
   | Inr (ks, passed, spared, t) \<Rightarrow> let G' = lru_pages (n - length dropped) spare s G in
       ks = dropped @ map (\<lambda>p. the (key_at s ! p)) G' \<and> evicting spare s (G @ G') [] passed spared t \<and>
       (length ks < n \<longrightarrow> no_bare_leaf t) \<and> (index_set s \<longrightarrow> set G' \<subseteq> evictable s) \<and>
       (single \<longrightarrow> once (leaves t @ passed @ spared) t))"

lemma loop_lru_mono:
  assumes "loop_lru spare s G n dropped single sure r" "single' \<Longrightarrow> single" "sure' \<Longrightarrow> sure"
  shows "loop_lru spare s G n dropped single' sure' r"
  using assms by (auto simp: loop_lru_def Let_def split: sum.splits)

lemma loop_lru_drop:
  assumes r: "loop_lru spare s (G @ [p]) n (dropped @ [the (key_at s ! p)]) single sure r"
    and "victims spare s G \<noteq> []" "oldest s (victims spare s G) = p" "\<not> n \<le> length dropped" "index_set s \<Longrightarrow> p \<in> evictable s"
  shows "loop_lru spare s G n dropped single sure r"
proof -
  have "n - length dropped = Suc (n - Suc (length dropped))" using assms(4) by simp
  then have "lru_pages (n - length dropped) spare s G = p # lru_pages (n - length (dropped @ [the (key_at s ! p)])) spare s (G @ [p])"
    using assms(2,3) by (simp add: Let_def)
  then show ?thesis using r assms(5) by (auto simp: loop_lru_def Let_def split: sum.splits)
qed

lemma loop_lru_end:
  assumes "evicting spare s G [] passed spared t" "n - length dropped = 0 \<or> victims spare s G = []"
    "length dropped < n \<Longrightarrow> no_bare_leaf t" "single \<Longrightarrow> once (leaves t @ passed @ spared) t"
  shows "loop_lru spare s G n dropped single sure (Inr (dropped, passed, spared, t))"
proof -
  have "lru_pages (n - length dropped) spare s G = []" using assms(2) by (cases "n - length dropped") (auto simp: Let_def)
  then show ?thesis using assms by (simp add: loop_lru_def)
qed

lemma bare_leaf_evictable:
  assumes "evicting spare s G hand passed spared t" "bare_leaf p key t" "index_set s"
  shows "p \<in> evictable s"
proof -
  note E = evictingD [OF assms(1)] and B = bare_leafD [OF assms(2)]
  have "counts_ok t" using core_okD(6) [OF E(2)] withoutD(3) [OF E(1)] assms(3) by simp
  note D = counts_uptoD [OF this]
  have "kids t p = {}" by (rule no_kids_leaf [OF E(11) B(1,4)])
  then have "held_below t ! p = 0" using D(3) [OF B(1)] by (simp add: pinned_kids_def)
  then have "p \<in> evictable t" using D(1) B E(9) by (simp add: evict_set_def)
  then show ?thesis using E(1) by (simp add: without_def)
qed

lemma next_leaf_total:
  assumes "evicting spare s G [] passed spared u"
  shows "\<exists>pick spared' t. next_leaf spared u = Inr (pick, spared', t)"
proof -
  note E = evictingD [OF assms]
  obtain e h where "pop_leaf u = Inr (e, u\<lparr>leaves := h\<rparr>)" using pop_leaf_ok [OF E(9,12)] by blast
  then show ?thesis by (cases e; cases spared) (simp_all add: next_leaf_def)
qed

lemma evict_loop_lru:
  assumes "evicting spare s G [] passed spared u"
  shows "loop_lru spare s G n dropped (once (leaves u @ passed @ spared) u)
    (once (leaves u @ passed @ spared) u \<or> spare = None \<and> spared = []) (evict_loop n spare dropped passed spared u)"
  using assms
proof (induction n spare dropped passed spared u arbitrary: G rule: evict_loop.induct)
  case (1 n spare dropped passed spared u)
  note ev = "1.prems"
  let ?one = "once (leaves u @ passed @ spared) u" and ?sure = "once (leaves u @ passed @ spared) u \<or> spare = None \<and> spared = []"
  show ?case
  proof (cases "n \<le> length dropped")
    case True
    then have "evict_loop n spare dropped passed spared u = Inr (dropped, passed, spared, u)" by (simp add: evict_loop.simps [of n])
    then show ?thesis using True by (auto intro!: loop_lru_end [OF ev])
  next
    case False
    obtain pick spared' t where nl: "next_leaf spared u = Inr (pick, spared', t)" using next_leaf_total [OF ev] by blast
    note N = evicting_next [OF ev nl]
    show ?thesis
    proof (cases pick)
      case None
      then have t: "spared' = []" "leaves t = []" "evicting spare s G [] passed [] t" using N(1) by simp_all
      have run: "evict_loop n spare dropped passed spared u = Inr (dropped, passed, spared', t)"
        by (rule loop_stops [OF False]) (use nl None in simp)
      show ?thesis unfolding run
        by (rule loop_lru_end) (use t no_victims [OF t(3,2)] N(2) None in simp_all)
    next
      case (Some pf)
      obtain en final where pf: "pick = Some (en, final)" using Some by (cases pf) blast
      have t: "evicting spare s G [en] passed spared' t" "looks spare en final spared' t" using N(1) pf by simp_all
      have one: "once (en # leaves t @ passed @ spared') t" if ?one using N(2) [OF that] pf by simp
      have plain: "\<not> final \<and> spared' = []" if "spare = None \<and> spared = []"
        using nl that pf by (auto simp: next_leaf_def split: option.splits list.splits)
      note E = evictingD [OF t(1)]
      have en: "snd en < pool_size t" "children t ! snd en = 0" using E(8) [of en] by simp_all
      note nl' = nl [unfolded pf]
      note run = loop_goes_on [OF False nl' E(9) en(1), of spare passed]
      have own: "owners (snd en) t = Inr (num_owners t ! snd en)" using en(1) E(9) by (simp add: owners_def)
      show ?thesis
      proof (cases "1 < num_owners t ! snd en")
        case True
        have E2: "evicting spare s G [] (passed @ [en]) spared' t" by (rule evicting_pass [OF t(1) True])
        have same: "once (leaves t @ (passed @ [en]) @ spared') t" if ?one by (rule once_perm [OF one [OF that]]) simp
        have "loop_lru spare s G n dropped (once (leaves t @ (passed @ [en]) @ spared') t)
          (once (leaves t @ (passed @ [en]) @ spared') t \<or> spare = None \<and> spared' = []) (evict_loop n spare dropped (passed @ [en]) spared' t)"
          by (rule "1.IH"(1) [OF False nl' refl refl refl refl own True E2])
        then show ?thesis unfolding run if_P [OF True] by (rule loop_lru_mono) (use same plain in blast)+
      next
        case few: False
        show ?thesis
        proof (cases "key_at t ! snd en")
          case None
          have "\<not> ?sure"
          proof
            assume ?sure
            then show False
            proof
              assume ?one
              from one [OF this] None show False by (simp add: once_def)
            next
              assume "spare = None \<and> spared = []"
              from plain [OF this] t(2) None show False by (simp add: looks_def)
            qed
          qed
          then show ?thesis unfolding run if_not_P [OF few] None by (simp add: loop_lru_def)
        next
          case key: (Some key)
          have kat: "get_at (key_at t) (snd en) = Inr (Some key)" using key en(1) E(9) by simp
          have "0 < num_owners t ! snd en" using E(13) en(1) key by (simp add: owned_ok_def)
          then have leaf: "bare_leaf (snd en) key t" using few en key by (simp add: bare_leaf_def)
          show ?thesis
          proof (cases "\<not> final \<and> spared_key spare key")
            case True
            have E2: "evicting spare s G [] passed (heappush en spared') t"
              by (rule evicting_spare [OF t(1) _ _ key]) (use t(2) few True in \<open>simp_all add: looks_def\<close>)
            have same: "once (leaves t @ passed @ heappush en spared') t" if ?one
              by (rule once_perm [OF one [OF that]]) (simp add: heappush_def)
            have sp: "\<not> final \<and> (case spare of None \<Rightarrow> False | Some f \<Rightarrow> f key)" using True by (simp add: spared_key_def)
            then have "spare \<noteq> None" by (cases spare) simp_all
            have "loop_lru spare s G n dropped (once (leaves t @ passed @ heappush en spared') t)
              (once (leaves t @ passed @ heappush en spared') t \<or> spare = None \<and> heappush en spared' = [])
              (evict_loop n spare dropped passed (heappush en spared') t)"
              by (rule "1.IH"(2) [OF False nl' refl refl refl refl own few kat refl sp E2])
            then show ?thesis unfolding run if_not_P [OF few] key option.case if_P [OF True]
              by (rule loop_lru_mono) (use same \<open>spare \<noteq> None\<close> in blast)+
          next
            case dropit: False
            obtain v where v: "remove_page (snd en) t = Inr v" "evicting spare s (G @ [snd en]) [] passed spared' v"
              "v = child_dropped (parent t ! snd en) (removed (snd en) key t)"
              by (rule evicting_drop [OF t(1) leaf]) (rule that)
            have first: "\<forall>e \<in> set (leaves t). en \<le> e" using t(2) by (simp add: looks_def split: if_splits)
            have same: "once (leaves v @ passed @ spared') v" if ?one
              by (rule evicting_once [OF t(1) leaf v(3) _ _ first one [OF that]]) (use evictingD(2,11) [OF v(2)] in blast)+
            have sp: "\<not> (\<not> final \<and> (case spare of None \<Rightarrow> False | Some f \<Rightarrow> f key))" using dropit by (simp add: spared_key_def)
            have ks: "key = the (key_at s ! snd en)"
              using free_leaf_now [OF t(1), of "snd en"] leaf key by (metis option.sel)
            have "final \<or> \<not> spared_key spare key" using dropit by blast
            note lru = chosen [OF t(1,2) leaf this]
            have "loop_lru spare s (G @ [snd en]) n (dropped @ [key]) (once (leaves v @ passed @ spared') v)
              (once (leaves v @ passed @ spared') v \<or> spare = None \<and> spared' = []) (evict_loop n spare (dropped @ [key]) passed spared' v)"
              by (rule "1.IH"(3) [OF False nl' refl refl refl refl own few kat refl sp v(1,2)])
            then have "loop_lru spare s (G @ [snd en]) n (dropped @ [the (key_at s ! snd en)]) ?one ?sure
              (evict_loop n spare (dropped @ [key]) passed spared' v)"
              unfolding ks [symmetric] by (rule loop_lru_mono) (use same plain in blast)+
            from loop_lru_drop [OF this lru False bare_leaf_evictable [OF t(1) leaf]] show ?thesis
              unfolding run if_not_P [OF few] key option.case if_not_P [OF dropit] v(1) by simp
          qed
        qed
      qed
    qed
  qed
qed

section \<open>Eviction\<close>

lemma set_pushed: "set (fold heappush es h) = set es \<union> set h"
  by (induction es arbitrary: h) auto

lemma mset_pushed: "mset (fold heappush es h) = mset es + mset h"
  by (induction es arbitrary: h) (simp_all add: heappush_def)

text \<open>What \<open>evict\<close> did when it returns.\<close>

definition evicts :: "nat \<Rightarrow> ('k \<Rightarrow> bool) option \<Rightarrow> 'k pool \<Rightarrow> nat list \<Rightarrow> 'k list \<Rightarrow> 'k pool \<Rightarrow> bool" where
  "evicts n spare s G ks t \<longleftrightarrow> G = lru_pages n spare s [] \<and> ks = map (\<lambda>p. the (key_at s ! p)) G \<and>
     without s G t \<and> pool_inv t \<and> fresh (leaves t) t \<and> (once (leaves s) s \<longrightarrow> once (leaves t) t) \<and>
     (index_set s \<longrightarrow> length G = min n (card (evictable s)))"

lemma lru_pages_length: "length (lru_pages n spare s G) \<le> n"
  by (induction n arbitrary: G) (simp_all add: Let_def)

lemma evicting_start:
  assumes "pool_inv s" "fresh (leaves s) s"
  shows "evicting spare s [] [] [] [] s"
  using assms without_refl [of s] by (simp add: evicting_def pool_inv_def passed_ok_def fresh_def)

lemma evicts_all:
  assumes ev: "evicting spare s G [] passed spared t" and "set G \<subseteq> evictable s" "index_set s" "length G \<le> n"
    and short: "length G < n \<longrightarrow> no_bare_leaf t" and fin: "finite (evictable s)"
  shows "length G = min n (card (evictable s))"
proof -
  note E = evictingD [OF ev] and W = evictingD(1) [OF ev]
  have card: "card (set G) = length G" using withoutD(4) [OF W] by (rule distinct_card)
  have le: "length G \<le> card (evictable s)" using card_mono [OF fin assms(2)] card by simp
  show ?thesis
  proof (cases "length G < n")
    case True
    have "counts_ok t" using core_okD(6) [OF E(2)] withoutD(3) [OF W] assms(3) by simp
    then have "evictable t = {}"
      using no_bare_leaf_evictable [OF E(9,13,14) _ E(11)] short True E(3) by (simp add: tree_ok_def)
    moreover have "evictable t = evictable s - set G" using W by (simp add: without_def)
    ultimately have "set G = evictable s" using assms(2) by blast
    then show ?thesis using card True by simp
  next
    case False
    then show ?thesis using assms(4) le by simp
  qed
qed

lemma evict_lru:
  assumes inv: "pool_inv s" and fr: "fresh (leaves s) s" and run: "evict n spare s = Inr (ks, t)"
  shows "evicts n spare s (lru_pages n spare s []) ks t"
proof -
  let ?G = "lru_pages n spare s []"
  obtain passed spared u where u: "evict_loop n spare [] [] [] s = Inr (ks, passed, spared, u)"
    "t = u\<lparr>leaves := fold heappush (passed @ spared) (leaves u)\<rparr>"
    using run by (auto simp: evict_def)
  have "loop_lru spare s [] n [] (once (leaves s) s) (once (leaves s) s \<or> spare = None) (Inr (ks, passed, spared, u))"
    using evict_loop_lru [OF evicting_start [OF inv fr, of spare], of n "[]"] u(1) by simp
  then have L: "ks = map (\<lambda>p. the (key_at s ! p)) ?G" "evicting spare s ?G [] passed spared u"
    "length ks < n \<longrightarrow> no_bare_leaf u" "index_set s \<longrightarrow> set ?G \<subseteq> evictable s"
    "once (leaves s) s \<longrightarrow> once (leaves u @ passed @ spared) u"
    by (simp_all add: loop_lru_def Let_def)
  note E = evictingD [OF L(2)]
  have "leaves_ok {} t" unfolding u(2)
    by (rule leaves_ok_push) (use E(8,12) in simp_all)
  then have "pool_inv t" using E(2,3) tree_ok_leaves unfolding u(2) by (auto simp: pool_inv_def)
  moreover have "fresh (leaves t) t" using E(5) by (auto simp: u(2) fresh_def set_pushed simp del: fold_append)
  moreover have "once (leaves t) t" if "once (leaves s) s"
  proof -
    have "once (fold heappush (passed @ spared) (leaves u)) u"
      by (rule once_perm [of "leaves u @ passed @ spared"]) (use L(5) that in \<open>simp_all add: mset_pushed del: fold_append\<close>)
    then show ?thesis by (simp add: u(2) del: fold_append)
  qed
  moreover have "length ?G = min n (card (evictable s))" if "index_set s"
  proof -
    have "evictable s = evict_set s" by (rule counts_uptoD(1) [OF pool_invD(8) [OF inv that]])
    then have "finite (evictable s)" by (simp add: evict_set_def)
    then show ?thesis using evicts_all [OF L(2) _ that lru_pages_length] L(1,3,4) that by simp
  qed
  ultimately show ?thesis using L(1) E(1) by (simp add: evicts_def u(2) del: fold_append)
qed

lemma evict_returns:
  assumes "pool_inv s" "fresh (leaves s) s" "once (leaves s) s \<or> spare = None"
  shows "\<exists>ks t. evict n spare s = Inr (ks, t)"
proof -
  have "loop_lru spare s [] n [] (once (leaves s) s) (once (leaves s) s \<or> spare = None) (evict_loop n spare [] [] [] s)"
    using evict_loop_lru [OF evicting_start [OF assms(1,2), of spare], of n "[]"] by simp
  then obtain ks passed spared u where "evict_loop n spare [] [] [] s = Inr (ks, passed, spared, u)"
    using assms(3) by (cases "evict_loop n spare [] [] [] s") (auto simp: loop_lru_def)
  then show ?thesis by (simp add: evict_def)
qed

end
