(* ===== verification/Page_Stamps.thy ===== *)
theory Page_Stamps imports Page_Lru_Evict begin

text \<open>
  What every call keeps of the stamps and of the heap: no stamp is ahead of the clock, and no entry ahead of its page's stamp
  (\<open>timed\<close>); and, except for \<open>drop\<close>, that no page has two entries (\<open>single\<close>).
\<close>

definition timed :: "'k pool \<Rightarrow> bool" where
  "timed s \<longleftrightarrow> fresh (leaves s) s \<and> (\<forall>p < pool_size s. stamp s ! p \<le> clock s)"

definition single :: "'k pool \<Rightarrow> bool" where
  "single s \<longleftrightarrow> once (leaves s) s"

lemma same_index_stamps:
  assumes "same_index s t" "pool_size t = pool_size s"
  shows "timed t = timed s" "single t = single s"
  using assms by (simp_all add: timed_def single_def fresh_def once_def same_index_def)

section \<open>Touching\<close>

lemma touch_stamps:
  assumes run: "touch ps s = Inr t" and inv: "pool_inv s" and ps: "\<And>p. p \<in> set ps \<Longrightarrow> p < pool_size s" and timed: "timed s"
  obtains c xs where "t = s\<lparr>clock := c, stamp := xs\<rparr>" "\<forall>p < pool_size s. stamp s ! p \<le> xs ! p \<and> xs ! p \<le> c"
proof -
  note P = pool_invD [OF inv]
  let ?ps = "filter (\<lambda>p. key_at s ! p \<noteq> None) ps"
  have len: "\<not> (\<exists>p \<in> set ps. length (key_at s) \<le> p)" using ps P(3) by (auto simp: not_le)
  have old: "\<forall>p < pool_size s. stamp s ! p \<le> clock s" using timed by (simp add: timed_def)
  show ?thesis
  proof (cases "?ps = []")
    case True
    then have "t = s\<lparr>clock := clock s, stamp := stamp s\<rparr>" using run len by (simp add: touch_def)
    then show ?thesis by (rule that) (use old in simp)
  next
    case False
    have "\<exists>xs. rfold (\<lambda>p xs. set_at xs p (Suc (clock s))) ?ps (stamp s) = Inr xs \<and>
        length xs = length (stamp s) \<and>
        (\<forall>p < length (stamp s). xs ! p = (if p \<in> set ?ps then Suc (clock s) else stamp s ! p))"
      by (rule rfold_set_at) (use ps P(3) in simp)
    then obtain xs where xs: "rfold (\<lambda>p xs. set_at xs p (Suc (clock s))) ?ps (stamp s) = Inr xs"
      "\<forall>p < length (stamp s). xs ! p = (if p \<in> set ?ps then Suc (clock s) else stamp s ! p)" by blast
    have "t = s\<lparr>clock := Suc (clock s), stamp := xs\<rparr>" using run len False xs(1) by (simp add: touch_def Let_def)
    then show ?thesis by (rule that) (use xs(2) old P(3) in \<open>auto simp: le_SucI\<close>)
  qed
qed

lemma stamps_rise:
  assumes "timed s" "pool_inv s" "\<forall>p < pool_size s. stamp s ! p \<le> xs ! p \<and> xs ! p \<le> c"
  shows "timed (s\<lparr>clock := c, stamp := xs\<rparr>)" "single s \<Longrightarrow> single (s\<lparr>clock := c, stamp := xs\<rparr>)"
proof -
  have "leaves_ok {} s" using assms(2) by (simp add: pool_inv_def tree_ok_def)
  then have "fst e \<le> xs ! snd e" if "e \<in> set (leaves s)" for e
    using that assms(1,3) unfolding leaves_ok_def timed_def fresh_def by (meson order_trans)
  then show "timed (s\<lparr>clock := c, stamp := xs\<rparr>)" using assms(3) by (simp add: timed_def fresh_def)
  show "single (s\<lparr>clock := c, stamp := xs\<rparr>)" if "single s"
    unfolding single_def once_def
  proof (intro conjI allI impI)
    let ?t = "s\<lparr>clock := c, stamp := xs\<rparr>"
    show "distinct (map snd (leaves ?t))" using that by (simp add: single_def once_def)
    show "\<forall>e \<in> set (leaves ?t). snd e < pool_size ?t \<and> key_at ?t ! snd e \<noteq> None" using that by (simp add: single_def once_def)
    fix d q st assume d: "d < pool_size ?t" "parent ?t ! d = Some q" "(st, q) \<in> set (leaves ?t)"
    then have "st < stamp s ! d \<and> (\<forall>st'. (st', d) \<in> set (leaves s) \<longrightarrow> st < st')"
      using that unfolding single_def once_def by simp
    then show "st < stamp ?t ! d" "\<And>st'. (st', d) \<in> set (leaves ?t) \<Longrightarrow> st < st'"
      using assms(3) d(1) by (auto intro: less_le_trans)
  qed
qed

section \<open>Filing\<close>

definition linked :: "'k pool \<Rightarrow> bool" where
  "linked s \<longleftrightarrow> length (key_at s) = pool_size s \<and> length (parent s) = pool_size s \<and> length (stamp s) = pool_size s \<and>
     (\<forall>e \<in> set (leaves s). snd e < pool_size s) \<and>
     (\<forall>c < pool_size s. \<forall>q. parent s ! c = Some q \<longrightarrow> q < pool_size s \<and> key_at s ! q \<noteq> None)"

lemma linked_inv: "pool_inv s \<Longrightarrow> linked s"
proof -
  assume inv: "pool_inv s"
  have lens: "lens_ok s" and links: "links_ok s" and lv: "leaves_ok {} s"
    using inv core_okD(1,2) [of "[]" s] by (simp_all add: pool_inv_def tree_ok_def)
  have "length (key_at s) = pool_size s" "length (parent s) = pool_size s" "length (stamp s) = pool_size s" using lens by simp_all
  moreover have "\<forall>e \<in> set (leaves s). snd e < pool_size s" using lv unfolding leaves_ok_def by blast
  ultimately show "linked s" using links unfolding linked_def links_ok_def by blast
qed

text \<open>A page filed in the index, as the other calls see it.\<close>

definition filed_as :: "nat \<Rightarrow> 'k \<Rightarrow> nat option \<Rightarrow> 'k pool \<Rightarrow> 'k pool \<Rightarrow> bool" where
  "filed_as p k par s t \<longleftrightarrow> p < length (key_at s) \<and> key_at s ! p = None \<and> pool_size t = pool_size s \<and>
     key_at t = (key_at s)[p := Some k] \<and> parent t = (parent s)[p := par] \<and>
     stamp t = (stamp s)[p := Suc (clock s)] \<and> clock t = Suc (clock s) \<and>
     leaves t = heappush (Suc (clock s), p) (leaves s) \<and>
     (\<forall>q. par = Some q \<longrightarrow> q < length (key_at s) \<and> key_at s ! q \<noteq> None)"

lemma seal_frame:
  assumes "seal ps s = Inr t"
  shows "same_index s t" "allocator t = allocator s"
  using assms by (auto simp: seal_def same_index_def)

lemma add_child_frame:
  assumes "add_child par s = Inr t"
  shows "key_at t = key_at s" "parent t = parent s" "stamp t = stamp s" "clock t = clock s" "leaves t = leaves s" "allocator t = allocator s"
  using assms by (auto simp: add_child_def split: option.splits)

lemma insert_page_filed:
  assumes "insert_page k p par s = Inr (new, t)"
  shows "\<not> new \<and> t = s \<or> (\<exists>par'. filed_as p k par' s t)"
proof (cases "map_of (by_key s) k")
  case (Some q)
  then show ?thesis using assms by (auto simp: insert_page_def split: if_splits)
next
  case None
  note run = assms [unfolded insert_page_def]
  obtain ok where par: "(case par of None \<Rightarrow> Inr True | Some q \<Rightarrow> rbind (get_at (key_at s) q) (\<lambda>k. Inr (k \<noteq> None))) = Inr ok"
    using run by (auto simp del: option.split)
  have ok: ok and free: "get_at (key_at s) p = Inr None" using run unfolding par by (auto simp: None split: if_splits)
  obtain par' where par': "insert_parent par s = Inr par'" using run unfolding par free by (auto simp: None ok)
  obtain s1 where s1: "name_page k p par' s = Inr s1" using run unfolding par free par' by (auto simp: None ok)
  obtain s2 where s2: "seal [p] s1 = Inr s2" using run unfolding par free par' rbind_simps s1 by (auto simp: None ok)
  obtain s3 where s3: "retain [p] s2 = Inr s3" using run unfolding par free par' rbind_simps s1 s2 by (auto simp: None ok)
  obtain s4 where s4': "(if index_set s3 then rbind (owners p s3) (\<lambda>n. if n > 2 then set_shared p True s3 else Inr s3) else Inr s3) = Inr s4"
    and t': "rbind (add_child par' s4) (\<lambda>s. Inr (True, s\<lparr>leaves := heappush (clock s, p) (leaves s)\<rparr>)) = Inr (new, t)"
    using run unfolding par free par' rbind_simps s1 s2 s3 by (auto simp: None ok simp del: if_split)
  have s4: "s4 = s3 \<or> set_shared p True s3 = Inr s4" using s4' by (auto split: if_splits)
  obtain s5 where s5: "add_child par' s4 = Inr s5" and t: "t = s5\<lparr>leaves := heappush (clock s5, p) (leaves s5)\<rparr>"
    using t' by auto
  have "same_index s1 s2 \<and> allocator s2 = allocator s1" using seal_frame [OF s2] by blast
  moreover have "same_index s2 s3 \<and> allocator s3 = allocator s2" using retain_frame [OF s3] by blast
  moreover have "same_index s3 s4 \<and> allocator s4 = allocator s3" using s4 set_shared_frame [of p True s3 s4] by (auto simp: same_arena_def)
  ultimately have a: "same_index s1 s4" "allocator s4 = allocator s1" using same_index_trans by (metis, simp)
  note c = add_child_frame [OF s5]
  have n: "key_at s1 = (key_at s)[p := Some k]" "parent s1 = (parent s)[p := par']" "stamp s1 = (stamp s)[p := Suc (clock s)]"
    "clock s1 = Suc (clock s)" "leaves s1 = leaves s" "allocator s1 = allocator s"
    using s1 by (auto simp: name_page_def Let_def split: if_splits)
  have "q < length (key_at s) \<and> key_at s ! q \<noteq> None" if "par' = Some q" for q
    using par ok par' that by (auto simp: insert_parent_def get_at_Inr split: option.splits if_splits)
  then have "filed_as p k par' s t"
    using free n a c unfolding t filed_as_def by (simp add: get_at_Inr same_index_def)
  then show ?thesis by blast
qed

lemma filed_stamps:
  assumes f: "filed_as p k par s t" and l: "linked s" and timed: "timed s"
  shows "linked t" "timed t" "single s \<Longrightarrow> single t"
proof -
  have F: "p < pool_size s" "key_at s ! p = None" "pool_size t = pool_size s"
     "key_at t = (key_at s)[p := Some k]" "parent t = (parent s)[p := par]"
     "stamp t = (stamp s)[p := Suc (clock s)]" "clock t = Suc (clock s)"
     "leaves t = heappush (Suc (clock s), p) (leaves s)"
     "\<And>q. par = Some q \<Longrightarrow> q < pool_size s \<and> key_at s ! q \<noteq> None"
    using f l by (simp_all add: filed_as_def linked_def)
  have len: "length (key_at s) = pool_size s" "length (parent s) = pool_size s" "length (stamp s) = pool_size s"
    and inside: "\<And>e. e \<in> set (leaves s) \<Longrightarrow> snd e < pool_size s"
    and up: "\<And>c q. c < pool_size s \<Longrightarrow> parent s ! c = Some q \<Longrightarrow> q < pool_size s \<and> key_at s ! q \<noteq> None"
    using l unfolding linked_def by blast+
  have key: "key_at t ! q \<noteq> None" if "key_at s ! q \<noteq> None" for q using that F(1,2,4) len by (cases "q = p") simp_all
  have above: "q < pool_size s \<and> key_at s ! q \<noteq> None" if c: "c < pool_size s" "parent t ! c = Some q" for c q
    using that F(5,9) up [OF c(1)] len by (cases "c = p") simp_all
  show "linked t"
    unfolding linked_def F(3)
  proof (intro conjI ballI allI impI)
    show "length (key_at t) = pool_size s" "length (parent t) = pool_size s" "length (stamp t) = pool_size s" using F len by simp_all
    show "snd e < pool_size s" if "e \<in> set (leaves t)" for e using that F(1,8) inside [of e] by auto
    fix c q assume "c < pool_size s" "parent t ! c = Some q"
    from above [OF this] key show "q < pool_size s" "key_at t ! q \<noteq> None" by blast+
  qed
  have old: "\<And>q. q < pool_size s \<Longrightarrow> stamp s ! q \<le> clock s" and fr: "\<And>e. e \<in> set (leaves s) \<Longrightarrow> fst e \<le> stamp s ! snd e"
    using timed by (simp_all add: timed_def fresh_def)
  have st: "stamp t ! q = (if q = p then Suc (clock s) else stamp s ! q)" if "q < pool_size s" for q using F(6) that len by simp
  have low: "fst e \<le> clock s" if "e \<in> set (leaves s)" for e using fr [OF that] old [OF inside [OF that]] by linarith
  have "fst e \<le> stamp t ! snd e" if "e \<in> set (leaves t)" for e
  proof (cases "e = (Suc (clock s), p)")
    case True
    then show ?thesis using st [OF F(1)] by simp
  next
    case False
    then have "e \<in> set (leaves s)" using that F(8) by simp
    then have "fst e \<le> stamp s ! snd e" "fst e \<le> clock s" "stamp t ! snd e = (if snd e = p then Suc (clock s) else stamp s ! snd e)"
      using fr low st inside by blast+
    then show ?thesis by simp
  qed
  moreover have "stamp t ! q \<le> clock t" if "q < pool_size s" for q using st [OF that] old [OF that] F(7) by simp
  ultimately show "timed t" unfolding timed_def fresh_def F(3) by blast
  show "single t" if one: "single s"
  proof -
    have O: "distinct (map snd (leaves s))" "\<And>e. e \<in> set (leaves s) \<Longrightarrow> key_at s ! snd e \<noteq> None"
      "\<And>c q st. c < pool_size s \<Longrightarrow> parent s ! c = Some q \<Longrightarrow> (st, q) \<in> set (leaves s) \<Longrightarrow> st < stamp s ! c"
      "\<And>c q st st'. c < pool_size s \<Longrightarrow> parent s ! c = Some q \<Longrightarrow> (st, q) \<in> set (leaves s) \<Longrightarrow> (st', c) \<in> set (leaves s) \<Longrightarrow> st < st'"
      using one unfolding single_def once_def by blast+
    have new: "p \<notin> snd ` set (leaves s)" using O(2) F(2) by (metis imageE)
    have "once ((Suc (clock s), p) # leaves s) t"
      unfolding once_def F(3)
    proof (intro conjI allI impI)
      show "distinct (map snd ((Suc (clock s), p) # leaves s))" using O(1) new by simp
      show "\<forall>e \<in> set ((Suc (clock s), p) # leaves s). snd e < pool_size s \<and> key_at t ! snd e \<noteq> None"
        using O(2) key inside F(1,4) len by auto
      fix c q st assume c: "c < pool_size s" "parent t ! c = Some q" "(st, q) \<in> set ((Suc (clock s), p) # leaves s)"
      have "q \<noteq> p" using above [OF c(1,2)] F(2) by auto
      then have q: "(st, q) \<in> set (leaves s)" using c(3) by simp
      have "st < stamp t ! c \<and> (\<forall>st'. (st', c) \<in> set ((Suc (clock s), p) # leaves s) \<longrightarrow> st < st')"
      proof (cases "c = p")
        case True
        have "st \<le> clock s" using low [OF q] by simp
        then show ?thesis using True new st [OF F(1)] by (force simp: image_iff)
      next
        case False
        then have "parent s ! c = Some q" using c(2) F(5) by simp
        then show ?thesis using False O(3,4) [OF c(1) _ q] st [OF c(1)] by auto
      qed
      then show "st < stamp t ! c" "\<And>st'. (st', c) \<in> set ((Suc (clock s), p) # leaves s) \<Longrightarrow> st < st'" by blast+
    qed
    then have "once (leaves t) t" by (rule once_perm) (simp add: F(8) heappush_def)
    then show ?thesis by (simp add: single_def)
  qed
qed

lemma insert_run_stamps:
  assumes "insert_run ks ps par s = Inr (n, t)" "linked s" "timed s"
  shows "timed t \<and> (single s \<longrightarrow> single t)"
  using assms
proof (induction ks ps par s arbitrary: n t rule: insert_run.induct)
  case (2 key ks page ps par s)
  obtain new u where u: "insert_page key page par s = Inr (new, u)" using "2.prems"(1) by auto
  then obtain q m t' where q: "(if new then Inr page else case map_of (by_key u) key of None \<Rightarrow> Inl KeyError | Some p \<Rightarrow> Inr p) = Inr q"
    and r: "insert_run ks ps (Some q) u = Inr (m, t')" "t = t'" using "2.prems"(1) by auto
  have k: "linked u" "timed u" "single s \<Longrightarrow> single u"
    using insert_page_filed [OF u] filed_stamps [OF _ "2.prems"(2,3)] "2.prems"(2,3) by blast+
  from "2.IH" [OF u refl q r(1) k(1,2)] k(3) r(2) show ?case by blast
qed simp_all

section \<open>Dropping and evicting\<close>

lemma tree_ok_mono:
  assumes "tree_ok extra s" "extra \<subseteq> extra'"
  shows "tree_ok extra' s"
  using assms unfolding tree_ok_def leaves_ok_def by blast

lemma drop_entry_inv:
  assumes "pool_inv s"
  obtains s' where "drop_entry e s = Inr s'" "pool_inv s'" "pool_size s' = pool_size s"
    "index_set s' = index_set s" "al_stock (allocator s') = al_stock (allocator s)"
proof (cases "map_of (by_key s) (fst e) = Some (snd e)")
  case False
  with assms that [of s] show ?thesis by (simp add: drop_entry_def)
next
  case True
  note P = pool_invD [OF assms]
  have e: "snd e < pool_size s" "key_at s ! snd e = Some (fst e)"
    using names_okD(2) [OF P(9)] True by simp_all
  show ?thesis
  proof (cases "children s ! snd e = 0 \<and> num_owners s ! snd e = 1")
    case False
    with assms that [of s] e True P(3) show ?thesis by (auto simp: drop_entry_def owners_def)
  next
    case leaf: True
    then have b: "bare_leaf (snd e) (fst e) s" using e by (simp add: bare_leaf_def)
    obtain s' where s': "remove_page (snd e) s = Inr s'" "core_ok [] s'" "tree_ok {} s'" "evicted s [fst e] s'"
      by (rule remove_page_evicted [of s 0 "snd e" "{}", OF P(1) _ b])
        (rule tree_ok_mono [OF P(2)], simp, rule that)
    have "al_stock (allocator s') = al_stock (allocator s)"
      using s'(1) remove_page_run [OF P(3) _ b] True
        drop_child_frame(2) [of "parent s ! snd e" "removed (snd e) (fst e) s" s'] by simp
    with s' that [of s'] e True leaf P(3) show ?thesis
      by (simp add: drop_entry_def owners_def pool_inv_def evicted_def)
  qed
qed

lemma drop_entries_inv:
  assumes "pool_inv s"
  shows "\<exists>s'. drop_entries es s = Inr s' \<and> pool_inv s' \<and> pool_size s' = pool_size s \<and>
    index_set s' = index_set s \<and> al_stock (allocator s') = al_stock (allocator s)"
proof -
  have "\<exists>s'. rfold drop_entry es s = Inr s' \<and> pool_inv s' \<and> pool_size s' = pool_size s \<and>
      index_set s' = index_set s \<and> al_stock (allocator s') = al_stock (allocator s)" for es
    using assms
  proof (induction es arbitrary: s)
    case (Cons e es)
    obtain t where t: "drop_entry e s = Inr t" "pool_inv t" "pool_size t = pool_size s"
      "index_set t = index_set s" "al_stock (allocator t) = al_stock (allocator s)"
      by (rule drop_entry_inv [OF Cons.prems, of e]) (rule that)
    from Cons.IH [OF t(2)] t show ?case by auto
  qed simp
  then show ?thesis by (simp add: drop_entries_def)
qed

lemma drop_entry_timed:
  assumes run: "drop_entry e s = Inr t" and inv: "pool_inv s" and timed: "timed s"
  shows "timed t"
proof (cases "t = s")
  case False
  note P = pool_invD [OF inv]
  have leaf: "bare_leaf (snd e) (fst e) s" and rm: "remove_page (snd e) s = Inr t" and nm: "map_of (by_key s) (fst e) = Some (snd e)"
    using run False names_okD(2) [OF P(9), of "fst e" "snd e"]
    by (auto simp: drop_entry_def owners_def get_at_Inr bare_leaf_def split: if_splits)
  have kids: "children_ok s" using inv by (simp add: pool_inv_def tree_ok_def)
  have core: "core_ok [] s" using inv by (simp add: pool_inv_def)
  note C = core_okD [OF core]
  let ?v = "child_dropped (parent s ! snd e) (removed (snd e) (fst e) s)"
  have B: "snd e < pool_size s" using leaf by (simp add: bare_leaf_def)
  have par: "q < pool_size (removed (snd e) (fst e) s)" if "parent s ! snd e = Some q" for q
    using that C(2) B by (auto simp: links_ok_def al.put_back_bound)
  have "lens_ok (removed (snd e) (fst e) s)" by (rule core_okD(1) [OF removed_core(1) [OF core kids leaf]])
  then have "drop_child (parent s ! snd e) (removed (snd e) (fst e) s) = Inr ?v" using par by (rule drop_child_ok)
  then have t: "t = ?v" using remove_page_run [OF C(1) _ leaf] nm rm by simp
  note L = removed_leaves [OF C(1) kids C(2) leaf, folded t]
  have "clock t = clock s" unfolding t by (simp add: child_dropped_def removed_def split: option.splits)
  moreover have "fresh (leaves t) t"
    using L(1) timed unfolding timed_def fresh_def L(4) by (elim disjE exE conjE) auto
  ultimately show ?thesis using timed L(3,4) by (simp add: timed_def)
qed (use timed in simp)

lemma drop_entries_timed:
  assumes "drop_entries es s = Inr t" "pool_inv s" "timed s"
  shows "timed t"
proof -
  have "timed t" if "rfold drop_entry es s = Inr t" for es
    using that assms(2,3)
  proof (induction es arbitrary: s)
    case (Cons e es)
    obtain u where u: "drop_entry e s = Inr u" "rfold drop_entry es u = Inr t" using Cons.prems(1) by auto
    have "pool_inv u" using u(1) drop_entry_inv [OF Cons.prems(2), of e] by (metis Inr_inject)
    with Cons.IH [OF u(2)] drop_entry_timed [OF u(1) Cons.prems(2,3)] show ?case by blast
  qed simp
  then show ?thesis using assms(1) by (simp add: drop_entries_def)
qed

lemma evict_stamps:
  assumes "evict n spare s = Inr (ks, t)" "pool_inv s" "timed s"
  shows "timed t" "single s \<Longrightarrow> single t"
proof -
  have "evicts n spare s (lru_pages n spare s []) ks t" using evict_lru [OF assms(2) _ assms(1)] assms(3) by (simp add: timed_def)
  then show "timed t" "single s \<Longrightarrow> single t" using assms(3) by (simp_all add: evicts_def without_def timed_def single_def)
qed

end
