(* ===== verification/Page_Runs.thy ===== *)
theory Page_Runs imports Page_Stamps begin

text \<open>
  Runs of a page pool: a step relation with one rule per call of the arena and the index,
  guarded by what their callers promise, and the properties of every reachable pool.
\<close>

section \<open>The steps of a pool\<close>

definition can_retain :: "nat list \<Rightarrow> 'k pool \<Rightarrow> bool" where
  "can_retain ps s \<longleftrightarrow> (\<forall>p \<in> set ps. p < pool_size s \<and> 0 < num_owners s ! p)"

text \<open>A caller releases references it holds; the index's own is not among them.\<close>

definition can_release :: "nat list \<Rightarrow> 'k pool \<Rightarrow> bool" where
  "can_release ps s \<longleftrightarrow> (\<forall>p \<in> set ps. p < pool_size s \<and>
     count_list ps p + (if key_at s ! p \<noteq> None then 1 else 0) \<le> num_owners s ! p)"

inductive call_step :: "'k pool \<Rightarrow> 'k pool \<Rightarrow> bool" where
  call_acquire: "acquire n s = Inr (r, s') \<Longrightarrow> call_step s s'"
| call_seal: "can_retain ps s \<Longrightarrow> seal ps s = Inr s' \<Longrightarrow> call_step s s'"
| call_retain: "can_retain ps s \<Longrightarrow> retain ps s = Inr s' \<Longrightarrow> call_step s s'"
| call_release: "can_release ps s \<Longrightarrow> release ps s = Inr s' \<Longrightarrow> call_step s s'"
| call_touch: "\<forall>p \<in> set ps. p < pool_size s \<Longrightarrow> touch ps s = Inr s' \<Longrightarrow> call_step s s'"
| call_lookup: "lookup ks s = Inr (ps, s') \<Longrightarrow> call_step s s'"
| call_insert: "can_file_run ks ps s \<Longrightarrow> parent_ok par s \<Longrightarrow> insert_run ks ps par s = Inr (n, s') \<Longrightarrow>
    call_step s s'"
| call_evict: "evict n spare s = Inr (ks, s') \<Longrightarrow> call_step s s'"

inductive pool_step :: "'k pool \<Rightarrow> 'k pool \<Rightarrow> bool" where
  step_call: "call_step s s' \<Longrightarrow> pool_step s s'"
| step_drop: "drop_entries es s = Inr s' \<Longrightarrow> pool_step s s'"

lemmas step_acquire = call_acquire [THEN step_call]
lemmas step_seal = call_seal [THEN step_call]
lemmas step_retain = call_retain [THEN step_call]
lemmas step_release = call_release [THEN step_call]
lemmas step_touch = call_touch [THEN step_call]
lemmas step_lookup = call_lookup [THEN step_call]
lemmas step_insert = call_insert [THEN step_call]
lemmas step_evict = call_evict [THEN step_call]

inductive_cases pool_stepE: "pool_step s s'"

definition fresh_allocator :: "allocator \<Rightarrow> bool" where
  "fresh_allocator a \<longleftrightarrow> (case a of Queue_Free q \<Rightarrow> q = new_page_allocator (pa_max_num_pages q)
     | Stack_Free q \<Rightarrow> q = new_free_pages (fp_max_num_pages q))"

inductive pool_reach :: "allocator \<Rightarrow> bool \<Rightarrow> 'k pool \<Rightarrow> bool" for al reports where
  reach_new: "fresh_allocator al \<Longrightarrow> pool_reach al reports (new_pool al reports)"
| reach_step: "pool_reach al reports s \<Longrightarrow> pool_step s s' \<Longrightarrow> pool_reach al reports s'"

text \<open>The pools nothing was dropped from by \<open>drop\<close>: the page pool of the engine is one.\<close>

inductive undropped_reach :: "allocator \<Rightarrow> bool \<Rightarrow> 'k pool \<Rightarrow> bool" for al reports where
  undropped_new: "fresh_allocator al \<Longrightarrow> undropped_reach al reports (new_pool al reports)"
| undropped_step: "undropped_reach al reports s \<Longrightarrow> call_step s s' \<Longrightarrow> undropped_reach al reports s'"

lemma undropped_reach_pool: "undropped_reach al reports s \<Longrightarrow> pool_reach al reports s"
  by (induction rule: undropped_reach.induct) (auto intro: reach_new reach_step step_call)

text \<open>Every call keeps the invariant, the pool's size, its stock and its wiring.\<close>

definition kept :: "'k pool \<Rightarrow> 'k pool \<Rightarrow> bool" where
  "kept s s' \<longleftrightarrow> pool_inv s' \<and> pool_size s' = pool_size s \<and> index_set s' = index_set s \<and>
     al_stock (allocator s') = al_stock (allocator s)"

lemma call_step_kept:
  assumes "call_step s s'" "pool_inv s" "timed s"
  shows "kept s s'"
  using assms
proof (induction rule: call_step.induct)
  case (call_acquire n s r s')
  show ?case
  proof (cases "num_free s < n")
    case True
    with call_acquire acquire_None [OF True] show ?thesis by (simp add: kept_def)
  next
    case False
    then have "n \<le> num_free s" by simp
    from acquire_inv [OF call_acquire(2) this] obtain ps t where
      "acquire n s = Inr (Some ps, t)" "pool_inv t" "same_index s t" "pool_size t = pool_size s"
      "al_stock (allocator t) = al_stock (allocator s)" by metis
    with call_acquire(1) show ?thesis by (simp add: kept_def same_index_def)
  qed
next
  case (call_seal ps s s')
  from call_seal(1) have "\<And>p. p \<in> set ps \<Longrightarrow> p < pool_size s \<and> 0 < num_owners s ! p"
    by (simp add: can_retain_def)
  from seal_inv [OF call_seal(3) this] obtain t where
    "seal ps s = Inr t" "pool_inv t" "same_index s t" "allocator t = allocator s" by metis
  with call_seal(2) show ?case by (simp add: kept_def same_index_def)
next
  case (call_retain ps s s')
  from call_retain(1) have "\<And>p. p \<in> set ps \<Longrightarrow> p < pool_size s \<and> 0 < num_owners s ! p"
    by (simp add: can_retain_def)
  from retain_inv [OF call_retain(3) this] obtain t where
    "retain ps s = Inr t" "pool_inv t" "same_index s t" "allocator t = allocator s" by metis
  with call_retain(2) show ?case by (simp add: kept_def same_index_def)
next
  case (call_release ps s s')
  from call_release(1) have
    "\<And>p. p \<in> set ps \<Longrightarrow> p < pool_size s"
    "\<And>p. p \<in> set ps \<Longrightarrow> count_list ps p + (if key_at s ! p \<noteq> None then 1 else 0) \<le> num_owners s ! p"
    by (simp_all add: can_release_def)
  from release_inv [OF call_release(3) this] obtain t where
    "release ps s = Inr t" "pool_inv t" "same_index s t" "pool_size t = pool_size s"
    "al_stock (allocator t) = al_stock (allocator s)" by metis
  with call_release(2) show ?case by (simp add: kept_def same_index_def)
next
  case (call_touch ps s s')
  then have "\<And>p. p \<in> set ps \<Longrightarrow> p < pool_size s" by blast
  from touch_inv [OF call_touch(3) this] obtain c xs where
    "touch ps s = Inr (s\<lparr>clock := c, stamp := xs\<rparr>)" "pool_inv (s\<lparr>clock := c, stamp := xs\<rparr>)" by metis
  with call_touch(2) show ?case by (auto simp: kept_def)
next
  case (call_lookup ks s ps s')
  then have "touch (pages_for ks s) s = Inr s'" by (auto simp: lookup_def Let_def)
  moreover from touch_inv [OF call_lookup(2) pages_for_indexed(1) [OF pool_invD(9) [OF call_lookup(2)]]]
  obtain c xs where "touch (pages_for ks s) s = Inr (s\<lparr>clock := c, stamp := xs\<rparr>)"
    "pool_inv (s\<lparr>clock := c, stamp := xs\<rparr>)" by metis
  ultimately show ?case by (auto simp: kept_def)
next
  case (call_insert ks ps s par n s')
  obtain m t where
    "insert_run ks ps par s = Inr (m, t)" "pool_inv t" "allocator t = allocator s" "index_set t = index_set s"
    by (rule insert_run_ok [OF call_insert(4,1,2)]) (rule that)
  with call_insert(3) show ?case by (simp add: kept_def)
next
  case (call_evict n spare s ks s')
  have "evicts n spare s (lru_pages n spare s []) ks s'"
    using evict_lru [OF call_evict(2) _ call_evict(1)] call_evict(3) by (simp add: timed_def)
  then show ?case by (simp add: kept_def evicts_def without_def)
qed

lemma same_index_kept:
  assumes "same_index s t" "kept s t" "timed s"
  shows "timed t" "single s \<Longrightarrow> single t"
  using same_index_stamps [OF assms(1)] assms(2,3) by (simp_all add: kept_def)

lemma call_step_stamps:
  assumes "call_step s s'" "pool_inv s" "timed s"
  shows "timed s' \<and> (single s \<longrightarrow> single s')"
proof -
  note k = call_step_kept [OF assms]
  from assms show ?thesis
  proof (cases rule: call_step.cases)
    case (call_acquire n r)
    have "same_index s s'"
    proof (cases "num_free s < n")
      case True
      then show ?thesis using call_acquire acquire_None [OF True] by simp
    next
      case False
      then show ?thesis using acquire_inv [OF assms(2), of n] call_acquire by (metis Inr_inject not_less prod.inject)
    qed
    then show ?thesis using same_index_kept k assms(3) by blast
  next
    case (call_seal ps)
    then show ?thesis using seal_frame same_index_kept k assms(3) by blast
  next
    case (call_retain ps)
    then show ?thesis using retain_frame same_index_kept k assms(3) by blast
  next
    case (call_release ps)
    then show ?thesis using release_frame(1) same_index_kept k assms(3) by blast
  next
    case (call_touch ps)
    show ?thesis
      by (rule touch_stamps [OF call_touch(2) assms(2) _ assms(3)]) (use call_touch(1) stamps_rise [OF assms(3,2)] in blast)+
  next
    case (call_lookup ks ps)
    then have t: "touch (pages_for ks s) s = Inr s'" by (auto simp: lookup_def Let_def)
    have ps: "\<And>p. p \<in> set (pages_for ks s) \<Longrightarrow> p < pool_size s"
      using pages_for_indexed(1) [OF pool_invD(9) [OF assms(2)]] by blast
    show ?thesis by (rule touch_stamps [OF t assms(2) ps assms(3)]) (use stamps_rise [OF assms(3,2)] in blast)+
  next
    case (call_insert ks ps par n)
    show ?thesis by (rule insert_run_stamps [OF call_insert(3) linked_inv [OF assms(2)] assms(3)])
  next
    case (call_evict n spare ks)
    then show ?thesis using evict_stamps [OF call_evict assms(2,3)] by blast
  qed
qed

lemma pool_step_kept:
  assumes "pool_step s s'" "pool_inv s" "timed s"
  shows "kept s s' \<and> timed s'"
  using assms(1)
proof (cases rule: pool_step.cases)
  case step_call
  then show ?thesis using call_step_kept call_step_stamps assms(2,3) by blast
next
  case (step_drop es)
  then have "kept s s'" using drop_entries_inv [OF assms(2), of es] by (auto simp: kept_def)
  then show ?thesis using drop_entries_timed [OF step_drop assms(2,3)] by blast
qed

lemma new_pool_ok:
  fixes s :: "'k pool"
  assumes "fresh_allocator al" and s: "s = new_pool al reports"
  shows "pool_inv s" "pool_size s = al_max al" "index_set s = reports"
    "al_stock (allocator s) = al_stock al" "timed s" "single s"
proof -
  have "al = Queue_Free (new_page_allocator (al_max al)) \<or> al = Stack_Free (new_free_pages (al_max al))"
    using assms by (cases al) (simp_all add: fresh_allocator_def)
  from pool_inv_new [OF this] show "pool_inv s" unfolding s .
  show size: "pool_size s = al_max al" "index_set s = reports"
    "al_stock (allocator s) = al_stock al" by (simp_all add: s new_pool_def Let_def)
  have n: "leaves s = []" "stamp s = replicate (al_max al) 0"
    by (simp_all add: s new_pool_def Let_def)
  then show "timed s" using size(1) by (simp add: timed_def fresh_def)
  show "single s" unfolding single_def once_def n(1) by simp
qed

lemma pool_reach_kept:
  assumes "pool_reach al reports s"
  shows "pool_inv s" "pool_size s = al_max al" "index_set s = reports"
    "al_stock (allocator s) = al_stock al" "timed s"
proof -
  have "pool_inv s \<and> pool_size s = al_max al \<and> index_set s = reports \<and>
      al_stock (allocator s) = al_stock al \<and> timed s"
    using assms
  proof (induction rule: pool_reach.induct)
    case reach_new
    from new_pool_ok [OF reach_new refl, of reports] show ?case by simp
  next
    case (reach_step s s')
    with pool_step_kept [OF reach_step(2)] show ?case by (simp add: kept_def)
  qed
  then show "pool_inv s" "pool_size s = al_max al" "index_set s = reports"
    "al_stock (allocator s) = al_stock al" "timed s" by simp_all
qed

lemma undropped_single: "undropped_reach al reports s \<Longrightarrow> single s"
proof (induction rule: undropped_reach.induct)
  case undropped_new
  then show ?case by (rule new_pool_ok(6)) (rule refl)
next
  case (undropped_step s s')
  note K = pool_reach_kept [OF undropped_reach_pool [OF undropped_step(1)]]
  from call_step_stamps [OF undropped_step(2) K(1,5)] undropped_step(3) show ?case by blast
qed

end
