(* ===== verification/Pool_Props.thy ===== *)
theory Pool_Props imports Page_Runs begin

text \<open>
  The properties of the paged KV pool, each stated over the pools a run of the arena and
  the index can reach, with an instance of each on a pool of four pages.
\<close>

section \<open>A pool of four pages\<close>

lemma can_file_code [code]:
  "can_file p par s \<longleftrightarrow> p < pool_size s \<and> 0 < num_owners s ! p \<and> key_at s ! p = None \<and>
     (case par of None \<Rightarrow> True | Some q \<Rightarrow> q < pool_size s \<and> key_at s ! q \<noteq> None)"
  by (cases par) (simp_all add: can_file_def)

lemma parent_ok_code [code]:
  "parent_ok par s \<longleftrightarrow> (case par of None \<Rightarrow> True | Some q \<Rightarrow> q < pool_size s \<and> key_at s ! q \<noteq> None)"
  by (cases par) (simp_all add: parent_ok_def)

text \<open>Two pages are acquired, filed as a run, and one of them released by its request.\<close>

definition four_pages :: allocator where
  "four_pages = Queue_Free (new_page_allocator 4)"

definition demo_acquired :: "nat pool" where
  "demo_acquired = snd (projr (acquire 2 (new_pool four_pages True)))"

definition demo_filed :: "nat pool" where
  "demo_filed = snd (projr (insert_run [10, 11] [0, 1] None demo_acquired))"

definition demo_released :: "nat pool" where
  "demo_released = projr (release [1] demo_filed)"

lemma demo_reach:
  "pool_reach four_pages True demo_acquired" "pool_reach four_pages True demo_filed"
  "pool_reach four_pages True demo_released"
proof -
  have "is_ok (acquire 2 (new_pool four_pages True :: nat pool))" by code_simp
  then have "acquire 2 (new_pool four_pages True :: nat pool) =
      Inr (fst (projr (acquire 2 (new_pool four_pages True :: nat pool))), demo_acquired)"
    by (simp add: demo_acquired_def ok_projr [symmetric])
  from step_acquire [OF this] reach_new [of four_pages True]
  show a: "pool_reach four_pages True demo_acquired"
    by (auto simp: four_pages_def fresh_allocator_def new_page_allocator_def intro: reach_step)
  have "is_ok (insert_run [10, 11] [0, 1] None demo_acquired)" by code_simp
  then have "insert_run [10, 11] [0, 1] None demo_acquired =
      Inr (fst (projr (insert_run [10, 11] [0, 1] None demo_acquired)), demo_filed)"
    by (simp add: demo_filed_def ok_projr [symmetric])
  from step_insert [OF _ _ this] a show b: "pool_reach four_pages True demo_filed"
    by (rule reach_step [rotated]) code_simp+
  have "is_ok (release [1] demo_filed)" by code_simp
  then have "release [1] demo_filed = Inr demo_released"
    by (simp add: demo_released_def ok_projr [symmetric])
  from step_release [OF _ this] b show "pool_reach four_pages True demo_released"
    by (rule reach_step [rotated]) code_simp
qed

text \<open>Two runs of one page each, released by their request: two leaves, the page of key 10 the older one.\<close>

definition demo_runs :: "nat pool" where
  "demo_runs = snd (projr (insert_run [11] [1] None (snd (projr (insert_run [10] [0] None demo_acquired)))))"

definition demo_leaves :: "nat pool" where
  "demo_leaves = projr (release [0, 1] demo_runs)"

lemma demo_leaves_reach: "undropped_reach four_pages True demo_leaves"
proof -
  have "is_ok (acquire 2 (new_pool four_pages True :: nat pool))" by code_simp
  then have "acquire 2 (new_pool four_pages True :: nat pool) =
      Inr (fst (projr (acquire 2 (new_pool four_pages True :: nat pool))), demo_acquired)"
    by (simp add: demo_acquired_def ok_projr [symmetric])
  from call_acquire [OF this] undropped_new [of four_pages True]
  have a: "undropped_reach four_pages True demo_acquired"
    by (auto simp: four_pages_def fresh_allocator_def new_page_allocator_def intro: undropped_step)
  let ?one = "snd (projr (insert_run [10] [0] None demo_acquired))"
  have "is_ok (insert_run [10] [0] None demo_acquired)" by code_simp
  then have "insert_run [10] [0] None demo_acquired = Inr (fst (projr (insert_run [10] [0] None demo_acquired)), ?one)"
    by (simp add: ok_projr [symmetric])
  from call_insert [OF _ _ this] a have b: "undropped_reach four_pages True ?one"
    by (rule undropped_step [rotated]) code_simp+
  have "is_ok (insert_run [11] [1] None ?one)" by code_simp
  then have "insert_run [11] [1] None ?one = Inr (fst (projr (insert_run [11] [1] None ?one)), demo_runs)"
    by (simp add: demo_runs_def ok_projr [symmetric])
  from call_insert [OF _ _ this] b have c: "undropped_reach four_pages True demo_runs"
    by (rule undropped_step [rotated]) code_simp+
  have "is_ok (release [0, 1] demo_runs)" by code_simp
  then have "release [0, 1] demo_runs = Inr demo_leaves" by (simp add: demo_leaves_def ok_projr [symmetric])
  from call_release [OF _ this] c show ?thesis by (rule undropped_step [rotated]) code_simp
qed

section \<open>Safety\<close>

text \<open>
  C1. Whatever sequence of calls the arena and its index receive (acquire, seal, retain,
  release, touch, lookup, insert, evict with anything to spare, drop), as long as callers retain and release
  only references they hold, the pool's invariant holds: the free list and the owner counts
  agree, the index names each page once, its parent links form a forest whose child
  counts are right, every leaf is on the heap, and, for a pool whose arena reports to the
  index, the evictable set and the held-below counts are exact.
\<close>

theorem pool_invariant:
  assumes "pool_reach al reports s"
  shows "pool_inv s \<and> (reports \<longrightarrow> counts_ok s)"
  using pool_reach_kept [OF assms] pool_invD(8) by auto

theorem pool_invariant_witness:
  "pool_reach four_pages True demo_released \<and> pool_inv demo_released \<and> counts_ok demo_released \<and>
    num_pages demo_released = 2 \<and> evictable demo_released = {1}"
proof -
  have "num_pages demo_released = 2" "evictable demo_released = {1}" by code_simp+
  with pool_invariant [OF demo_reach(3)] demo_reach(3) show ?thesis by simp
qed

text \<open>
  C3. A page is on the free list exactly when it is one the free list may hand out and
  nobody owns it, and no page is on it twice; a page the index names is owned and sealed,
  so it is never handed out or written to while the index can still return it.
\<close>

theorem free_iff_unowned:
  assumes "pool_reach al reports s" and "p < al_max al"
  shows "distinct (al_pages (allocator s)) \<and>
    (p \<in> set (al_pages (allocator s)) \<longleftrightarrow> p \<in> al_stock al \<and> num_owners s ! p = 0) \<and>
    (key_at s ! p \<noteq> None \<longrightarrow> 0 < num_owners s ! p \<and> sealed s ! p \<and> p \<notin> set (al_pages (allocator s)))"
proof -
  note K = pool_reach_kept [OF assms(1)]
  note P = pool_invD(5-7) [OF K(1)]
  from P(1,3) K(2) assms(2) have "key_at s ! p \<noteq> None \<longrightarrow> 0 < num_owners s ! p \<and> sealed s ! p"
    by (simp add: owned_ok_def sealed_ok_def)
  with P(2) K(4) show ?thesis by (simp add: arena_ok_def)
qed

theorem free_iff_unowned_witness:
  "distinct (al_pages (allocator demo_released)) \<and> 2 \<in> set (al_pages (allocator demo_released)) \<and>
    key_at demo_released ! 1 \<noteq> None \<and> sealed demo_released ! 1"
proof -
  have "2 < al_max four_pages" "1 < al_max four_pages" "2 \<in> al_stock four_pages"
    "num_owners demo_released ! 2 = 0" "key_at demo_released ! 1 \<noteq> None" by code_simp+
  with free_iff_unowned [OF demo_reach(3), of 2] free_iff_unowned [OF demo_reach(3), of 1]
  show ?thesis by simp
qed

section \<open>Eviction\<close>

text \<open>
  C2. Eviction is complete, in order, and changes nothing else. Asked for \<open>n\<close> pages, with or without
  keys to spare, \<open>evict\<close> returns the keys of exactly \<open>min n\<close> of the evictable pages: those that a search
  without a heap would drop (\<open>lru_pages\<close>), each time the least recently used of the leaves the index alone
  holds, one to spare only when no other is left. Those pages are then free, unnamed, unowned and unsealed.
  Every other page keeps its key, parent, owners and seal, every page its stamp, so the order of
  later evictions, and the clock, the counts below, the evictable set otherwise, the free list otherwise,
  the queue of writes and the trail are what they were; the pool's invariant (which fixes the child counts and
  the leaves on the heap) holds again. The keys may be spared on any pool that \<open>drop\<close> never ran on, as the
  engine's pool; \<open>spare_after_drop_raises\<close> shows why.
\<close>

theorem evict_complete:
  assumes "pool_reach al True s" "spare = None \<or> undropped_reach al True s"
  shows "\<exists>ks s'. evict n spare s = Inr (ks, s') \<and> ks = map (\<lambda>p. the (key_at s ! p)) (lru_pages n spare s []) \<and>
    length (lru_pages n spare s []) = min n (card (evictable s)) \<and> without s (lru_pages n spare s []) s' \<and> pool_inv s'"
proof -
  note K = pool_reach_kept [OF assms(1)]
  have fr: "fresh (leaves s) s" using K(5) by (simp add: timed_def)
  have "once (leaves s) s \<or> spare = None" using assms(2) undropped_single by (auto simp: single_def)
  then obtain ks t where t: "evict n spare s = Inr (ks, t)" using evict_returns [OF K(1) fr] by blast
  from evict_lru [OF K(1) fr t] t K(3) show ?thesis by (simp add: evicts_def)
qed

theorem evict_complete_witness:
  "\<exists>s'. evict 1 (Some (\<lambda>k. k = 10)) demo_leaves = Inr ([11], s') \<and> key_at s' ! 1 = None \<and>
    key_at s' ! 0 = Some 10 \<and> stamp s' = stamp demo_leaves \<and> evictable s' = {0} \<and> pool_inv s'"
proof -
  let ?G = "lru_pages 1 (Some (\<lambda>k. k = 10)) demo_leaves []"
  have v: "?G = [1]" "key_at demo_leaves ! 1 = Some 11" "key_at demo_leaves ! 0 = Some 10" "evictable demo_leaves = {0, 1}"
    "pool_size demo_leaves = 4" by code_simp+
  obtain ks s' where e: "evict 1 (Some (\<lambda>k. k = 10)) demo_leaves = Inr (ks, s')"
    "ks = map (\<lambda>p. the (key_at demo_leaves ! p)) ?G" "without demo_leaves ?G s'" "pool_inv s'"
    using evict_complete [OF undropped_reach_pool [OF demo_leaves_reach], of "Some (\<lambda>k. k = 10)" 1] demo_leaves_reach by blast
  have "key_at s' ! 1 = None" "key_at s' ! 0 = Some 10" using withoutD(6,7) [OF e(3)] v by fastforce+
  moreover have "stamp s' = stamp demo_leaves" "evictable s' = evictable demo_leaves - set ?G" using e(3) by (simp_all add: without_def)
  ultimately show ?thesis using e(1,2,4) v by auto
qed

text \<open>
  The run-time check \<open>assert_evictable\<close>, which evicts from a copy of the index and
  compares, never fails on a pool whose arena reports to its index.
\<close>

lemma assert_evictable_never_fails:
  assumes "pool_reach al True s"
  shows "assert_evictable s = Inr ()"
proof -
  note K = pool_reach_kept [OF assms]
  show ?thesis by (rule assert_evictable_ok [OF K(1)]) (use pool_invD(8) [OF K(1)] K(3) in simp)
qed

lemma assert_evictable_never_fails_witness:
  "evictable demo_released = {1} \<and> assert_evictable demo_released = Inr ()"
proof -
  have "evictable demo_released = {1}" by code_simp
  with assert_evictable_never_fails [OF demo_reach(3)] show ?thesis by simp
qed

section \<open>Lookup after insert\<close>

text \<open>
  C4. A run that was inserted is found whole by the next lookup: \<open>insert_run\<close> returns
  without an exception and \<open>lookup\<close> of the same keys returns one page per key, the page
  that held the key before where there was one (the first writer wins), the page handed in
  otherwise.
\<close>

theorem insert_run_then_lookup:
  assumes "pool_reach al reports s" "can_file_run ks ps s" "parent_ok par s" "distinct ks"
  shows "\<exists>n t u. insert_run ks ps par s = Inr (n, t) \<and> lookup ks t = Inr
      (map2 (\<lambda>k p. case map_of (by_key s) k of None \<Rightarrow> p | Some q \<Rightarrow> q) ks ps, u)"
proof -
  note K = pool_reach_kept [OF assms(1)]
  obtain n t new where t: "insert_run ks ps par s = Inr (n, t)" "pool_inv t"
    "by_key t = by_key s @ new" "set new \<subseteq> set (zip ks ps)" "\<forall>k \<in> set ks. map_of (by_key t) k \<noteq> None"
    by (rule insert_run_ok [OF K(1) assms(2,3)]) (rule that)
  obtain u where u: "lookup ks t = Inr (pages_for ks t, u)" by (rule lookup_inv [OF t(2), of ks])
  have len: "length ks = length ps" using assms(2) by (simp add: can_file_run_def)
  have at: "the (map_of (by_key t) (ks ! i)) =
      (case map_of (by_key s) (ks ! i) of None \<Rightarrow> ps ! i | Some q \<Rightarrow> q)" if i: "i < length ks" for i
  proof (cases "map_of (by_key s) (ks ! i)")
    case None
    have "map_of (by_key t) (ks ! i) \<noteq> None" using t(5) i by simp
    then obtain p where p: "map_of new (ks ! i) = Some p"
      using t(3) None by (auto simp: map_add_def split: option.splits)
    then have "(ks ! i, p) \<in> set (zip ks ps)" using t(4) map_of_SomeD by fast
    then obtain j where "j < length ks" "ks ! j = ks ! i" "ps ! j = p" using len by (auto simp: set_zip)
    with assms(4) i have "ps ! i = p" by (metis nth_eq_iff_index_eq)
    with None p t(3) show ?thesis by (simp add: map_add_def)
  next
    case (Some q)
    then show ?thesis using t(3) by (simp add: map_add_def)
  qed
  have "pages_for ks t = map (\<lambda>k. the (map_of (by_key t) k)) ks" by (rule pages_for_all) (use t(5) in blast)
  also have "\<dots> = map2 (\<lambda>k p. case map_of (by_key s) k of None \<Rightarrow> p | Some q \<Rightarrow> q) ks ps"
    by (rule nth_equalityI) (simp_all add: len at)
  finally show ?thesis using t(1) u by simp
qed

theorem insert_run_then_lookup_witness:
  "\<exists>n t u. insert_run [10, 12] [1, 0] None demo_acquired = Inr (n, t) \<and> lookup [10, 12] t = Inr ([1, 0], u)"
proof -
  have "can_file_run [10, 12] [1, 0] demo_acquired" "parent_ok None demo_acquired"
    "map_of (by_key demo_acquired) 10 = None" "map_of (by_key demo_acquired) 12 = None" by code_simp+
  with insert_run_then_lookup [OF demo_reach(1), of "[10, 12]" "[1, 0]" None] show ?thesis by simp
qed

section \<open>Owners\<close>

text \<open>
  \<open>acquire n\<close> fails, changing nothing, exactly when fewer than \<open>n\<close> pages are
  free; otherwise it hands out \<open>n\<close> different pages nobody owned, each now with one
  owner, and no other page's owners change.
\<close>

lemma acquire_exact:
  assumes "pool_reach al reports s"
  shows "if num_free s < n then acquire n s = Inr (None, s)
    else \<exists>ps s'. acquire n s = Inr (Some ps, s') \<and> length ps = n \<and> distinct ps \<and>
      num_free s = n + num_free s' \<and> (\<forall>p < al_max al. num_owners s' ! p =
        (if p \<in> set ps then 1 else num_owners s ! p) \<and> (p \<in> set ps \<longrightarrow> num_owners s ! p = 0))"
proof (cases "num_free s < n")
  case True
  then show ?thesis using acquire_None by simp
next
  case False
  note K = pool_reach_kept [OF assms]
  from False have n: "n \<le> num_free s" by simp
  obtain ps s' where a: "acquire n s = Inr (Some ps, s')" "length ps = n" "distinct ps"
    "set ps \<subseteq> set (al_pages (allocator s))" "num_free s = n + num_free s'"
    "\<And>p. p < pool_size s \<Longrightarrow> num_owners s' ! p = (if p \<in> set ps then 1 else num_owners s ! p)"
    by (rule acquire_inv [OF K(1) n]) (rule that)
  have "p \<in> set ps \<Longrightarrow> num_owners s ! p = 0" for p using free_page_unindexed(2) [OF K(1)] a(4) by blast
  with a K(2) False show ?thesis by auto
qed

lemma acquire_exact_witness:
  "\<exists>ps s'. acquire 2 demo_released = Inr (Some ps, s') \<and> length ps = 2 \<and> distinct ps \<and> num_free s' = 0"
proof -
  have "num_free demo_released = 2" by code_simp
  with acquire_exact [OF demo_reach(3), of 2] show ?thesis by auto
qed

text \<open>
  Retaining pages and releasing them again is a round trip: neither call raises, and
  every page has the owners it had, so the free list holds the same pages.
\<close>

lemma retain_release_roundtrip:
  assumes "pool_reach al reports s" "can_retain ps s"
  shows "\<exists>t u. retain ps s = Inr t \<and> release ps t = Inr u \<and> pool_reach al reports u \<and>
    (\<forall>p < al_max al. num_owners t ! p = num_owners s ! p + count_list ps p \<and>
      num_owners u ! p = num_owners s ! p) \<and>
    set (al_pages (allocator u)) = set (al_pages (allocator s))"
proof -
  note K = pool_reach_kept [OF assms(1)]
  have ret: "\<And>p. p \<in> set ps \<Longrightarrow> p < pool_size s \<and> 0 < num_owners s ! p"
    using assms(2) by (simp add: can_retain_def)
  obtain t where t: "retain ps s = Inr t" "pool_inv t" "same_index s t" "allocator t = allocator s"
    "\<And>p. p < pool_size s \<Longrightarrow> num_owners t ! p = num_owners s ! p + count_list ps p"
    by (rule retain_inv [OF K(1) ret]) (assumption, rule that)
  have "can_release ps t"
    unfolding can_release_def
  proof
    fix p assume "p \<in> set ps"
    with ret [of p] t(4,5) show "p < pool_size t \<and>
        count_list ps p + (if key_at t ! p \<noteq> None then 1 else 0) \<le> num_owners t ! p" by auto
  qed
  then have rel: "\<And>p. p \<in> set ps \<Longrightarrow> p < pool_size t"
    "\<And>p. p \<in> set ps \<Longrightarrow> count_list ps p + (if key_at t ! p \<noteq> None then 1 else 0) \<le> num_owners t ! p"
    and can: "can_release ps t" by (simp_all add: can_release_def)
  obtain u where u: "release ps t = Inr u" "pool_inv u"
    "\<And>p. p < pool_size t \<Longrightarrow> num_owners u ! p = num_owners t ! p - count_list ps p"
    by (rule release_inv [OF t(2) rel]) (assumption, assumption, rule that)
  have reach: "pool_reach al reports u"
    using reach_step [OF reach_step [OF assms(1) step_retain [OF assms(2) t(1)]] step_release [OF can u(1)]] .
  have own: "num_owners u ! p = num_owners s ! p" if "p < pool_size s" for p using that t(4,5) u(3) by simp
  have "num_owners u ! p = num_owners s ! p" if "p \<in> al_stock al" for p
    using own [OF al_stock_bound] that K(4) by simp
  then have "{p \<in> al_stock al. num_owners u ! p = 0} = {p \<in> al_stock al. num_owners s ! p = 0}" by auto
  then have "set (al_pages (allocator u)) = set (al_pages (allocator s))"
    using pool_invD(6) [OF K(1)] pool_invD(6) [OF u(2)] K(4) pool_reach_kept(4) [OF reach]
    by (simp add: arena_ok_def)
  with t u reach own K(2) show ?thesis by auto
qed

lemma retain_release_roundtrip_witness:
  "\<exists>t u. retain [0, 1, 0] demo_released = Inr t \<and> release [0, 1, 0] t = Inr u \<and>
    num_owners t ! 0 = num_owners demo_released ! 0 + 2 \<and> num_owners u ! 0 = num_owners demo_released ! 0"
proof -
  have "can_retain [0, 1, 0] demo_released" "0 < al_max four_pages" by code_simp+
  with retain_release_roundtrip [OF demo_reach(3), of "[0, 1, 0]"] show ?thesis by fastforce
qed

section \<open>Sparing and dropping do not mix\<close>

text \<open>
  \<open>drop\<close> takes a child away without popping the heap, so its parent may be on the heap
  twice. A plain eviction skips the second entry (its page holds no key by then), but an
  eviction that spares both entries drops the page on the first and looks its key up again
  on the second: \<open>evict\<close> raises \<open>KeyError\<close>. No caller mixes the two today: the
  routing mirror drops but never spares, the page pool spares but never drops.
\<close>

lemma spare_after_drop_raises:
  "rbind (release [0] demo_released) (\<lambda>s. rbind (drop_entries [(11, 1)] s) (\<lambda>s.
     rbind (evict 2 (Some (\<lambda>_. True)) s) (\<lambda>(ks, _). Inr ks))) = Inl KeyError"
  by code_simp

lemma plain_after_drop_returns:
  "rbind (release [0] demo_released) (\<lambda>s. rbind (drop_entries [(11, 1)] s) (\<lambda>s.
     rbind (evict 2 None s) (\<lambda>(ks, _). Inr ks))) = Inr [10]"
  by code_simp

end
