(* ===== verification/Host_Props.thy ===== *)
theory Host_Props imports Host_Check Pool_Props begin

text \<open>
  The properties of a host pool and the writes to it, each over the states a run can reach, with an
  instance of each on a device and a host of four pages.
\<close>

section \<open>Four pages on the device, four on the host\<close>

definition demo_new :: "nat host_writes" where
  "demo_new = projr (new_host_writes (new_cpu_pool (Queue_Free (new_page_allocator 4))) demo_filed 4194304)"

text \<open>The request lets go of the pages of its run, last page first: both keys are queued.\<close>

definition demo_let_go :: "nat host_writes" where
  "demo_let_go = on_device (projr (release [1, 0] (hs_index demo_new))) [] demo_new"

definition demo_taken :: "nat host_writes" where
  "demo_taken = snd (projr (the (take_writes 0 demo_let_go)))"

definition demo_copied :: "nat host_writes" where
  "demo_copied = complete_event 0 (launch 0 False demo_taken)"

lemma demo_new_code [code]:
  "demo_new = \<lparr>hs_pool = new_cpu_pool (Queue_Free (new_page_allocator 4)),
     hs_index = demo_filed\<lparr>writes := Some \<lparr>hq_queued = [], hq_commits = 0, hq_image_ends = {}\<rparr>\<rparr>,
     hs_per_step = 8, hs_writing = Map.empty, hs_in_flight = [], hs_next = 0\<rparr>"
  by (simp add: demo_new_def new_host_writes_def)

lemma demo_new_reach: "host_reach demo_new {#}"
proof -
  have "is_ok (new_host_writes (new_cpu_pool (Queue_Free (new_page_allocator 4))) demo_filed 4194304)" by (simp add: new_host_writes_def)
  then have "new_host_writes (new_cpu_pool (Queue_Free (new_page_allocator 4))) demo_filed 4194304 = Inr demo_new"
    by (simp add: demo_new_def ok_projr [symmetric])
  then show ?thesis by (rule host_new [rotated]) (rule pool_reach_kept(1) [OF demo_reach(2)])
qed

definition demo_landed :: "nat host_writes" where
  "demo_landed = projr (land demo_copied)"

lemma demo_released_on_device:
  "release [1, 0] (hs_index demo_new) = Inr (projr (release [1, 0] (hs_index demo_new)))"
  "pool_inv (projr (release [1, 0] (hs_index demo_new)))"
proof -
  have "is_ok (release [1, 0] (hs_index demo_new))" by code_simp
  then show r: "release [1, 0] (hs_index demo_new) = Inr (projr (release [1, 0] (hs_index demo_new)))" by (rule ok_projr)
  have "can_release [1, 0] (hs_index demo_new)" by code_simp
  then have "pool_step (hs_index demo_new) (projr (release [1, 0] (hs_index demo_new)))" by (rule step_release) (rule r)
  moreover have "pool_inv (hs_index demo_new)" unfolding demo_new_code using pool_reach_kept(1) [OF demo_reach(2)] by simp
  moreover have "timed (hs_index demo_new)" unfolding demo_new_code using pool_reach_kept(5) [OF demo_reach(2)]
    by (simp add: timed_def fresh_def)
  ultimately show "pool_inv (projr (release [1, 0] (hs_index demo_new)))" using pool_step_kept by (auto simp: kept_def)
qed

lemma demo_let_go_reach: "host_reach demo_let_go {#}"
proof -
  have i: "hs_index demo_let_go = projr (release [1, 0] (hs_index demo_new))"
    by (simp add: demo_let_go_def on_device_def evicted_keys_def)
  have "hq_queued (hs_queue demo_let_go) = [(11, 0), (10, 0)]" "writes (hs_index demo_let_go) = Some (hs_queue demo_let_go)"
    "page_for 11 (hs_index demo_let_go) = Some 1" "page_for 10 (hs_index demo_let_go) = Some 0" by code_simp+
  then have "device_ok (on_device (projr (release [1, 0] (hs_index demo_new))) [] demo_new)"
    using demo_released_on_device(2) unfolding demo_let_go_def [symmetric] by (auto simp: device_ok_def i)
  from host_next [OF demo_new_reach step_device [OF this]] show ?thesis by (simp add: demo_let_go_def)
qed

lemma demo_take: "take_writes 0 demo_let_go = Some (Inr (Some 0, demo_taken))"
proof -
  have "take_writes 0 demo_let_go \<noteq> None" "is_ok (the (take_writes 0 demo_let_go))" "fst (projr (the (take_writes 0 demo_let_go))) = Some 0"
    by code_simp+
  then show ?thesis using ok_pair by (fastforce simp: demo_taken_def)
qed

lemma demo_taken_reach: "host_reach demo_taken {#}"
  by (rule host_next [OF demo_let_go_reach step_take [OF demo_take]])

lemma demo_copied_run: "host_run demo_taken {#} demo_copied {#}"
  unfolding demo_copied_def by (rule run_step [OF run_step [OF run_nil step_launch] step_event])

lemma demo_landed_reach: "host_reach demo_landed {#}"
proof -
  have "is_ok (land demo_copied)" by code_simp
  then have "land demo_copied = Inr demo_landed" unfolding demo_landed_def by (rule ok_projr)
  from host_next [OF host_run_reach [OF demo_copied_run demo_taken_reach] step_land [OF this]] show ?thesis .
qed

abbreviation demo_write :: "nat host_write" where
  "demo_write \<equiv> snd (hd (hs_in_flight demo_copied))"

abbreviation demo_groups :: "group_pages list" where
  "demo_groups \<equiv> [\<lparr>gp_pages = [2, 3], gp_stored_len = 30, gp_released = 0, gp_generation = 0\<rparr>]"

section \<open>Nothing is lost\<close>

text \<open>
  C5. Whatever the manager does with the host pool and the writes to it, its check
  \<open>_assert_host_pages_conserved\<close> passes: every page of the host is free or owned and never both, and it has one owner for
  the index if that names it and one for each place in an offloaded stream, a write in flight
  or a copy back to the device that holds it.
\<close>

theorem host_pages_conserved:
  assumes "host_reach h C" "mset (concat copies) = C"
  shows "assert_host_pages_conserved copies h = Inr ()"
  by (rule assert_host_ok [OF host_reach_inv [OF assms(1)] assms(2)])

theorem host_pages_conserved_witness:
  "host_pages_held demo_taken = [0, 1] \<and> num_owners (cp_pages (hs_pool demo_taken)) ! 1 = 1 \<and>
    assert_host_pages_conserved [] demo_taken = Inr ()"
proof -
  have "host_pages_held demo_taken = [0, 1]" "num_owners (cp_pages (hs_pool demo_taken)) ! 1 = 1" by code_simp+
  with host_pages_conserved [OF demo_taken_reach, of "[]"] show ?thesis by simp
qed

text \<open>
  C10. No call on the host side raises: neither placing a stream that is not there yet, whose keys name distinct first pages,
  filing the keys of a placed stream, dropping a stream or a request, retaining a run, releasing what a copy back
  holds, nor landing the writes whose copies have completed.
\<close>

theorem host_calls_return:
  assumes "host_reach h C"
  shows "(can_place rid label groups keys (hs_pool h) \<longrightarrow> is_ok (host_place rid label groups keys position protected (hs_pool h))) \<and>
    (map_of (streams_of rid (hs_pool h)) label \<noteq> None \<longrightarrow> is_ok (insert_keys rid label (hs_pool h))) \<and>
    is_ok (host_discard rid label (hs_pool h)) \<and> is_ok (host_remove_request rid (hs_pool h)) \<and>
    is_ok (retain_run keys (hs_pool h)) \<and> (mset ps \<subseteq># C \<longrightarrow> is_ok (on_arena (release ps) (hs_pool h))) \<and> is_ok (land h)"
proof (intro conjI impI)
  note H = host_reach_inv [OF assms] and I = host_invD(1) [OF host_reach_inv [OF assms]]
  show "is_ok (host_place rid label groups keys position protected (hs_pool h))" if "can_place rid label groups keys (hs_pool h)"
    by (rule host_place_ok [OF I that, of position protected]) simp_all
  show "is_ok (insert_keys rid label (hs_pool h))" if st: "map_of (streams_of rid (hs_pool h)) label \<noteq> None"
  proof -
    from st obtain st where "map_of (streams_of rid (hs_pool h)) label = Some st" by auto
    then show ?thesis by (rule insert_keys_ok [OF I]) simp
  qed
  show "is_ok (host_discard rid label (hs_pool h))" by (rule host_discard_ok [OF I, of rid label]) simp
  show "is_ok (host_remove_request rid (hs_pool h))" by (rule host_remove_request_ok [OF I, of rid]) simp
  show "is_ok (retain_run keys (hs_pool h))" by (rule retain_run_ok [OF I, of keys]) simp
  show "is_ok (on_arena (release ps) (hs_pool h))" if "mset ps \<subseteq># C"
    by (rule on_arena_release [of "hs_pool h" "in_writes h + (C - mset ps)" ps])
      (use I subset_mset.diff_add [OF that] in \<open>simp_all add: add.assoc del: subset_mset.add_diff_assoc\<close>)
  show "is_ok (land h)" by (rule land_ok [OF H]) simp
qed

theorem host_calls_return_witness:
  "is_ok (host_place ''r'' ''main'' demo_groups [10, 99] 30 0 (hs_pool demo_landed)) \<and> is_ok (land demo_landed)"
proof -
  have "can_place ''r'' ''main'' demo_groups [10, 99 :: nat] (hs_pool demo_landed)" by code_simp
  with host_calls_return [OF demo_landed_reach, of "''r''" "''main''" demo_groups "[10, 99]" 30 0] show ?thesis by blast
qed

section \<open>Taking a step's share\<close>

text \<open>
  C6. \<open>take\<close> returns from every state a run can reach, whatever is queued: the walk up the
  device's index that looks for missing ancestors ends, because the parent links form a forest in which an indexed
  page has an indexed parent, and the loop over the queue ends because each round uses up room or shortens the queue.
\<close>

theorem take_returns:
  assumes "host_reach h C"
  shows "\<exists>r h'. take_writes commit h = Some (Inr (r, h'))"
  by (rule take_writes_ok [OF host_reach_inv [OF assms], where d = commit]) blast

theorem take_returns_witness:
  "host_reach demo_let_go {#} \<and> hq_queued (hs_queue demo_let_go) = [(11, 0), (10, 0)] \<and>
    (\<exists>r h'. take_writes 0 demo_let_go = Some (Inr (r, h')))"
proof -
  have "hq_queued (hs_queue demo_let_go) = [(11, 0), (10, 0)]" by code_simp
  with take_returns [OF demo_let_go_reach, of 0] demo_let_go_reach show ?thesis by simp
qed

text \<open>
  C8. What \<open>take\<close> lists: at most a step's share of keys, each once and each with a host page of its own, the
  device page its index has for it and no copy on the host; each was queued by the commit asked for or an earlier one, or is above such a
  key in the device's index. Each comes after its parent, unless it has none, or the parent is
  on the host, at a page the write holds, or an earlier write is copying it.
\<close>

theorem take_in_order:
  assumes "host_reach h C" "take_writes commit h = Some (Inr (Some i, h'))"
  shows "\<exists>w. hs_in_flight h' = hs_in_flight h @ [(i, w)] \<and> hw_keys w \<noteq> [] \<and> length (hw_keys w) \<le> hs_per_step h \<and>
    length (hw_host_pages w) = length (hw_keys w) \<and> distinct (hw_keys w) \<and>
    (\<forall>j < length (hw_keys w). page_for (hw_keys w ! j) (hs_index h) = Some (hw_pages w ! j) \<and>
      parent_key (hw_pages w ! j) (hs_index h) = Inr (hw_parents w ! j) \<and> page_for (hw_keys w ! j) (cp_pages (hs_pool h)) = None \<and>
      (\<exists>k. queued_by commit (hq_queued (hs_queue h)) k \<and> (above (hs_index h))\<^sup>*\<^sup>* k (hw_keys w ! j)) \<and>
      (case hw_parents w ! j of None \<Rightarrow> True | Some q \<Rightarrow> q \<in> set (take j (hw_keys w)) \<or>
        (\<exists>a \<in> set (hw_anchors w). page_for q (cp_pages (hs_pool h)) = Some a) \<or>
        page_for q (cp_pages (hs_pool h)) = None \<and> (\<exists>v. write_of q h = Some v \<and> q \<notin> hw_cancelled v)))"
  using take_lists [OF host_reach_inv [OF assms(1)] assms(2)] by (elim exE conjE) (intro exI conjI, assumption+)

theorem take_in_order_witness:
  "\<exists>w. hs_in_flight demo_taken = [(0, w)] \<and> length (hw_keys w) = 2 \<and> distinct (hw_keys w) \<and>
    map (\<lambda>(i, w). (hw_keys w, hw_parents w)) (hs_in_flight demo_taken) = [([10, 11], [None, Some 10])]"
proof -
  have d: "hs_in_flight demo_let_go = []" by code_simp
  have m: "map (\<lambda>(i, w). (hw_keys w, hw_parents w)) (hs_in_flight demo_taken) = [([10, 11], [None, Some 10])]" by code_simp
  obtain w where w: "hs_in_flight demo_taken = [(0, w)]" "distinct (hw_keys w)"
    using take_in_order [OF demo_let_go_reach demo_take] unfolding d by auto
  with m show ?thesis by (intro exI [of _ w]) auto
qed

section \<open>Landing\<close>

text \<open>
  C7. A page written to the host lands under its parent. Let a write be listed by a step, and land after any further run: each of its keys
  that is not cancelled, and that no offload has filed meanwhile, then names the write's host page, which the
  host's index links to the host page of the key's parent. The parent is there
  if it was on the host when the step listed the write (the write holds it ever since) or comes before the key in
  the write without being cancelled.
\<close>

theorem landed_under_parent:
  assumes "host_reach h C" "take_writes commit h = Some (Inr (Some i, h1))" "host_run h1 C h2 C2"
    and "(i, w) \<in> set (hs_in_flight h2)" "hw_event w = Some True"
    and "j < length (hw_keys w)" "hw_keys w ! j \<notin> hw_cancelled w" "page_for (hw_keys w ! j) (cp_pages (hs_pool h2)) = None"
  shows "\<exists>h3. land_write (i, w) h2 = Inr h3 \<and> page_for (hw_keys w ! j) (cp_pages (hs_pool h3)) = Some (hw_host_pages w ! j) \<and>
    parent (cp_pages (hs_pool h3)) ! (hw_host_pages w ! j) =
      (case hw_parents w ! j of None \<Rightarrow> None | Some q \<Rightarrow> page_for q (cp_pages (hs_pool h3))) \<and>
    (case hw_parents w ! j of None \<Rightarrow> True | Some q \<Rightarrow>
      page_for q (cp_pages (hs_pool h)) \<noteq> None \<or> q \<in> set (take j (hw_keys w)) - hw_cancelled w \<longrightarrow> page_for q (cp_pages (hs_pool h3)) \<noteq> None)"
  by (rule landed_below [OF host_reach_inv [OF assms(1)] assms(2-8)])

theorem landed_under_parent_witness:
  "hw_keys demo_write ! 1 = 11 \<and> hw_parents demo_write ! 1 = Some 10 \<and> (\<exists>h. land_write (0, demo_write) demo_copied = Inr h \<and>
    page_for 11 (cp_pages (hs_pool h)) = Some 1 \<and> page_for 10 (cp_pages (hs_pool h)) \<noteq> None \<and>
    parent (cp_pages (hs_pool h)) ! 1 = page_for 10 (cp_pages (hs_pool h)))"
proof -
  have w: "hs_in_flight demo_copied \<noteq> []" "fst (hd (hs_in_flight demo_copied)) = 0" "hw_event demo_write = Some True" "1 < length (hw_keys demo_write)"
    "hw_keys demo_write ! 1 = 11" "hw_cancelled demo_write = {}" "hw_parents demo_write ! 1 = Some 10" "hw_host_pages demo_write ! 1 = 1"
    "take 1 (hw_keys demo_write) = [10]" "page_for 11 (cp_pages (hs_pool demo_copied)) = None" by code_simp+
  have "(0, demo_write) \<in> set (hs_in_flight demo_copied)" using hd_in_set [OF w(1)] w(2) by (metis prod.collapse)
  from landed_under_parent [OF demo_let_go_reach demo_take demo_copied_run this w(3,4)] w show ?thesis by auto
qed

section \<open>Offloading a stream\<close>

text \<open>
  C9. An offload is exact and can be taken back. \<open>place\<close> either refuses, and every stream on the host is as it was, or pairs
  each device page of the stream past the run that the host already has with a fresh host page: distinct ones, without a key, that nothing
  held before. The record that \<open>pop\<close> then takes out has the host's run and those pages in the stream's groups, with the
  position and the keys handed in, and the request's other streams are what they were.
\<close>

theorem place_then_pop:
  assumes "host_reach h C" "can_place rid label groups keys (hs_pool h)"
  shows "(\<exists>c. host_place rid label groups keys position protected (hs_pool h) = Inr (None, c) \<and> cp_offloaded c = cp_offloaded (hs_pool h)) \<or>
    (\<exists>found cpu c. host_place rid label groups keys position protected (hs_pool h) = Inr (Some (drop (length found) (held_pages groups), cpu), c) \<and>
      found = pages_for keys (cp_pages (hs_pool h)) \<and> length found + length cpu = length (held_pages groups) \<and> distinct cpu \<and>
      (\<forall>p \<in> set cpu. key_at (cp_pages c) ! p = None \<and> p \<notin># streams_held (hs_pool h) + (in_writes h + C) \<and> p \<notin> set found) \<and>
      fst (host_pop rid label c) =
        Some \<lparr>os_groups = on_pages groups (found @ cpu), os_position = position, os_protected = protected, os_keys = keys\<rparr> \<and>
      streams_of rid (snd (host_pop rid label c)) = streams_of rid (hs_pool h))"
proof (rule host_place_ok [OF host_invD(1) [OF host_reach_inv [OF assms(1)]] assms(2), of position protected], goal_cases)
  case (1 c)
  then show ?thesis by blast
next
  case (2 c found cpu)
  have "map_of (streams_of rid (hs_pool h)) label = None" using assms(2) by (simp add: can_place_def)
  then have "streams_of rid (snd (host_pop rid label c)) = streams_of rid (hs_pool h)"
    unfolding host_pop_def using 2(9) by (auto simp: Let_def streams_of_def dict_del_set)
  moreover have "fst (host_pop rid label c) =
      Some \<lparr>os_groups = on_pages groups (found @ cpu), os_position = position, os_protected = protected, os_keys = keys\<rparr>"
    using 2(7) by (simp add: host_pop_def Let_def)
  ultimately show ?thesis using 2 by blast
qed

theorem place_then_pop_witness:
  "\<exists>cpu c. host_place ''r'' ''main'' demo_groups [10, 99] 30 0 (hs_pool demo_landed) = Inr (Some ([3], cpu), c) \<and> length cpu = 1 \<and>
    map_option (\<lambda>st. held_pages (os_groups st)) (fst (host_pop ''r'' ''main'' c)) = Some (0 # cpu)"
proof -
  have c: "can_place ''r'' ''main'' demo_groups [10, 99 :: nat] (hs_pool demo_landed)" by code_simp
  have f: "pages_for [10, 99] (cp_pages (hs_pool demo_landed)) = [0]"
    "is_ok (host_place ''r'' ''main'' demo_groups [10, 99] 30 0 (hs_pool demo_landed))"
    "fst (projr (host_place ''r'' ''main'' demo_groups [10, 99] 30 0 (hs_pool demo_landed))) \<noteq> None" by code_simp+
  from place_then_pop [OF demo_landed_reach c, of 30 0] obtain cpu c' where
    "host_place ''r'' ''main'' demo_groups [10, 99] 30 0 (hs_pool demo_landed) = Inr (Some (drop 1 (held_pages demo_groups), cpu), c')"
    "length [0::nat] + length cpu = length (held_pages demo_groups)" "fst (host_pop ''r'' ''main'' c') =
        Some \<lparr>os_groups = on_pages demo_groups ([0] @ cpu), os_position = 30, os_protected = 0, os_keys = [10, 99]\<rparr>"
    unfolding f(1) using f(2,3) by auto
  then show ?thesis by (auto simp: held_pages_def)
qed

section \<open>A parent on its way is not held\<close>

text \<open>
  A step takes key 10 alone and the next one key 11 below it, which finds its parent on the way. The first write lands, an offload
  to the full host evicts the page it filed, and the second write lands at the root of the host's index.
\<close>

definition lone_new :: "nat host_writes" where
  "lone_new = demo_let_go\<lparr>hs_per_step := 1, hs_pool := new_cpu_pool (Queue_Free (new_page_allocator 2))\<rparr>"

definition lone_taken :: "nat host_writes" where
  "lone_taken = snd (projr (the (take_writes 0 (complete_event 0 (launch 0 False (snd (projr (the (take_writes 0 lone_new)))))))))"

definition lone_placed :: "nat host_writes" where
  "lone_placed = (let h = projr (land lone_taken) in
     h\<lparr>hs_pool := snd (projr (host_place ''r'' ''main'' [\<lparr>gp_pages = [2], gp_stored_len = 8, gp_released = 0, gp_generation = 0\<rparr>] [] 8 0 (hs_pool h)))\<rparr>)"

definition lone_landed :: "nat host_writes" where
  "lone_landed = projr (land (complete_event 1 (launch 1 False lone_placed)))"

lemma parent_on_its_way_not_held:
  "map (\<lambda>(i, w). (hw_keys w, hw_parents w, hw_anchors w)) (hs_in_flight lone_placed) = [([11], [Some 10], [])]"
  "page_for 10 (cp_pages (hs_pool (projr (land lone_taken)))) = Some 0"
  "page_for 11 (cp_pages (hs_pool lone_landed)) = Some 1"
  "page_for 10 (cp_pages (hs_pool lone_landed)) = None"
  "parent_key 1 (cp_pages (hs_pool lone_landed)) = Inr None"
  by code_simp+

end
