(* ===== verification/Sharding.thy ===== *)
theory Sharding imports Graph_Data begin

text \<open>
  How a tensor is spread over the workers of a tensor-parallel group,
  \<open>mstar/distributed/base.py\<close>: \<open>ShardingGroup\<close>, \<open>ShardingConfig\<close> with its set-up and checks,
  and the fan-out of one rank's edge over the ranks of its destination.

  Groups are objects the mapping shares, so the config holds them in a list, \<open>sc_objects\<close>, and
  refers to them by their place: the configured ones first (\<open>sc_groups\<close>), then the singletons
  \<open>setup\<close> adds. Python's sets are lists in the order the code happens to visit them. Reading
  \<open>_workers\<close> before \<open>register_workers\<close> is Python's \<open>AttributeError\<close>.
\<close>

section \<open>Groups\<close>

record sharding_group =
  sg_nodes :: "string list"
  sg_tp_size :: nat
  sg_walks :: "string option list option"
  sg_tp_rank :: "nat option"
  sg_workers :: "string list option"

definition new_group :: "string list \<Rightarrow> nat \<Rightarrow> string option list option \<Rightarrow> nat option \<Rightarrow> sharding_group" where
  "new_group nodes tp_size walks tp_rank = \<lparr>sg_nodes = nodes, sg_tp_size = tp_size, sg_walks = walks,
     sg_tp_rank = tp_rank, sg_workers = None\<rparr>"

definition register_workers :: "string list \<Rightarrow> nat option \<Rightarrow> sharding_group \<Rightarrow> sharding_group res" where
  "register_workers workers my_rank g =
     (if length workers \<noteq> sg_tp_size g then Inl AssertionError
      else Inr (g\<lparr>sg_workers := Some workers,
        sg_tp_rank := (case my_rank of None \<Rightarrow> sg_tp_rank g | Some r \<Rightarrow> Some r)\<rparr>))"

definition clone_empty_group :: "sharding_group \<Rightarrow> sharding_group" where
  "clone_empty_group g = new_group (sg_nodes g) (sg_tp_size g) (sg_walks g) (sg_tp_rank g)"

definition workers_of :: "sharding_group \<Rightarrow> string list res" where
  "workers_of g = (case sg_workers g of None \<Rightarrow> Inl AttributeError | Some ws \<Rightarrow> Inr ws)"

text \<open>\<open>_worker_to_tp_rank.get(worker, 0)\<close>: a worker listed twice has its last place.\<close>

definition rank_of :: "string list \<Rightarrow> string \<Rightarrow> nat" where
  "rank_of workers w = (case map_of (rev (zip workers [0..<length workers])) w of None \<Rightarrow> 0 | Some i \<Rightarrow> i)"

section \<open>Configs\<close>

record sharding_config =
  sc_objects :: "sharding_group list"
  sc_groups :: nat
  sc_tp_nodes :: "string list"
  sc_shard_dim :: "string \<rightharpoonup> int"
  sc_sp_nodes :: "string list"
  sc_ep_nodes :: "string list"
  sc_mapping :: "(node_walk, nat) dict"
  sc_node_workers :: "(node_walk, string list) dict"
  sc_setup_done :: bool

definition new_config ::
  "sharding_group list \<Rightarrow> string list \<Rightarrow> (string \<rightharpoonup> int) \<Rightarrow> string list \<Rightarrow> string list \<Rightarrow> sharding_config" where
  "new_config groups tp dims sp ep = \<lparr>sc_objects = groups, sc_groups = length groups, sc_tp_nodes = tp,
     sc_shard_dim = dims, sc_sp_nodes = sp, sc_ep_nodes = ep, sc_mapping = [], sc_node_workers = [],
     sc_setup_done = False\<rparr>"

definition config_groups :: "sharding_config \<Rightarrow> sharding_group list" where
  "config_groups c = take (sc_groups c) (sc_objects c)"

definition clone_empty_config :: "sharding_config \<Rightarrow> sharding_config" where
  "clone_empty_config c = new_config (map clone_empty_group (config_groups c)) (sc_tp_nodes c)
     (sc_shard_dim c) (sc_sp_nodes c) (sc_ep_nodes c)"

definition get_sharding_group :: "string \<Rightarrow> string option \<Rightarrow> sharding_config \<Rightarrow> sharding_group option" where
  "get_sharding_group node walk c = map_option (\<lambda>i. sc_objects c ! i) (map_of (sc_mapping c) (node, walk))"

definition assert_stream_consumer_compatibility :: "string list \<Rightarrow> sharding_config \<Rightarrow> unit res" where
  "assert_stream_consumer_compatibility consumers c =
     rfold (\<lambda>n _. if map_of (sc_mapping c) (n, None) = None then Inl RuntimeError else Inr ()) consumers ()"

fun tp_size_of :: "sharding_group list \<Rightarrow> string \<Rightarrow> string option \<Rightarrow> nat" where
  "tp_size_of [] node walk = 1"
| "tp_size_of (g # gs) node walk =
     (if node \<in> set (sg_nodes g) \<and> (walk = None \<or> sg_walks g = None \<or> (\<exists>ws. sg_walks g = Some ws \<and> walk \<in> set ws))
      then sg_tp_size g else tp_size_of gs node walk)"

definition assert_streams_keep_tp_size ::
  "(string \<times> string \<times> string option \<times> string) list \<Rightarrow> sharding_config \<Rightarrow> unit res" where
  "assert_streams_keep_tp_size edges c = rfold (\<lambda>(signal, producer, walk, consumer) _.
     if sc_shard_dim c signal = None then Inr ()
     else if tp_size_of (config_groups c) producer walk \<noteq> tp_size_of (config_groups c) consumer None
     then Inl RuntimeError else Inr ()) edges ()"

section \<open>Set-up\<close>

definition update_group :: "nat \<Rightarrow> (sharding_group \<Rightarrow> sharding_group res) \<Rightarrow> sharding_config \<Rightarrow> sharding_config res" where
  "update_group i f c = rbind (get_at (sc_objects c) i) (\<lambda>g. rbind (f g) (\<lambda>g.
     Inr (c\<lparr>sc_objects := (sc_objects c)[i := g]\<rparr>)))"

text \<open>One node and walk of a configured group: its workers, if this call places them, and the
  entry a streaming edge finds it by.\<close>

definition setup_key :: "(node_walk, string list) dict \<Rightarrow> nat \<Rightarrow> bool \<Rightarrow> string \<Rightarrow> string option \<Rightarrow>
    sharding_config \<Rightarrow> sharding_config res" where
  "setup_key placed i none_flag node walk c =
     rbind (case map_of placed (node, walk) of None \<Rightarrow> Inr c
       | Some ws \<Rightarrow> update_group i (register_workers ws None) (c\<lparr>sc_mapping := dict_set (node, walk) i (sc_mapping c)\<rparr>))
     (\<lambda>c. if none_flag then
         (case map_of (sc_mapping c) (node, None) of
            Some j \<Rightarrow> if j \<noteq> i then Inl AssertionError else Inr (c\<lparr>sc_mapping := dict_set (node, None) i (sc_mapping c)\<rparr>)
          | None \<Rightarrow> Inr (c\<lparr>sc_mapping := dict_set (node, None) i (sc_mapping c)\<rparr>))
       else Inr c)"

definition setup_group :: "(node_walk, string list) dict \<Rightarrow> nat \<Rightarrow> sharding_config \<Rightarrow> sharding_config res" where
  "setup_group placed i c = rbind (get_at (sc_objects c) i) (\<lambda>g.
     let none_flag = (sg_walks g = None);
         walks = (case sg_walks g of None \<Rightarrow> remdups (map (snd \<circ> fst) placed) | Some ws \<Rightarrow> ws)
     in rfold (\<lambda>node. rfold (setup_key placed i none_flag node) walks) (sg_nodes g) c)"

text \<open>Nodes in no group: one singleton per node and placement, over the walks that share it.\<close>

definition collect_singletons ::
  "(node_walk, string list) dict \<Rightarrow> (node_walk, nat) dict \<Rightarrow> (string \<times> string list, string option list) dict" where
  "collect_singletons placed mapping = fold (\<lambda>((node, walk), workers) d.
     if map_of mapping (node, walk) \<noteq> None then d
     else dict_set (node, workers) (case map_of d (node, workers) of None \<Rightarrow> [walk] | Some ws \<Rightarrow> ws @ [walk]) d)
     placed []"

definition num_walk_combos :: "(string \<times> string list, string option list) dict \<Rightarrow> string \<Rightarrow> nat" where
  "num_walk_combos d node = length (filter (\<lambda>p. fst (fst p) = node) d)"

definition add_singleton :: "(string \<times> string list, string option list) dict \<Rightarrow>
    (string \<times> string list) \<times> string option list \<Rightarrow> sharding_config \<Rightarrow> sharding_config res" where
  "add_singleton d = (\<lambda>((node, workers), walks) c.
     rbind (register_workers workers (Some 0) (new_group [node] 1 (Some walks) None)) (\<lambda>g.
     let i = length (sc_objects c);
         m = fold (\<lambda>w. dict_set (node, w) i) walks (sc_mapping c);
         m = (if num_walk_combos d node = 1 then dict_set (node, None) i m else m)
     in Inr (c\<lparr>sc_objects := sc_objects c @ [g], sc_mapping := m\<rparr>)))"

definition setup_config :: "(node_walk, string list) dict \<Rightarrow> sharding_config \<Rightarrow> sharding_config res" where
  "setup_config placed c = (let
     c = c\<lparr>sc_setup_done := True, sc_node_workers := fold (\<lambda>(k, v). dict_set k v) placed (sc_node_workers c)\<rparr>
   in rbind (rfold (setup_group placed) [0..<sc_groups c] c) (\<lambda>c.
      let d = collect_singletons placed (sc_mapping c) in rfold (add_singleton d) d c))"

section \<open>Fan-out\<close>

record shard_destination =
  sd_worker :: string
  sd_full :: bool
  sd_rank :: nat
  sd_starts :: "nat list"
  sd_ends :: "nat list"

definition full_dest :: "string \<Rightarrow> nat \<Rightarrow> shard_destination" where
  "full_dest w r = \<lparr>sd_worker = w, sd_full = True, sd_rank = r, sd_starts = [], sd_ends = []\<rparr>"

text \<open>The source as \<open>compute_fanout\<close> resolves it: its rank, its size, its worker, its group's workers.\<close>

definition resolve_source ::
  "sharding_group option \<Rightarrow> nat option \<Rightarrow> (nat \<times> nat \<times> string option \<times> string list) res" where
  "resolve_source g rank = (case g of
     None \<Rightarrow> Inr (0, 1, None, [])
   | Some g \<Rightarrow> rbind (case rank of Some r \<Rightarrow> Inr r
         | None \<Rightarrow> (case sg_tp_rank g of None \<Rightarrow> Inl AssertionError | Some r \<Rightarrow> Inr r)) (\<lambda>r.
       rbind (workers_of g) (\<lambda>ws. rbind (get_at ws r) (\<lambda>w. Inr (r, sg_tp_size g, Some w, ws)))))"

definition resolve_dest :: "sharding_group option \<Rightarrow> (nat \<times> string list) res" where
  "resolve_dest g = (case g of None \<Rightarrow> Inr (1, [''''])
     | Some g \<Rightarrow> rbind (workers_of g) (\<lambda>ws. Inr (sg_tp_size g, ws)))"

definition replicated_dests :: "nat \<Rightarrow> string option \<Rightarrow> string list \<Rightarrow> string list \<Rightarrow> shard_destination list" where
  "replicated_dests src_rank src_worker src_workers dest_workers =
     (case src_worker of Some w \<Rightarrow> if w \<in> set dest_workers then [full_dest w (rank_of dest_workers w)] else []
        | None \<Rightarrow> []) @
     (if src_rank = 0 then map (\<lambda>w. full_dest w (rank_of dest_workers w))
        (filter (\<lambda>w. w \<notin> set src_workers) (remdups dest_workers)) else [])"

text \<open>The loop over destination ranks: a rank before the overlap is skipped, and the first one
  past it ends the loop. Which is decided by the first tensor's rows.\<close>

fun sharded_dests :: "nat list \<Rightarrow> nat \<Rightarrow> nat \<Rightarrow> nat \<Rightarrow> string list \<Rightarrow> nat list \<Rightarrow> shard_destination list res" where
  "sharded_dests sizes src_tp r dest_tp workers [] = Inr []"
| "sharded_dests sizes src_tp r dest_tp workers (q # qs) = (let
     src_starts = map (\<lambda>s. r * s) sizes; src_ends = map (\<lambda>s. (r + 1) * s) sizes;
     shard_sizes = map (\<lambda>s. s * src_tp div dest_tp) sizes;
     dest_starts = map (\<lambda>s. q * s) shard_sizes; dest_ends = map (\<lambda>s. (q + 1) * s) shard_sizes
   in rbind (get_at src_ends 0) (\<lambda>se. rbind (get_at dest_starts 0) (\<lambda>ds.
      if se \<le> ds then Inr []
      else rbind (get_at src_starts 0) (\<lambda>ss. rbind (get_at dest_ends 0) (\<lambda>de.
        if ss \<ge> de then sharded_dests sizes src_tp r dest_tp workers qs
        else rbind (get_at workers q) (\<lambda>w.
          rbind (sharded_dests sizes src_tp r dest_tp workers qs) (\<lambda>rest.
          Inr (\<lparr>sd_worker = w, sd_full = False, sd_rank = rank_of workers w,
            sd_starts = map (\<lambda>(a, b). max a b) (zip src_starts dest_starts),
            sd_ends = map (\<lambda>(a, b). min a b) (zip src_ends dest_ends)\<rparr> # rest))))))))"

definition compute_fanout ::
  "string \<Rightarrow> string option \<Rightarrow> string \<Rightarrow> string \<Rightarrow> nat list \<Rightarrow> string option \<Rightarrow> nat option \<Rightarrow> sharding_config
    \<Rightarrow> shard_destination list res" where
  "compute_fanout signal src_walk src_node dest_node sizes dest_walk src_rank c =
     (if \<not> sc_setup_done c then Inl RuntimeError
      else rbind (resolve_source (get_sharding_group src_node src_walk c) src_rank) (\<lambda>(r, src_tp, src_worker, src_workers).
        rbind (resolve_dest (get_sharding_group dest_node dest_walk c)) (\<lambda>(dest_tp, dest_workers).
        if sc_shard_dim c signal = None then Inr (replicated_dests r src_worker src_workers dest_workers)
        else if dest_tp = 0 \<and> sizes \<noteq> [] then Inl ZeroDivisionError
        else if \<not> (\<forall>s \<in> set sizes. s * src_tp mod dest_tp = 0) then Inl AssertionError
        else sharded_dests sizes src_tp r dest_tp dest_workers [0..<dest_tp])))"

definition compute_fanin :: "string \<Rightarrow> nat \<Rightarrow> string \<Rightarrow> string option \<Rightarrow> nat \<Rightarrow> sharding_config \<Rightarrow> nat" where
  "compute_fanin signal src_tp dest_node dest_walk dest_rank c =
     (if sc_shard_dim c signal = None then 1
      else let dest_tp = (case get_sharding_group dest_node dest_walk c of None \<Rightarrow> 1 | Some g \<Rightarrow> sg_tp_size g);
               lo = dest_rank * src_tp; hi = lo + src_tp
           in length (filter (\<lambda>r. r * dest_tp < hi \<and> (r + 1) * dest_tp > lo) [0..<src_tp]))"

section \<open>Edges\<close>

text \<open>One descriptor, cut to a destination's rows.\<close>

definition slice_info :: "('d \<Rightarrow> nat) \<Rightarrow> nat \<Rightarrow> nat \<Rightarrow> nat \<Rightarrow> 'd tensor_info \<Rightarrow> 'd tensor_info res" where
  "slice_info itemsize src_rank start_idx end_idx info =
     (case ti_dims info of [] \<Rightarrow> Inl IndexError
      | d # ds \<Rightarrow> (let
          row_nbytes = itemsize (ti_dtype info) * prod_list ds;
          local_start = int start_idx - int (src_rank * d)
        in Inr ((clone_info info)\<lparr>ti_dims := (end_idx - start_idx) # ds,
             ti_nbytes := (end_idx - start_idx) * row_nbytes, ti_offset := local_start * int row_nbytes\<rparr>)))"

definition slice_infos :: "('d \<Rightarrow> nat) \<Rightarrow> nat \<Rightarrow> shard_destination \<Rightarrow> 'd tensor_info list \<Rightarrow> 'd tensor_info list res" where
  "slice_infos itemsize src_rank item infos = rfold (\<lambda>i out.
     rbind (get_at (sd_starts item) i) (\<lambda>a. rbind (get_at (sd_ends item) i) (\<lambda>b.
     rbind (slice_info itemsize src_rank a b (infos ! i)) (\<lambda>x. Inr (out @ [x]))))) [0..<length infos] []"

definition fan_item :: "('d \<Rightarrow> nat) \<Rightarrow> 'd graph_edge \<Rightarrow> nat \<Rightarrow> nat \<Rightarrow> string option \<Rightarrow> sharding_config \<Rightarrow>
    shard_destination \<Rightarrow> 'd graph_edge res" where
  "fan_item itemsize edge src_tp src_rank dest_walk c item = (let
     e = (clone_edge edge)\<lparr>ge_tensor_info := [], ge_shard_dim := sc_shard_dim c (ge_name edge),
       ge_total_fanin := compute_fanin (ge_name edge) src_tp (ge_next_node edge) dest_walk (sd_rank item) c\<rparr>
   in if sd_full item then Inr (e\<lparr>ge_tensor_info := ge_tensor_info edge\<rparr>)
      else rbind (slice_infos itemsize src_rank item (ge_tensor_info edge)) (\<lambda>infos. Inr (e\<lparr>ge_tensor_info := infos\<rparr>)))"

definition shard_sizes :: "'d graph_edge \<Rightarrow> sharding_config \<Rightarrow> nat list" where
  "shard_sizes edge c = (if sc_shard_dim c (ge_name edge) = None then []
     else map (\<lambda>info. case ti_dims info of [] \<Rightarrow> 0 | d # _ \<Rightarrow> d) (ge_tensor_info edge))"

definition fanout_graph_edges ::
  "('d \<Rightarrow> nat) \<Rightarrow> 'd graph_edge \<Rightarrow> string \<Rightarrow> string option \<Rightarrow> string option \<Rightarrow> nat option \<Rightarrow> sharding_config
    \<Rightarrow> (string, 'd graph_edge) dict res" where
  "fanout_graph_edges itemsize edge src_node src_walk dest_walk src_rank c =
     rbind (compute_fanout (ge_name edge) src_walk src_node (ge_next_node edge) (shard_sizes edge c) dest_walk src_rank c)
     (\<lambda>fanout. let (src_tp, rank) = (case get_sharding_group src_node src_walk c of
          None \<Rightarrow> (1, 0)
        | Some g \<Rightarrow> (sg_tp_size g, case src_rank of Some r \<Rightarrow> r | None \<Rightarrow> (case sg_tp_rank g of Some r \<Rightarrow> r | None \<Rightarrow> 0)))
      in rfold (\<lambda>item d. rbind (fan_item itemsize edge src_tp rank dest_walk c item)
           (\<lambda>e. Inr (dict_set (sd_worker item) e d))) fanout [])"

end
