(* ===== verification/Sharding_Props.thy ===== *)
theory Sharding_Props imports Sharding begin

text \<open>
  What the fan-out of \<open>Sharding\<close> guarantees: the slices of a sharded tensor tile every
  destination shard, in source order, from exactly the ranks \<open>compute_fanin\<close> counts, and stay
  inside the memory of the rank they are read from; a replicated tensor reaches every
  destination worker from one rank. And where the fan-out fails: a first tensor without rows.
\<close>

section \<open>Groups with their workers\<close>

definition ready :: "sharding_group \<Rightarrow> string list \<Rightarrow> bool" where
  "ready g ws \<longleftrightarrow> sg_workers g = Some ws \<and> sg_tp_size g = length ws \<and> ws \<noteq> [] \<and> distinct ws"

lemma rank_of_nth: "distinct ws \<Longrightarrow> q < length ws \<Longrightarrow> rank_of ws (ws ! q) = q"
proof -
  assume a: "distinct ws" "q < length ws"
  have "map_of (rev (zip ws [0..<length ws])) (ws ! q) = Some q"
  proof (rule map_of_is_SomeI)
    show "distinct (map fst (rev (zip ws [0..<length ws])))" using a(1) by (simp add: rev_map [symmetric])
    show "(ws ! q, q) \<in> set (rev (zip ws [0..<length ws]))" using a(2) by (auto simp: set_zip intro!: exI [of _ q])
  qed
  then show ?thesis by (simp add: rank_of_def)
qed

lemma resolve_ready:
  "ready g ws \<Longrightarrow> r < length ws \<Longrightarrow> resolve_source (Some g) (Some r) = Inr (r, length ws, Some (ws ! r), ws)"
  "ready g ws \<Longrightarrow> resolve_dest (Some g) = Inr (length ws, ws)"
  by (simp_all add: ready_def resolve_source_def resolve_dest_def workers_of_def)

section \<open>Overlap of shards\<close>

text \<open>Scaled to \<open>src_tp * dest_tp\<close> units, source \<open>r\<close> and destination \<open>q\<close> hold common rows.\<close>

definition overlaps :: "nat \<Rightarrow> nat \<Rightarrow> nat \<Rightarrow> nat \<Rightarrow> bool" where
  "overlaps src_tp dest_tp r q \<longleftrightarrow> r * dest_tp < (q + 1) * src_tp \<and> q * src_tp < (r + 1) * dest_tp"

lemma scaled_le:
  assumes "dest_tp dvd s * src_tp" "0 < s" "0 < (dest_tp :: nat)"
  shows "a * s \<le> b * (s * src_tp div dest_tp) \<longleftrightarrow> a * dest_tp \<le> b * src_tp"
    and "b * (s * src_tp div dest_tp) \<le> a * s \<longleftrightarrow> b * src_tp \<le> a * dest_tp"
proof -
  obtain D where D: "s * src_tp = dest_tp * D" using assms(1) by (rule dvdE)
  then have q: "s * src_tp div dest_tp = D" using assms(3) by simp
  have "a * s \<le> b * D \<longleftrightarrow> a * s * dest_tp \<le> b * D * dest_tp" using assms(3) by simp
  also have "\<dots> \<longleftrightarrow> s * (a * dest_tp) \<le> s * (b * src_tp)" using D by (simp add: ac_simps)
  finally show "a * s \<le> b * (s * src_tp div dest_tp) \<longleftrightarrow> a * dest_tp \<le> b * src_tp" using q assms(2) by simp
  have "b * D \<le> a * s \<longleftrightarrow> b * D * dest_tp \<le> a * s * dest_tp" using assms(3) by simp
  also have "\<dots> \<longleftrightarrow> s * (b * src_tp) \<le> s * (a * dest_tp)" using D by (simp add: ac_simps)
  finally show "b * (s * src_tp div dest_tp) \<le> a * s \<longleftrightarrow> b * src_tp \<le> a * dest_tp" using q assms(2) by simp
qed

definition shard_dest :: "nat list \<Rightarrow> nat \<Rightarrow> nat \<Rightarrow> nat \<Rightarrow> string list \<Rightarrow> nat \<Rightarrow> shard_destination" where
  "shard_dest sizes src_tp r dest_tp ws q = \<lparr>sd_worker = ws ! q, sd_full = False, sd_rank = rank_of ws (ws ! q),
     sd_starts = map (\<lambda>s. max (r * s) (q * (s * src_tp div dest_tp))) sizes,
     sd_ends = map (\<lambda>s. min ((r + 1) * s) ((q + 1) * (s * src_tp div dest_tp))) sizes\<rparr>"

lemma zip_map_map: "zip (map f xs) (map g xs) = map (\<lambda>x. (f x, g x)) xs"
  by (induction xs) simp_all

lemma sharded_dests_overlaps:
  assumes "sizes = s # rest" "0 < s" "dest_tp dvd s * src_tp" "0 < dest_tp" "b \<le> length ws"
  shows "sharded_dests sizes src_tp r dest_tp ws [a..<b] =
    Inr (map (shard_dest sizes src_tp r dest_tp ws) (filter (overlaps src_tp dest_tp r) [a..<b]))"
proof (induction "b - a" arbitrary: a)
  case 0
  then show ?case by simp
next
  case (Suc n)
  then have ab: "[a..<b] = a # [Suc a..<b]" "n = b - Suc a" "a < length ws" using assms(5)
    by (auto simp: upt_conv_Cons simp del: upt.simps)
  note IH = Suc.hyps(1) [OF ab(2)]
  let ?D = "s * src_tp div dest_tp"
  note le = scaled_le [OF assms(3,2,4)]
  have past: "(r + 1) * s \<le> a * ?D \<longleftrightarrow> (r + 1) * dest_tp \<le> a * src_tp" by (rule le(1))
  have before: "(a + 1) * ?D \<le> r * s \<longleftrightarrow> (a + 1) * src_tp \<le> r * dest_tp" by (rule le(2))
  show ?case
  proof (cases "(r + 1) * s \<le> a * ?D")
    case True
    have "\<not> overlaps src_tp dest_tp r q" if "a \<le> q" for q
    proof -
      have "a * src_tp \<le> q * src_tp" using that by simp
      then show ?thesis using True past unfolding overlaps_def by linarith
    qed
    then have "filter (overlaps src_tp dest_tp r) [a..<b] = []" by (simp add: filter_empty_conv)
    with True show ?thesis unfolding ab(1) by (simp add: assms(1) Let_def)
  next
    case False
    note np = this
    show ?thesis
    proof (cases "(a + 1) * ?D \<le> r * s")
      case True
      then have "\<not> overlaps src_tp dest_tp r a" using before unfolding overlaps_def by linarith
      with np True IH show ?thesis unfolding ab(1) by (simp add: assms(1) Let_def)
    next
      case False
      then have "overlaps src_tp dest_tp r a" using np past before unfolding overlaps_def by linarith
      with np False IH ab(3) show ?thesis unfolding ab(1)
        by (simp add: assms(1) Let_def shard_dest_def zip_map_map comp_def)
    qed
  qed
qed

lemma upt_split: "i \<le> j \<Longrightarrow> j \<le> k \<Longrightarrow> [i..<j] @ [j..<k] = [i..<(k :: nat)]"
  by (metis le_add_diff_inverse upt_add_eq_append)

text \<open>Cut at the multiples of \<open>s\<close>, a range of rows is its pieces in order.\<close>

lemma tiles:
  "concat (map (\<lambda>r. [max (r * s) lo..<min ((r + 1) * s) hi]) [0..<n]) = [lo..<min hi (n * s)]"
proof (induction n)
  case (Suc n)
  have step: "concat (map (\<lambda>r. [max (r * s) lo..<min ((r + 1) * s) hi]) [0..<Suc n]) =
    [lo..<min hi (n * s)] @ [max (n * s) lo..<min ((n + 1) * s) hi]" using Suc by simp
  consider "n * s \<le> lo" | "lo \<le> n * s" "hi \<le> n * s" | "lo \<le> n * s" "n * s \<le> hi" by linarith
  then show ?case
  proof cases
    case 1
    then show ?thesis unfolding step by (simp add: max_def min.commute)
  next
    case 2
    then show ?thesis unfolding step by (simp add: max_def min_def)
  next
    case 3
    then have "[lo..<min hi (n * s)] @ [max (n * s) lo..<min ((n + 1) * s) hi] =
        [lo..<n * s] @ [n * s..<min hi (s + n * s)]" by (simp add: max_def min.commute)
    also have "\<dots> = [lo..<min hi (s + n * s)]" by (rule upt_split) (use 3 in simp_all)
    finally show ?thesis unfolding step by simp
  qed
qed simp

lemma tiles_overlapping:
  assumes "dest_tp dvd s * src_tp" "0 < s" "0 < dest_tp" "q < dest_tp"
  defines "D \<equiv> s * src_tp div dest_tp"
  shows "concat (map (\<lambda>r. if overlaps src_tp dest_tp r q
      then [max (r * s) (q * D)..<min ((r + 1) * s) ((q + 1) * D)] else []) [0..<src_tp]) = [q * D..<(q + 1) * D]"
proof -
  note le = scaled_le [OF assms(1,2,3), folded D_def]
  have none: "[max (r * s) (q * D)..<min ((r + 1) * s) ((q + 1) * D)] = []" if "\<not> overlaps src_tp dest_tp r q" for r
  proof -
    from that have "(q + 1) * D \<le> r * s \<or> (r + 1) * s \<le> q * D" unfolding overlaps_def le not_less by linarith
    then show ?thesis by auto
  qed
  have "D * dest_tp = s * src_tp" using assms(1,3) unfolding D_def by (simp add: dvd_div_mult_self)
  moreover have "(q + 1) * D \<le> dest_tp * D" using assms(4) by (intro mult_le_mono1) simp
  ultimately have "min ((q + 1) * D) (src_tp * s) = (q + 1) * D" by (simp add: min_def ac_simps)
  then have "concat (map (\<lambda>r. [max (r * s) (q * D)..<min ((r + 1) * s) ((q + 1) * D)]) [0..<src_tp]) = [q * D..<(q + 1) * D]"
    unfolding tiles by simp
  moreover have "(\<lambda>r. if overlaps src_tp dest_tp r q then [max (r * s) (q * D)..<min ((r + 1) * s) ((q + 1) * D)] else []) =
      (\<lambda>r. [max (r * s) (q * D)..<min ((r + 1) * s) ((q + 1) * D)])"
  proof (rule ext)
    show "(if overlaps src_tp dest_tp r q then [max (r * s) (q * D)..<min ((r + 1) * s) ((q + 1) * D)] else []) =
        [max (r * s) (q * D)..<min ((r + 1) * s) ((q + 1) * D)]" for r
      using none [of r] by (cases "overlaps src_tp dest_tp r q") (simp_all only: if_True if_False not_False_eq_True)
  qed
  ultimately show ?thesis by simp
qed

lemma overlap_exists:
  assumes "q < dest_tp" "0 < src_tp" shows "\<exists>r < src_tp. overlaps src_tp dest_tp r q"
proof (intro exI conjI)
  let ?r = "q * src_tp div dest_tp"
  have d: "0 < dest_tp" using assms(1) by simp
  have "q * src_tp < dest_tp * src_tp" using assms by simp
  then show "?r < src_tp" using d by (simp add: div_less_iff_less_mult mult.commute)
  have "?r * dest_tp \<le> q * src_tp" by simp
  moreover have "(q + 1) * src_tp = q * src_tp + src_tp" by simp
  moreover have "q * src_tp < (?r + 1) * dest_tp" using d dividend_less_div_times [of dest_tp "q * src_tp"] by simp
  ultimately show "overlaps src_tp dest_tp ?r q" using assms(2) unfolding overlaps_def by linarith
qed

section \<open>Fan-out of a sharded signal\<close>

text \<open>A config in which a sharded signal goes from one placed group to another.\<close>

definition sharded_route ::
  "string \<Rightarrow> string \<Rightarrow> string option \<Rightarrow> string list \<Rightarrow> string \<Rightarrow> string option \<Rightarrow> string list \<Rightarrow> sharding_config \<Rightarrow> bool" where
  "sharded_route signal sn sw ss dn dw ds c \<longleftrightarrow> sc_setup_done c \<and> sc_shard_dim c signal \<noteq> None \<and>
     (\<exists>g. get_sharding_group sn sw c = Some g \<and> ready g ss) \<and>
     (\<exists>g. get_sharding_group dn dw c = Some g \<and> ready g ds)"

lemma sharded_fanout:
  assumes route: "sharded_route signal sn sw ss dn dw ds c" and r: "r < length ss"
    and sizes: "sizes = s # rest" "0 < s" "\<forall>s \<in> set sizes. length ds dvd s * length ss"
  shows "compute_fanout signal sw sn dn sizes dw (Some r) c =
    Inr (map (shard_dest sizes (length ss) r (length ds) ds) (filter (overlaps (length ss) (length ds) r) [0..<length ds]))"
proof -
  obtain gs gd where g: "sc_setup_done c" "sc_shard_dim c signal \<noteq> None" "get_sharding_group sn sw c = Some gs"
    "ready gs ss" "get_sharding_group dn dw c = Some gd" "ready gd ds"
    using route unfolding sharded_route_def by blast
  have ds: "0 < length ds" using g(6) by (simp add: ready_def)
  have "length ds dvd s * length ss" using sizes by simp
  note sd = sharded_dests_overlaps [OF sizes(1,2) this ds order_refl, where r = r and a = 0]
  show ?thesis
    using g(1,2,3,5) ds resolve_ready(1) [OF g(4) r] resolve_ready(2) [OF g(6)] sizes(3) sd
    by (auto simp: compute_fanout_def mod_eq_0_iff_dvd simp del: upt.simps)
qed

lemma fanin_overlaps:
  assumes "sharded_route signal sn sw ss dn dw ds c"
  shows "compute_fanin signal (length ss) dn dw q c = length (filter (\<lambda>r. overlaps (length ss) (length ds) r q) [0..<length ss])"
  using assms by (auto simp: sharded_route_def compute_fanin_def ready_def overlaps_def Let_def algebra_simps)

text \<open>
  C25. The fan-out of a sharded signal tiles its destinations: for every destination rank and
  every tensor of the edge, the row ranges the source ranks send it, one rank after the other,
  are exactly the rows of its shard, each once and in order; each range goes to the worker of
  that rank; and the number of ranks that send to it is the fan-in it is told to wait for.
\<close>

theorem sharded_rows_arrive_once:
  assumes route: "sharded_route signal sn sw ss dn dw ds c"
    and sizes: "sizes \<noteq> []" "\<forall>s \<in> set sizes. 0 < s \<and> length ds dvd s * length ss"
    and q: "q < length ds" and k: "k < length sizes"
  shows "\<exists>fan. (\<forall>r < length ss. compute_fanout signal sw sn dn sizes dw (Some r) c = Inr (fan r) \<and>
      (\<forall>d \<in> set (fan r). sd_worker d = ds ! sd_rank d)) \<and>
    concat (map (\<lambda>r. concat (map (\<lambda>d. [sd_starts d ! k..<sd_ends d ! k]) (filter (\<lambda>d. sd_rank d = q) (fan r))))
      [0..<length ss]) = [q * (sizes ! k * length ss div length ds)..<(q + 1) * (sizes ! k * length ss div length ds)] \<and>
    compute_fanin signal (length ss) dn dw q c = length (filter (\<lambda>r. \<exists>d \<in> set (fan r). sd_rank d = q) [0..<length ss])"
proof -
  let ?dest = "\<lambda>r. shard_dest sizes (length ss) r (length ds) ds"
  let ?ov = "overlaps (length ss) (length ds)"
  define fan where "fan r = map (?dest r) (filter (?ov r) [0..<length ds])" for r
  obtain s rest where s: "sizes = s # rest" using sizes(1) by (cases sizes) auto
  have dist: "distinct ds" "ds \<noteq> []" using route by (auto simp: sharded_route_def ready_def)
  have rank: "sd_rank (?dest r p) = p" "sd_worker (?dest r p) = ds ! p" if "p < length ds" for r p
    using rank_of_nth [OF dist(1) that] by (simp_all add: shard_dest_def)
  have fan: "compute_fanout signal sw sn dn sizes dw (Some r) c = Inr (fan r)" if "r < length ss" for r
    unfolding fan_def using sharded_fanout [OF route that s] sizes(2) s by simp
  have to_q: "filter (\<lambda>d. sd_rank d = q) (fan r) = (if ?ov r q then [?dest r q] else [])" for r
  proof -
    have "filter (\<lambda>d. sd_rank d = q) (fan r) = map (?dest r) (filter (\<lambda>p. p = q \<and> ?ov r p) [0..<length ds])"
      unfolding fan_def filter_map comp_def filter_filter
      by (intro arg_cong [of _ _ "map (?dest r)"] filter_cong) (use rank in auto)
    also have "filter (\<lambda>p. p = q \<and> ?ov r p) [0..<length ds] = (if ?ov r q then [q] else [])"
    proof -
      have "[0..<length ds] = [0..<q] @ q # [Suc q..<length ds]"
        using q upt_split [of 0 q "length ds"] by (simp add: upt_conv_Cons del: upt.simps)
      then have "filter (\<lambda>p. p = q) [0..<length ds] = [q]"
        by (simp only: filter_append filter.simps) (simp add: filter_empty_conv)
      then have "filter (?ov r) (filter (\<lambda>p. p = q) [0..<length ds]) = (if ?ov r q then [q] else [])" by simp
      then show ?thesis by (simp only: filter_filter conj_commute)
    qed
    finally show ?thesis by simp
  qed
  have "concat (map (\<lambda>d. [sd_starts d ! k..<sd_ends d ! k]) (filter (\<lambda>d. sd_rank d = q) (fan r))) =
      (if ?ov r q then [max (r * (sizes ! k)) (q * (sizes ! k * length ss div length ds))..<
        min ((r + 1) * (sizes ! k)) ((q + 1) * (sizes ! k * length ss div length ds))] else [])" for r
    unfolding to_q using k by (simp add: shard_dest_def)
  moreover have "sizes ! k \<in> set sizes" using k by simp
  ultimately have rows: "concat (map (\<lambda>r. concat (map (\<lambda>d. [sd_starts d ! k..<sd_ends d ! k])
      (filter (\<lambda>d. sd_rank d = q) (fan r)))) [0..<length ss]) =
      [q * (sizes ! k * length ss div length ds)..<(q + 1) * (sizes ! k * length ss div length ds)]"
    using tiles_overlapping [of "length ds" "sizes ! k" "length ss" q] sizes(2) q dist(2) by simp
  have "(\<exists>d \<in> set (fan r). sd_rank d = q) \<longleftrightarrow> ?ov r q" for r
    using to_q [of r] by (metis (mono_tags, lifting) empty_filter_conv list.distinct(1))
  then have "compute_fanin signal (length ss) dn dw q c = length (filter (\<lambda>r. \<exists>d \<in> set (fan r). sd_rank d = q) [0..<length ss])"
    using fanin_overlaps [OF route, of q] by simp
  moreover have "sd_worker d = ds ! sd_rank d" if "d \<in> set (fan r)" for r d
    using that rank unfolding fan_def by auto
  ultimately show ?thesis using fan rows by (intro exI [of _ fan]) simp
qed

text \<open>An encoder on two workers feeding a language model on four.\<close>

definition demo_config :: sharding_config where
  "demo_config = projr (setup_config [((''enc'', Some ''p''), [''w0'', ''w1'']), ((''llm'', Some ''p''), [''w0'', ''w1'', ''w2'', ''w3''])]
     (new_config [new_group [''enc''] 2 None None, new_group [''llm''] 4 None None] [''enc'', ''llm'']
       [''emb'' \<mapsto> 0] [] []))"

lemma demo_config_simps:
  "sc_setup_done demo_config" "sc_shard_dim demo_config ''emb'' = Some 0" "sc_shard_dim demo_config ''pos'' = None"
  "map_of (sc_mapping demo_config) (''enc'', Some ''p'') = Some 0"
  "map_of (sc_mapping demo_config) (''llm'', Some ''p'') = Some 1"
  "sg_workers (sc_objects demo_config ! 0) = Some [''w0'', ''w1'']" "sg_tp_size (sc_objects demo_config ! 0) = 2"
  "sg_workers (sc_objects demo_config ! 1) = Some [''w0'', ''w1'', ''w2'', ''w3'']" "sg_tp_size (sc_objects demo_config ! 1) = 4"
  by code_simp+

lemma demo_route: "sharded_route ''emb'' ''enc'' (Some ''p'') [''w0'', ''w1''] ''llm'' (Some ''p'') [''w0'', ''w1'', ''w2'', ''w3''] demo_config"
  by (auto simp: sharded_route_def get_sharding_group_def ready_def demo_config_simps demo_config_simps [simplified])

abbreviation encs :: "string list" where "encs \<equiv> [''w0'', ''w1'']"
abbreviation llms :: "string list" where "llms \<equiv> [''w0'', ''w1'', ''w2'', ''w3'']"

theorem sharded_rows_arrive_once_witness:
  "\<exists>fan. (\<forall>r < length encs. compute_fanout ''emb'' (Some ''p'') ''enc'' ''llm'' [6] (Some ''p'') (Some r) demo_config = Inr (fan r)) \<and>
    concat (map (\<lambda>r. concat (map (\<lambda>d. [sd_starts d ! 0..<sd_ends d ! 0]) (filter (\<lambda>d. sd_rank d = 3) (fan r))))
      [0..<length encs]) = [9, 10, 11]"
proof -
  have sz: "[6 :: nat] \<noteq> []" "\<forall>s \<in> set [6 :: nat]. 0 < s \<and> length llms dvd s * length encs"
    "3 < length llms" "0 < length [6 :: nat]" by (auto intro: dvdI [of _ _ 3])
  let ?rows = "[3 * ([6] ! 0 * length encs div length llms)..<(3 + 1) * ([6] ! 0 * length encs div length llms)]"
  have "?rows = [9, 10, 11]" by code_simp
  moreover obtain fan where "\<forall>r < length encs. compute_fanout ''emb'' (Some ''p'') ''enc'' ''llm'' [6] (Some ''p'') (Some r) demo_config = Inr (fan r)"
    "concat (map (\<lambda>r. concat (map (\<lambda>d. [sd_starts d ! 0..<sd_ends d ! 0]) (filter (\<lambda>d. sd_rank d = 3) (fan r))))
      [0..<length encs]) = ?rows"
    using sharded_rows_arrive_once [OF demo_route sz] by blast
  ultimately show ?thesis by (intro exI [of _ fan] conjI) (assumption, simp only:)
qed

section \<open>Slices stay inside the source's shard\<close>

lemma slice_infos_nth:
  assumes "slice_infos itemsize rank item infos = Inr out"
  shows "length out = length infos \<and> (\<forall>i < length infos. i < length (sd_starts item) \<and> i < length (sd_ends item) \<and>
    slice_info itemsize rank (sd_starts item ! i) (sd_ends item ! i) (infos ! i) = Inr (out ! i))"
proof -
  define f where "f = (\<lambda>i out. rbind (get_at (sd_starts item) i) (\<lambda>a. rbind (get_at (sd_ends item) i) (\<lambda>b.
     rbind (slice_info itemsize rank a b (infos ! i)) (\<lambda>x. Inr (out @ [x])))))"
  have "rfold f [0..<n] [] = Inr out \<Longrightarrow> length out = n \<and> (\<forall>i < n. i < length (sd_starts item) \<and> i < length (sd_ends item) \<and>
    slice_info itemsize rank (sd_starts item ! i) (sd_ends item ! i) (infos ! i) = Inr (out ! i))" for n out
  proof (induction n arbitrary: out)
    case (Suc n)
    then obtain o1 where run: "rfold f [0..<n] [] = Inr o1" "f n o1 = Inr out" by (auto simp: rfold_append)
    note IH = Suc.IH [OF run(1)]
    obtain a b x where o1: "get_at (sd_starts item) n = Inr a" "get_at (sd_starts item) n = Inr a"
      "get_at (sd_ends item) n = Inr b" "slice_info itemsize rank a b (infos ! n) = Inr x" "out = o1 @ [x]"
      using run(2) unfolding f_def rbind_eq_Inr by blast
    have ab: "n < length (sd_starts item)" "n < length (sd_ends item)" "a = sd_starts item ! n" "b = sd_ends item ! n"
      using o1(2,3) by (simp_all add: get_at_Inr)
    show ?case
    proof (intro conjI allI impI)
      fix i assume "i < Suc n"
      then consider "i < n" | "i = n" by linarith
      then show "i < length (sd_starts item)" "i < length (sd_ends item)"
        "slice_info itemsize rank (sd_starts item ! i) (sd_ends item ! i) (infos ! i) = Inr (out ! i)"
        using IH o1(4,5) ab by (cases; simp add: nth_append)+
    qed (use IH o1(5) in simp)
  qed simp
  from this [OF assms [unfolded slice_infos_def, folded f_def]] show ?thesis .
qed

lemma shard_dest_bounds:
  assumes "overlaps src_tp dest_tp r q" "dest_tp dvd s * src_tp" "0 < dest_tp"
  defines "D \<equiv> s * src_tp div dest_tp"
  shows "r * s \<le> max (r * s) (q * D)" "max (r * s) (q * D) \<le> min ((r + 1) * s) ((q + 1) * D)"
    "min ((r + 1) * s) ((q + 1) * D) \<le> (r + 1) * s"
proof -
  show "max (r * s) (q * D) \<le> min ((r + 1) * s) ((q + 1) * D)"
  proof (cases "s = 0")
    case False
    then have s: "0 < s" by simp
    note le = scaled_le [OF assms(2) s assms(3), folded D_def]
    have "q * D \<le> (r + 1) * s" "r * s \<le> (q + 1) * D" using assms(1) unfolding overlaps_def le by linarith+
    then show ?thesis by simp
  qed (simp add: D_def)
qed simp_all

text \<open>
  C26. What a sharded edge tells a destination to read lies inside the memory of the source rank
  it came from: with the offset rebased onto the rank's own slab, every slice starts at or after
  its first byte, ends at or before its last, and its size is that of its shape.
\<close>

theorem slices_stay_in_shard:
  assumes route: "sharded_route (ge_name edge) sn sw ss (ge_next_node edge) dw ds c" and r: "r < length ss"
    and sizes: "shard_sizes edge c = s # rest" "0 < s" "\<forall>s \<in> set (shard_sizes edge c). length ds dvd s * length ss"
    and run: "fanout_graph_edges itemsize edge sn sw dw (Some r) c = Inr out"
    and e: "map_of out w = Some e" and i: "i < length (ge_tensor_info edge)"
  shows "\<exists>new. length (ge_tensor_info e) = length (ge_tensor_info edge) \<and> ge_tensor_info e ! i = new \<and>
    ti_uuid new = ti_uuid (ge_tensor_info edge ! i) \<and> 0 \<le> ti_offset new \<and>
    ti_nbytes new = itemsize (ti_dtype new) * prod_list (ti_dims new) \<and>
    ti_offset new + int (ti_nbytes new) \<le>
      int (itemsize (ti_dtype (ge_tensor_info edge ! i)) * prod_list (ti_dims (ge_tensor_info edge ! i)))"
proof -
  let ?sizes = "shard_sizes edge c" and ?infos = "ge_tensor_info edge"
  let ?fan = "map (shard_dest ?sizes (length ss) r (length ds) ds) (filter (overlaps (length ss) (length ds) r) [0..<length ds])"
  obtain g where g: "get_sharding_group sn sw c = Some g" "ready g ss" using route by (auto simp: sharded_route_def)
  have ds: "0 < length ds" using route by (auto simp: sharded_route_def ready_def)
  have dim: "sc_shard_dim c (ge_name edge) \<noteq> None" using route by (simp add: sharded_route_def)
  note fan = sharded_fanout [OF route r sizes]
  let ?step = "\<lambda>item d. rbind (fan_item itemsize edge (length ss) r dw c item) (\<lambda>e. Inr (dict_set (sd_worker item) e d))"
  have run': "rfold ?step ?fan [] = Inr out"
    using run fan g by (simp add: fanout_graph_edges_def ready_def)
  have "map_of out w = Some e \<longrightarrow> (\<exists>item \<in> set ?fan. fan_item itemsize edge (length ss) r dw c item = Inr e)"
    by (rule rfold_invariant [OF run', where P = "\<lambda>d. map_of d w = Some e \<longrightarrow>
        (\<exists>item \<in> set ?fan. fan_item itemsize edge (length ss) r dw c item = Inr e)"]) (auto split: if_splits)
  with e obtain item where item: "item \<in> set ?fan" "fan_item itemsize edge (length ss) r dw c item = Inr e" by blast
  then obtain q where q: "overlaps (length ss) (length ds) r q" "item = shard_dest ?sizes (length ss) r (length ds) ds q" by auto
  obtain infos where infos: "slice_infos itemsize r item ?infos = Inr infos" "ge_tensor_info e = infos"
    using item(2) q(2) by (auto simp: fan_item_def Let_def shard_dest_def)
  let ?info = "?infos ! i"
  have len: "length ?sizes = length ?infos" using dim unfolding shard_sizes_def by (simp only: if_False length_map)
  have sl: "length infos = length ?infos" "slice_info itemsize r (sd_starts item ! i) (sd_ends item ! i) ?info = Inr (infos ! i)"
    using slice_infos_nth [OF infos(1)] i by blast+
  then obtain d ts where dims: "ti_dims ?info = d # ts" by (cases "ti_dims ?info") (auto simp: slice_info_def)
  have si: "?sizes ! i = d" unfolding shard_sizes_def if_not_P [OF dim] using i dims by simp
  have dvd: "length ds dvd d * length ss" using sizes(3) i len si by (metis nth_mem)
  let ?D = "d * length ss div length ds"
  let ?a = "max (r * d) (q * ?D)" and ?b = "min ((r + 1) * d) ((q + 1) * ?D)"
  note bounds = shard_dest_bounds [OF q(1) dvd ds]
  have ab: "sd_starts item ! i = ?a" "sd_ends item ! i = ?b" using q(2) i len si by (simp_all add: shard_dest_def)
  let ?row = "itemsize (ti_dtype ?info) * prod_list ts"
  have new: "infos ! i = ?info\<lparr>ti_dims := (?b - ?a) # ts, ti_nbytes := (?b - ?a) * ?row,
      ti_offset := (int ?a - int (r * d)) * int ?row\<rparr>"
    using sl(2) unfolding ab slice_info_def dims by (simp add: Let_def)
  have "int ?a - int (r * d) = int (?a - r * d)" using bounds(1) by simp
  then have off: "ti_offset (infos ! i) = int ((?a - r * d) * ?row)" unfolding new by simp
  have "(?a - r * d) + (?b - ?a) \<le> d" using bounds by (simp add: add_mult_distrib)
  then have "(?a - r * d) * ?row + (?b - ?a) * ?row \<le> d * ?row" by (metis add_mult_distrib mult_le_mono1)
  then have "ti_offset (infos ! i) + int (ti_nbytes (infos ! i)) \<le> int (itemsize (ti_dtype ?info) * prod_list (ti_dims ?info))"
    unfolding off by (simp add: new dims ac_simps flip: of_nat_add of_nat_mult)
  moreover have "ti_nbytes (infos ! i) = itemsize (ti_dtype (infos ! i)) * prod_list (ti_dims (infos ! i))"
    unfolding new by (simp add: ac_simps)
  moreover have "0 \<le> ti_offset (infos ! i)" unfolding off by (rule of_nat_0_le_iff)
  moreover have "ti_uuid (infos ! i) = ti_uuid ?info" unfolding new by simp
  ultimately show ?thesis using sl(1) unfolding infos(2) by blast
qed

definition demo_edge :: "unit graph_edge" where
  "demo_edge = (new_edge ''llm'' ''emb'')\<lparr>ge_tensor_info := [\<lparr>ti_dims = [6, 3], ti_dtype = (), ti_nbytes = 72,
     ti_address = 0, ti_stride = [3, 1], ti_uuid = 7, ti_session = ''h'', ti_entity = ''w1'', ti_offset = 0,
     ti_tp_size = 2, ti_tp_rank = 1, ti_shm_segment = None, ti_shm_offset = 0, ti_node = Some ''enc'',
     ti_walk = Some ''p''\<rparr>]\<rparr>"

theorem slices_stay_in_shard_witness:
  "\<exists>out e. fanout_graph_edges (\<lambda>_. 4) demo_edge ''enc'' (Some ''p'') (Some ''p'') (Some 1) demo_config = Inr out \<and>
    map_of out ''w3'' = Some e \<and> ti_offset (ge_tensor_info e ! 0) + int (ti_nbytes (ge_tensor_info e ! 0)) \<le> 72"
proof -
  let ?r = "fanout_graph_edges (\<lambda>_. 4) demo_edge ''enc'' (Some ''p'') (Some ''p'') (Some 1) demo_config"
  have nm: "ge_name demo_edge = ''emb''" "ge_next_node demo_edge = ''llm''" "length (ge_tensor_info demo_edge) = 1"
    "prod_list (ti_dims (ge_tensor_info demo_edge ! 0)) = 18" by (simp_all add: demo_edge_def new_edge_def)
  have sz: "shard_sizes demo_edge demo_config = 6 # []" "0 < (6 :: nat)"
    "\<forall>s \<in> set (shard_sizes demo_edge demo_config). length llms dvd s * length encs"
    by (auto simp: shard_sizes_def demo_edge_def new_edge_def demo_config_simps intro: dvdI [of _ _ 3])
  have ok: "is_ok ?r" "map_option (\<lambda>_. ()) (map_of (projr ?r) ''w3'') = Some ()" by code_simp+
  obtain e where e: "map_of (projr ?r) ''w3'' = Some e" using ok(2) by auto
  have "\<exists>new. length (ge_tensor_info e) = length (ge_tensor_info demo_edge) \<and> ge_tensor_info e ! 0 = new \<and>
    ti_uuid new = ti_uuid (ge_tensor_info demo_edge ! 0) \<and> 0 \<le> ti_offset new \<and>
    ti_nbytes new = 4 * prod_list (ti_dims new) \<and>
    ti_offset new + int (ti_nbytes new) \<le> int (4 * prod_list (ti_dims (ge_tensor_info demo_edge ! 0)))"
    by (rule slices_stay_in_shard [where itemsize = "\<lambda>_. 4" and ds = llms and ss = encs and r = 1 and i = 0, OF _ _ sz ok_projr [OF ok(1)] e])
      (use demo_route nm in simp_all)
  with ok_projr [OF ok(1)] e nm show ?thesis by auto
qed

section \<open>Replicated signals\<close>

lemma concat_only: "k < n \<Longrightarrow> concat (map (\<lambda>r. if r = k then [d] else []) [0..<n]) = [d]"
proof (induction n)
  case (Suc n)
  have "concat (map (\<lambda>r. if r = n then [d] else []) [0..<n]) = []" by (simp add: concat_eq_Nil_conv)
  with Suc show ?case by (cases "k = n") simp_all
qed simp

lemma filter_remdups_once: "distinct ws \<Longrightarrow> w \<in> set ws \<Longrightarrow> filter (\<lambda>v. v = w) ws = [w]"
  by (induction ws) (auto simp: filter_empty_conv)

text \<open>
  C27. A replicated tensor, which every source rank holds whole, reaches every destination
  worker whole and from exactly one rank: a worker that is itself a source keeps its own, and
  every other one gets the first rank's.
\<close>

theorem replicated_once:
  assumes c: "sc_setup_done c" "sc_shard_dim c signal = None"
    and src: "get_sharding_group sn sw c = Some gs" "ready gs ss"
    and dst: "get_sharding_group dn dw c = Some gd" "ready gd ds"
    and w: "w \<in> set ds"
  shows "\<exists>fan. (\<forall>r < length ss. compute_fanout signal sw sn dn sizes dw (Some r) c = Inr (fan r) \<and>
      (\<forall>d \<in> set (fan r). sd_full d \<and> sd_worker d \<in> set ds)) \<and>
    concat (map (\<lambda>r. filter (\<lambda>d. sd_worker d = w) (fan r)) [0..<length ss]) = [full_dest w (rank_of ds w)]"
proof -
  define fan where "fan r = replicated_dests r (Some (ss ! r)) ss ds" for r
  have run: "compute_fanout signal sw sn dn sizes dw (Some r) c = Inr (fan r)" if "r < length ss" for r
    using c src(1) dst(1) resolve_ready(1) [OF src(2) that] resolve_ready(2) [OF dst(2)]
    by (simp add: compute_fanout_def fan_def)
  have ss: "distinct ss" "ss \<noteq> []" and ds: "distinct ds" using src(2) dst(2) by (simp_all add: ready_def)
  let ?d = "full_dest w (rank_of ds w)"
  have at: "filter (\<lambda>d. sd_worker d = w) (fan r) =
      (if ss ! r = w \<or> r = 0 \<and> w \<notin> set ss then [?d] else [])" if r: "r < length ss" for r
  proof -
    have fw: "filter (\<lambda>d. sd_worker d = w) (map (\<lambda>w. full_dest w (rank_of ds w)) vs) =
        map (\<lambda>w. full_dest w (rank_of ds w)) (filter (\<lambda>v. v = w) vs)" for vs
      by (simp add: filter_map comp_def full_dest_def)
    have "filter (\<lambda>v. v = w) (filter (\<lambda>w. w \<notin> set ss) (remdups ds)) =
        filter (\<lambda>w. w \<notin> set ss) (filter (\<lambda>v. v = w) (remdups ds))" by (simp only: filter_filter conj_commute)
    also have "filter (\<lambda>v. v = w) (remdups ds) = [w]" using filter_remdups_once [OF ds w] ds by (simp add: distinct_remdups_id)
    finally have "filter (\<lambda>v. v = w) (filter (\<lambda>w. w \<notin> set ss) (remdups ds)) = (if w \<in> set ss then [] else [w])" by simp
    then have second: "filter (\<lambda>d. sd_worker d = w) (map (\<lambda>w. full_dest w (rank_of ds w))
        (filter (\<lambda>w. w \<notin> set ss) (remdups ds))) = (if w \<in> set ss then [] else [?d])"
      unfolding fw by simp
    have "ss ! r \<in> set ss" using r by simp
    then show ?thesis using w second unfolding fan_def replicated_dests_def
      by (cases "r = 0") (auto simp: full_dest_def split: if_splits)
  qed
  have "concat (map (\<lambda>r. filter (\<lambda>d. sd_worker d = w) (fan r)) [0..<length ss]) =
      concat (map (\<lambda>r. if ss ! r = w \<or> r = 0 \<and> w \<notin> set ss then [?d] else []) [0..<length ss])"
    using at by (intro arg_cong [of _ _ concat] map_cong) simp_all
  also have "\<dots> = [?d]"
  proof -
    obtain r0 where r0: "r0 < length ss" "\<And>r. r < length ss \<Longrightarrow> (ss ! r = w \<or> r = 0 \<and> w \<notin> set ss) \<longleftrightarrow> r = r0"
    proof (cases "w \<in> set ss")
      case True
      then obtain k where "k < length ss" "ss ! k = w" by (auto simp: in_set_conv_nth)
      with True that [of k] ss(1) show ?thesis by (auto simp: nth_eq_iff_index_eq)
    next
      case False
      with that [of 0] ss(2) show ?thesis by (auto dest: nth_mem)
    qed
    have "map (\<lambda>r. if ss ! r = w \<or> r = 0 \<and> w \<notin> set ss then [?d] else []) [0..<length ss] =
        map (\<lambda>r. if r = r0 then [?d] else []) [0..<length ss]" using r0(2) by (intro map_cong) simp_all
    then show ?thesis using concat_only [OF r0(1), of ?d] by (simp only:)
  qed
  finally have once: "concat (map (\<lambda>r. filter (\<lambda>d. sd_worker d = w) (fan r)) [0..<length ss]) = [?d]" .
  have "sd_full d \<and> sd_worker d \<in> set ds" if "d \<in> set (fan r)" for r d
    using that unfolding fan_def replicated_dests_def by (auto simp: full_dest_def split: if_splits)
  with run once show ?thesis by (intro exI [of _ fan]) blast
qed

theorem replicated_once_witness:
  "\<exists>fan. compute_fanout ''pos'' (Some ''p'') ''enc'' ''llm'' [] (Some ''p'') (Some 0) demo_config = Inr (fan (0 :: nat)) \<and>
    concat (map (\<lambda>r. filter (\<lambda>d. sd_worker d = ''w3'') (fan r)) [0..<length encs]) = [full_dest ''w3'' (rank_of llms ''w3'')]"
proof -
  have g: "get_sharding_group ''enc'' (Some ''p'') demo_config = Some (sc_objects demo_config ! 0)"
    "get_sharding_group ''llm'' (Some ''p'') demo_config = Some (sc_objects demo_config ! 1)"
    "ready (sc_objects demo_config ! 0) encs" "ready (sc_objects demo_config ! 1) llms"
    by (auto simp: get_sharding_group_def ready_def demo_config_simps demo_config_simps [simplified])
  have "''w3'' \<in> set llms" "(0 :: nat) < length encs" by simp_all
  with replicated_once [OF demo_config_simps(1,3) g(1,3,2,4), of "''w3''" "[]"] show ?thesis by blast
qed

section \<open>A first tensor without rows\<close>

text \<open>
  C28. If the first tensor of a sharded edge has no rows, the loop ends at the first destination
  and no rank sends the edge to anyone, however many rows its other tensors have; but every
  destination rank is told to wait for at least one contribution.
\<close>

theorem zero_row_edge_lost:
  assumes route: "sharded_route signal sn sw ss dn dw ds c" and r: "r < length ss" and q: "q < length ds"
    and sizes: "sizes = 0 # rest" "\<forall>s \<in> set sizes. length ds dvd s * length ss"
  shows "compute_fanout signal sw sn dn sizes dw (Some r) c = Inr [] \<and>
    0 < compute_fanin signal (length ss) dn dw q c"
proof -
  obtain gs gd where g: "sc_setup_done c" "sc_shard_dim c signal \<noteq> None" "get_sharding_group sn sw c = Some gs"
    "ready gs ss" "get_sharding_group dn dw c = Some gd" "ready gd ds"
    using route unfolding sharded_route_def by blast
  obtain n where n: "length ds = Suc n" using q by (cases "length ds") simp_all
  have "[0..<length ds] = 0 # [1..<length ds]" using n by (simp add: upt_conv_Cons del: upt.simps)
  then have "sharded_dests sizes (length ss) r (length ds) ds [0..<length ds] = Inr []"
    by (simp add: sizes(1) Let_def)
  then have "compute_fanout signal sw sn dn sizes dw (Some r) c = Inr []"
    using g(1,2,3,5) n resolve_ready(1) [OF g(4) r] resolve_ready(2) [OF g(6)] sizes(2)
    by (auto simp: compute_fanout_def mod_eq_0_iff_dvd simp del: upt.simps)
  moreover have "\<exists>p < length ss. overlaps (length ss) (length ds) p q"
    using overlap_exists [OF q, of "length ss"] r gr_implies_not0 by blast
  then have "filter (\<lambda>p. overlaps (length ss) (length ds) p q) [0..<length ss] \<noteq> []"
    unfolding filter_empty_conv by auto
  ultimately show ?thesis unfolding fanin_overlaps [OF route] by simp
qed

theorem zero_row_edge_lost_witness:
  "compute_fanout ''emb'' (Some ''p'') ''enc'' ''llm'' [0, 6] (Some ''p'') (Some 1) demo_config = Inr [] \<and>
    0 < compute_fanin ''emb'' (length encs) ''llm'' (Some ''p'') 2 demo_config"
proof -
  have "1 < length encs" "2 < length llms" "[0, 6] = 0 # [6 :: nat]"
    "\<forall>s \<in> set [0, 6 :: nat]. length llms dvd s * length encs" by (auto intro: dvdI [of _ _ 3])
  from zero_row_edge_lost [OF demo_route this] show ?thesis .
qed

end
