(* ===== verification/Chunk_Policy.thy ===== *)
theory Chunk_Policy imports MStar_Prelude Complex_Main begin

text \<open>
  The chunk policies of \<open>mstar/streaming/chunk_policy.py\<close>: when a stream buffer holds
  enough items for its consumer, how many it hands over and by how many it advances. The
  subclasses of \<open>ChunkPolicy\<close> are the constructors of \<open>policy_kind\<close> (their constructor
  arguments), their mutable attributes the other fields of the record; each method
  dispatches on the class as Python does. \<open>RampChunkPolicy\<close> grows a float: the model
  computes with the exact rational, so it has no rounding of the product, and Python's
  \<open>round\<close> (halves to even) is written out.

  The locale \<open>chunk_contract\<close> is what the stream buffer relies on; it is interpreted on the
  dispatch, for policies configured as \<open>policy_ok\<close> says.
\<close>

section \<open>Policies and their state\<close>

datatype continue_after = Continue_Bool bool | Continue_In "string set"

datatype policy_kind =
  Sliding_Window int int
| Left_Context int int
| Fixed_Chunk int continue_after bool
| Ramp int int bool rat "int option"
| Scheduled "int list" int int

record policy =
  kind :: policy_kind
  first_chunk_read :: bool
  items_consumed :: int
  ramp_size :: rat
  popped_count :: nat
  delivered :: int

definition new_policy :: "policy_kind \<Rightarrow> policy res" where
  "new_policy k = (let p = \<lparr>kind = k, first_chunk_read = False, items_consumed = 0, ramp_size = 0,
       popped_count = 0, delivered = 0\<rparr> in
     case k of
       Ramp first sz _ growth max_chunk \<Rightarrow>
         if first \<le> 0 \<or> sz \<le> 0 then Inl ValueError
         else if growth < 1 then Inl ValueError
         else if (case max_chunk of None \<Rightarrow> False | Some m \<Rightarrow> m < sz) then Inl ValueError
         else Inr (p\<lparr>ramp_size := of_int sz\<rparr>)
     | Scheduled sched chunk left \<Rightarrow>
         if chunk \<le> 0 \<or> (\<exists>s \<in> set sched. s \<le> 0) \<or> left < 0 then Inl ValueError else Inr p
     | _ \<Rightarrow> Inr p)"

text \<open>Python's \<open>round\<close>: to the nearest integer, halves to the even one.\<close>

definition py_round :: "rat \<Rightarrow> int" where
  "py_round x = (let f = \<lfloor>x\<rfloor>; d = x - of_int f in
     if d < 1 / 2 then f else if 1 / 2 < d then f + 1 else if even f then f else f + 1)"

section \<open>The methods\<close>

definition new_items :: "int list \<Rightarrow> int \<Rightarrow> policy \<Rightarrow> int" where
  "new_items sched chunk p = (if popped_count p < length sched then sched ! popped_count p else chunk)"

definition context_of :: "int \<Rightarrow> policy \<Rightarrow> int" where
  "context_of left p = (if popped_count p = 0 then delivered p else min left (delivered p))"

definition ramp_current :: "int \<Rightarrow> policy \<Rightarrow> int" where
  "ramp_current first p = (if \<not> first_chunk_read p then first else py_round (ramp_size p))"

definition window_size :: "policy \<Rightarrow> int" where
  "window_size p = (case kind p of
     Sliding_Window window stride \<Rightarrow> window
   | Left_Context chunk left \<Rightarrow> if \<not> first_chunk_read p then chunk else chunk + left
   | Fixed_Chunk sz _ _ \<Rightarrow> sz
   | Ramp first _ _ _ _ \<Rightarrow> ramp_current first p
   | Scheduled sched chunk left \<Rightarrow> context_of left p + new_items sched chunk p)"

definition is_ready :: "policy \<Rightarrow> int \<Rightarrow> bool" where
  "is_ready p buffer_len = (case kind p of
     Sliding_Window window stride \<Rightarrow> buffer_len \<ge> window
   | Left_Context chunk left \<Rightarrow>
       if \<not> first_chunk_read p then buffer_len \<ge> chunk else buffer_len \<ge> chunk + left
   | Fixed_Chunk sz _ _ \<Rightarrow> buffer_len \<ge> sz
   | Ramp first _ _ _ _ \<Rightarrow> buffer_len \<ge> ramp_current first p
   | Scheduled _ _ _ \<Rightarrow> buffer_len \<ge> window_size p)"

definition next_chunk_size :: "policy \<Rightarrow> int" where
  "next_chunk_size p = (case kind p of
     Sliding_Window window stride \<Rightarrow> stride
   | Left_Context chunk left \<Rightarrow> if \<not> first_chunk_read p then chunk - left else chunk
   | Fixed_Chunk sz _ _ \<Rightarrow> sz
   | Ramp first _ _ _ _ \<Rightarrow> ramp_current first p
   | Scheduled sched chunk left \<Rightarrow>
       (let delivered_after = delivered p + new_items sched chunk p;
            next_context = min left delivered_after
        in (delivered_after - next_context) - (delivered p - context_of left p)))"

text \<open>\<open>ChunkPolicy.register_chunk\<close>, and what the subclasses do before or after it.\<close>

definition base_register :: "int \<Rightarrow> policy \<Rightarrow> policy" where
  "base_register n p = p\<lparr>first_chunk_read := True, items_consumed := items_consumed p + n\<rparr>"

definition ramp_grow :: "rat \<Rightarrow> int option \<Rightarrow> policy \<Rightarrow> policy" where
  "ramp_grow growth max_chunk p =
     (if first_chunk_read p \<and> (case max_chunk of None \<Rightarrow> True | Some m \<Rightarrow> ramp_size p < of_int m)
      then p\<lparr>ramp_size := (case max_chunk of None \<Rightarrow> ramp_size p * growth
             | Some m \<Rightarrow> min (ramp_size p * growth) (of_int m))\<rparr>
      else p)"

definition register_chunk :: "int \<Rightarrow> policy \<Rightarrow> policy" where
  "register_chunk n p = (case kind p of
     Ramp _ _ _ growth max_chunk \<Rightarrow> base_register n (ramp_grow growth max_chunk p)
   | Scheduled sched chunk _ \<Rightarrow> (let p = base_register n p in
       p\<lparr>delivered := delivered p + new_items sched chunk p, popped_count := Suc (popped_count p)\<rparr>)
   | _ \<Rightarrow> base_register n p)"

definition prime :: "int \<Rightarrow> policy \<Rightarrow> policy res" where
  "prime context_items p = (case kind p of
     Scheduled _ _ _ \<Rightarrow> if context_items < 0 \<or> popped_count p \<noteq> 0 then Inl ValueError
       else Inr (p\<lparr>delivered := context_items\<rparr>)
   | _ \<Rightarrow> if context_items \<noteq> 0 then Inl NotImplementedError else Inr p)"

definition allow_partial_input :: "policy \<Rightarrow> bool" where
  "allow_partial_input p = (case kind p of Fixed_Chunk _ _ allow \<Rightarrow> allow | _ \<Rightarrow> False)"

definition continue_after_producer_done :: "policy \<Rightarrow> bool" where
  "continue_after_producer_done p = (case kind p of
     Fixed_Chunk _ c _ \<Rightarrow> (case c of Continue_Bool b \<Rightarrow> b | Continue_In walks \<Rightarrow> walks \<noteq> {})
   | Ramp _ _ c _ _ \<Rightarrow> c
   | _ \<Rightarrow> False)"

definition continues_in :: "string option \<Rightarrow> policy \<Rightarrow> bool" where
  "continues_in walk p = (case kind p of
     Fixed_Chunk _ c _ \<Rightarrow> (case c of Continue_Bool b \<Rightarrow> b
       | Continue_In walks \<Rightarrow> (case walk of None \<Rightarrow> False | Some w \<Rightarrow> w \<in> walks))
   | _ \<Rightarrow> continue_after_producer_done p)"

section \<open>The contract a stream buffer relies on\<close>

text \<open>
  A ready policy asks for no more than is buffered and advances by at most the window it
  hands over, so no item is skipped; registering a chunk, whatever its size, keeps a policy well configured.
\<close>

locale chunk_contract =
  fixes good :: "'p \<Rightarrow> bool"
    and ready :: "'p \<Rightarrow> int \<Rightarrow> bool"
    and window :: "'p \<Rightarrow> int"
    and stride :: "'p \<Rightarrow> int"
    and register :: "int \<Rightarrow> 'p \<Rightarrow> 'p"
  assumes ready_window: "good p \<Longrightarrow> ready p n \<longleftrightarrow> window p \<le> n"
    and stride_bounds: "good p \<Longrightarrow> 0 \<le> stride p \<and> stride p \<le> window p"
    and register_good: "good p \<Longrightarrow> good (register n p)"
begin

lemma ready_mono: "good p \<Longrightarrow> ready p m \<Longrightarrow> m \<le> n \<Longrightarrow> ready p n"
  using ready_window [of p m] ready_window [of p n] by simp

lemma ready_stride: "good p \<Longrightarrow> ready p n \<Longrightarrow> stride p \<le> n"
  using ready_window [of p n] stride_bounds [of p] by simp

lemma window_nonneg: "good p \<Longrightarrow> 0 \<le> window p"
  using stride_bounds [of p] by linarith

end

text \<open>
  A policy configured as its constructor's checks and its documentation require: the
  stride within the window, the left context within the chunk, positive sizes.
\<close>

definition policy_ok :: "policy \<Rightarrow> bool" where
  "policy_ok p \<longleftrightarrow> (case kind p of
     Sliding_Window window stride \<Rightarrow> 0 \<le> stride \<and> stride \<le> window
   | Left_Context chunk left \<Rightarrow> 0 \<le> left \<and> left \<le> chunk
   | Fixed_Chunk sz _ _ \<Rightarrow> 0 \<le> sz
   | Ramp first sz _ growth max_chunk \<Rightarrow> 0 < first \<and> 0 < sz \<and> 1 \<le> growth \<and>
       of_int sz \<le> ramp_size p \<and> (case max_chunk of None \<Rightarrow> True | Some m \<Rightarrow> sz \<le> m)
   | Scheduled sched chunk left \<Rightarrow> 0 < chunk \<and> (\<forall>s \<in> set sched. 0 < s) \<and> 0 \<le> left \<and> 0 \<le> delivered p)"

lemma policy_ok_new:
  assumes "new_policy k = Inr p"
    and "case k of Sliding_Window window stride \<Rightarrow> 0 \<le> stride \<and> stride \<le> window
      | Left_Context chunk left \<Rightarrow> 0 \<le> left \<and> left \<le> chunk | Fixed_Chunk sz _ _ \<Rightarrow> 0 \<le> sz | _ \<Rightarrow> True"
  shows "policy_ok p"
  using assms by (cases k) (auto simp: new_policy_def policy_ok_def Let_def not_le not_less split: if_splits option.splits)

lemma new_items_pos:
  "0 < chunk \<Longrightarrow> \<forall>s \<in> set sched. 0 < s \<Longrightarrow> 0 < new_items sched chunk p"
  by (simp add: new_items_def)

lemma py_round_mono_int: "of_int n \<le> x \<Longrightarrow> n \<le> py_round x"
proof -
  assume "of_int n \<le> x"
  then have "n \<le> \<lfloor>x\<rfloor>" by (simp add: le_floor_iff)
  then show ?thesis by (simp add: py_round_def Let_def)
qed

lemma ramp_current_pos:
  "0 < first \<Longrightarrow> 0 < sz \<Longrightarrow> of_int sz \<le> ramp_size p \<Longrightarrow> 0 < ramp_current first p"
  using py_round_mono_int [of sz "ramp_size p"] by (simp add: ramp_current_def)

lemma kind_base_register [simp]: "kind (base_register n p) = kind p"
  by (simp add: base_register_def)

lemma kind_register [simp]: "kind (register_chunk n p) = kind p"
  by (simp add: register_chunk_def ramp_grow_def base_register_def Let_def split: policy_kind.splits)


lemma ramp_grow_ge:
  assumes "0 < sz" "1 \<le> growth" "of_int sz \<le> ramp_size p"
    "case max_chunk of None \<Rightarrow> True | Some m \<Rightarrow> sz \<le> m"
  shows "of_int sz \<le> ramp_size (ramp_grow growth max_chunk p)"
proof -
  have "ramp_size p * 1 \<le> ramp_size p * growth"
    by (rule mult_left_mono) (use assms in auto)
  then have "of_int sz \<le> ramp_size p * growth" using assms(3) by linarith
  with assms show ?thesis by (auto simp: ramp_grow_def split: option.splits)
qed

lemma kind_ramp_grow [simp]: "kind (ramp_grow g m p) = kind p"
  by (simp add: ramp_grow_def)

lemma policy_ok_register:
  assumes "policy_ok p"
  shows "policy_ok (register_chunk n p)"
proof (cases "kind p")
  case (Ramp first sz c growth max_chunk)
  with assms have "of_int sz \<le> ramp_size (ramp_grow growth max_chunk p)"
    by (intro ramp_grow_ge) (auto simp: policy_ok_def)
  with Ramp assms show ?thesis by (simp add: policy_ok_def register_chunk_def base_register_def)
next
  case (Scheduled sched chunk left)
  with assms have "0 < new_items sched chunk p" by (intro new_items_pos) (auto simp: policy_ok_def)
  moreover have "new_items sched chunk (base_register n p) = new_items sched chunk p"
    by (simp add: new_items_def base_register_def)
  ultimately show ?thesis using Scheduled assms
    by (simp add: policy_ok_def register_chunk_def base_register_def Let_def)
qed (use assms in \<open>simp_all add: policy_ok_def register_chunk_def base_register_def\<close>)

interpretation cp: chunk_contract policy_ok is_ready window_size next_chunk_size register_chunk
proof unfold_locales
  fix p n assume p: "policy_ok p"
  show "is_ready p n \<longleftrightarrow> window_size p \<le> n"
    by (simp add: is_ready_def window_size_def split: policy_kind.splits)
  show "policy_ok (register_chunk n p)" by (rule policy_ok_register [OF p])
  show "0 \<le> next_chunk_size p \<and> next_chunk_size p \<le> window_size p"
  proof (cases "kind p")
    case (Ramp first sz c growth max_chunk)
    with p have "0 < ramp_current first p" by (intro ramp_current_pos [of _ sz]) (auto simp: policy_ok_def)
    with Ramp show ?thesis by (simp add: next_chunk_size_def window_size_def)
  next
    case (Scheduled sched chunk left)
    with p have "0 < new_items sched chunk p" by (intro new_items_pos) (auto simp: policy_ok_def)
    with Scheduled p show ?thesis
      by (auto simp: next_chunk_size_def window_size_def policy_ok_def context_of_def Let_def)
  qed (use p in \<open>auto simp: next_chunk_size_def window_size_def policy_ok_def\<close>)
qed

end
