(* ===== verification/Stream_Buffer.thy ===== *)
theory Stream_Buffer imports Chunk_Policy begin

text \<open>
  The consumer-side buffer of a streaming edge, \<open>mstar/streaming/stream_buffer.py\<close>: items
  are registered in the producer's order, arrive in any order, and leave in chunks cut by a
  chunk policy. What the buffer calls outside the repository is a parameter: \<open>join\<close> is its
  \<open>joiner\<close> (or \<open>torch.cat\<close>), \<open>is_tensor\<close> and \<open>stack\<close> the test and \<open>torch.stack\<close> of
  \<open>collate\<close>. Tensor ids are numbers, walks strings.
\<close>

section \<open>Chunks and buffers\<close>

record stream_chunk_info =
  sci_start_offset :: int
  sci_context_items :: int
  sci_num_items :: int
  sci_is_final :: bool

record streaming_edge =
  se_name :: string
  se_next_node :: string
  se_uuids :: "nat list"
  se_chunk :: stream_chunk_info

datatype 'i chunk_data = No_Data | One_Tensor 'i | Handles "'i list"

record 'i stream_chunk =
  sc_data :: "'i chunk_data"
  sc_chunk_index :: nat
  sc_start_offset :: int
  sc_is_final :: bool
  sc_context_items :: int
  sc_num_items :: int
  sc_released :: "'i list"

definition chunk_info :: "'i stream_chunk \<Rightarrow> stream_chunk_info" where
  "chunk_info c = \<lparr>sci_start_offset = sc_start_offset c, sci_context_items = sc_context_items c,
     sci_num_items = sc_num_items c, sci_is_final = sc_is_final c\<rparr>"

text \<open>A registered item: one tensor, or the pieces a chunked producer sends for it.\<close>

datatype entry = Lone nat | Pieces "nat list"

record 'i stream_buffer =
  sb_policy :: policy
  sb_joins :: bool
  sb_walk_tagged :: bool
  sb_waiting :: "streaming_edge list"
  sb_ingested :: "stream_chunk_info option"
  sb_buffer :: "'i list"
  sb_walk_runs :: "(string option \<times> int) list"
  sb_ids :: "(entry \<times> string option) list"
  sb_items :: "nat \<rightharpoonup> 'i"
  sb_consumed :: int
  sb_popped :: nat
  sb_delivered_end :: int
  sb_producer_done :: bool
  sb_final_emitted :: bool
  sb_maybe_ready :: bool
  sb_registered :: nat
  sb_writes :: nat
  sb_expected :: nat

definition new_stream_buffer :: "policy \<Rightarrow> bool \<Rightarrow> bool \<Rightarrow> 'i stream_buffer" where
  "new_stream_buffer p joins tagged = \<lparr>sb_policy = p, sb_joins = joins, sb_walk_tagged = tagged,
     sb_waiting = [], sb_ingested = None, sb_buffer = [], sb_walk_runs = [], sb_ids = [],
     sb_items = (\<lambda>_. None), sb_consumed = 0, sb_popped = 0, sb_delivered_end = 0,
     sb_producer_done = False, sb_final_emitted = False, sb_maybe_ready = True,
     sb_registered = 0, sb_writes = 0, sb_expected = 0\<rparr>"

section \<open>Registering and receiving items\<close>

definition prime_context :: "int \<Rightarrow> 'i stream_buffer \<Rightarrow> 'i stream_buffer res" where
  "prime_context n s = rbind (prime n (sb_policy s)) (\<lambda>p.
     Inr (s\<lparr>sb_policy := p, sb_delivered_end := n\<rparr>))"

definition pre_read_register :: "nat \<Rightarrow> string option \<Rightarrow> 'i stream_buffer \<Rightarrow> 'i stream_buffer" where
  "pre_read_register tid walk s = s\<lparr>sb_registered := Suc (sb_registered s),
     sb_ids := sb_ids s @ [(Lone tid, walk)]\<rparr>"

definition pre_read_register_joined ::
  "nat list \<Rightarrow> string option \<Rightarrow> 'i stream_buffer \<Rightarrow> 'i stream_buffer" where
  "pre_read_register_joined tids walk s =
     (if length tids = 1 \<or> \<not> sb_joins s then fold (\<lambda>t. pre_read_register t walk) tids s
      else if tids = [] then s
      else s\<lparr>sb_registered := sb_registered s + length tids,
             sb_ids := sb_ids s @ [(Pieces tids, walk)]\<rparr>)"

definition put :: "nat \<Rightarrow> 'i \<Rightarrow> 'i stream_buffer \<Rightarrow> 'i stream_buffer" where
  "put tid item s = s\<lparr>sb_items := (sb_items s)(tid \<mapsto> item), sb_maybe_ready := True\<rparr>"

definition signal_done :: "nat \<Rightarrow> 'i stream_buffer \<Rightarrow> 'i stream_buffer" where
  "signal_done n s = s\<lparr>sb_producer_done := True, sb_expected := n, sb_maybe_ready := True\<rparr>"

definition store_uningested_edge :: "streaming_edge \<Rightarrow> 'i stream_buffer \<Rightarrow> 'i stream_buffer" where
  "store_uningested_edge e s = s\<lparr>sb_waiting := sb_waiting s @ [e], sb_maybe_ready := True\<rparr>"

definition pop_waiting_edge :: "'i stream_buffer \<Rightarrow> streaming_edge option \<times> 'i stream_buffer" where
  "pop_waiting_edge s = (case sb_waiting s of [] \<Rightarrow> (None, s)
     | e # es \<Rightarrow> (Some e, s\<lparr>sb_waiting := es\<rparr>))"

section \<open>Moving what has arrived into the buffer\<close>

definition join_pieces :: "('i list \<Rightarrow> 'i) \<Rightarrow> 'i list \<Rightarrow> 'i" where
  "join_pieces join pieces = (if length pieces = 1 then hd pieces else join pieces)"

text \<open>\<open>dict.pop\<close> of each piece in turn; a piece named twice is a \<open>KeyError\<close>.\<close>

fun pop_pieces :: "nat list \<Rightarrow> (nat \<rightharpoonup> 'i) \<Rightarrow> ('i list \<times> (nat \<rightharpoonup> 'i)) res" where
  "pop_pieces [] m = Inr ([], m)"
| "pop_pieces (t # ts) m = (case m t of None \<Rightarrow> Inl KeyError
     | Some x \<Rightarrow> rbind (pop_pieces ts (m(t := None))) (\<lambda>(xs, m). Inr (x # xs, m)))"

definition count_walk :: "string option \<Rightarrow> 'i stream_buffer \<Rightarrow> 'i stream_buffer" where
  "count_walk walk s = (if \<not> sb_walk_tagged s then s
     else if sb_walk_runs s \<noteq> [] \<and> fst (last (sb_walk_runs s)) = walk
     then s\<lparr>sb_walk_runs := butlast (sb_walk_runs s) @ [(walk, snd (last (sb_walk_runs s)) + 1)]\<rparr>
     else s\<lparr>sb_walk_runs := sb_walk_runs s @ [(walk, 1)]\<rparr>)"

fun entry_ids :: "entry \<Rightarrow> nat list" where
  "entry_ids (Lone t) = [t]"
| "entry_ids (Pieces ts) = ts"

text \<open>
  One registered item: \<open>None\<close> when a part of it has not arrived, otherwise the item taken
  out of the arrivals.
\<close>

definition take_entry :: "('i list \<Rightarrow> 'i) \<Rightarrow> entry \<Rightarrow> (nat \<rightharpoonup> 'i) \<Rightarrow> ('i \<times> (nat \<rightharpoonup> 'i)) option res" where
  "take_entry join e m = (case e of
     Lone t \<Rightarrow> Inr (case m t of None \<Rightarrow> None | Some x \<Rightarrow> Some (x, m(t := None)))
   | Pieces ts \<Rightarrow> if \<exists>t \<in> set ts. m t = None then Inr None
       else rbind (pop_pieces ts m) (\<lambda>(xs, m). Inr (Some (join_pieces join xs, m))))"

fun drain :: "('i list \<Rightarrow> 'i) \<Rightarrow> (entry \<times> string option) list \<Rightarrow> 'i stream_buffer \<Rightarrow> 'i stream_buffer res" where
  "drain join [] s = Inr s"
| "drain join ((e, walk) # es) s = rbind (take_entry join e (sb_items s)) (\<lambda>r. case r of
     None \<Rightarrow> Inr s
   | Some (x, m) \<Rightarrow> drain join es (count_walk walk (s\<lparr>sb_ids := es, sb_items := m,
       sb_buffer := sb_buffer s @ [x], sb_writes := sb_writes s + length (entry_ids e)\<rparr>)))"

definition update_buffer :: "('i list \<Rightarrow> 'i) \<Rightarrow> 'i stream_buffer \<Rightarrow> 'i stream_buffer res" where
  "update_buffer join s = drain join (sb_ids s) s"

section \<open>Polling and popping\<close>

definition all_read :: "'i stream_buffer \<Rightarrow> bool" where
  "all_read s \<longleftrightarrow> sb_producer_done s \<and> sb_expected s \<le> sb_registered s \<and> sb_registered s \<le> sb_writes s"

abbreviation buf_len :: "'i stream_buffer \<Rightarrow> int" where
  "buf_len s \<equiv> int (length (sb_buffer s))"

definition walk_run_len :: "'i stream_buffer \<Rightarrow> int" where
  "walk_run_len s = (if sb_walk_runs s = [] then buf_len s else snd (hd (sb_walk_runs s)))"

definition peek_walk :: "('i list \<Rightarrow> 'i) \<Rightarrow> 'i stream_buffer \<Rightarrow> (string option \<times> 'i stream_buffer) res" where
  "peek_walk join s = rbind (update_buffer join s) (\<lambda>s.
     Inr (if sb_walk_runs s = [] then None else fst (hd (sb_walk_runs s)), s))"

definition chunk_ready :: "string option \<Rightarrow> 'i stream_buffer \<Rightarrow> bool" where
  "chunk_ready walk s =
     (if walk_run_len s < buf_len s then True
      else if \<not> all_read s then is_ready (sb_policy s) (buf_len s)
      else if continue_after_producer_done (sb_policy s)
      then buf_len s > 0 \<or> continues_in walk (sb_policy s)
      else buf_len s > 0 \<or> \<not> sb_final_emitted s)"

definition has_chunk_ready ::
  "('i list \<Rightarrow> 'i) \<Rightarrow> string option \<Rightarrow> 'i stream_buffer \<Rightarrow> (bool \<times> 'i stream_buffer) res" where
  "has_chunk_ready join walk s = rbind (update_buffer join s) (\<lambda>s. Inr (chunk_ready walk s, s))"

text \<open>Python's \<open>xs[:k]\<close> and \<open>xs[k:]\<close>; a negative bound counts from the end.\<close>

definition slice_bound :: "int \<Rightarrow> 'a list \<Rightarrow> nat" where
  "slice_bound k xs = nat (if k < 0 then max 0 (int (length xs) + k) else k)"

definition slice_to :: "int \<Rightarrow> 'a list \<Rightarrow> 'a list" where
  "slice_to k xs = take (slice_bound k xs) xs"

definition slice_from :: "int \<Rightarrow> 'a list \<Rightarrow> 'a list" where
  "slice_from k xs = drop (slice_bound k xs) xs"

text \<open>The chunk's items, the items it releases, what stays buffered, and the stride.\<close>

definition cut_chunk :: "'i stream_buffer \<Rightarrow> 'i list \<times> 'i list \<times> 'i list \<times> int" where
  "cut_chunk s = (let buf = sb_buffer s; run = walk_run_len s; p = sb_policy s in
     if run < buf_len s \<and> \<not> is_ready p run then (slice_to run buf, slice_to run buf, slice_from run buf, run)
     else if all_read s \<and> \<not> is_ready p (buf_len s) then (buf, buf, [], buf_len s)
     else (slice_to (window_size p) buf, slice_to (next_chunk_size p) buf,
           slice_from (next_chunk_size p) buf, next_chunk_size p))"

definition pop_runs :: "int \<Rightarrow> (string option \<times> int) list \<Rightarrow> (string option \<times> int) list" where
  "pop_runs stride runs = (case runs of [] \<Rightarrow> []
     | (w, n) # rs \<Rightarrow> if stride = 0 then runs else if n - stride = 0 then rs else (w, n - stride) # rs)"

definition collate :: "('i \<Rightarrow> bool) \<Rightarrow> ('i list \<Rightarrow> 'i) \<Rightarrow> 'i list \<Rightarrow> 'i chunk_data" where
  "collate is_tensor stack items =
     (if items = [] then No_Data
      else if is_tensor (hd items) then One_Tensor (if length items = 1 then hd items else stack items)
      else Handles items)"

definition pop_chunk :: "('i list \<Rightarrow> 'i) \<Rightarrow> ('i \<Rightarrow> bool) \<Rightarrow> ('i list \<Rightarrow> 'i) \<Rightarrow> 'i stream_buffer \<Rightarrow>
    ('i stream_chunk \<times> 'i stream_buffer) res" where
  "pop_chunk join is_tensor stack s = rbind (update_buffer join s) (\<lambda>s.
     let offset = sb_consumed s; (items, released, rest, stride) = cut_chunk s;
       s = s\<lparr>sb_buffer := rest, sb_consumed := sb_consumed s + stride,
             sb_policy := register_chunk stride (sb_policy s),
             sb_walk_runs := pop_runs stride (sb_walk_runs s)\<rparr>;
       is_final = (all_read s \<and> sb_buffer s = [] \<and> \<not> continue_after_producer_done (sb_policy s));
       s = s\<lparr>sb_final_emitted := is_final \<or> sb_final_emitted s\<rparr>
     in Inr (\<lparr>sc_data = collate is_tensor stack items, sc_chunk_index = sb_popped s,
          sc_start_offset = offset, sc_is_final = is_final,
          sc_context_items = min (max (sb_delivered_end s - offset) 0) (int (length items)),
          sc_num_items = int (length items), sc_released = released\<rparr>,
        s\<lparr>sb_delivered_end := max (sb_delivered_end s) (offset + int (length items)),
          sb_popped := Suc (sb_popped s)\<rparr>))"

end
