(* ===== verification/Stream_Inv.thy ===== *)
theory Stream_Inv imports Stream_Buffer begin

text \<open>
  What a stream buffer delivers. A run carries, beside the buffer, the history its
  invariant speaks about: every registered item in order, every arrival, the items
  released so far, the new items (context left out) handed over so far and the chunks
  themselves. The invariant
  says that released and buffered items are the registered items in order, whatever order they
  arrived in, and that the new items are exactly those before \<open>_delivered_end\<close>, each once.
\<close>

section \<open>Runs and their invariant\<close>

record 'i stream_run =
  run_buf :: "'i stream_buffer"
  run_entries :: "(entry \<times> string option) list"
  run_arrived :: "nat \<rightharpoonup> 'i"
  run_released :: "'i list"
  run_new :: "'i list"
  run_chunks :: "'i stream_chunk list"
  run_lead :: int

definition item_of :: "('i list \<Rightarrow> 'i) \<Rightarrow> (nat \<rightharpoonup> 'i) \<Rightarrow> entry \<Rightarrow> 'i" where
  "item_of join A e = (case e of Lone t \<Rightarrow> the (A t) | Pieces ts \<Rightarrow> join_pieces join (map (\<lambda>t. the (A t)) ts))"

definition ids_of :: "(entry \<times> string option) list \<Rightarrow> nat list" where
  "ids_of es = concat (map (\<lambda>e. entry_ids (fst e)) es)"

lemma ids_of_simps [simp]:
  "ids_of [] = []" "ids_of (e # es) = entry_ids (fst e) @ ids_of es" "ids_of (es @ fs) = ids_of es @ ids_of fs"
  by (simp_all add: ids_of_def)

definition expand :: "(string option \<times> int) list \<Rightarrow> string option list" where
  "expand runs = concat (map (\<lambda>(w, n). replicate (nat n) w) runs)"

lemma expand_simps [simp]:
  "expand [] = []" "expand ((w, n) # runs) = replicate (nat n) w @ expand runs"
  "expand (runs @ runs') = expand runs @ expand runs'"
  by (simp_all add: expand_def)

text \<open>Of the registered items \<open>G\<close>, the first \<open>k\<close> have been read.\<close>

definition read_ok :: "('i list \<Rightarrow> 'i) \<Rightarrow> (entry \<times> string option) list \<Rightarrow> (nat \<rightharpoonup> 'i) \<Rightarrow> 'i list \<Rightarrow>
    'i stream_buffer \<Rightarrow> bool" where
  "read_ok join G A R s \<longleftrightarrow> (let k = length R + length (sb_buffer s) in
     k \<le> length G \<and> sb_ids s = drop k G \<and>
     R @ sb_buffer s = map (\<lambda>e. item_of join A (fst e)) (take k G) \<and>
     (\<forall>t. sb_items s t = (if t \<in> set (ids_of (take k G)) then None else A t)) \<and>
     (\<forall>t \<in> set (ids_of (take k G)). A t \<noteq> None) \<and>
     sb_registered s = length (ids_of G) \<and> sb_writes s = length (ids_of (take k G)))"

definition walks_ok :: "(entry \<times> string option) list \<Rightarrow> 'i list \<Rightarrow> 'i stream_buffer \<Rightarrow> bool" where
  "walks_ok G R s \<longleftrightarrow> (if sb_walk_tagged s
     then expand (sb_walk_runs s) = drop (length R) (map snd (take (length R + length (sb_buffer s)) G)) \<and>
       (\<forall>r \<in> set (sb_walk_runs s). 0 < snd r)
     else sb_walk_runs s = [])"

definition delivered_ok :: "int \<Rightarrow> 'i list \<Rightarrow> 'i list \<Rightarrow> 'i stream_buffer \<Rightarrow> bool" where
  "delivered_ok lead R N s \<longleftrightarrow> 0 \<le> lead \<and> lead \<le> sb_delivered_end s \<and> sb_consumed s = int (length R) \<and>
     sb_consumed s \<le> sb_delivered_end s \<and>
     (sb_delivered_end s = lead \<or> sb_delivered_end s \<le> int (length (R @ sb_buffer s))) \<and>
     N = drop (nat lead) (take (nat (sb_delivered_end s)) (R @ sb_buffer s))"

definition entries_ok :: "(entry \<times> string option) list \<Rightarrow> bool" where
  "entries_ok G \<longleftrightarrow> distinct (ids_of G) \<and> (\<forall>e \<in> set G. entry_ids (fst e) \<noteq> [])"

definition run_ok :: "('i list \<Rightarrow> 'i) \<Rightarrow> 'i stream_run \<Rightarrow> bool" where
  "run_ok join r \<longleftrightarrow> entries_ok (run_entries r) \<and> policy_ok (sb_policy (run_buf r)) \<and>
     read_ok join (run_entries r) (run_arrived r) (run_released r) (run_buf r) \<and>
     walks_ok (run_entries r) (run_released r) (run_buf r) \<and>
     delivered_ok (run_lead r) (run_released r) (run_new r) (run_buf r)"

section \<open>Reading what has arrived\<close>

lemma pop_pieces_ok:
  assumes "distinct ts" "\<And>t. t \<in> set ts \<Longrightarrow> m t \<noteq> None"
  shows "pop_pieces ts m = Inr (map (\<lambda>t. the (m t)) ts, \<lambda>t. if t \<in> set ts then None else m t)"
  using assms
proof (induction ts arbitrary: m)
  case (Cons t ts)
  then have "m t \<noteq> None" by simp
  then obtain x where x: "m t = Some x" by blast
  have "pop_pieces ts (m(t := None)) = Inr (map (\<lambda>u. the ((m(t := None)) u)) ts,
      \<lambda>u. if u \<in> set ts then None else (m(t := None)) u)"
    by (rule Cons.IH) (use Cons.prems in auto)
  moreover have "map (\<lambda>u. the ((m(t := None)) u)) ts = map (\<lambda>u. the (m u)) ts"
    using Cons.prems(1) by auto
  ultimately show ?case using x by (auto simp: fun_eq_iff)
qed simp

text \<open>An entry is taken whole once all its parts have arrived, and not touched before.\<close>

lemma take_entry_ok:
  assumes "distinct (entry_ids e)"
  shows "take_entry join e m = Inr (if \<exists>t \<in> set (entry_ids e). m t = None then None
    else Some (item_of join m e, \<lambda>t. if t \<in> set (entry_ids e) then None else m t))"
proof (cases e)
  case (Lone t)
  then show ?thesis by (auto simp: take_entry_def item_of_def fun_eq_iff split: option.splits)
next
  case (Pieces ts)
  then show ?thesis using assms pop_pieces_ok [of ts m]
    by (auto simp: take_entry_def item_of_def)
qed

lemma item_of_cong:
  assumes "\<And>t. t \<in> set (entry_ids e) \<Longrightarrow> m t = m' t"
  shows "item_of join m e = item_of join m' e"
  using assms by (cases e) (auto simp: item_of_def cong: map_cong)

lemma count_walk_sel [simp]:
  "sb_policy (count_walk w s) = sb_policy s" "sb_buffer (count_walk w s) = sb_buffer s"
  "sb_ids (count_walk w s) = sb_ids s" "sb_items (count_walk w s) = sb_items s"
  "sb_consumed (count_walk w s) = sb_consumed s" "sb_delivered_end (count_walk w s) = sb_delivered_end s"
  "sb_registered (count_walk w s) = sb_registered s" "sb_writes (count_walk w s) = sb_writes s"
  "sb_walk_tagged (count_walk w s) = sb_walk_tagged s" "sb_producer_done (count_walk w s) = sb_producer_done s"
  "sb_final_emitted (count_walk w s) = sb_final_emitted s" "sb_expected (count_walk w s) = sb_expected s"
  by (simp_all add: count_walk_def)

lemma count_walk_expand:
  assumes "\<forall>r \<in> set (sb_walk_runs s). 0 < snd r" "sb_walk_tagged s"
  shows "expand (sb_walk_runs (count_walk w s)) = expand (sb_walk_runs s) @ [w]"
    and "\<forall>r \<in> set (sb_walk_runs (count_walk w s)). 0 < snd r"
proof -
  have "expand (sb_walk_runs (count_walk w s)) = expand (sb_walk_runs s) @ [w] \<and>
      (\<forall>r \<in> set (sb_walk_runs (count_walk w s)). 0 < snd r)"
  proof (cases "sb_walk_runs s \<noteq> [] \<and> fst (last (sb_walk_runs s)) = w")
    case True
    then obtain rs n where rs: "sb_walk_runs s = rs @ [(w, n)]"
      by (metis append_butlast_last_id prod.collapse)
    with assms have "0 < n" by simp
    then have "nat (n + 1) = Suc (nat n)" by simp
    then have "replicate (nat (n + 1)) w = replicate (nat n) w @ [w]" by (simp add: replicate_append_same)
    with rs assms show ?thesis by (simp add: count_walk_def)
  next
    case False
    then have "sb_walk_runs (count_walk w s) = sb_walk_runs s @ [(w, 1)]"
      using assms(2) by (auto simp: count_walk_def)
    with assms(1) show ?thesis by auto
  qed
  then show "expand (sb_walk_runs (count_walk w s)) = expand (sb_walk_runs s) @ [w]"
    and "\<forall>r \<in> set (sb_walk_runs (count_walk w s)). 0 < snd r" by blast+
qed

text \<open>Nothing more can be read: the next registered item is not whole yet.\<close>

definition stuck :: "'i stream_buffer \<Rightarrow> bool" where
  "stuck s \<longleftrightarrow> (case sb_ids s of [] \<Rightarrow> True | e # _ \<Rightarrow> \<exists>t \<in> set (entry_ids (fst e)). sb_items s t = None)"

lemma delivered_grow:
  assumes "delivered_ok lead R N s" "sb_consumed s' = sb_consumed s"
    "sb_delivered_end s' = sb_delivered_end s" "sb_buffer s' = sb_buffer s @ ys"
  shows "delivered_ok lead R N s'"
proof -
  let ?d = "nat (sb_delivered_end s)"
  have "drop (nat lead) (take ?d (R @ sb_buffer s @ ys)) = drop (nat lead) (take ?d (R @ sb_buffer s))"
  proof (cases "sb_delivered_end s = lead")
    case False
    with assms(1) have "sb_delivered_end s \<le> int (length (R @ sb_buffer s))"
      unfolding delivered_ok_def by blast
    then have "?d \<le> length (R @ sb_buffer s)" by linarith
    then have "take ?d ((R @ sb_buffer s) @ ys) = take ?d (R @ sb_buffer s)"
      by (simp only: take_append diff_is_0_eq' take_0 append_Nil2)
    then show ?thesis by (simp only: append_assoc)
  next
    case True
    then show ?thesis by (simp del: take_append drop_append)
  qed
  with assms show ?thesis
    by (auto simp: delivered_ok_def simp del: take_append drop_append)
qed

lemma read_one:
  assumes ent: "entries_ok G" and rd: "read_ok join G A R s" and wk: "walks_ok G R s"
    and dl: "delivered_ok lead R N s"
    and ids: "sb_ids s = (e, w) # es" and all: "\<not> (\<exists>t \<in> set (entry_ids e). sb_items s t = None)"
  defines "s' \<equiv> count_walk w (s\<lparr>sb_ids := es,
      sb_items := (\<lambda>t. if t \<in> set (entry_ids e) then None else sb_items s t),
      sb_buffer := sb_buffer s @ [item_of join (sb_items s) e],
      sb_writes := sb_writes s + length (entry_ids e)\<rparr>)"
  shows "read_ok join G A R s'" "walks_ok G R s'"
    "delivered_ok lead R N s'"
proof -
  let ?k = "length R + length (sb_buffer s)"
  have K: "?k \<le> length G" "sb_ids s = drop ?k G"
    "R @ sb_buffer s = map (\<lambda>e. item_of join A (fst e)) (take ?k G)"
    "\<And>t. sb_items s t = (if t \<in> set (ids_of (take ?k G)) then None else A t)"
    "\<forall>t \<in> set (ids_of (take ?k G)). A t \<noteq> None"
    "sb_registered s = length (ids_of G)" "sb_writes s = length (ids_of (take ?k G))"
    using rd by (simp_all add: read_ok_def Let_def)
  from K(2) ids have k: "?k < length G" by (metis drop_eq_Nil list.distinct(1) not_le)
  have g: "G ! ?k = (e, w)" "drop (Suc ?k) G = es"
    using K(2) ids k by (metis Cons_nth_drop_Suc list.inject)+
  have tk: "take (Suc ?k) G = take ?k G @ [(e, w)]" using k g(1) by (simp add: take_Suc_conv_app_nth)
  have here: "t \<notin> set (ids_of (take ?k G))" "sb_items s t = A t" "A t \<noteq> None" if "t \<in> set (entry_ids e)" for t
  proof -
    from all that have "sb_items s t \<noteq> None" by (metis (no_types))
    with K(4) [of t] show "t \<notin> set (ids_of (take ?k G))" "sb_items s t = A t" "A t \<noteq> None"
      by (auto split: if_splits)
  qed
  have it: "item_of join (sb_items s) e = item_of join A e" by (rule item_of_cong) (use here(2) in blast)
  show "read_ok join G A R s'"
    unfolding read_ok_def Let_def
    using K k g it tk here by (auto simp: s'_def)
  show "walks_ok G R s'"
  proof (cases "sb_walk_tagged s")
    case True
    let ?u = "s\<lparr>sb_ids := es,
      sb_items := (\<lambda>t. if t \<in> set (entry_ids e) then None else sb_items s t),
      sb_buffer := sb_buffer s @ [item_of join (sb_items s) e],
      sb_writes := sb_writes s + length (entry_ids e)\<rparr>"
    have "\<forall>r \<in> set (sb_walk_runs ?u). 0 < snd r" "sb_walk_tagged ?u"
      and x: "expand (sb_walk_runs ?u) = drop (length R) (map snd (take ?k G))"
      using wk True by (simp_all add: walks_ok_def)
    note count_walk_expand [OF this(1,2), of w]
    moreover have "length R \<le> length (map snd (take ?k G))" using k by simp
    then have "drop (length R) (map snd (take ?k G) @ [w]) = drop (length R) (map snd (take ?k G)) @ [w]"
      by (simp only: drop_append diff_is_0_eq' drop_0)
    ultimately show ?thesis using x True tk by (simp add: walks_ok_def s'_def del: drop_append)
  next
    case False
    with wk show ?thesis by (simp add: walks_ok_def s'_def count_walk_def)
  qed
  show "delivered_ok lead R N s'"
    by (rule delivered_grow [OF dl, where ys = "[item_of join (sb_items s) e]"]) (simp_all add: s'_def)
qed

text \<open>The fields a read leaves alone.\<close>

definition same_feed :: "'i stream_buffer \<Rightarrow> 'i stream_buffer \<Rightarrow> bool" where
  "same_feed s s' \<longleftrightarrow> sb_policy s' = sb_policy s \<and> sb_consumed s' = sb_consumed s \<and>
     sb_delivered_end s' = sb_delivered_end s \<and> sb_registered s' = sb_registered s \<and>
     sb_producer_done s' = sb_producer_done s \<and> sb_expected s' = sb_expected s \<and>
     sb_final_emitted s' = sb_final_emitted s \<and> sb_walk_tagged s' = sb_walk_tagged s \<and>
     length (sb_buffer s) \<le> length (sb_buffer s')"

lemma drain_ok:
  assumes "entries_ok G" "read_ok join G A R s" "walks_ok G R s" "delivered_ok lead R N s" "sb_ids s = es"
  shows "\<exists>s'. drain join es s = Inr s' \<and> read_ok join G A R s' \<and> walks_ok G R s' \<and>
    delivered_ok lead R N s' \<and> stuck s' \<and> same_feed s s'"
  using assms
proof (induction join es s rule: drain.induct)
  case (1 join s)
  then show ?case by (simp add: stuck_def same_feed_def)
next
  case (2 join e w es s)
  have d: "distinct (entry_ids e)"
  proof -
    have "(e, w) # es = drop (length R + length (sb_buffer s)) G"
      using "2.prems"(2,5) by (simp add: read_ok_def Let_def)
    then have "(e, w) \<in> set G" by (metis in_set_dropD list.set_intros(1))
    then obtain G1 G2 where "G = G1 @ (e, w) # G2" by (meson split_list)
    with "2.prems"(1) show ?thesis by (simp add: entries_ok_def)
  qed
  note te = take_entry_ok [OF d, of join "sb_items s"]
  show ?case
  proof (cases "\<exists>t \<in> set (entry_ids e). sb_items s t = None")
    case True
    then have "drain join ((e, w) # es) s = Inr s" using te by simp
    moreover have "stuck s" using True "2.prems"(5) by (simp add: stuck_def)
    moreover have "same_feed s s" by (simp add: same_feed_def)
    ultimately show ?thesis using "2.prems"(2-4) by (intro exI [of _ s] conjI)
  next
    case False
    let ?m = "\<lambda>t. if t \<in> set (entry_ids e) then None else sb_items s t"
    let ?t = "count_walk w (s\<lparr>sb_ids := es, sb_items := ?m,
      sb_buffer := sb_buffer s @ [item_of join (sb_items s) e],
      sb_writes := sb_writes s + length (entry_ids e)\<rparr>)"
    have te': "take_entry join e (sb_items s) = Inr (Some (item_of join (sb_items s) e, ?m))"
      using te False by simp
    note one = read_one [OF "2.prems"(1-5) False]
    have "\<exists>s'. drain join es ?t = Inr s' \<and> read_ok join G A R s' \<and> walks_ok G R s' \<and>
        delivered_ok lead R N s' \<and> stuck s' \<and> same_feed ?t s'"
      by (rule "2.IH" [OF te' refl refl "2.prems"(1) one]) simp
    then obtain s' where s': "drain join es ?t = Inr s'" "read_ok join G A R s'" "walks_ok G R s'"
      "delivered_ok lead R N s'" "stuck s'" "same_feed ?t s'" by blast
    have "drain join ((e, w) # es) s = Inr s'" using te' s'(1) by simp
    moreover have "same_feed s s'" using s'(6) by (simp add: same_feed_def)
    ultimately show ?thesis using s'(2-5) by (intro exI [of _ s'] conjI)
  qed
qed

lemma update_buffer_ok:
  assumes "entries_ok G" "read_ok join G A R s" "walks_ok G R s" "delivered_ok lead R N s"
  obtains s' where "update_buffer join s = Inr s'" "read_ok join G A R s'" "walks_ok G R s'"
    "delivered_ok lead R N s'" "stuck s'" "same_feed s s'"
  using drain_ok [OF assms refl] by (auto simp: update_buffer_def)

section \<open>Cutting a chunk\<close>

lemma slice_simps [simp]:
  "0 \<le> k \<Longrightarrow> slice_to k xs = take (nat k) xs" "0 \<le> k \<Longrightarrow> slice_from k xs = drop (nat k) xs"
  by (simp_all add: slice_to_def slice_from_def slice_bound_def)

lemma walk_run_bounds:
  assumes "walks_ok G R s" "read_ok join G A R s"
  shows "0 \<le> walk_run_len s" "walk_run_len s \<le> buf_len s"
    "sb_walk_runs s \<noteq> [] \<Longrightarrow> 0 < walk_run_len s"
proof -
  have len: "length R + length (sb_buffer s) \<le> length G" using assms(2) by (simp add: read_ok_def Let_def)
  have "0 \<le> walk_run_len s \<and> walk_run_len s \<le> buf_len s \<and> (sb_walk_runs s \<noteq> [] \<longrightarrow> 0 < walk_run_len s)"
  proof (cases "sb_walk_runs s")
    case Nil
    then show ?thesis by (simp add: walk_run_len_def)
  next
    case (Cons r rs)
    obtain w n where r: "r = (w, n)" by (cases r)
    have tag: "sb_walk_tagged s" using assms(1) Cons by (auto simp: walks_ok_def split: if_splits)
    with assms(1) Cons r have e: "replicate (nat n) w @ expand rs =
        drop (length R) (map snd (take (length R + length (sb_buffer s)) G))" "0 < n"
      by (simp_all add: walks_ok_def)
    from arg_cong [OF e(1), of length] len have "nat n \<le> length (sb_buffer s)" by simp
    with e(2) Cons r show ?thesis by (simp add: walk_run_len_def)
  qed
  then show "0 \<le> walk_run_len s" "walk_run_len s \<le> buf_len s"
    "sb_walk_runs s \<noteq> [] \<Longrightarrow> 0 < walk_run_len s" by blast+
qed

text \<open>A chunk lies within the leading walk run, and what it releases within the chunk.\<close>

lemma cut_chunk_ok:
  assumes p: "policy_ok (sb_policy s)" and run: "0 \<le> walk_run_len s" "walk_run_len s \<le> buf_len s"
    and ready: "chunk_ready walk s"
  obtains m n where "cut_chunk s = (take m (sb_buffer s), take n (sb_buffer s), drop n (sb_buffer s), int n)"
    "n \<le> m" "int m \<le> walk_run_len s"
proof -
  let ?p = "sb_policy s" and ?run = "walk_run_len s" and ?len = "buf_len s"
  note bounds = cp.stride_bounds [OF p]
  consider (run) "?run < ?len" "\<not> is_ready ?p ?run"
    | (flush) "\<not> (?run < ?len \<and> \<not> is_ready ?p ?run)" "all_read s" "\<not> is_ready ?p ?len"
    | (window) "\<not> (?run < ?len \<and> \<not> is_ready ?p ?run)" "\<not> (all_read s \<and> \<not> is_ready ?p ?len)" by blast
  then show ?thesis
  proof cases
    case run
    with assms(2) show ?thesis by (intro that [of "nat ?run" "nat ?run"]) (simp_all add: cut_chunk_def Let_def)
  next
    case flush
    have "\<not> ?run < ?len" using flush cp.ready_mono [OF p, of ?run ?len] by auto
    with flush run show ?thesis
      by (intro that [of "length (sb_buffer s)" "length (sb_buffer s)"]) (simp_all add: cut_chunk_def Let_def)
  next
    case window
    have "window_size ?p \<le> ?run"
    proof (cases "?run < ?len")
      case True
      with window cp.ready_window [OF p] show ?thesis by blast
    next
      case False
      with window ready have "is_ready ?p ?len" by (auto simp: chunk_ready_def split: if_splits)
      with False cp.ready_window [OF p] show ?thesis by (meson le_less_trans not_le)
    qed
    moreover have "cut_chunk s = (take (nat (window_size ?p)) (sb_buffer s),
        take (nat (next_chunk_size ?p)) (sb_buffer s), drop (nat (next_chunk_size ?p)) (sb_buffer s),
        next_chunk_size ?p)"
      unfolding cut_chunk_def Let_def if_not_P [OF window(1)] if_not_P [OF window(2)]
      using bounds by simp
    ultimately show ?thesis using bounds
      by (intro that [of "nat (window_size ?p)" "nat (next_chunk_size ?p)"]) auto
  qed
qed

lemma pop_runs_expand:
  assumes "\<forall>r \<in> set runs. 0 < snd r" "runs \<noteq> [] \<Longrightarrow> int n \<le> snd (hd runs)"
  shows "runs \<noteq> [] \<Longrightarrow> expand (pop_runs (int n) runs) = drop n (expand runs)"
    and "\<forall>r \<in> set (pop_runs (int n) runs). 0 < snd r"
proof -
  have "(runs \<noteq> [] \<longrightarrow> expand (pop_runs (int n) runs) = drop n (expand runs)) \<and>
      (\<forall>r \<in> set (pop_runs (int n) runs). 0 < snd r)"
  proof (cases runs)
    case (Cons r rs)
    obtain w c where r: "r = (w, c)" by (cases r)
    with assms Cons have c: "0 < c" "int n \<le> c" "\<forall>r \<in> set rs. 0 < snd r" by auto
    have "nat (c - int n) = nat c - n" "n \<le> nat c" using c by auto
    with c Cons r show ?thesis by (auto simp: pop_runs_def)
  qed (simp add: pop_runs_def)
  then show "runs \<noteq> [] \<Longrightarrow> expand (pop_runs (int n) runs) = drop n (expand runs)"
    and "\<forall>r \<in> set (pop_runs (int n) runs). 0 < snd r" by blast+
qed

text \<open>The state once a chunk of \<open>m\<close> items has been cut and \<open>n\<close> of them released.\<close>

definition after_pop :: "nat \<Rightarrow> nat \<Rightarrow> 'i stream_buffer \<Rightarrow> 'i stream_buffer" where
  "after_pop m n s = (let t = s\<lparr>sb_buffer := drop n (sb_buffer s), sb_consumed := sb_consumed s + int n,
       sb_policy := register_chunk (int n) (sb_policy s), sb_walk_runs := pop_runs (int n) (sb_walk_runs s)\<rparr>
     in t\<lparr>sb_final_emitted := all_read t \<and> sb_buffer t = [] \<and>
            \<not> continue_after_producer_done (sb_policy t) \<or> sb_final_emitted s,
          sb_delivered_end := max (sb_delivered_end s) (sb_consumed s + int m), sb_popped := Suc (sb_popped s)\<rparr>)"

lemma after_pop_sel [simp]:
  "sb_buffer (after_pop m n s) = drop n (sb_buffer s)"
  "sb_consumed (after_pop m n s) = sb_consumed s + int n"
  "sb_policy (after_pop m n s) = register_chunk (int n) (sb_policy s)"
  "sb_walk_runs (after_pop m n s) = pop_runs (int n) (sb_walk_runs s)"
  "sb_delivered_end (after_pop m n s) = max (sb_delivered_end s) (sb_consumed s + int m)"
  "sb_ids (after_pop m n s) = sb_ids s" "sb_items (after_pop m n s) = sb_items s"
  "sb_registered (after_pop m n s) = sb_registered s" "sb_writes (after_pop m n s) = sb_writes s"
  "sb_walk_tagged (after_pop m n s) = sb_walk_tagged s" "sb_producer_done (after_pop m n s) = sb_producer_done s"
  "sb_expected (after_pop m n s) = sb_expected s"
  by (simp_all add: after_pop_def Let_def)

lemma after_pop_ok:
  assumes rd: "read_ok join G A R s" and wk: "walks_ok G R s" and dl: "delivered_ok lead R N s"
    and n: "n \<le> m" "int m \<le> walk_run_len s"
  defines "ctx \<equiv> min (max (sb_delivered_end s - sb_consumed s) 0) (int m)"
  shows "read_ok join G A (R @ take n (sb_buffer s)) (after_pop m n s)"
    "walks_ok G (R @ take n (sb_buffer s)) (after_pop m n s)"
    "delivered_ok lead (R @ take n (sb_buffer s)) (N @ drop (nat ctx) (take m (sb_buffer s))) (after_pop m n s)"
proof -
  note run = walk_run_bounds [OF wk rd]
  have m: "m \<le> length (sb_buffer s)" using n run by linarith
  let ?R = "R @ take n (sb_buffer s)" and ?t = "after_pop m n s"
  have k: "length ?R + length (sb_buffer ?t) = length R + length (sb_buffer s)" using n m by simp
  have cat: "?R @ sb_buffer ?t = R @ sb_buffer s" by simp
  show "read_ok join G A ?R ?t"
    using rd unfolding read_ok_def k cat by (simp add: Let_def)
  show "walks_ok G ?R ?t"
  proof (cases "sb_walk_tagged s")
    case True
    with wk have w: "expand (sb_walk_runs s) =
        drop (length R) (map snd (take (length R + length (sb_buffer s)) G))"
      "\<forall>r \<in> set (sb_walk_runs s). 0 < snd r" by (simp_all add: walks_ok_def)
    have hd: "int n \<le> snd (hd (sb_walk_runs s))" if "sb_walk_runs s \<noteq> []"
      using that n by (simp add: walk_run_len_def)
    note pr = pop_runs_expand [OF w(2) hd]
    have "expand (pop_runs (int n) (sb_walk_runs s)) = drop n (expand (sb_walk_runs s))"
    proof (cases "sb_walk_runs s")
      case Nil
      then show ?thesis by (simp add: pop_runs_def)
    next
      case (Cons a as)
      then show ?thesis by (intro pr(1)) simp_all
    qed
    also have "\<dots> = drop (length ?R) (map snd (take (length R + length (sb_buffer s)) G))"
      using w(1) n m by (simp add: add.commute)
    finally have "expand (sb_walk_runs ?t) =
        drop (length ?R) (map snd (take (length ?R + length (sb_buffer ?t)) G))"
      unfolding k by simp
    moreover have "\<forall>r \<in> set (sb_walk_runs ?t). 0 < snd r" using pr(2) by simp
    ultimately show ?thesis using True unfolding walks_ok_def by simp
  next
    case False
    with wk show ?thesis by (simp add: walks_ok_def pop_runs_def)
  qed
  show "delivered_ok lead ?R (N @ drop (nat ctx) (take m (sb_buffer s))) ?t"
  proof -
    let ?W = "R @ sb_buffer s" and ?d = "sb_delivered_end s" and ?c = "length R"
    have D: "0 \<le> lead" "lead \<le> ?d" "sb_consumed s = int ?c" "int ?c \<le> ?d"
      "?d = lead \<or> ?d \<le> int (length ?W)" "N = drop (nat lead) (take (nat ?d) ?W)"
      using dl by (auto simp: delivered_ok_def simp del: take_append drop_append)
    have eq: "N @ drop (nat ctx) (take m (sb_buffer s)) =
        drop (nat lead) (take (nat (max ?d (int ?c + int m))) ?W)"
    proof (cases "int ?c + int m \<le> ?d")
      case True
      with D have "ctx = int m" by (simp add: ctx_def)
      with True D(6) show ?thesis by (simp add: max_def del: take_append drop_append)
    next
      case False
      with D have c: "nat ctx = nat ?d - ?c" "?c \<le> nat ?d" "nat ?d \<le> ?c + m" by (simp_all add: ctx_def)
      have "take (?c + m) ?W = take (nat ?d) ?W @ drop (nat ctx) (take m (sb_buffer s))"
      proof -
        have "take (?c + m) ?W = R @ take m (sb_buffer s)" by simp
        moreover have "take (nat ?d) ?W = R @ take (nat ctx) (sb_buffer s)" using c by simp
        moreover have "take m (sb_buffer s) = take (nat ctx) (sb_buffer s) @ drop (nat ctx) (take m (sb_buffer s))"
          using append_take_drop_id [of "nat ctx" "take m (sb_buffer s)"] c by (simp add: min_def split: if_splits)
        ultimately show ?thesis by simp
      qed
      moreover have "nat lead \<le> length (take (nat ?d) ?W)" using D(1,2) c m by simp
      moreover have "nat (max ?d (int ?c + int m)) = ?c + m" using False by (simp add: max_def)
      ultimately show ?thesis using D(6) by (simp only: drop_append diff_is_0_eq' drop_0)
    qed
    have "max ?d (int ?c + int m) = lead \<or> max ?d (int ?c + int m) \<le> int (length ?W)"
      using D(5) m by (auto simp: max_def)
    moreover have "lead \<le> max ?d (int ?c + int m)" "int ?c + int n \<le> max ?d (int ?c + int m)"
      using D(2) n(1) by linarith+
    ultimately show ?thesis using D(1,3) eq n m unfolding delivered_ok_def cat after_pop_sel
      by (simp del: take_append drop_append)
  qed
qed

section \<open>Popping\<close>

text \<open>Once everything announced is read, no registered item is left to read.\<close>

lemma all_read_ids:
  assumes "entries_ok G" "read_ok join G A R s" "all_read s"
  shows "sb_ids s = []" "length R + length (sb_buffer s) = length G"
proof -
  let ?k = "length R + length (sb_buffer s)"
  have k: "?k \<le> length G" "sb_ids s = drop ?k G" "length (ids_of G) \<le> length (ids_of (take ?k G))"
    using assms(2,3) by (simp_all add: read_ok_def all_read_def Let_def)
  have "length (ids_of G) = length (ids_of (take ?k G @ drop ?k G))" by simp
  then have "ids_of (drop ?k G) = []" using k(3) unfolding ids_of_simps(3) by simp
  then have "\<forall>e \<in> set (drop ?k G). entry_ids (fst e) = []" by (simp add: ids_of_def)
  moreover have "\<forall>e \<in> set (drop ?k G). entry_ids (fst e) \<noteq> []"
    using assms(1) by (meson entries_ok_def in_set_dropD)
  ultimately have "drop ?k G = []" by (metis last_in_set)
  with k show "sb_ids s = []" "?k = length G" by simp_all
qed

lemma update_stuck:
  assumes "stuck s"
  shows "update_buffer join s = Inr s"
proof (cases "sb_ids s")
  case (Cons e es)
  obtain en w where e: "e = (en, w)" by (cases e)
  with assms Cons have "\<exists>t \<in> set (entry_ids en). sb_items s t = None" by (simp add: stuck_def)
  then have "take_entry join en (sb_items s) = Inr None"
    by (cases en) (auto simp: take_entry_def)
  with Cons e show ?thesis by (simp add: update_buffer_def)
qed (simp add: update_buffer_def)

lemma pop_chunk_run:
  assumes "update_buffer join s0 = Inr s"
    and "cut_chunk s = (take m (sb_buffer s), take n (sb_buffer s), drop n (sb_buffer s), int n)"
    and "m \<le> length (sb_buffer s)"
  shows "pop_chunk join is_tensor stack s0 = Inr
    (\<lparr>sc_data = collate is_tensor stack (take m (sb_buffer s)), sc_chunk_index = sb_popped s,
       sc_start_offset = sb_consumed s,
       sc_is_final = (all_read s \<and> drop n (sb_buffer s) = [] \<and> \<not> continue_after_producer_done (sb_policy s)),
       sc_context_items = min (max (sb_delivered_end s - sb_consumed s) 0) (int m),
       sc_num_items = int m, sc_released = take n (sb_buffer s)\<rparr>, after_pop m n s)"
proof -
  have c: "continue_after_producer_done (register_chunk k p) = continue_after_producer_done p" for k p
    by (simp add: continue_after_producer_done_def)
  show ?thesis using assms
    by (simp add: pop_chunk_def after_pop_def all_read_def c Let_def del: drop_eq_Nil drop_eq_Nil2)
qed

section \<open>Runs of a buffer\<close>

text \<open>
  A producer registers ids nobody used before; each id's item arrives once, in any order;
  polls and pops come whenever the worker asks.
\<close>

inductive stream_step ::
  "('i list \<Rightarrow> 'i) \<Rightarrow> ('i \<Rightarrow> bool) \<Rightarrow> ('i list \<Rightarrow> 'i) \<Rightarrow> 'i stream_run \<Rightarrow> 'i stream_run \<Rightarrow> bool"
  for join is_tensor stack where
  step_register: "distinct tids \<Longrightarrow> set tids \<inter> set (ids_of (run_entries r)) = {} \<Longrightarrow>
    stream_step join is_tensor stack r (r\<lparr>
      run_buf := pre_read_register_joined tids walk (run_buf r),
      run_entries := run_entries r @ (if length tids = 1 \<or> \<not> sb_joins (run_buf r)
        then map (\<lambda>t. (Lone t, walk)) tids else if tids = [] then [] else [(Pieces tids, walk)])\<rparr>)"
| step_arrive: "run_arrived r t = None \<Longrightarrow>
    stream_step join is_tensor stack r (r\<lparr>run_buf := put t x (run_buf r),
      run_arrived := (run_arrived r)(t \<mapsto> x)\<rparr>)"
| step_done: "stream_step join is_tensor stack r (r\<lparr>run_buf := signal_done n (run_buf r)\<rparr>)"
| step_poll: "has_chunk_ready join walk (run_buf r) = Inr (b, s) \<Longrightarrow>
    stream_step join is_tensor stack r (r\<lparr>run_buf := s\<rparr>)"
| step_pop: "has_chunk_ready join walk (run_buf r) = Inr (True, s) \<Longrightarrow>
    pop_chunk join is_tensor stack s = Inr (c, s') \<Longrightarrow>
    stream_step join is_tensor stack r (r\<lparr>run_buf := s', run_released := run_released r @ sc_released c,
      run_new := run_new r @ drop (nat (sc_context_items c)) (take (nat (sc_num_items c)) (sb_buffer s)),
      run_chunks := run_chunks r @ [c]\<rparr>)"

inductive stream_reach ::
  "('i list \<Rightarrow> 'i) \<Rightarrow> ('i \<Rightarrow> bool) \<Rightarrow> ('i list \<Rightarrow> 'i) \<Rightarrow> 'i stream_run \<Rightarrow> bool"
  for join is_tensor stack where
  stream_start: "policy_ok p \<Longrightarrow> prime_context lead (new_stream_buffer p joins tagged) = Inr s \<Longrightarrow>
    stream_reach join is_tensor stack \<lparr>run_buf = s, run_entries = [], run_arrived = (\<lambda>_. None),
      run_released = [], run_new = [], run_chunks = [], run_lead = lead\<rparr>"
| stream_next: "stream_reach join is_tensor stack r \<Longrightarrow> stream_step join is_tensor stack r r' \<Longrightarrow>
    stream_reach join is_tensor stack r'"

lemma run_okD:
  assumes "run_ok join r"
  shows "entries_ok (run_entries r)" "policy_ok (sb_policy (run_buf r))"
    "read_ok join (run_entries r) (run_arrived r) (run_released r) (run_buf r)"
    "walks_ok (run_entries r) (run_released r) (run_buf r)"
    "delivered_ok (run_lead r) (run_released r) (run_new r) (run_buf r)"
  using assms by (simp_all add: run_ok_def)

lemma has_chunk_ready_ok:
  assumes "run_ok join r"
  obtains s where "has_chunk_ready join walk (run_buf r) = Inr (chunk_ready walk s, s)"
    "run_ok join (r\<lparr>run_buf := s\<rparr>)" "stuck s" "sb_policy s = sb_policy (run_buf r)"
    "sb_walk_tagged s = sb_walk_tagged (run_buf r)" "same_feed (run_buf r) s"
proof -
  note R = run_okD [OF assms]
  obtain s where "update_buffer join (run_buf r) = Inr s"
    "read_ok join (run_entries r) (run_arrived r) (run_released r) s"
    "walks_ok (run_entries r) (run_released r) s"
    "delivered_ok (run_lead r) (run_released r) (run_new r) s" "stuck s" "same_feed (run_buf r) s"
    by (rule update_buffer_ok [OF R(1,3,4,5)]) (rule that)
  with R that [of s] show ?thesis by (simp add: has_chunk_ready_def run_ok_def same_feed_def)
qed

lemma pop_chunk_ok:
  assumes ok: "run_ok join r" and ready: "chunk_ready walk (run_buf r)" and st: "stuck (run_buf r)"
  obtains c s' m n where "pop_chunk join is_tensor stack (run_buf r) = Inr (c, s')"
    "s' = after_pop m n (run_buf r)" "n \<le> m" "int m \<le> walk_run_len (run_buf r)"
    "m \<le> length (sb_buffer (run_buf r))"
    "sc_num_items c = int m" "sc_start_offset c = sb_consumed (run_buf r)" "sc_released c = take n (sb_buffer (run_buf r))"
    "sc_data c = collate is_tensor stack (take m (sb_buffer (run_buf r)))"
    "sc_is_final c = (all_read (run_buf r) \<and> drop n (sb_buffer (run_buf r)) = [] \<and>
       \<not> continue_after_producer_done (sb_policy (run_buf r)))"
    "run_ok join (r\<lparr>run_buf := s', run_released := run_released r @ sc_released c,
      run_new := run_new r @ drop (nat (sc_context_items c)) (take (nat (sc_num_items c)) (sb_buffer (run_buf r))),
      run_chunks := run_chunks r @ [c]\<rparr>)"
proof -
  let ?s = "run_buf r"
  note R = run_okD [OF ok] and run = walk_run_bounds [OF run_okD(4,3) [OF ok]]
  obtain m n where cut: "cut_chunk ?s = (take m (sb_buffer ?s), take n (sb_buffer ?s), drop n (sb_buffer ?s), int n)"
    "n \<le> m" "int m \<le> walk_run_len ?s"
    by (rule cut_chunk_ok [OF R(2) run(1,2) ready]) (rule that)
  have m: "m \<le> length (sb_buffer ?s)" using cut(3) run(2) by linarith
  note pop = pop_chunk_run [OF update_stuck [OF st] cut(1) m, where is_tensor = is_tensor and stack = stack]
  note after = after_pop_ok [OF R(3,4,5) cut(2,3)]
  have "policy_ok (sb_policy (after_pop m n ?s))" using cp.register_good [OF R(2)] by simp
  with R after pop cut(2,3) m show ?thesis
    by (intro that [OF pop refl cut(2,3) m]) (simp_all add: run_ok_def)
qed

lemma register_ids:
  "read_ok join G A R s \<Longrightarrow> set ids \<inter> set (ids_of G) = {} \<Longrightarrow> ids_of es = ids \<Longrightarrow>
   read_ok join (G @ es) A R (s\<lparr>sb_registered := sb_registered s + length ids, sb_ids := sb_ids s @ es\<rparr>)"
  by (simp add: read_ok_def Let_def)

lemma fold_register:
  "fold (\<lambda>t. pre_read_register t walk) tids s = s\<lparr>sb_registered := sb_registered s + length tids,
     sb_ids := sb_ids s @ map (\<lambda>t. (Lone t, walk)) tids\<rparr>"
  by (induction tids arbitrary: s) (simp_all add: pre_read_register_def)

lemma ids_of_lone [simp]: "ids_of (map (\<lambda>t. (Lone t, walk)) tids) = tids"
  by (induction tids) simp_all

lemma run_ok_start:
  assumes "policy_ok p" "prime_context lead (new_stream_buffer p joins tagged) = Inr s"
  shows "run_ok join \<lparr>run_buf = s, run_entries = [], run_arrived = (\<lambda>_. None),
      run_released = [], run_new = [], run_chunks = [], run_lead = lead\<rparr>"
proof -
  obtain p' where p: "prime lead p = Inr p'" "s = (new_stream_buffer p joins tagged)\<lparr>sb_policy := p', sb_delivered_end := lead\<rparr>"
    using assms(2) by (auto simp: prime_context_def new_stream_buffer_def)
  then have "0 \<le> lead" "policy_ok p'" using assms(1)
    by (auto simp: prime_def policy_ok_def split: policy_kind.splits if_splits)
  with p(2) show ?thesis
    by (simp add: run_ok_def entries_ok_def read_ok_def walks_ok_def delivered_ok_def new_stream_buffer_def)
qed

lemma run_ok_register:
  assumes "run_ok join r" "distinct tids" "set tids \<inter> set (ids_of (run_entries r)) = {}"
  shows "run_ok join (r\<lparr>run_buf := pre_read_register_joined tids walk (run_buf r),
      run_entries := run_entries r @ (if length tids = 1 \<or> \<not> sb_joins (run_buf r)
        then map (\<lambda>t. (Lone t, walk)) tids else if tids = [] then [] else [(Pieces tids, walk)])\<rparr>)"
proof -
  note R = run_okD [OF assms(1)]
  let ?es = "if length tids = 1 \<or> \<not> sb_joins (run_buf r)
        then map (\<lambda>t. (Lone t, walk)) tids else if tids = [] then [] else [(Pieces tids, walk)]"
  have ids: "ids_of ?es = tids" by simp
  have buf: "pre_read_register_joined tids walk (run_buf r) =
      (run_buf r)\<lparr>sb_registered := sb_registered (run_buf r) + length tids, sb_ids := sb_ids (run_buf r) @ ?es\<rparr>"
    by (simp add: pre_read_register_joined_def fold_register)
  have "entries_ok (run_entries r @ ?es)"
    using R(1) assms(2,3) ids unfolding entries_ok_def ids_of_simps(3) ids by auto
  moreover note register_ids [OF R(3) assms(3) ids]
  moreover have "walks_ok (run_entries r @ ?es) (run_released r) (pre_read_register_joined tids walk (run_buf r))"
    using R(3,4) unfolding buf walks_ok_def read_ok_def Let_def by simp
  moreover have "delivered_ok (run_lead r) (run_released r) (run_new r)
      (pre_read_register_joined tids walk (run_buf r))"
    using R(5) unfolding buf delivered_ok_def by simp
  ultimately show ?thesis using R(2) unfolding run_ok_def buf by simp
qed

lemma run_ok_arrive:
  assumes "run_ok join r" "run_arrived r t = None"
  shows "run_ok join (r\<lparr>run_buf := put t x (run_buf r), run_arrived := (run_arrived r)(t \<mapsto> x)\<rparr>)"
proof -
  note R = run_okD [OF assms(1)]
  let ?k = "length (run_released r) + length (sb_buffer (run_buf r))"
  have t: "t \<notin> set (ids_of (take ?k (run_entries r)))"
    using R(3) assms(2) unfolding read_ok_def Let_def by auto
  have "map (\<lambda>e. item_of join ((run_arrived r)(t \<mapsto> x)) (fst e)) (take ?k (run_entries r)) =
      map (\<lambda>e. item_of join (run_arrived r) (fst e)) (take ?k (run_entries r))"
  proof (rule map_cong [OF refl])
    fix e assume "e \<in> set (take ?k (run_entries r))"
    with t have "t \<notin> set (entry_ids (fst e))" by (auto simp: ids_of_def)
    then show "item_of join ((run_arrived r)(t \<mapsto> x)) (fst e) = item_of join (run_arrived r) (fst e)"
      by (intro item_of_cong) auto
  qed
  then have "read_ok join (run_entries r) ((run_arrived r)(t \<mapsto> x)) (run_released r) (put t x (run_buf r))"
    using R(3) t unfolding read_ok_def Let_def put_def by simp
  with R show ?thesis
    by (simp add: run_ok_def put_def walks_ok_def delivered_ok_def)
qed

lemma stream_step_ok:
  assumes "stream_step join is_tensor stack r r'" "run_ok join r"
  shows "run_ok join r'"
  using assms
proof (induction rule: stream_step.induct)
  case (step_register tids r walk)
  then show ?case by (intro run_ok_register)
next
  case (step_arrive r t x)
  then show ?case by (intro run_ok_arrive)
next
  case (step_done r n)
  then show ?case
    by (simp add: run_ok_def read_ok_def walks_ok_def delivered_ok_def signal_done_def)
next
  case (step_poll walk r b s)
  obtain s' where "has_chunk_ready join walk (run_buf r) = Inr (chunk_ready walk s', s')"
    "run_ok join (r\<lparr>run_buf := s'\<rparr>)"
    by (rule has_chunk_ready_ok [OF step_poll(2)]) (rule that)
  with step_poll(1) show ?case by simp
next
  case (step_pop walk r s c s')
  obtain t where t: "has_chunk_ready join walk (run_buf r) = Inr (chunk_ready walk t, t)"
    "run_ok join (r\<lparr>run_buf := t\<rparr>)" "stuck t"
    by (rule has_chunk_ready_ok [OF step_pop(3)]) (rule that)
  with step_pop(1) have s: "t = s" "chunk_ready walk (run_buf (r\<lparr>run_buf := s\<rparr>))" "stuck (run_buf (r\<lparr>run_buf := s\<rparr>))"
    by auto
  obtain d s'' where "pop_chunk join is_tensor stack (run_buf (r\<lparr>run_buf := s\<rparr>)) = Inr (d, s'')"
    "run_ok join ((r\<lparr>run_buf := s\<rparr>)\<lparr>run_buf := s'', run_released := run_released (r\<lparr>run_buf := s\<rparr>) @ sc_released d,
      run_new := run_new (r\<lparr>run_buf := s\<rparr>) @ drop (nat (sc_context_items d))
        (take (nat (sc_num_items d)) (sb_buffer (run_buf (r\<lparr>run_buf := s\<rparr>)))),
      run_chunks := run_chunks (r\<lparr>run_buf := s\<rparr>) @ [d]\<rparr>)"
    by (rule pop_chunk_ok [OF t(2) [unfolded s(1)] s(2,3)]) (rule that)
  with step_pop(2) show ?case by simp
qed

lemma stream_reach_ok: "stream_reach join is_tensor stack r \<Longrightarrow> run_ok join r"
  by (induction rule: stream_reach.induct) (auto intro: run_ok_start stream_step_ok)

end
