(* ===== verification/Stream_Chunks.thy ===== *)
theory Stream_Chunks imports Stream_Inv begin

text \<open>
  What the chunks of a run hand over. A chunk names a slice of the stream by its
  \<open>start_offset\<close> and \<open>num_items\<close>; the invariant says its data is that slice, that the chunks'
  new items make up those delivered so far, and that what they release is what left the
  buffer. The last section follows streams whose producer keeps to the total it announced.
\<close>

section \<open>The data of a chunk\<close>

text \<open>\<open>d\<close> is how the items \<open>xs\<close> are handed over: nothing, one tensor, or the handles.\<close>

definition carries :: "('i \<Rightarrow> bool) \<Rightarrow> ('i list \<Rightarrow> 'i) \<Rightarrow> 'i list \<Rightarrow> 'i chunk_data \<Rightarrow> bool" where
  "carries is_tensor stack xs d \<longleftrightarrow> (case d of
     No_Data \<Rightarrow> xs = []
   | One_Tensor t \<Rightarrow> xs \<noteq> [] \<and> is_tensor (hd xs) \<and> t = (if tl xs = [] then hd xs else stack xs)
   | Handles ys \<Rightarrow> xs \<noteq> [] \<and> \<not> is_tensor (hd xs) \<and> ys = xs)"

lemma carries_collate: "carries is_tensor stack xs (collate is_tensor stack xs)"
  by (cases xs) (auto simp: carries_def collate_def)

definition chunk_items :: "'i list \<Rightarrow> 'i stream_chunk \<Rightarrow> 'i list" where
  "chunk_items W c = take (nat (sc_num_items c)) (drop (nat (sc_start_offset c)) W)"

definition in_stream :: "'i list \<Rightarrow> 'i stream_chunk \<Rightarrow> bool" where
  "in_stream W c \<longleftrightarrow> 0 \<le> sc_start_offset c \<and> 0 \<le> sc_num_items c \<and>
     sc_start_offset c + sc_num_items c \<le> int (length W)"

lemma in_stream_grow: "in_stream W c \<Longrightarrow> in_stream (W @ ys) c"
  by (simp add: in_stream_def)

lemma chunk_items_grow: "in_stream W c \<Longrightarrow> chunk_items (W @ ys) c = chunk_items W c"
proof -
  assume "in_stream W c"
  then have "nat (sc_start_offset c) + nat (sc_num_items c) \<le> length W" by (auto simp: in_stream_def)
  then show ?thesis by (simp add: chunk_items_def)
qed

definition new_of :: "'i list \<Rightarrow> 'i stream_chunk list \<Rightarrow> 'i list" where
  "new_of W cs = concat (map (\<lambda>c. drop (nat (sc_context_items c)) (chunk_items W c)) cs)"

definition released_of :: "'i stream_chunk list \<Rightarrow> 'i list" where
  "released_of cs = concat (map sc_released cs)"

definition chunks_ok :: "('i \<Rightarrow> bool) \<Rightarrow> ('i list \<Rightarrow> 'i) \<Rightarrow> 'i stream_run \<Rightarrow> bool" where
  "chunks_ok is_tensor stack r \<longleftrightarrow> (let W = run_released r @ sb_buffer (run_buf r) in
     (\<forall>c \<in> set (run_chunks r). in_stream W c \<and> carries is_tensor stack (chunk_items W c) (sc_data c)) \<and>
     run_new r = new_of W (run_chunks r) \<and> run_released r = released_of (run_chunks r))"

lemma chunks_okI:
  "run_released r @ sb_buffer (run_buf r) = W \<Longrightarrow>
   \<forall>c \<in> set (run_chunks r). in_stream W c \<and> carries is_tensor stack (chunk_items W c) (sc_data c) \<Longrightarrow>
   run_new r = new_of W (run_chunks r) \<Longrightarrow> run_released r = released_of (run_chunks r) \<Longrightarrow>
   chunks_ok is_tensor stack r"
  by (simp add: chunks_ok_def Let_def)

lemma new_of_grow: "\<forall>c \<in> set cs. in_stream W c \<Longrightarrow> new_of (W @ ys) cs = new_of W cs"
  unfolding new_of_def by (intro arg_cong [where f = concat] map_cong) (simp_all add: chunk_items_grow)

lemma chunks_ok_grow:
  assumes "chunks_ok is_tensor stack r" "sb_buffer s = sb_buffer (run_buf r) @ ys"
  shows "chunks_ok is_tensor stack (r\<lparr>run_buf := s\<rparr>)"
proof -
  let ?W = "run_released r @ sb_buffer (run_buf r)"
  have c: "\<forall>c \<in> set (run_chunks r). in_stream ?W c \<and> carries is_tensor stack (chunk_items ?W c) (sc_data c)"
    "run_new r = new_of ?W (run_chunks r)" "run_released r = released_of (run_chunks r)"
    using assms(1) unfolding chunks_ok_def Let_def by blast+
  have "run_released r @ sb_buffer s = ?W @ ys" using assms(2) by simp
  moreover have "new_of (?W @ ys) (run_chunks r) = new_of ?W (run_chunks r)" using c(1) by (intro new_of_grow) blast
  ultimately show ?thesis using c in_stream_grow chunk_items_grow unfolding chunks_ok_def Let_def by fastforce
qed

text \<open>Reading only appends to what is released and buffered.\<close>

lemma read_prefix:
  assumes "read_ok join G A R s" "read_ok join G A R s'" "length (sb_buffer s) \<le> length (sb_buffer s')"
  shows "\<exists>ys. sb_buffer s' = sb_buffer s @ ys"
proof -
  let ?f = "\<lambda>e. item_of join A (fst e)" and ?k = "length R + length (sb_buffer s)" and ?k' = "length R + length (sb_buffer s')"
  have "R @ sb_buffer s = map ?f (take ?k G)" "R @ sb_buffer s' = map ?f (take ?k' G)"
    using assms(1,2) by (simp_all add: read_ok_def Let_def)
  moreover have "take ?k' G = take ?k G @ take (?k' - ?k) (drop ?k G)"
    using assms(3) take_add [of ?k "?k' - ?k" G] by simp
  ultimately have "R @ sb_buffer s' = R @ sb_buffer s @ map ?f (take (?k' - ?k) (drop ?k G))" by simp
  then show ?thesis by blast
qed

lemma poll_chunks:
  assumes "chunks_ok is_tensor stack r" "run_ok join r" "has_chunk_ready join walk (run_buf r) = Inr (b, s)"
  shows "chunks_ok is_tensor stack (r\<lparr>run_buf := s\<rparr>)"
proof -
  obtain t where t: "has_chunk_ready join walk (run_buf r) = Inr (chunk_ready walk t, t)"
    "run_ok join (r\<lparr>run_buf := t\<rparr>)" "same_feed (run_buf r) t"
    by (rule has_chunk_ready_ok [OF assms(2)]) (rule that)
  with assms(3) have s: "t = s" by simp
  have "\<exists>ys. sb_buffer s = sb_buffer (run_buf r) @ ys"
    by (rule read_prefix [of join "run_entries r" "run_arrived r" "run_released r"])
      (use run_okD(3) [OF assms(2)] run_okD(3) [OF t(2)] t(3) s in \<open>simp_all add: same_feed_def\<close>)
  then show ?thesis using chunks_ok_grow [OF assms(1)] by blast
qed

lemma pop_chunks:
  assumes c: "chunks_ok is_tensor stack r" and off: "sc_start_offset c = int (length (run_released r))"
    and m: "sc_num_items c = int m" "m \<le> length (sb_buffer (run_buf r))"
    and data: "sc_data c = collate is_tensor stack (take m (sb_buffer (run_buf r)))"
    and n: "sc_released c = take n (sb_buffer (run_buf r))" "sb_buffer s = drop n (sb_buffer (run_buf r))"
  shows "chunks_ok is_tensor stack (r\<lparr>run_buf := s, run_released := run_released r @ sc_released c,
    run_new := run_new r @ drop (nat (sc_context_items c)) (take (nat (sc_num_items c)) (sb_buffer (run_buf r))),
    run_chunks := run_chunks r @ [c]\<rparr>)"
proof -
  let ?W = "run_released r @ sb_buffer (run_buf r)"
  have W: "(run_released r @ sc_released c) @ sb_buffer s = ?W" using n by simp
  have items: "chunk_items ?W c = take m (sb_buffer (run_buf r))" "in_stream ?W c"
    using off m by (simp_all add: chunk_items_def in_stream_def)
  have "carries is_tensor stack (chunk_items ?W c) (sc_data c)" unfolding items data by (rule carries_collate)
  moreover have old: "\<forall>c \<in> set (run_chunks r). in_stream ?W c \<and> carries is_tensor stack (chunk_items ?W c) (sc_data c)"
    "run_new r = new_of ?W (run_chunks r)" "run_released r = released_of (run_chunks r)"
    using c unfolding chunks_ok_def Let_def by blast+
  ultimately have all: "\<forall>c \<in> set (run_chunks r @ [c]). in_stream ?W c \<and> carries is_tensor stack (chunk_items ?W c) (sc_data c)"
    using items(2) by auto
  have new: "run_new r @ drop (nat (sc_context_items c)) (take (nat (sc_num_items c)) (sb_buffer (run_buf r))) =
      new_of ?W (run_chunks r @ [c])" using old(2) items(1) m(1) by (simp add: new_of_def)
  have rel: "run_released r @ sc_released c = released_of (run_chunks r @ [c])" using old(3) by (simp add: released_of_def)
  show ?thesis
    by (rule chunks_okI [of _ ?W]) (use W in simp, use all in simp, use new in simp, use rel in simp)
qed

lemma step_chunks:
  assumes "stream_step join is_tensor stack r r'" "run_ok join r" "chunks_ok is_tensor stack r"
  shows "chunks_ok is_tensor stack r'"
  using assms
proof (induction rule: stream_step.induct)
  case (step_register tids r walk)
  have "sb_buffer (pre_read_register_joined tids walk (run_buf r)) = sb_buffer (run_buf r)"
    by (simp add: pre_read_register_joined_def fold_register)
  with step_register(4) show ?case by (simp add: chunks_ok_def)
next
  case (step_arrive r t x)
  then show ?case by (simp add: chunks_ok_def put_def)
next
  case (step_done r n)
  then show ?case by (simp add: chunks_ok_def signal_done_def)
next
  case (step_poll walk r b s)
  then show ?case by (intro poll_chunks)
next
  case (step_pop walk r s c s')
  obtain t where t: "has_chunk_ready join walk (run_buf r) = Inr (chunk_ready walk t, t)"
    "run_ok join (r\<lparr>run_buf := t\<rparr>)" "stuck t"
    by (rule has_chunk_ready_ok [OF step_pop(3)]) (rule that)
  with step_pop(1) have s: "t = s" "chunk_ready walk (run_buf (r\<lparr>run_buf := s\<rparr>))" "stuck (run_buf (r\<lparr>run_buf := s\<rparr>))"
    by auto
  note ok = t(2) [unfolded s(1)]
  note polled = poll_chunks [OF step_pop(4,3,1)]
  have off: "sb_consumed s = int (length (run_released r))" using run_okD(5) [OF ok] by (simp add: delivered_ok_def)
  obtain d s'' m n where d: "pop_chunk join is_tensor stack (run_buf (r\<lparr>run_buf := s\<rparr>)) = Inr (d, s'')"
    "s'' = after_pop m n (run_buf (r\<lparr>run_buf := s\<rparr>))" "m \<le> length (sb_buffer (run_buf (r\<lparr>run_buf := s\<rparr>)))"
    "sc_num_items d = int m" "sc_start_offset d = sb_consumed (run_buf (r\<lparr>run_buf := s\<rparr>))"
    "sc_released d = take n (sb_buffer (run_buf (r\<lparr>run_buf := s\<rparr>)))"
    "sc_data d = collate is_tensor stack (take m (sb_buffer (run_buf (r\<lparr>run_buf := s\<rparr>))))"
    by (rule pop_chunk_ok [OF ok s(2,3)]) (rule that)
  have c: "d = c" "s'' = s'" using d(1) step_pop(2) by simp_all
  have "sb_buffer s' = drop n (sb_buffer s)" using d(2) c(2) by simp
  then show ?case
    using pop_chunks [OF polled, of c m n s'] d(3-) c off by simp
qed

lemma reach_chunks: "stream_reach join is_tensor stack r \<Longrightarrow> chunks_ok is_tensor stack r"
proof (induction rule: stream_reach.induct)
  case (stream_start p lead joins tagged s)
  then show ?case
    by (auto simp: chunks_ok_def new_of_def released_of_def prime_context_def new_stream_buffer_def)
next
  case (stream_next r r')
  then show ?case using step_chunks stream_reach_ok by blast
qed

section \<open>The end of a stream\<close>

text \<open>
  A producer announces once how many items it sends and registers no more: the total stays, and
  nothing is registered after as many as announced.
\<close>

definition announced :: "'i stream_run \<Rightarrow> 'i stream_run \<Rightarrow> bool" where
  "announced r r' \<longleftrightarrow> (sb_producer_done (run_buf r) \<longrightarrow>
     sb_expected (run_buf r') = sb_expected (run_buf r) \<and>
     (sb_expected (run_buf r) \<le> sb_registered (run_buf r) \<longrightarrow>
       sb_registered (run_buf r') = sb_registered (run_buf r)))"

inductive announced_reach ::
  "('i list \<Rightarrow> 'i) \<Rightarrow> ('i \<Rightarrow> bool) \<Rightarrow> ('i list \<Rightarrow> 'i) \<Rightarrow> 'i stream_run \<Rightarrow> bool"
  for join is_tensor stack where
  announced_start: "policy_ok p \<Longrightarrow> prime_context lead (new_stream_buffer p joins tagged) = Inr s \<Longrightarrow>
    announced_reach join is_tensor stack \<lparr>run_buf = s, run_entries = [], run_arrived = (\<lambda>_. None),
      run_released = [], run_new = [], run_chunks = [], run_lead = lead\<rparr>"
| announced_next: "announced_reach join is_tensor stack r \<Longrightarrow> stream_step join is_tensor stack r r' \<Longrightarrow>
    announced r r' \<Longrightarrow> announced_reach join is_tensor stack r'"

lemma announced_reach_stream: "announced_reach join is_tensor stack r \<Longrightarrow> stream_reach join is_tensor stack r"
  by (induction rule: announced_reach.induct) (auto intro: stream_start stream_next)

definition finals :: "'i stream_run \<Rightarrow> nat" where
  "finals r = length (filter sc_is_final (run_chunks r))"

definition ended :: "'i stream_buffer \<Rightarrow> bool" where
  "ended s \<longleftrightarrow> all_read s \<and> sb_buffer s = [] \<and> \<not> continue_after_producer_done (sb_policy s)"

definition ended_ok :: "'i stream_run \<Rightarrow> bool" where
  "ended_ok r \<longleftrightarrow> finals r = (if sb_final_emitted (run_buf r) then 1 else 0) \<and>
     (sb_final_emitted (run_buf r) \<longrightarrow> ended (run_buf r) \<and> run_chunks r \<noteq> [] \<and> sc_is_final (last (run_chunks r)))"

lemma all_read_update:
  assumes "run_ok join r" "all_read (run_buf r)"
  shows "update_buffer join (run_buf r) = Inr (run_buf r)"
  using all_read_ids(1) [OF run_okD(1,3) [OF assms(1)] assms(2)] by (simp add: update_buffer_def)

lemma nothing_ready:
  assumes "run_ok join r" "ended (run_buf r)" "sb_final_emitted (run_buf r)"
  shows "has_chunk_ready join walk (run_buf r) = Inr (False, run_buf r)"
proof -
  have "update_buffer join (run_buf r) = Inr (run_buf r)" using all_read_update assms by (auto simp: ended_def)
  moreover have "walk_run_len (run_buf r) = 0"
    using walk_run_bounds [OF run_okD(4,3) [OF assms(1)]] assms(2) by (simp add: ended_def)
  ultimately show ?thesis using assms(2,3) by (simp add: has_chunk_ready_def chunk_ready_def ended_def)
qed

lemma after_pop_emitted:
  "sb_final_emitted (after_pop m n s) \<longleftrightarrow> ended (after_pop m n s) \<or> sb_final_emitted s"
  by (simp add: after_pop_def ended_def Let_def all_read_def)

lemma register_ended:
  assumes "ended s" "sb_registered (pre_read_register_joined tids walk s) = sb_registered s"
  shows "pre_read_register_joined tids walk s = s"
  using assms(2) by (auto simp: pre_read_register_joined_def fold_register split: if_splits)

lemma register_emitted [simp]: "sb_final_emitted (pre_read_register_joined tids walk s) = sb_final_emitted s"
  by (simp add: pre_read_register_joined_def fold_register)

lemma step_ended:
  assumes "stream_step join is_tensor stack r r'" "announced r r'" "run_ok join r" "ended_ok r"
  shows "ended_ok r'"
  using assms
proof (induction rule: stream_step.induct)
  case (step_register tids r walk)
  show ?case
  proof (cases "sb_final_emitted (run_buf r)")
    case True
    with step_register(5) have e: "ended (run_buf r)" by (simp add: ended_ok_def)
    then have "sb_registered (pre_read_register_joined tids walk (run_buf r)) = sb_registered (run_buf r)"
      using step_register(3) by (simp add: announced_def ended_def all_read_def)
    from register_ended [OF e this] step_register(5) show ?thesis by (simp add: ended_ok_def finals_def)
  next
    case False
    with step_register(5) show ?thesis by (simp add: ended_ok_def finals_def)
  qed
next
  case (step_arrive r t x)
  then show ?case by (simp add: ended_ok_def finals_def put_def ended_def all_read_def)
next
  case (step_done r n)
  then show ?case by (auto simp: ended_ok_def finals_def signal_done_def ended_def all_read_def announced_def)
next
  case (step_poll walk r b s)
  show ?case
  proof (cases "sb_final_emitted (run_buf r)")
    case True
    then have "s = run_buf r" using nothing_ready [OF step_poll(3)] step_poll(1,4) by (auto simp: ended_ok_def)
    with step_poll(4) show ?thesis by simp
  next
    case False
    obtain t where "has_chunk_ready join walk (run_buf r) = Inr (chunk_ready walk t, t)" "same_feed (run_buf r) t"
      by (rule has_chunk_ready_ok [OF step_poll(3)]) (rule that)
    with step_poll(1,4) False show ?thesis by (simp add: ended_ok_def finals_def same_feed_def)
  qed
next
  case (step_pop walk r s c s')
  have new: "\<not> sb_final_emitted (run_buf r)"
    using nothing_ready [OF step_pop(4), of walk] step_pop(1,5) by (auto simp: ended_ok_def)
  obtain t where t: "has_chunk_ready join walk (run_buf r) = Inr (chunk_ready walk t, t)"
    "run_ok join (r\<lparr>run_buf := t\<rparr>)" "stuck t" "same_feed (run_buf r) t"
    by (rule has_chunk_ready_ok [OF step_pop(4)]) (rule that)
  with step_pop(1) have s: "t = s" "chunk_ready walk (run_buf (r\<lparr>run_buf := s\<rparr>))" "stuck (run_buf (r\<lparr>run_buf := s\<rparr>))"
    by auto
  obtain d s'' m n where d: "pop_chunk join is_tensor stack (run_buf (r\<lparr>run_buf := s\<rparr>)) = Inr (d, s'')"
    "s'' = after_pop m n (run_buf (r\<lparr>run_buf := s\<rparr>))"
    "sc_is_final d = (all_read (run_buf (r\<lparr>run_buf := s\<rparr>)) \<and> drop n (sb_buffer (run_buf (r\<lparr>run_buf := s\<rparr>))) = [] \<and>
       \<not> continue_after_producer_done (sb_policy (run_buf (r\<lparr>run_buf := s\<rparr>))))"
    by (rule pop_chunk_ok [OF t(2) [unfolded s(1)] s(2,3)]) (rule that)
  have c: "d = c" "s'' = s'" using d(1) step_pop(2) by simp_all
  have e: "ended (after_pop m n s) \<longleftrightarrow> sc_is_final c"
    using d(3) c by (simp add: ended_def all_read_def continue_after_producer_done_def)
  have "sb_final_emitted s' \<longleftrightarrow> sc_is_final c"
    using after_pop_emitted [of m n s] e d(2) c new t(4) s(1) by (simp add: same_feed_def)
  then show ?case using step_pop(5) new e d(2) c by (auto simp: ended_ok_def finals_def)
qed

lemma reach_ended: "announced_reach join is_tensor stack r \<Longrightarrow> ended_ok r"
proof (induction rule: announced_reach.induct)
  case (announced_start p lead joins tagged s)
  then show ?case by (auto simp: ended_ok_def finals_def prime_context_def new_stream_buffer_def)
next
  case (announced_next r r')
  then show ?case using step_ended stream_reach_ok announced_reach_stream by blast
qed

end
