(* ===== verification/Stream_Props.thy ===== *)
theory Stream_Props imports Stream_Chunks begin

text \<open>
  The properties of the streaming buffer over every run: items leave in the order they were
  registered, chunks carry exactly the items they name and each item is delivered as new exactly
  once, a chunk never spans two walks, and a stream has at most one final chunk, its last.
\<close>

section \<open>A run of three items\<close>

definition demo_policy :: policy where
  "demo_policy = \<lparr>kind = Left_Context 2 1, first_chunk_read = False, items_consumed = 0,
     ramp_size = 0, popped_count = 0, delivered = 0\<rparr>"

definition demo_start :: "string stream_buffer" where
  "demo_start = projr (prime_context 0 (new_stream_buffer demo_policy False True))"

text \<open>Three items are registered; the second arrives first; the producer then finishes.\<close>

definition demo_run :: "string stream_run" where
  "demo_run = \<lparr>run_buf = signal_done 3 (put 9 ''c'' (put 7 ''a'' (put 8 ''b''
       (pre_read_register_joined [7, 8, 9] (Some ''talk'') demo_start)))),
     run_entries = [(Lone 7, Some ''talk''), (Lone 8, Some ''talk''), (Lone 9, Some ''talk'')],
     run_arrived = [8 \<mapsto> ''b'', 7 \<mapsto> ''a'', 9 \<mapsto> ''c''], run_released = [], run_new = [], run_chunks = [], run_lead = 0\<rparr>"

lemma demo_run_announced: "announced_reach hd (\<lambda>_. False) hd demo_run"
proof -
  let ?reach = "announced_reach hd (\<lambda>_. False) (hd :: string list \<Rightarrow> string)"
  have "policy_ok demo_policy" by (simp add: policy_ok_def demo_policy_def)
  moreover have "is_ok (prime_context 0 (new_stream_buffer demo_policy False True :: string stream_buffer))"
    by code_simp
  then have "prime_context 0 (new_stream_buffer demo_policy False True) = Inr demo_start"
    unfolding demo_start_def by (rule ok_projr)
  ultimately have start: "?reach \<lparr>run_buf = demo_start, run_entries = [], run_arrived = (\<lambda>_. None),
      run_released = [], run_new = [], run_chunks = [], run_lead = 0\<rparr>" by (rule announced_start)
  have live: "sb_joins demo_start = False" "sb_producer_done demo_start = False" by code_simp+
  have keep: "sb_producer_done (pre_read_register_joined ts w s) = sb_producer_done s"
    "sb_producer_done (put t x s) = sb_producer_done s" for ts w t x and s :: "string stream_buffer"
    by (simp_all add: pre_read_register_joined_def fold_register put_def)
  note r1 = announced_next [OF start step_register [of "[7, 8, 9]" _ _ _ _ "Some ''talk''"]]
  note r2 = announced_next [OF r1 step_arrive [of _ 8 _ _ _ "''b''"]]
  note r3 = announced_next [OF r2 step_arrive [of _ 7 _ _ _ "''a''"]]
  note r4 = announced_next [OF r3 step_arrive [of _ 9 _ _ _ "''c''"]]
  note r5 = announced_next [OF r4 step_done [where n = 3]]
  show ?thesis using r5 live by (simp add: demo_run_def announced_def keep)
qed

lemma demo_run_reach: "stream_reach hd (\<lambda>_. False) hd demo_run"
  using announced_reach_stream demo_run_announced by blast

text \<open>One poll and pop of a run whose buffer has a chunk ready.\<close>

definition pop_run ::
  "('i list \<Rightarrow> 'i) \<Rightarrow> ('i \<Rightarrow> bool) \<Rightarrow> ('i list \<Rightarrow> 'i) \<Rightarrow> 'i stream_run \<Rightarrow> 'i stream_run" where
  "pop_run join is_tensor stack r = (let s = snd (projr (has_chunk_ready join None (run_buf r)));
       cs = projr (pop_chunk join is_tensor stack s) in
     r\<lparr>run_buf := snd cs, run_released := run_released r @ sc_released (fst cs),
       run_new := run_new r @ drop (nat (sc_context_items (fst cs)))
         (take (nat (sc_num_items (fst cs))) (sb_buffer s)), run_chunks := run_chunks r @ [fst cs]\<rparr>)"

lemma pop_run_step:
  assumes "stream_reach join is_tensor stack r" "fst (projr (has_chunk_ready join None (run_buf r)))"
  shows "stream_step join is_tensor stack r (pop_run join is_tensor stack r)"
proof -
  note ok = stream_reach_ok [OF assms(1)]
  obtain s where s: "has_chunk_ready join None (run_buf r) = Inr (chunk_ready None s, s)"
    "run_ok join (r\<lparr>run_buf := s\<rparr>)" "stuck s"
    by (rule has_chunk_ready_ok [OF ok]) (rule that)
  with assms(2) have ready: "chunk_ready None s" by simp
  then have "chunk_ready None (run_buf (r\<lparr>run_buf := s\<rparr>))" "stuck (run_buf (r\<lparr>run_buf := s\<rparr>))"
    using s(3) by simp_all
  then obtain c s' where c: "pop_chunk join is_tensor stack (run_buf (r\<lparr>run_buf := s\<rparr>)) = Inr (c, s')"
    by (rule pop_chunk_ok [OF s(2)]) (rule that)
  show ?thesis
    using step_pop [of join None r s is_tensor stack c s'] s(1) ready c by (simp add: pop_run_def)
qed

definition demo_popped :: "string stream_run" where
  "demo_popped = pop_run hd (\<lambda>_. False) hd demo_run"

definition demo_ended :: "string stream_run" where
  "demo_ended = pop_run hd (\<lambda>_. False) hd demo_popped"

lemma demo_popped_announced: "announced_reach hd (\<lambda>_. False) hd demo_popped"
proof -
  have ready: "fst (projr (has_chunk_ready hd None (run_buf demo_run)))" and said: "announced demo_run demo_popped" by code_simp+
  from pop_run_step [OF demo_run_reach ready] have "stream_step hd (\<lambda>_. False) hd demo_run demo_popped" by (simp add: demo_popped_def)
  from announced_next [OF demo_run_announced this said] show ?thesis .
qed

lemma demo_popped_reach: "stream_reach hd (\<lambda>_. False) hd demo_popped"
  using announced_reach_stream demo_popped_announced by blast

lemma demo_ended_announced: "announced_reach hd (\<lambda>_. False) hd demo_ended"
proof -
  have ready: "fst (projr (has_chunk_ready hd None (run_buf demo_popped)))" and said: "announced demo_popped demo_ended" by code_simp+
  from pop_run_step [OF demo_popped_reach ready] have "stream_step hd (\<lambda>_. False) hd demo_popped demo_ended" by (simp add: demo_ended_def)
  from announced_next [OF demo_popped_announced this said] show ?thesis .
qed

lemma demo_ended_reach: "stream_reach hd (\<lambda>_. False) hd demo_ended"
  using announced_reach_stream demo_ended_announced by blast

section \<open>Delivery\<close>

text \<open>
  C11. Whatever order items arrive in and whenever the worker polls, the items released
  and buffered are the first registered items in registration order (joined from their pieces
  where a chunked producer sent several), and the new items handed over, context left out, are
  exactly those up to \<open>_delivered_end\<close>, after the primed lead, each once.
\<close>

theorem stream_in_order:
  assumes "stream_reach join is_tensor stack r"
  shows "\<exists>read. (\<exists>k \<le> length (run_entries r).
      read = map (\<lambda>e. item_of join (run_arrived r) (fst e)) (take k (run_entries r))) \<and>
    run_released r @ sb_buffer (run_buf r) = read \<and>
    run_new r = drop (nat (run_lead r)) (take (nat (sb_delivered_end (run_buf r))) read) \<and>
    int (length (run_released r)) \<le> sb_delivered_end (run_buf r)"
proof -
  note R = run_okD [OF stream_reach_ok [OF assms]]
  let ?k = "length (run_released r) + length (sb_buffer (run_buf r))"
  have "?k \<le> length (run_entries r)" "run_released r @ sb_buffer (run_buf r) =
      map (\<lambda>e. item_of join (run_arrived r) (fst e)) (take ?k (run_entries r))"
    using R(3) by (simp_all add: read_ok_def Let_def)
  moreover have "run_new r = drop (nat (run_lead r)) (take (nat (sb_delivered_end (run_buf r)))
      (run_released r @ sb_buffer (run_buf r)))" "int (length (run_released r)) \<le> sb_delivered_end (run_buf r)"
    using R(5) unfolding delivered_ok_def by auto
  ultimately show ?thesis by (intro exI [of _ "run_released r @ sb_buffer (run_buf r)"]) blast
qed

theorem stream_in_order_witness:
  "run_released demo_popped @ sb_buffer (run_buf demo_popped) = [''a'', ''b'', ''c''] \<and>
    run_new demo_popped = [''a'', ''b'']"
proof -
  have "sb_buffer (run_buf demo_popped) = [''b'', ''c'']" "run_released demo_popped = [''a'']"
    "sb_delivered_end (run_buf demo_popped) = 2" "run_lead demo_popped = 0" by code_simp+
  with stream_in_order [OF demo_popped_reach] show ?thesis by auto
qed

text \<open>
  C12. Nothing is lost, repeated or altered on the way to the consumer. Once everything the
  producer announced has been read and the buffer is empty: the data of every chunk popped is
  exactly the registered items its \<open>start_offset\<close> and \<open>num_items\<close> name, in order (one tensor, their
  stack, or the handles); leaving out each chunk's context items, the chunks one after the other hold
  every registered item after the primed lead exactly once; and what they released is every
  registered item exactly once.
\<close>

theorem stream_complete:
  assumes "stream_reach join is_tensor stack r" "all_read (run_buf r)" "sb_buffer (run_buf r) = []"
  defines "items \<equiv> map (\<lambda>e. item_of join (run_arrived r) (fst e)) (run_entries r)"
  shows "(\<forall>c \<in> set (run_chunks r). 0 \<le> sc_start_offset c \<and> 0 \<le> sc_num_items c \<and>
      sc_start_offset c + sc_num_items c \<le> int (length items) \<and>
      carries is_tensor stack (chunk_items items c) (sc_data c)) \<and>
    concat (map (\<lambda>c. drop (nat (sc_context_items c)) (chunk_items items c)) (run_chunks r)) = drop (nat (run_lead r)) items \<and>
    concat (map sc_released (run_chunks r)) = items"
proof -
  note R = run_okD [OF stream_reach_ok [OF assms(1)]]
  have all: "run_released r = items" "length (run_released r) = length (run_entries r)"
    using R(1,3) all_read_ids [OF R(1,3) assms(2)] assms(3)
    by (simp_all add: read_ok_def Let_def items_def)
  have "run_new r = drop (nat (run_lead r)) (take (nat (sb_delivered_end (run_buf r))) (run_released r))"
    "int (length (run_released r)) \<le> sb_delivered_end (run_buf r)"
    using R(5) assms(3) unfolding delivered_ok_def by auto
  then have new: "run_new r = drop (nat (run_lead r)) items" using all by simp
  have "chunks_ok is_tensor stack r" using reach_chunks [OF assms(1)] .
  then show ?thesis using assms(3) all(1) new
    unfolding chunks_ok_def Let_def new_of_def released_of_def in_stream_def by auto
qed

theorem stream_complete_witness:
  "map sc_data (run_chunks demo_ended) = [Handles [''a'', ''b''], Handles [''b'', ''c'']] \<and>
    concat (map (\<lambda>c. drop (nat (sc_context_items c)) (case sc_data c of Handles xs \<Rightarrow> xs | _ \<Rightarrow> [])) (run_chunks demo_ended)) =
      [''a'', ''b'', ''c''] \<and>
    concat (map sc_released (run_chunks demo_ended)) = [''a'', ''b'', ''c'']"
proof -
  have "all_read (run_buf demo_ended)" "sb_buffer (run_buf demo_ended) = []"
    "map (\<lambda>e. item_of hd (run_arrived demo_ended) (fst e)) (run_entries demo_ended) = [''a'', ''b'', ''c'']"
    "map sc_data (run_chunks demo_ended) = [Handles [''a'', ''b''], Handles [''b'', ''c'']]"
    "concat (map (\<lambda>c. drop (nat (sc_context_items c)) (case sc_data c of Handles xs \<Rightarrow> xs | _ \<Rightarrow> [])) (run_chunks demo_ended)) =
      [''a'', ''b'', ''c'']"
    by code_simp+
  with stream_complete [OF demo_ended_reach] show ?thesis by simp
qed

text \<open>
  C13. On a connection that drives its consumer's walk, a chunk never spans two walks: all
  the items a popped chunk carries were registered under the same walk.
\<close>

theorem chunk_of_one_walk:
  assumes "stream_reach join is_tensor stack r" "sb_walk_tagged (run_buf r)"
    and "has_chunk_ready join walk (run_buf r) = Inr (True, s)"
    and "pop_chunk join is_tensor stack s = Inr (c, s')"
  shows "\<exists>w. \<forall>i < nat (sc_num_items c). snd (run_entries r ! (length (run_released r) + i)) = w"
proof -
  obtain t where t: "has_chunk_ready join walk (run_buf r) = Inr (chunk_ready walk t, t)"
    "run_ok join (r\<lparr>run_buf := t\<rparr>)" "stuck t" "sb_walk_tagged t = sb_walk_tagged (run_buf r)"
    by (rule has_chunk_ready_ok [OF stream_reach_ok [OF assms(1)]]) (rule that)
  then have ts: "t = s" "chunk_ready walk (run_buf (r\<lparr>run_buf := t\<rparr>))" "stuck (run_buf (r\<lparr>run_buf := t\<rparr>))"
    using assms(3) by auto
  obtain d s'' m n where d: "pop_chunk join is_tensor stack (run_buf (r\<lparr>run_buf := t\<rparr>)) = Inr (d, s'')"
    "int m \<le> walk_run_len (run_buf (r\<lparr>run_buf := t\<rparr>))" "sc_num_items d = int m"
    by (rule pop_chunk_ok [OF t(2) ts(2,3)]) (rule that)
  with assms(4) ts(1) have c: "sc_num_items c = int m" "int m \<le> walk_run_len s" by simp_all
  note R = run_okD [OF t(2)]
  from R(3,4) t(4) assms(2) ts(1) have w: "expand (sb_walk_runs s) = drop (length (run_released r))
      (map snd (take (length (run_released r) + length (sb_buffer s)) (run_entries r)))"
    and k: "length (run_released r) + length (sb_buffer s) \<le> length (run_entries r)"
    by (simp_all add: walks_ok_def read_ok_def Let_def)
  show ?thesis
  proof (cases "sb_walk_runs s")
    case Nil
    with w k have "sb_buffer s = []" by simp
    with Nil c show ?thesis by (simp add: walk_run_len_def)
  next
    case (Cons x xs)
    obtain v k' where x: "x = (v, k')" by (cases x)
    have "snd (run_entries r ! (length (run_released r) + i)) = v" if i: "i < m" for i
    proof -
      have "i < nat k'" using i c(2) Cons x by (simp add: walk_run_len_def)
      then have "expand (sb_walk_runs s) ! i = v" "i < length (expand (sb_walk_runs s))"
        using Cons x by (simp_all add: nth_append)
      with w k show ?thesis by simp
    qed
    with c(1) show ?thesis by auto
  qed
qed

theorem chunk_of_one_walk_witness:
  "\<exists>c s s' w. has_chunk_ready hd None (run_buf demo_run) = Inr (True, s) \<and>
    pop_chunk hd (\<lambda>_. False) hd s = Inr (c, s') \<and> sc_num_items c = 2 \<and>
    (\<forall>i < 2. snd (run_entries demo_run ! i) = w)"
proof -
  let ?h = "has_chunk_ready hd None (run_buf demo_run)"
  let ?p = "pop_chunk hd (\<lambda>_. False) hd (snd (projr ?h))"
  have hk: "is_ok ?h" and pk: "is_ok ?p" by code_simp+
  note h = ok_pair [OF hk] and p = ok_pair [OF pk]
  have v: "fst (projr ?h) = True" "sc_num_items (fst (projr ?p)) = 2" "sb_walk_tagged (run_buf demo_run) = True"
    "run_released demo_run = []" by code_simp+
  obtain w where "\<forall>i < nat (sc_num_items (fst (projr ?p))).
      snd (run_entries demo_run ! (length (run_released demo_run) + i)) = w"
    using chunk_of_one_walk [OF demo_run_reach _ h [unfolded v(1)] p] v(3) by auto
  with h p v show ?thesis by (intro exI [of _ "fst (projr ?p)"] exI [of _ "snd (projr ?h)"]
        exI [of _ "snd (projr ?p)"] exI [of _ w]) simp
qed

section \<open>The end of a stream\<close>

text \<open>
  C14. A stream ends once. Where the producer keeps to the total it announced, one final chunk at
  most has been popped, and none unless the buffer says so. When there is one, it is the
  last chunk, every registered item has been released, and no chunk is ever ready for any walk. While
  there is none and everything is read, a chunk is ready, and popping it gives the final chunk unless
  items stay buffered. Only a policy that outlives its producer never has a final chunk.
\<close>

theorem final_chunk_once:
  assumes "announced_reach join is_tensor stack r"
  shows "length (filter sc_is_final (run_chunks r)) = (if sb_final_emitted (run_buf r) then 1 else 0) \<and>
    (continue_after_producer_done (sb_policy (run_buf r)) \<longrightarrow> \<not> sb_final_emitted (run_buf r)) \<and>
    (sb_final_emitted (run_buf r) \<longrightarrow>
      run_chunks r \<noteq> [] \<and> sc_is_final (last (run_chunks r)) \<and>
      concat (map sc_released (run_chunks r)) = map (\<lambda>e. item_of join (run_arrived r) (fst e)) (run_entries r) \<and>
      (\<forall>walk. has_chunk_ready join walk (run_buf r) = Inr (False, run_buf r))) \<and>
    (\<not> sb_final_emitted (run_buf r) \<and> \<not> continue_after_producer_done (sb_policy (run_buf r)) \<longrightarrow>
      (\<forall>walk b s. has_chunk_ready join walk (run_buf r) = Inr (b, s) \<and> all_read s \<longrightarrow>
        b \<and> (\<exists>c s'. pop_chunk join is_tensor stack s = Inr (c, s') \<and> (sc_is_final c \<or> sb_buffer s' \<noteq> []))))"
proof (intro conjI impI allI)
  note reach = announced_reach_stream [OF assms] and e = reach_ended [OF assms]
  note ok = stream_reach_ok [OF reach]
  note R = run_okD [OF ok]
  show "length (filter sc_is_final (run_chunks r)) = (if sb_final_emitted (run_buf r) then 1 else 0)"
    using e by (simp add: ended_ok_def finals_def)
  show "\<not> sb_final_emitted (run_buf r)" if "continue_after_producer_done (sb_policy (run_buf r))"
    using e that by (auto simp: ended_ok_def ended_def)
  assume em: "sb_final_emitted (run_buf r)"
  then have en: "ended (run_buf r)" using e by (simp add: ended_ok_def)
  show "run_chunks r \<noteq> []" "sc_is_final (last (run_chunks r))" using e em by (simp_all add: ended_ok_def)
  show "has_chunk_ready join walk (run_buf r) = Inr (False, run_buf r)" for walk
    by (rule nothing_ready [OF ok en em])
  have "run_released r = map (\<lambda>e. item_of join (run_arrived r) (fst e)) (run_entries r)"
    using R(1,3) all_read_ids [OF R(1,3)] en by (simp add: read_ok_def Let_def ended_def)
  then show "concat (map sc_released (run_chunks r)) = map (\<lambda>e. item_of join (run_arrived r) (fst e)) (run_entries r)"
    using reach_chunks [OF reach] unfolding chunks_ok_def Let_def released_of_def by simp
next
  fix walk b s
  assume none: "\<not> sb_final_emitted (run_buf r) \<and> \<not> continue_after_producer_done (sb_policy (run_buf r))"
    and poll: "has_chunk_ready join walk (run_buf r) = Inr (b, s) \<and> all_read s"
  obtain t where t: "has_chunk_ready join walk (run_buf r) = Inr (chunk_ready walk t, t)" "run_ok join (r\<lparr>run_buf := t\<rparr>)"
    "stuck t" "same_feed (run_buf r) t"
    by (rule has_chunk_ready_ok [OF stream_reach_ok [OF announced_reach_stream [OF assms]]]) (rule that)
  then have st: "t = s" "b = chunk_ready walk s" using poll by simp_all
  moreover have left: "\<not> sb_final_emitted s" "\<not> continue_after_producer_done (sb_policy s)" "all_read s"
    using none poll t(4) st(1) by (simp_all add: same_feed_def)
  ultimately show b by (simp add: chunk_ready_def)
  then have ready: "chunk_ready walk (run_buf (r\<lparr>run_buf := t\<rparr>))" "stuck (run_buf (r\<lparr>run_buf := t\<rparr>))" using st t(3) by simp_all
  obtain c s' m n where "pop_chunk join is_tensor stack (run_buf (r\<lparr>run_buf := t\<rparr>)) = Inr (c, s')"
    "s' = after_pop m n (run_buf (r\<lparr>run_buf := t\<rparr>))"
    "sc_is_final c = (all_read (run_buf (r\<lparr>run_buf := t\<rparr>)) \<and> drop n (sb_buffer (run_buf (r\<lparr>run_buf := t\<rparr>))) = [] \<and>
       \<not> continue_after_producer_done (sb_policy (run_buf (r\<lparr>run_buf := t\<rparr>))))"
    by (rule pop_chunk_ok [OF t(2) ready]) (rule that)
  then show "\<exists>c s'. pop_chunk join is_tensor stack s = Inr (c, s') \<and> (sc_is_final c \<or> sb_buffer s' \<noteq> [])"
    using left st(1) by auto
qed

theorem final_chunk_once_witness:
  "map sc_is_final (run_chunks demo_ended) = [False, True] \<and>
    has_chunk_ready hd (Some ''talk'') (run_buf demo_ended) = Inr (False, run_buf demo_ended) \<and>
    concat (map sc_released (run_chunks demo_ended)) = [''a'', ''b'', ''c'']"
proof -
  have "sb_final_emitted (run_buf demo_ended)" "map sc_is_final (run_chunks demo_ended) = [False, True]"
    "map (\<lambda>e. item_of hd (run_arrived demo_ended) (fst e)) (run_entries demo_ended) = [''a'', ''b'', ''c'']"
    by code_simp+
  with final_chunk_once [OF demo_ended_announced] show ?thesis by simp
qed

end
