(* ===== verification/Stream_Topology.thy ===== *)
theory Stream_Topology imports Chunk_Policy begin

text \<open>
  How a model's computation is split into partitions joined by streams,
  \<open>mstar/streaming/topology.py\<close>: the checks of \<open>PartitionTopology\<close>, the partitions whose walk
  a producer drives, and the consumer of a client's stream. A \<open>consumer_walk\<close> hook is known by
  its identity (the code compares hooks with \<open>is\<close>); a chunk policy factory by the policy it
  makes; a client stream's \<open>item_size\<close> by its identity too.
\<close>

section \<open>Connections\<close>

definition client :: string where
  "client = ''client''"

record client_stream_limits =
  max_items :: "int option"
  item_size :: "nat option"
  lim_unit :: string

definition no_limits :: client_stream_limits where
  "no_limits = \<lparr>max_items = None, item_size = None, lim_unit = ''items''\<rparr>"

record connection =
  from_partition :: string
  to_partition :: string
  edge_name :: string
  made_policy :: policy
  conn_limits :: "client_stream_limits option"
  join_dim :: "int option"
  consumer_walk :: "nat option"

record topology =
  partitions :: "string list"
  connections :: "connection list"

definition check_connection :: "connection \<Rightarrow> unit res" where
  "check_connection c =
     (if to_partition c = client then Inl ValueError
      else if conn_limits c \<noteq> None \<and> from_partition c \<noteq> client then Inl ValueError
      else if consumer_walk c \<noteq> None \<and> from_partition c = client then Inl ValueError
      else Inr ())"

definition new_topology :: "string list \<Rightarrow> connection list \<Rightarrow> topology res" where
  "new_topology ps cs = (if client \<in> set ps then Inl ValueError
     else rbind (rfold (\<lambda>c _. check_connection c) cs ()) (\<lambda>_. Inr \<lparr>partitions = ps, connections = cs\<rparr>))"

definition client_connections :: "topology \<Rightarrow> connection list" where
  "client_connections t = filter (\<lambda>c. from_partition c = client) (connections t)"

definition producer_triggered_partitions :: "topology \<Rightarrow> string set" where
  "producer_triggered_partitions t = set (map to_partition (filter (\<lambda>c. consumer_walk c \<noteq> None) (connections t)))"

text \<open>A dict comprehension: a later connection into the same partition replaces an earlier one.\<close>

definition walk_drivers :: "topology \<Rightarrow> (string, connection) dict" where
  "walk_drivers t = fold (\<lambda>c d. if consumer_walk c \<noteq> None then dict_set (to_partition c) c d else d)
     (connections t) []"

definition is_fixed :: "policy \<Rightarrow> bool" where
  "is_fixed p = (case kind p of Fixed_Chunk _ _ _ \<Rightarrow> True | _ \<Rightarrow> False)"

definition check_driven :: "(string, connection) dict \<Rightarrow> connection \<Rightarrow> unit res" where
  "check_driven drivers c = (case map_of drivers (to_partition c) of None \<Rightarrow> Inr ()
     | Some d \<Rightarrow>
        if from_partition c \<noteq> from_partition d \<or> consumer_walk c \<noteq> consumer_walk d then Inl ValueError
        else if \<not> is_fixed (made_policy c) then Inl ValueError else Inr ())"

definition check_walk_driving_connections :: "topology \<Rightarrow> unit res" where
  "check_walk_driving_connections t = rfold (\<lambda>c _. check_driven (walk_drivers t) c) (connections t) ()"

section \<open>Client streams\<close>

text \<open>The serving config's overrides, per edge: a new \<open>max_items\<close> (null lifts the bound).\<close>

definition client_stream_limits_of ::
  "topology \<Rightarrow> (string, int option) dict \<Rightarrow> (string, client_stream_limits) dict" where
  "client_stream_limits_of t overrides = fold (\<lambda>c d.
     let base = (case conn_limits c of None \<Rightarrow> no_limits | Some l \<Rightarrow> l) in
     dict_set (edge_name c) (case map_of overrides (edge_name c) of None \<Rightarrow> base
       | Some m \<Rightarrow> base\<lparr>max_items := m\<rparr>) d) (client_connections t) []"

record client_stream =
  cs_node :: string
  cs_walk :: string
  cs_partition :: string

text \<open>Python's order on strings, by code point, and \<open>max\<close> of a non-empty list.\<close>

fun str_le :: "string \<Rightarrow> string \<Rightarrow> bool" where
  "str_le [] _ = True"
| "str_le (_ # _) [] = False"
| "str_le (a # as) (b # bs) = (if a = b then str_le as bs else (of_char a :: nat) < of_char b)"

fun str_max :: "string \<Rightarrow> string list \<Rightarrow> string" where
  "str_max m [] = m"
| "str_max m (x # xs) = str_max (if str_le x m then m else x) xs"

text \<open>
  The model's walks, each as its nodes with their input names; and its partitions, each with
  its walks. A walk a partition lists but the model lacks is a \<open>KeyError\<close>.
\<close>

type_synonym walk_nodes = "(string, (string \<times> string set) list) dict"

definition consumers :: "string \<Rightarrow> walk_nodes \<Rightarrow> string list" where
  "consumers edge walks = remdups (map fst (filter (\<lambda>n. edge \<in> snd n) (concat (map snd walks))))"

fun walks_of_consumers :: "string list \<Rightarrow> walk_nodes \<Rightarrow> string list \<Rightarrow> string list res" where
  "walks_of_consumers cs walks [] = Inr []"
| "walks_of_consumers cs walks (w # ws) = (case map_of walks w of None \<Rightarrow> Inl KeyError
     | Some nodes \<Rightarrow> rbind (walks_of_consumers cs walks ws) (\<lambda>r.
         Inr (if \<exists>n \<in> set nodes. fst n \<in> set cs then w # r else r)))"

definition find_client_stream ::
  "connection \<Rightarrow> walk_nodes \<Rightarrow> (string, string list) dict \<Rightarrow> client_stream res" where
  "find_client_stream c walks parts = (case map_of parts (to_partition c) of
     None \<Rightarrow> Inl ValueError
   | Some pwalks \<Rightarrow> (let cs = consumers (edge_name c) walks in
       rbind (walks_of_consumers cs walks pwalks) (\<lambda>in_partition.
         case cs of [node] \<Rightarrow> (case in_partition of [] \<Rightarrow> Inl ValueError
             | w # ws \<Rightarrow> Inr \<lparr>cs_node = node, cs_walk = str_max w ws, cs_partition = to_partition c\<rparr>)
         | _ \<Rightarrow> Inl ValueError)))"

fun find_all :: "connection list \<Rightarrow> walk_nodes \<Rightarrow> (string, string list) dict \<Rightarrow>
    (string, client_stream) dict \<Rightarrow> (string, client_stream) dict res" where
  "find_all [] walks parts d = Inr d"
| "find_all (c # cs) walks parts d = rbind (find_client_stream c walks parts) (\<lambda>s.
     find_all cs walks parts (dict_set (edge_name c) s d))"

definition find_client_streams ::
  "topology \<Rightarrow> walk_nodes \<Rightarrow> (string, string list) dict \<Rightarrow> (string, client_stream) dict res" where
  "find_client_streams t walks parts = find_all (client_connections t) walks parts []"

section \<open>Facts\<close>

lemma rfold_unit: "rfold (\<lambda>c _. f c) cs u = Inr v \<Longrightarrow> c \<in> set cs \<Longrightarrow> f c = Inr (v' :: unit)"
proof (induction cs arbitrary: u)
  case (Cons x cs)
  then show ?case by (cases "c = x") auto
qed simp

lemma fold_drivers:
  "map_of (fold (\<lambda>c d. if consumer_walk c \<noteq> None then dict_set (to_partition c) c d else d) cs d) p =
    (case filter (\<lambda>c. consumer_walk c \<noteq> None \<and> to_partition c = p) (rev cs) of [] \<Rightarrow> map_of d p | c # _ \<Rightarrow> Some c)"
  by (induction cs rule: rev_induct) auto

lemma walk_drivers_at:
  "map_of (walk_drivers t) p =
    (case filter (\<lambda>c. consumer_walk c \<noteq> None \<and> to_partition c = p) (rev (connections t)) of
       [] \<Rightarrow> None | c # _ \<Rightarrow> Some c)"
  unfolding walk_drivers_def fold_drivers by (simp split: list.splits)

lemma walk_drivers_sound:
  assumes "map_of (walk_drivers t) p = Some c"
  shows "c \<in> set (connections t)" "to_partition c = p" "consumer_walk c \<noteq> None"
proof -
  let ?l = "filter (\<lambda>c. consumer_walk c \<noteq> None \<and> to_partition c = p) (rev (connections t))"
  from assms have "\<exists>cs. ?l = c # cs" unfolding walk_drivers_at by (cases ?l) (simp_all del: not_None_eq)
  then have "c \<in> set ?l" by (metis list.set_intros(1))
  then have "c \<in> set (connections t) \<and> to_partition c = p \<and> consumer_walk c \<noteq> None" by simp
  then show "c \<in> set (connections t)" "to_partition c = p" "consumer_walk c \<noteq> None" by blast+
qed

lemma walk_drivers_complete:
  assumes "c \<in> set (connections t)" "consumer_walk c \<noteq> None"
  shows "\<exists>d. map_of (walk_drivers t) (to_partition c) = Some d"
proof -
  let ?l = "filter (\<lambda>d. consumer_walk d \<noteq> None \<and> to_partition d = to_partition c) (rev (connections t))"
  have "c \<in> set ?l" using assms by simp
  then have "?l \<noteq> []" by (metis empty_iff empty_set)
  then obtain d ds where "?l = d # ds" using list.exhaust by blast
  then show ?thesis unfolding walk_drivers_at by (simp del: not_None_eq)
qed

lemma check_walk_driving_ok:
  assumes "check_walk_driving_connections t = Inr ()" "c \<in> set (connections t)"
    and "to_partition c \<in> producer_triggered_partitions t"
  obtains d where "map_of (walk_drivers t) (to_partition c) = Some d"
    "from_partition c = from_partition d" "consumer_walk c = consumer_walk d" "is_fixed (made_policy c)"
proof -
  from assms(3) obtain e where "e \<in> set (connections t)" "consumer_walk e \<noteq> None" "to_partition e = to_partition c"
    by (auto simp: producer_triggered_partitions_def)
  with walk_drivers_complete [of e t] obtain d where d: "map_of (walk_drivers t) (to_partition c) = Some d" by auto
  have "check_driven (walk_drivers t) c = Inr ()"
    using assms(1,2) unfolding check_walk_driving_connections_def by (rule rfold_unit)
  with d that show ?thesis by (simp add: check_driven_def split: if_splits)
qed


section \<open>One authority over a driven walk\<close>

text \<open>
  C15. In a topology whose checks pass, a producer-triggered partition has one authority over
  its walk: any two connections into it come from the same producer, which is not the client,
  and share the hook that picks the walk; and on none of them do two chunks overlap, since each
  policy advances by exactly the window it hands out.
\<close>

theorem one_walk_authority:
  assumes t: "new_topology ps cs = Inr t" "check_walk_driving_connections t = Inr ()"
    and c: "c \<in> set (connections t)" "d \<in> set (connections t)" "to_partition d = to_partition c"
      "to_partition c \<in> producer_triggered_partitions t"
  shows "from_partition c = from_partition d \<and> from_partition c \<noteq> client \<and>
    consumer_walk c = consumer_walk d \<and> consumer_walk c \<noteq> None \<and>
    window_size (made_policy c) = next_chunk_size (made_policy c)"
proof -
  obtain e where e: "map_of (walk_drivers t) (to_partition c) = Some e" "from_partition c = from_partition e"
    "consumer_walk c = consumer_walk e" "is_fixed (made_policy c)"
    by (rule check_walk_driving_ok [OF t(2) c(1,4)]) (rule that)
  obtain e' where e': "map_of (walk_drivers t) (to_partition d) = Some e'" "from_partition d = from_partition e'"
    "consumer_walk d = consumer_walk e'"
    by (rule check_walk_driving_ok [OF t(2) c(2)]) (use c(3,4) in simp, rule that)
  have same: "e' = e" using e(1) e'(1) c(3) by simp
  note walk = walk_drivers_sound(3) [OF e(1)]
  have "check_connection c = Inr ()" using t(1) c(1)
    by (auto simp: new_topology_def split: if_splits intro: rfold_unit)
  then have "from_partition c \<noteq> client" using walk e(3) by (auto simp: check_connection_def split: if_splits)
  moreover have "window_size (made_policy c) = next_chunk_size (made_policy c)"
    using e(4) by (auto simp: is_fixed_def window_size_def next_chunk_size_def split: policy_kind.splits)
  ultimately show ?thesis using e(2,3) e'(2,3) same walk by simp
qed

definition demo_fixed :: policy where
  "demo_fixed = \<lparr>kind = Fixed_Chunk 1 (Continue_Bool False) False, first_chunk_read = False,
     items_consumed = 0, ramp_size = 0, popped_count = 0, delivered = 0\<rparr>"

definition demo_connection :: "string \<Rightarrow> connection" where
  "demo_connection e = \<lparr>from_partition = ''thinker'', to_partition = ''talker'', edge_name = e,
     made_policy = demo_fixed, conn_limits = None, join_dim = None, consumer_walk = Some 0\<rparr>"

theorem one_walk_authority_witness:
  "from_partition (demo_connection ''a'') = from_partition (demo_connection ''b'') \<and>
    from_partition (demo_connection ''a'') \<noteq> client"
proof -
  let ?cs = "[demo_connection ''a'', demo_connection ''b'']"
  let ?t = "\<lparr>partitions = [''thinker'', ''talker''], connections = ?cs\<rparr>"
  have "new_topology [''thinker'', ''talker''] ?cs = Inr ?t"
    by (simp add: new_topology_def check_connection_def demo_connection_def client_def)
  moreover have "check_walk_driving_connections ?t = Inr ()"
    by (simp add: check_walk_driving_connections_def check_driven_def walk_drivers_def
        demo_connection_def demo_fixed_def is_fixed_def)
  moreover have "demo_connection ''a'' \<in> set (connections ?t)" "demo_connection ''b'' \<in> set (connections ?t)"
    "to_partition (demo_connection ''b'') = to_partition (demo_connection ''a'')"
    "to_partition (demo_connection ''a'') \<in> producer_triggered_partitions ?t"
    by (simp_all add: demo_connection_def producer_triggered_partitions_def)
  ultimately show ?thesis by (blast dest: one_walk_authority)
qed

end
