(* ===== verification/Tensor_Store.thy ===== *)
theory Tensor_Store imports Tensor_Book begin

text \<open>
  \<open>TensorStore\<close> (\<open>mstar/communication/tensor_store.py\<close>) over the Python bookkeeper: the
  tensors, the host copies a send may read, which request owns each uuid, and the uuids a
  batched dereference has already forgotten; and the request teardown of
  \<open>TensorManager.cleanup_request\<close> (\<open>mstar/communication/tensors.py\<close>) as far as it is about the
  store. A tensor is a type variable, and so is a request id. The tensors are a dict in
  insertion order only where the order shows (nowhere), so the maps are partial functions and
  the owned sets finite sets in insertion order (\<open>get_all_uuids\<close> lists one).
\<close>

section \<open>The store\<close>

record ('t, 'r, 'd) tensor_store =
  ts_book :: "'d bookkeeper"
  ts_tensors :: "nat \<rightharpoonup> 't"
  ts_cpu :: "nat \<rightharpoonup> 't"
  ts_owned :: "'r \<rightharpoonup> nat list"
  ts_owner :: "nat \<rightharpoonup> 'r"
  ts_forgotten :: "nat set"

definition new_tensor_store :: "('t, 'r, 'd) tensor_store" where
  "new_tensor_store = \<lparr>ts_book = new_bookkeeper, ts_tensors = (\<lambda>_. None), ts_cpu = (\<lambda>_. None),
     ts_owned = (\<lambda>_. None), ts_owner = (\<lambda>_. None), ts_forgotten = {}\<rparr>"

definition get_tensor :: "nat \<Rightarrow> ('t, 'r, 'd) tensor_store \<Rightarrow> 't res" where
  "get_tensor uuid s = (case ts_tensors s uuid of None \<Rightarrow> Inl KeyError | Some t \<Rightarrow> Inr t)"

definition get_tensors :: "nat list \<Rightarrow> ('t, 'r, 'd) tensor_store \<Rightarrow> 't option list" where
  "get_tensors uuids s = map (ts_tensors s) uuids"

definition get_cpu_tensor :: "nat \<Rightarrow> ('t, 'r, 'd) tensor_store \<Rightarrow> 't option" where
  "get_cpu_tensor uuid s = ts_cpu s uuid"

definition drop_cpu_tensors :: "('t, 'r, 'd) tensor_store \<Rightarrow> ('t, 'r, 'd) tensor_store" where
  "drop_cpu_tensors s = s\<lparr>ts_cpu := (\<lambda>_. None)\<rparr>"

text \<open>\<open>setdefault(request_id, set()).add(uuid)\<close>.\<close>

definition own_add :: "'r \<Rightarrow> nat \<Rightarrow> ('r \<rightharpoonup> nat list) \<Rightarrow> ('r \<rightharpoonup> nat list)" where
  "own_add rid uuid owned = owned(rid \<mapsto> (let us = (case owned rid of None \<Rightarrow> [] | Some us \<Rightarrow> us) in
     if uuid \<in> set us then us else us @ [uuid]))"

definition put_tensor ::
  "'r \<Rightarrow> nat \<Rightarrow> 't \<Rightarrow> 'd tensor_info \<Rightarrow> 't option \<Rightarrow> ('t, 'r, 'd) tensor_store \<Rightarrow> ('t, 'r, 'd) tensor_store" where
  "put_tensor rid uuid tensor info cpu s = s\<lparr>
     ts_tensors := (ts_tensors s)(uuid \<mapsto> tensor),
     ts_cpu := (case cpu of None \<Rightarrow> ts_cpu s | Some c \<Rightarrow> (ts_cpu s)(uuid \<mapsto> c)),
     ts_owned := own_add rid uuid (ts_owned s),
     ts_owner := (ts_owner s)(uuid \<mapsto> rid),
     ts_book := bk_put_tensor uuid info (ts_book s)\<rparr>"

definition own ::
  "'r list \<Rightarrow> nat list \<Rightarrow> 't list \<Rightarrow> 't option list option \<Rightarrow> ('t, 'r, 'd) tensor_store \<Rightarrow> ('t, 'r, 'd) tensor_store res" where
  "own rids uuids tensors cpus s =
     (if length rids \<noteq> length uuids \<or> length uuids \<noteq> length tensors then Inl ValueError
      else let s = s\<lparr>ts_tensors := ts_tensors s ++ map_of (rev (zip uuids tensors)),
          ts_owner := ts_owner s ++ map_of (rev (zip uuids rids)),
          ts_owned := fold (\<lambda>(r, u). own_add r u) (zip rids uuids) (ts_owned s)\<rparr> in
        case cpus of None \<Rightarrow> Inr s
        | Some cs \<Rightarrow> rbind (zip_strict uuids cs) (\<lambda>ps. Inr (s\<lparr>ts_cpu :=
            fold (\<lambda>(u, c) m. case c of None \<Rightarrow> m | Some t \<Rightarrow> m(u \<mapsto> t)) ps (ts_cpu s)\<rparr>)))"

definition put_tensor_batch_multi ::
  "'r list \<Rightarrow> nat list \<Rightarrow> 't list \<Rightarrow> 'd tensor_info list \<Rightarrow> 't option list option
    \<Rightarrow> ('t, 'r, 'd) tensor_store \<Rightarrow> ('t, 'r, 'd) tensor_store res" where
  "put_tensor_batch_multi rids uuids tensors infos cpus s = rbind (own rids uuids tensors cpus s) (\<lambda>s.
     rbind (put_tensor_batch uuids infos (ts_book s)) (\<lambda>b. Inr (s\<lparr>ts_book := b\<rparr>)))"

definition check_uuid_presence :: "nat \<Rightarrow> ('t, 'r, 'd) tensor_store \<Rightarrow> bool" where
  "check_uuid_presence uuid s \<longleftrightarrow> ts_tensors s uuid \<noteq> None"

text \<open>\<open>discard\<close>, and the request's entry goes with its last uuid.\<close>

definition own_discard :: "'r \<Rightarrow> nat \<Rightarrow> ('r \<rightharpoonup> nat list) \<Rightarrow> ('r \<rightharpoonup> nat list)" where
  "own_discard rid uuid owned = (case owned rid of None \<Rightarrow> owned
     | Some us \<Rightarrow> (let us = removeAll uuid us in owned(rid := if us = [] then None else Some us)))"

definition remove_tensor :: "nat \<Rightarrow> ('t, 'r, 'd) tensor_store \<Rightarrow> ('t, 'r, 'd) tensor_store" where
  "remove_tensor uuid s = (let
     forgotten = uuid \<in> ts_forgotten s;
     s = s\<lparr>ts_forgotten := ts_forgotten s - {uuid}, ts_cpu := (ts_cpu s)(uuid := None)\<rparr>
   in case ts_tensors s uuid of None \<Rightarrow> s
     | Some _ \<Rightarrow> (let
         s = s\<lparr>ts_tensors := (ts_tensors s)(uuid := None)\<rparr>;
         s = (if \<not> forgotten then s\<lparr>ts_book := forget_tensor uuid (ts_book s)\<rparr> else s)
       in case ts_owner s uuid of None \<Rightarrow> s
         | Some rid \<Rightarrow> s\<lparr>ts_owner := (ts_owner s)(uuid := None), ts_owned := own_discard rid uuid (ts_owned s)\<rparr>))"

definition get_all_uuids :: "'r \<Rightarrow> ('t, 'r, 'd) tensor_store \<Rightarrow> nat list" where
  "get_all_uuids rid s = (case ts_owned s rid of None \<Rightarrow> [] | Some us \<Rightarrow> us)"

section \<open>Calls passed on to the bookkeeper\<close>

definition with_book :: "('d bookkeeper \<Rightarrow> 'd bookkeeper) \<Rightarrow> ('t, 'r, 'd) tensor_store \<Rightarrow> ('t, 'r, 'd) tensor_store" where
  "with_book f s = s\<lparr>ts_book := f (ts_book s)\<rparr>"

definition with_book_res ::
  "('d bookkeeper \<Rightarrow> 'd bookkeeper res) \<Rightarrow> ('t, 'r, 'd) tensor_store \<Rightarrow> ('t, 'r, 'd) tensor_store res" where
  "with_book_res f s = rbind (f (ts_book s)) (\<lambda>b. Inr (s\<lparr>ts_book := b\<rparr>))"

definition mark_forgotten :: "nat list \<Rightarrow> ('t, 'r, 'd) tensor_store \<Rightarrow> ('t, 'r, 'd) tensor_store" where
  "mark_forgotten uuids s = s\<lparr>ts_forgotten := ts_forgotten s \<union> set uuids\<rparr>"

definition collected :: "nat list \<times> bool list \<Rightarrow> bool \<Rightarrow> ('t, 'r, 'd) tensor_store \<Rightarrow>
    (nat list \<times> bool list) \<times> ('t, 'r, 'd) tensor_store" where
  "collected result cleanup s = (result, if cleanup then mark_forgotten (fst result) s else s)"

definition store_dereference_batch ::
  "nat list \<Rightarrow> int list \<Rightarrow> bool \<Rightarrow> ('t, 'r, 'd) tensor_store
    \<Rightarrow> ((nat list \<times> bool list) \<times> ('t, 'r, 'd) tensor_store) res" where
  "store_dereference_batch uuids counts cleanup s = rbind (dereference_batch uuids counts cleanup (ts_book s))
     (\<lambda>(result, b). Inr (collected result cleanup (s\<lparr>ts_book := b\<rparr>)))"

definition store_dereference_batch_uniform ::
  "nat list \<Rightarrow> int \<Rightarrow> bool \<Rightarrow> ('t, 'r, 'd) tensor_store
    \<Rightarrow> (nat list \<times> bool list) \<times> ('t, 'r, 'd) tensor_store" where
  "store_dereference_batch_uniform uuids n cleanup s = (let
     (result, b) = dereference_batch_uniform uuids n cleanup (ts_book s)
   in collected result cleanup (s\<lparr>ts_book := b\<rparr>))"

definition set_metadata :: "nat \<Rightarrow> bool option \<Rightarrow> bool option \<Rightarrow> ('t, 'r, 'd) tensor_store \<Rightarrow> ('t, 'r, 'd) tensor_store" where
  "set_metadata uuid p reg s = (let
     s = (case p of None \<Rightarrow> s | Some p \<Rightarrow> with_book (set_persist uuid p) s)
   in case reg of None \<Rightarrow> s | Some r \<Rightarrow> with_book (set_mem_registered uuid r) s)"

section \<open>Tearing a request down\<close>

text \<open>The loop of \<open>cleanup_request\<close> over a store that does not free in place: a uuid still
  referenced or persisted is deferred unless forced, every other one is removed.\<close>

fun cleanup_uuids :: "bool \<Rightarrow> nat list \<Rightarrow> ('t, 'r, 'd) tensor_store \<Rightarrow> nat list \<times> ('t, 'r, 'd) tensor_store" where
  "cleanup_uuids force [] s = ([], s)"
| "cleanup_uuids force (u # us) s =
     (if \<not> can_gc u (ts_book s) \<and> \<not> force
      then (let (deferred, s) = cleanup_uuids force us s in (u # deferred, s))
      else cleanup_uuids force us (remove_tensor u s))"

definition cleanup_request :: "'r \<Rightarrow> bool \<Rightarrow> ('t, 'r, 'd) tensor_store \<Rightarrow> nat list \<times> ('t, 'r, 'd) tensor_store" where
  "cleanup_request rid force s = cleanup_uuids force (get_all_uuids rid s) s"

section \<open>The manager's releases\<close>

text \<open>\<open>_cleanup_by_uuid\<close> ends in \<open>remove_tensor\<close> for every transport; what else it frees is
  the transport's.\<close>

definition cleanup_collectable :: "nat list \<Rightarrow> ('t, 'r, 'd) tensor_store \<Rightarrow> ('t, 'r, 'd) tensor_store" where
  "cleanup_collectable collectable s =
     (if collectable = [] then s else fold remove_tensor collectable (mark_forgotten collectable s))"

definition manager_set_persist :: "nat \<Rightarrow> bool \<Rightarrow> ('t, 'r, 'd) tensor_store \<Rightarrow> ('t, 'r, 'd) tensor_store" where
  "manager_set_persist uuid p s = (let s = set_metadata uuid (Some p) None s in
     if can_gc uuid (ts_book s) then remove_tensor uuid s else s)"

definition manager_dereference :: "nat \<Rightarrow> int \<Rightarrow> ('t, 'r, 'd) tensor_store \<Rightarrow> ('t, 'r, 'd) tensor_store" where
  "manager_dereference uuid n s = (let s = with_book (dereference uuid n) s in
     if can_gc uuid (ts_book s) then remove_tensor uuid s else s)"

definition manager_dereference_batch_uniform ::
  "nat list \<Rightarrow> int \<Rightarrow> ('t, 'r, 'd) tensor_store \<Rightarrow> ('t, 'r, 'd) tensor_store" where
  "manager_dereference_batch_uniform uuids n s = (let
     ((collectable, _), s) = store_dereference_batch_uniform uuids n True s
   in cleanup_collectable collectable s)"

definition manager_dereference_batch ::
  "nat list \<Rightarrow> int list \<Rightarrow> ('t, 'r, 'd) tensor_store \<Rightarrow> ('t, 'r, 'd) tensor_store res" where
  "manager_dereference_batch uuids counts s = rbind (store_dereference_batch uuids counts True s)
     (\<lambda>((collectable, _), s). Inr (cleanup_collectable collectable s))"

section \<open>Invariant\<close>

definition uuids_of :: "('r \<rightharpoonup> nat list) \<Rightarrow> 'r \<Rightarrow> nat list" where
  "uuids_of owned r = (case owned r of None \<Rightarrow> [] | Some us \<Rightarrow> us)"

text \<open>The two directions of ownership agree, and no request owns an empty set.\<close>

definition owners_ok :: "('r \<rightharpoonup> nat list) \<Rightarrow> (nat \<rightharpoonup> 'r) \<Rightarrow> bool" where
  "owners_ok owned owner \<longleftrightarrow> (\<forall>u r. u \<in> set (uuids_of owned r) \<longleftrightarrow> owner u = Some r) \<and>
     (\<forall>r. distinct (uuids_of owned r) \<and> owned r \<noteq> Some [])"

text \<open>Every tensor has an owner, and its record is in the bookkeeper or among the forgotten.\<close>

definition store_ok :: "('t, 'r, 'd) tensor_store \<Rightarrow> bool" where
  "store_ok s \<longleftrightarrow> owners_ok (ts_owned s) (ts_owner s) \<and>
     (\<forall>u. (ts_owner s u = None \<longleftrightarrow> ts_tensors s u = None) \<and>
       (ts_tensors s u = None \<longrightarrow> ts_cpu s u = None) \<and>
       (bk_infos (ts_book s) u = None \<longleftrightarrow> bk_refs (ts_book s) u = None) \<and>
       (ts_tensors s u = None \<longleftrightarrow> bk_refs (ts_book s) u = None \<and> u \<notin> ts_forgotten s) \<and>
       (u \<in> ts_forgotten s \<longrightarrow> bk_refs (ts_book s) u = None))"

lemma store_okD:
  assumes "store_ok s"
  shows "owners_ok (ts_owned s) (ts_owner s)"
    and "ts_owner s u = None \<longleftrightarrow> ts_tensors s u = None"
    and "ts_tensors s u = None \<Longrightarrow> ts_cpu s u = None"
    and "bk_infos (ts_book s) u = None \<longleftrightarrow> bk_refs (ts_book s) u = None"
    and "ts_tensors s u = None \<longleftrightarrow> bk_refs (ts_book s) u = None \<and> u \<notin> ts_forgotten s"
    and "u \<in> ts_forgotten s \<Longrightarrow> bk_refs (ts_book s) u = None"
  using assms unfolding store_ok_def by blast+

lemma uuids_of_add:
  "uuids_of (own_add r u owned) q = (if q = r \<and> u \<notin> set (uuids_of owned r) then uuids_of owned r @ [u]
     else uuids_of owned q)"
  by (auto simp: uuids_of_def own_add_def split: option.splits)

lemma uuids_of_discard:
  "uuids_of (own_discard r u owned) q = (if q = r then removeAll u (uuids_of owned r) else uuids_of owned q)"
  by (auto simp: uuids_of_def own_discard_def Let_def split: option.splits)

lemma owners_ok_add:
  assumes "owners_ok owned owner" "owner u = None"
  shows "owners_ok (own_add r u owned) (owner(u \<mapsto> r))"
proof -
  have fresh: "u \<notin> set (uuids_of owned q)" for q using assms by (simp add: owners_ok_def)
  have "own_add r u owned q \<noteq> Some []" for q
    using assms(1) fresh unfolding owners_ok_def own_add_def
    by (auto simp: Let_def split: option.splits if_splits)
  with assms fresh show ?thesis unfolding owners_ok_def uuids_of_add by auto
qed

lemma owners_ok_discard:
  assumes "owners_ok owned owner" "owner u = Some r"
  shows "owners_ok (own_discard r u owned) (owner(u := None))"
proof -
  have "own_discard r u owned q \<noteq> Some []" for q
    using assms(1) unfolding owners_ok_def own_discard_def
    by (auto simp: Let_def split: option.splits if_splits)
  with assms show ?thesis unfolding owners_ok_def uuids_of_discard by (auto simp: distinct_removeAll)
qed

lemma store_ok_new: "store_ok new_tensor_store"
  by (simp add: store_ok_def owners_ok_def uuids_of_def new_tensor_store_def new_bookkeeper_def)

lemma store_ok_put:
  assumes "store_ok s" "ts_tensors s u = None"
  shows "store_ok (put_tensor r u t i c s)"
proof -
  have "ts_owner s u = None" "u \<notin> ts_forgotten s" using store_okD(2-6) [OF assms(1), of u] assms(2) by blast+
  then show ?thesis using assms owners_ok_add [of "ts_owned s" "ts_owner s" u r]
    unfolding store_ok_def put_tensor_def bk_put_tensor_def by (simp split: option.split)
qed

lemma remove_absent:
  "store_ok s \<Longrightarrow> ts_tensors s u = None \<Longrightarrow> remove_tensor u s = s"
proof -
  assume s: "store_ok s" "ts_tensors s u = None"
  then have "u \<notin> ts_forgotten s" "ts_cpu s u = None" using store_okD(2-6) [OF s(1), of u] by blast+
  then show ?thesis using s(2) by (simp add: remove_tensor_def fun_upd_idem)
qed

lemma remove_present:
  assumes "store_ok s" "ts_tensors s u = Some t"
  obtains r where "ts_owner s u = Some r"
    "remove_tensor u s = s\<lparr>ts_forgotten := ts_forgotten s - {u}, ts_cpu := (ts_cpu s)(u := None),
      ts_tensors := (ts_tensors s)(u := None), ts_book := forget_tensor u (ts_book s),
      ts_owner := (ts_owner s)(u := None), ts_owned := own_discard r u (ts_owned s)\<rparr>"
proof -
  obtain r where r: "ts_owner s u = Some r" using store_okD(2) [OF assms(1), of u] assms(2) by fastforce
  have "forget_tensor u (ts_book s) = ts_book s" if "u \<in> ts_forgotten s"
  proof -
    have "bk_refs (ts_book s) u = None" using store_okD(6) [OF assms(1) that] .
    moreover from this have "bk_infos (ts_book s) u = None" using store_okD(4) [OF assms(1), of u] by blast
    ultimately show ?thesis by (simp add: forget_tensor_def fun_upd_idem)
  qed
  with r assms(2) that show ?thesis by (simp add: remove_tensor_def Let_def)
qed

lemma store_ok_remove:
  assumes "store_ok s" shows "store_ok (remove_tensor u s)"
proof (cases "ts_tensors s u")
  case None
  with assms show ?thesis by (simp add: remove_absent)
next
  case (Some t)
  obtain r where r: "ts_owner s u = Some r"
    "remove_tensor u s = s\<lparr>ts_forgotten := ts_forgotten s - {u}, ts_cpu := (ts_cpu s)(u := None),
      ts_tensors := (ts_tensors s)(u := None), ts_book := forget_tensor u (ts_book s),
      ts_owner := (ts_owner s)(u := None), ts_owned := own_discard r u (ts_owned s)\<rparr>"
    by (rule remove_present [OF assms Some]) (rule that)
  have "owners_ok (own_discard r u (ts_owned s)) ((ts_owner s)(u := None))"
    using assms r(1) by (intro owners_ok_discard) (simp_all add: store_ok_def)
  with assms show ?thesis unfolding r(2) store_ok_def forget_tensor_def by simp
qed

text \<open>What the store holds under a uuid, wherever it is kept.\<close>

definition gone :: "nat \<Rightarrow> ('t, 'r, 'd) tensor_store \<Rightarrow> bool" where
  "gone u s \<longleftrightarrow> ts_tensors s u = None \<and> ts_cpu s u = None \<and> ts_owner s u = None \<and>
     bk_refs (ts_book s) u = None \<and> bk_infos (ts_book s) u = None \<and> u \<notin> ts_forgotten s \<and>
     (\<forall>r. u \<notin> set (get_all_uuids r s))"

definition same_at :: "nat \<Rightarrow> ('t, 'r, 'd) tensor_store \<Rightarrow> ('t, 'r, 'd) tensor_store \<Rightarrow> bool" where
  "same_at u s s' \<longleftrightarrow> ts_tensors s' u = ts_tensors s u \<and> ts_cpu s' u = ts_cpu s u \<and>
     ts_owner s' u = ts_owner s u \<and> bk_refs (ts_book s') u = bk_refs (ts_book s) u \<and>
     bk_infos (ts_book s') u = bk_infos (ts_book s) u \<and> (u \<in> ts_forgotten s' \<longleftrightarrow> u \<in> ts_forgotten s)"

lemma gone_iff:
  assumes "store_ok s" shows "gone u s \<longleftrightarrow> ts_tensors s u = None"
proof
  assume t: "ts_tensors s u = None"
  have d: "ts_owner s u = None" "ts_cpu s u = None" "bk_refs (ts_book s) u = None"
    "bk_infos (ts_book s) u = None" "u \<notin> ts_forgotten s"
    using store_okD(2,4,5) [OF assms, of u] store_okD(3) [OF assms t] t by simp_all
  have "u \<notin> set (get_all_uuids r s)" for r
    using store_okD(1) [OF assms] d(1) unfolding owners_ok_def get_all_uuids_def uuids_of_def by simp
  with t d show "gone u s" by (simp add: gone_def)
qed (simp add: gone_def)

lemma remove_gone:
  assumes "store_ok s"
  shows "gone u (remove_tensor u s) \<and> (\<forall>v. v \<noteq> u \<longrightarrow> same_at v s (remove_tensor u s))"
proof (cases "ts_tensors s u")
  case None
  with assms show ?thesis by (simp add: remove_absent gone_iff same_at_def)
next
  case (Some t)
  obtain r where r: "remove_tensor u s = s\<lparr>ts_forgotten := ts_forgotten s - {u}, ts_cpu := (ts_cpu s)(u := None),
      ts_tensors := (ts_tensors s)(u := None), ts_book := forget_tensor u (ts_book s),
      ts_owner := (ts_owner s)(u := None), ts_owned := own_discard r u (ts_owned s)\<rparr>"
    by (rule remove_present [OF assms Some]) (rule that)
  have "ts_tensors (remove_tensor u s) u = None" unfolding r by simp
  then have "gone u (remove_tensor u s)" using gone_iff [OF store_ok_remove [OF assms]] by blast
  moreover have "same_at v s (remove_tensor u s)" if "v \<noteq> u" for v
    using that unfolding r same_at_def forget_tensor_def by simp
  ultimately show ?thesis by blast
qed

lemma same_at_trans: "same_at u s s' \<Longrightarrow> same_at u s' s'' \<Longrightarrow> same_at u s s''"
  by (simp add: same_at_def)

lemma remove_all:
  assumes "store_ok s"
  shows "store_ok (fold remove_tensor us s) \<and> (\<forall>u \<in> set us. gone u (fold remove_tensor us s)) \<and>
    (\<forall>u. u \<notin> set us \<longrightarrow> same_at u s (fold remove_tensor us s))"
  using assms
proof (induction us arbitrary: s)
  case (Cons u us)
  note step = store_ok_remove [OF Cons.prems, of u] remove_gone [OF Cons.prems, of u]
  note rest = Cons.IH [OF step(1)]
  have "gone u (fold remove_tensor us (remove_tensor u s))"
  proof (cases "u \<in> set us")
    case False
    then have "same_at u (remove_tensor u s) (fold remove_tensor us (remove_tensor u s))" using rest by blast
    moreover have "ts_tensors (remove_tensor u s) u = None" using step(2) by (simp add: gone_def)
    ultimately show ?thesis using rest by (simp add: gone_iff same_at_def)
  qed (use rest in blast)
  with rest step show ?case by (auto intro: same_at_trans)
qed (simp add: same_at_def)

section \<open>Releases\<close>

text \<open>Bookkeeper calls that change no domain keep the invariant.\<close>

lemma store_ok_book:
  assumes "store_ok s" "\<And>u. bk_refs b u = None \<longleftrightarrow> bk_refs (ts_book s) u = None"
    "\<And>u. bk_infos b u = None \<longleftrightarrow> bk_infos (ts_book s) u = None"
  shows "store_ok (s\<lparr>ts_book := b\<rparr>)"
  using assms unfolding store_ok_def by simp

lemma update_ref_dom:
  "bk_refs (update_ref u f b) v = None \<longleftrightarrow> bk_refs b v = None"
  "bk_infos (update_ref u f b) = bk_infos b"
  by (auto simp: update_ref_def split: option.split)

lemma increment_ref_dom:
  "increment_ref u n b = Inr b' \<Longrightarrow> (bk_refs b' v = None \<longleftrightarrow> bk_refs b v = None) \<and> bk_infos b' = bk_infos b"
  by (auto simp: increment_ref_def split: option.splits if_splits)

lemma place_one_dom:
  "place_one p b = Inr b' \<Longrightarrow> bk_refs b' = bk_refs b \<and> (bk_infos b' v = None \<longleftrightarrow> bk_infos b v = None)"
  by (auto simp: place_one_def split: prod.splits option.splits if_splits)

lemma forget_all_infos:
  "bk_infos (fold forget_tensor us b) u = (if u \<in> set us then None else bk_infos b u)"
  by (induction us arbitrary: b) (auto simp: forget_tensor_def)

text \<open>What a batch of drops leaves, with \<open>cleanup\<close>: the collectable uuids are out of the
  bookkeeper and among the forgotten; every other record has lost its share.\<close>

lemma drop_refs_cleanup:
  assumes "drop_refs refs True b = ((us, rs), b')"
  shows "us = map fst (fst (drop_spec refs (bk_refs b)))"
    and "bk_refs b' u = (if u \<in> set us then None else
      map_option (\<lambda>r. r\<lparr>ref_cnt := ref_cnt r - total_drop u refs\<rparr>) (bk_refs b u))"
    and "bk_infos b' u = (if u \<in> set us then None else bk_infos b u)"
proof -
  obtain us1 rs1 b1 where d: "python_drops refs b = ((us1, rs1), b1)" by (metis prod.collapse)
  then have e: "us = us1" "b' = fold forget_tensor us b1"
    using assms unfolding drop_refs_def forget_tensor_alt by auto
  note sp = python_drops_spec [OF d] python_drops_infos [OF d]
  then show "us = map fst (fst (drop_spec refs (bk_refs b)))" using e(1) by simp
  have "bk_refs b1 = snd (drop_spec refs (bk_refs b))" using sp by simp
  then show "bk_refs b' u = (if u \<in> set us then None else
      map_option (\<lambda>r. r\<lparr>ref_cnt := ref_cnt r - total_drop u refs\<rparr>) (bk_refs b u))"
    unfolding e(2) bk.forget_all by (simp add: drop_spec_refs)
  show "bk_infos b' u = (if u \<in> set us then None else bk_infos b u)"
    unfolding e(2) forget_all_infos using sp by simp
qed

lemma drop_spec_known: "c \<in> set (fst (drop_spec refs m)) \<Longrightarrow> m (fst c) \<noteq> None"
proof (induction refs arbitrary: m)
  case (Cons p refs)
  obtain v n where p: "p = (v, n)" by (cases p)
  show ?case
  proof (cases "m v")
    case (Some r)
    let ?m = "m(v \<mapsto> r\<lparr>ref_cnt := ref_cnt r - n\<rparr>)"
    have "c = (v, mem_registered r) \<or> c \<in> set (fst (drop_spec refs ?m))"
      using Cons.prems p Some by (auto simp: drop_spec_Cons Let_def simp del: drop_spec.simps(2) fun_upd_apply split: if_splits)
    moreover have "fst c = v \<or> m (fst c) \<noteq> None" if "?m (fst c) \<noteq> None" using that by (cases "fst c = v") simp_all
    ultimately show ?thesis using Cons.IH [of ?m] Some by (metis fst_conv option.distinct(1))
  qed (use Cons p in \<open>auto simp: drop_spec_Cons simp del: drop_spec.simps(2)\<close>)
qed simp

lemma store_ok_dropped:
  assumes s: "store_ok s" and d: "drop_refs refs True (ts_book s) = ((us, rs), b)"
  shows "store_ok (mark_forgotten us (s\<lparr>ts_book := b\<rparr>))" "\<And>u. u \<in> set us \<Longrightarrow> ts_tensors s u \<noteq> None"
proof -
  note dr = drop_refs_cleanup [OF d]
  have known: "bk_refs (ts_book s) u \<noteq> None" if "u \<in> set us" for u
    using that drop_spec_known unfolding dr(1) by fastforce
  show "ts_tensors s u \<noteq> None" if "u \<in> set us" for u
    using store_okD(5) [OF s, of u] known [OF that] by blast
  have "(bk_infos b u = None \<longleftrightarrow> bk_refs b u = None) \<and>
      (ts_tensors s u = None \<longleftrightarrow> bk_refs b u = None \<and> u \<notin> ts_forgotten s \<union> set us) \<and>
      (u \<in> ts_forgotten s \<union> set us \<longrightarrow> bk_refs b u = None)" for u
    using store_okD(4,5,6) [OF s, of u] known [of u] unfolding dr(2,3) by (cases "u \<in> set us") auto
  then show "store_ok (mark_forgotten us (s\<lparr>ts_book := b\<rparr>))"
    using s unfolding store_ok_def mark_forgotten_def by simp
qed

lemma mark_forgotten_idem: "mark_forgotten us (mark_forgotten us s) = mark_forgotten us s"
  by (simp add: mark_forgotten_def)

text \<open>A manager's batched release: the collectable uuids are gone for good, the others keep
  everything but the references they lost.\<close>

lemma release_batch:
  assumes s: "store_ok s" and d: "drop_refs refs True (ts_book s) = ((us, rs), b)"
  defines "s' \<equiv> cleanup_collectable us (mark_forgotten us (s\<lparr>ts_book := b\<rparr>))"
  shows "store_ok s' \<and> (\<forall>u \<in> set us. gone u s') \<and> (\<forall>u. u \<notin> set us \<longrightarrow>
    ts_tensors s' u = ts_tensors s u \<and> ts_cpu s' u = ts_cpu s u \<and> ts_owner s' u = ts_owner s u \<and>
    bk_infos (ts_book s') u = bk_infos (ts_book s) u \<and>
    bk_refs (ts_book s') u = map_option (\<lambda>r. r\<lparr>ref_cnt := ref_cnt r - total_drop u refs\<rparr>) (bk_refs (ts_book s) u))"
proof -
  let ?m = "mark_forgotten us (s\<lparr>ts_book := b\<rparr>)"
  have "s' = fold remove_tensor us ?m"
    unfolding s'_def cleanup_collectable_def mark_forgotten_idem by simp
  moreover note remove_all [OF store_ok_dropped(1) [OF s d], of us]
  moreover have "bk_refs b u = map_option (\<lambda>r. r\<lparr>ref_cnt := ref_cnt r - total_drop u refs\<rparr>) (bk_refs (ts_book s) u)"
    "bk_infos b u = bk_infos (ts_book s) u" if "u \<notin> set us" for u
    using drop_refs_cleanup(2,3) [OF d] that by simp_all
  ultimately show ?thesis by (simp add: same_at_def mark_forgotten_def)
qed

end
