(* ===== verification/Tensor_Columns.thy ===== *)
theory Tensor_Columns imports Tensor_Book begin

text \<open>
  The columns a batch of tensors is marshalled as (\<open>ColumnarTensorInfo\<close>) lose nothing: what a
  reader of the columns does is \<open>read_columns\<close>.
\<close>

section \<open>Columns\<close>

text \<open>What the reader of the columns takes for each row: each flat column is cut by \<open>ndims\<close>.\<close>

fun cut_rows :: "nat list \<Rightarrow> 'a list \<Rightarrow> 'a list list" where
  "cut_rows [] xs = []"
| "cut_rows (n # ns) xs = take n xs # cut_rows ns (drop n xs)"

definition read_columns :: "'d columns \<Rightarrow> (nat \<times> nat \<times> nat \<times> nat list \<times> nat list \<times> string) list" where
  "read_columns c = zip (co_uuids c) (zip (co_addresses c) (zip (co_nbytes c)
     (zip (cut_rows (co_ndims c) (co_dims_flat c)) (zip (cut_rows (co_ndims c) (co_stride_flat c))
       (map (\<lambda>i. co_dtype_names c ! i) (co_dtype_idx c))))))"

lemma zip_maps: "zip (map f xs) (map g xs) = map (\<lambda>x. (f x, g x)) xs"
  by (induction xs) simp_all

text \<open>The columns hold the rows \<open>ts\<close>, and the dtype table their dtypes, each once.\<close>

definition rows_ok :: "'d layout list \<Rightarrow> 'd columns \<Rightarrow> bool" where
  "rows_ok ts c \<longleftrightarrow> co_addresses c = map la_address ts \<and> co_nbytes c = map la_nbytes ts \<and>
     co_ndims c = map length (map la_dims ts) \<and> co_dims_flat c = concat (map la_dims ts) \<and>
     co_stride_flat c = concat (map la_stride ts)"

definition dtypes_ok :: "('d \<Rightarrow> string) \<Rightarrow> 'd layout list \<Rightarrow> 'd columns \<Rightarrow> bool" where
  "dtypes_ok nm ts c \<longleftrightarrow> (\<forall>d. map_of (co_seen c) d = None \<longleftrightarrow> d \<notin> la_dtype ` set ts) \<and>
     (\<forall>d i. map_of (co_seen c) d = Some i \<longrightarrow> i < length (co_dtype_names c) \<and> co_dtype_names c ! i = nm d) \<and>
     length (co_dtype_names c) = card (la_dtype ` set ts) \<and>
     map Some (co_dtype_idx c) = map (map_of (co_seen c) \<circ> la_dtype) ts"

lemma add_layout_fields:
  "co_uuids (add_layout nm t c) = co_uuids c"
  "co_addresses (add_layout nm t c) = co_addresses c @ [la_address t]"
  "co_nbytes (add_layout nm t c) = co_nbytes c @ [la_nbytes t]"
  "co_ndims (add_layout nm t c) = co_ndims c @ [length (la_dims t)]"
  "co_dims_flat (add_layout nm t c) = co_dims_flat c @ la_dims t"
  "co_stride_flat (add_layout nm t c) = co_stride_flat c @ la_stride t"
  by (auto simp: add_layout_def dtype_index_def Let_def split: option.split)

lemma add_layout_dtype:
  "co_seen (add_layout nm t c) = (case map_of (co_seen c) (la_dtype t) of
     Some _ \<Rightarrow> co_seen c | None \<Rightarrow> dict_set (la_dtype t) (length (co_dtype_names c)) (co_seen c))"
  "co_dtype_names (add_layout nm t c) = (case map_of (co_seen c) (la_dtype t) of
     Some _ \<Rightarrow> co_dtype_names c | None \<Rightarrow> co_dtype_names c @ [nm (la_dtype t)])"
  "co_dtype_idx (add_layout nm t c) = co_dtype_idx c @ [case map_of (co_seen c) (la_dtype t) of
     Some i \<Rightarrow> i | None \<Rightarrow> length (co_dtype_names c)]"
  by (auto simp: add_layout_def dtype_index_def Let_def split: option.split)

lemma rows_ok_add: "rows_ok ts c \<Longrightarrow> rows_ok (ts @ [t]) (add_layout nm t c)"
  by (simp add: rows_ok_def add_layout_fields)

lemma dtypes_ok_add:
  assumes "dtypes_ok nm ts c" shows "dtypes_ok nm (ts @ [t]) (add_layout nm t c)"
proof (cases "map_of (co_seen c) (la_dtype t)")
  case (Some i)
  then have "la_dtype t \<in> la_dtype ` set ts" using assms unfolding dtypes_ok_def by (metis option.distinct(1))
  then have "la_dtype ` set (ts @ [t]) = la_dtype ` set ts" by auto
  then show ?thesis using Some assms unfolding dtypes_ok_def add_layout_dtype by auto
next
  case None
  let ?n = "length (co_dtype_names c)"
  let ?c = "add_layout nm t c"
  have new: "la_dtype t \<notin> la_dtype ` set ts" using None assms unfolding dtypes_ok_def by blast
  have seen: "map_of (co_seen ?c) = (map_of (co_seen c))(la_dtype t \<mapsto> ?n)" using None by (simp add: add_layout_dtype)
  have names: "co_dtype_names ?c = co_dtype_names c @ [nm (la_dtype t)]"
    "co_dtype_idx ?c = co_dtype_idx c @ [?n]" using None by (simp_all add: add_layout_dtype)
  have "map_of (co_seen ?c) d = None \<longleftrightarrow> d \<notin> la_dtype ` set (ts @ [t])" for d
    using assms unfolding dtypes_ok_def seen by simp
  moreover have "i < length (co_dtype_names ?c) \<and> co_dtype_names ?c ! i = nm d" if "map_of (co_seen ?c) d = Some i" for d i
  proof (cases "d = la_dtype t")
    case True
    with that names show ?thesis unfolding seen by (auto simp: nth_append)
  next
    case False
    with that have "map_of (co_seen c) d = Some i" unfolding seen by simp
    then have "i < ?n" "co_dtype_names c ! i = nm d" using assms unfolding dtypes_ok_def by blast+
    with names show ?thesis by (simp add: nth_append)
  qed
  moreover have "length (co_dtype_names ?c) = card (la_dtype ` set (ts @ [t]))"
    using new assms names unfolding dtypes_ok_def by simp
  moreover have "map Some (co_dtype_idx ?c) = map (map_of (co_seen ?c) \<circ> la_dtype) (ts @ [t])"
  proof -
    have "map (map_of (co_seen ?c) \<circ> la_dtype) ts = map (map_of (co_seen c) \<circ> la_dtype) ts"
      using new unfolding seen by (auto intro: rev_image_eqI)
    then show ?thesis using assms unfolding dtypes_ok_def names(2) by (simp add: seen)
  qed
  ultimately show ?thesis unfolding dtypes_ok_def by blast
qed

lemma columns_fold:
  "rows_ok ts c \<Longrightarrow> dtypes_ok nm ts c \<Longrightarrow> rows_ok (ts @ us) (fold (add_layout nm) us c) \<and>
    dtypes_ok nm (ts @ us) (fold (add_layout nm) us c) \<and> co_uuids (fold (add_layout nm) us c) = co_uuids c"
proof (induction us arbitrary: ts c)
  case (Cons u us)
  from Cons.IH [OF rows_ok_add [OF Cons.prems(1)] dtypes_ok_add [OF Cons.prems(2)]]
  show ?case by (simp add: add_layout_fields)
qed simp

lemma cut_rows_concat: "cut_rows (map length xss) (concat xss) = xss"
  by (induction xss) simp_all

text \<open>
  C24. Marshalling a batch as columns loses nothing: a reader that cuts the flat columns by
  \<open>ndims\<close> and looks dtype names up by index gets back each tensor's uuid, address, size, shape,
  stride and dtype name, in order; and each dtype's name crosses once.
\<close>

theorem columns_roundtrip:
  fixes ts :: "'d layout list"
  assumes "length us = length ts" "\<forall>t \<in> set ts. length (la_stride t) = length (la_dims t)"
  shows "read_columns (add_tensors_canonical nm us ts new_columns) =
      map (\<lambda>(u, t). (u, la_address t, la_nbytes t, la_dims t, la_stride t, nm (la_dtype t))) (zip us ts) \<and>
    length (co_dtype_names (add_tensors_canonical nm us ts new_columns)) = card (la_dtype ` set ts)"
proof -
  let ?c = "add_tensors_canonical nm us ts new_columns"
  define c0 :: "'d columns" where "c0 = new_columns\<lparr>co_uuids := us\<rparr>"
  have "rows_ok [] c0" "dtypes_ok nm [] c0" by (simp_all add: rows_ok_def dtypes_ok_def new_columns_def c0_def)
  from columns_fold [OF this, of ts]
  have rows: "rows_ok ts ?c" and dt: "dtypes_ok nm ts ?c" and u: "co_uuids ?c = us"
    by (simp_all add: add_tensors_canonical_def new_columns_def c0_def)
  have "map length (map la_dims ts) = map length (map la_stride ts)" using assms(2) by simp
  then have cuts: "cut_rows (co_ndims ?c) (co_dims_flat ?c) = map la_dims ts"
    "cut_rows (co_ndims ?c) (co_stride_flat ?c) = map la_stride ts"
    using rows cut_rows_concat unfolding rows_ok_def by metis+
  have len: "length (co_dtype_idx ?c) = length ts" using dt unfolding dtypes_ok_def by (metis length_map)
  have names: "map (\<lambda>i. co_dtype_names ?c ! i) (co_dtype_idx ?c) = map (\<lambda>t. nm (la_dtype t)) ts"
  proof (rule nth_equalityI)
    fix k assume k: "k < length (map (\<lambda>i. co_dtype_names ?c ! i) (co_dtype_idx ?c))"
    then have "map Some (co_dtype_idx ?c) ! k = map (map_of (co_seen ?c) \<circ> la_dtype) ts ! k"
      using dt unfolding dtypes_ok_def by simp
    with k len have "map_of (co_seen ?c) (la_dtype (ts ! k)) = Some (co_dtype_idx ?c ! k)" by simp
    then show "map (\<lambda>i. co_dtype_names ?c ! i) (co_dtype_idx ?c) ! k = map (\<lambda>t. nm (la_dtype t)) ts ! k"
      using dt k len unfolding dtypes_ok_def by simp
  qed (simp add: len)
  have flat: "co_addresses ?c = map la_address ts" "co_nbytes ?c = map la_nbytes ts"
    using rows unfolding rows_ok_def by blast+
  have "read_columns ?c = zip us (map (\<lambda>t. (la_address t, la_nbytes t, la_dims t, la_stride t, nm (la_dtype t))) ts)"
    unfolding read_columns_def u cuts names flat zip_maps by (rule refl)
  also have "\<dots> = map (\<lambda>(u, t). (u, la_address t, la_nbytes t, la_dims t, la_stride t, nm (la_dtype t))) (zip us ts)"
    by (simp add: zip_map2)
  finally show ?thesis using dt by (simp add: dtypes_ok_def)
qed

theorem columns_roundtrip_witness:
  "length (read_columns (add_tensors_canonical id [3, 4]
    [\<lparr>la_address = 0, la_nbytes = 8, la_dims = [2, 1], la_stride = [1, 1], la_dtype = ''f32''\<rparr>,
     \<lparr>la_address = 8, la_nbytes = 4, la_dims = [], la_stride = [], la_dtype = ''f32''\<rparr>] new_columns)) = 2"
  using columns_roundtrip [of "[3, 4]"
    "[\<lparr>la_address = 0, la_nbytes = 8, la_dims = [2, 1], la_stride = [1, 1], la_dtype = ''f32''\<rparr>,
      \<lparr>la_address = 8, la_nbytes = 4, la_dims = [], la_stride = [], la_dtype = ''f32''\<rparr>]" id] by simp

end
