(* ===== verification/Tensor_Props.thy ===== *)
theory Tensor_Props imports Tensor_Store Tensor_Columns begin

text \<open>
  What holds of a tensor store however it is used: the calls as the step relation
  \<open>store_reach\<close>, its invariant, and the properties of releases, teardown, arena placement and
  columns. Fresh uuids (\<open>uuids_globally_unique\<close> of \<open>Tensor_Uuid\<close>) are a premise of the puts.
\<close>

section \<open>A batched put is its puts\<close>

record ('t, 'r, 'd) put_args =
  pa_rid :: 'r
  pa_uuid :: nat
  pa_tensor :: 't
  pa_info :: "'d tensor_info"
  pa_cpu :: "'t option"

definition put_one :: "('t, 'r, 'd) put_args \<Rightarrow> ('t, 'r, 'd) tensor_store \<Rightarrow> ('t, 'r, 'd) tensor_store" where
  "put_one q = put_tensor (pa_rid q) (pa_uuid q) (pa_tensor q) (pa_info q) (pa_cpu q)"

definition put_all :: "('t, 'r, 'd) put_args list \<Rightarrow> ('t, 'r, 'd) tensor_store \<Rightarrow> ('t, 'r, 'd) tensor_store" where
  "put_all qs = fold put_one qs"

definition cpu_write :: "nat \<times> 't option \<Rightarrow> (nat \<rightharpoonup> 't) \<Rightarrow> (nat \<rightharpoonup> 't)" where
  "cpu_write = (\<lambda>(u, c) m. case c of None \<Rightarrow> m | Some t \<Rightarrow> m(u \<mapsto> t))"

lemma put_all_fields:
  "ts_tensors (put_all qs s) = ts_tensors s ++ map_of (rev (map (\<lambda>q. (pa_uuid q, pa_tensor q)) qs))"
  "ts_owner (put_all qs s) = ts_owner s ++ map_of (rev (map (\<lambda>q. (pa_uuid q, pa_rid q)) qs))"
  "ts_owned (put_all qs s) = fold (\<lambda>(r, u). own_add r u) (map (\<lambda>q. (pa_rid q, pa_uuid q)) qs) (ts_owned s)"
  "ts_cpu (put_all qs s) = fold cpu_write (map (\<lambda>q. (pa_uuid q, pa_cpu q)) qs) (ts_cpu s)"
  "ts_book (put_all qs s) = fold (\<lambda>(u, i). bk_put_tensor u i) (map (\<lambda>q. (pa_uuid q, pa_info q)) qs) (ts_book s)"
  "ts_forgotten (put_all qs s) = ts_forgotten s"
  unfolding put_all_def
  by (induction qs arbitrary: s; simp add: put_one_def put_tensor_def cpu_write_def map_add_assoc [symmetric]
      del: fun_upd_apply split: option.split)+

lemma cpu_write_none: "(\<And>q. q \<in> set qs \<Longrightarrow> pa_cpu q = None) \<Longrightarrow> fold cpu_write (map (\<lambda>q. (pa_uuid q, pa_cpu q)) qs) m = m"
  by (induction qs arbitrary: m) (simp_all add: cpu_write_def)

lemma put_batch_multi_puts:
  assumes "cpus = Some (map pa_cpu qs) \<or> cpus = None \<and> (\<forall>q \<in> set qs. pa_cpu q = None)"
  shows "put_tensor_batch_multi (map pa_rid qs) (map pa_uuid qs) (map pa_tensor qs) (map pa_info qs) cpus s =
    Inr (put_all qs s)"
  using assms
proof
  assume "cpus = Some (map pa_cpu qs)"
  then show ?thesis
    by (simp add: put_tensor_batch_multi_def own_def put_tensor_batch_def zip_strict_def zip_maps
        put_all_fields tensor_store.equality cpu_write_def)
next
  assume c: "cpus = None \<and> (\<forall>q \<in> set qs. pa_cpu q = None)"
  then have "fold cpu_write (map (\<lambda>q. (pa_uuid q, pa_cpu q)) qs) (ts_cpu s) = ts_cpu s"
    by (intro cpu_write_none) simp
  with c show ?thesis
    by (simp add: put_tensor_batch_multi_def own_def put_tensor_batch_def zip_strict_def zip_maps
        put_all_fields tensor_store.equality)
qed

lemma put_batch_multi_inv:
  assumes "put_tensor_batch_multi rids uuids tensors infos cpus s = Inr s'"
  obtains qs where "uuids = map pa_uuid qs" "s' = put_all qs s"
proof -
  have len: "length rids = length uuids" "length uuids = length tensors" "length infos = length uuids"
    "\<And>cs. cpus = Some cs \<Longrightarrow> length cs = length uuids"
    using assms by (auto simp: put_tensor_batch_multi_def own_def Let_def put_tensor_batch_def zip_strict_def
        split: if_splits option.splits)
  define cs where "cs = (case cpus of None \<Rightarrow> replicate (length uuids) None | Some cs \<Rightarrow> cs)"
  have lcs: "length cs = length uuids" using len(4) by (simp add: cs_def split: option.split)
  define qs where "qs = map (\<lambda>k. \<lparr>pa_rid = rids ! k, pa_uuid = uuids ! k, pa_tensor = tensors ! k,
    pa_info = infos ! k, pa_cpu = cs ! k\<rparr>) [0..<length uuids]"
  have q: "map pa_rid qs = rids" "map pa_uuid qs = uuids" "map pa_tensor qs = tensors"
    "map pa_info qs = infos" "map pa_cpu qs = cs"
    unfolding qs_def using len lcs by (auto intro!: nth_equalityI)
  have "cpus = Some (map pa_cpu qs) \<or> cpus = None \<and> (\<forall>q \<in> set qs. pa_cpu q = None)"
    using q(5) by (cases cpus) (auto simp: cs_def qs_def)
  from put_batch_multi_puts [OF this, of s] assms q have "s' = put_all qs s" by simp
  with q(2) that show ?thesis by blast
qed

lemma store_ok_puts:
  assumes "store_ok s" "distinct (map pa_uuid qs)" "\<forall>u \<in> set (map pa_uuid qs). ts_tensors s u = None"
  shows "store_ok (put_all qs s)"
  using assms
proof (induction qs arbitrary: s)
  case (Cons q qs)
  have "store_ok (put_one q s)" using Cons.prems unfolding put_one_def by (intro store_ok_put) simp_all
  moreover have "\<forall>u \<in> set (map pa_uuid qs). ts_tensors (put_one q s) u = None"
    using Cons.prems(2,3) by (auto simp: put_one_def put_tensor_def) (metis image_eqI)
  ultimately show ?case using Cons.IH [of "put_one q s"] Cons.prems(2) by (simp add: put_all_def)
qed (simp add: put_all_def)

section \<open>The calls\<close>

inductive store_reach :: "('t, 'r, 'd) tensor_store \<Rightarrow> bool" where
  empty: "store_reach new_tensor_store"
| put: "store_reach s \<Longrightarrow> ts_tensors s u = None \<Longrightarrow> store_reach (put_tensor r u t i c s)"
| put_batch: "store_reach s \<Longrightarrow> put_tensor_batch_multi rids us ts infos cpus s = Inr s' \<Longrightarrow>
    distinct us \<Longrightarrow> \<forall>u \<in> set us. ts_tensors s u = None \<Longrightarrow> store_reach s'"
| remove: "store_reach s \<Longrightarrow> store_reach (remove_tensor u s)"
| drop_cpu: "store_reach s \<Longrightarrow> store_reach (drop_cpu_tensors s)"
| increment: "store_reach s \<Longrightarrow> with_book_res (increment_ref u n) s = Inr s' \<Longrightarrow> store_reach s'"
| increment_batch: "store_reach s \<Longrightarrow> with_book_res (increment_ref_batch us ns) s = Inr s' \<Longrightarrow> store_reach s'"
| increment_uniform: "store_reach s \<Longrightarrow> with_book_res (increment_ref_batch_uniform us n) s = Inr s' \<Longrightarrow> store_reach s'"
| dereference: "store_reach s \<Longrightarrow> store_reach (with_book (dereference u n) s)"
| dereference_batch: "store_reach s \<Longrightarrow> store_dereference_batch us ns cleanup s = Inr (res, s') \<Longrightarrow> store_reach s'"
| dereference_uniform: "store_reach s \<Longrightarrow> store_dereference_batch_uniform us n cleanup s = (res, s') \<Longrightarrow> store_reach s'"
| metadata: "store_reach s \<Longrightarrow> store_reach (set_metadata u p g s)"
| segment: "store_reach s \<Longrightarrow> store_reach (with_book (register_shm_segment k name) s)"
| placement: "store_reach s \<Longrightarrow> with_book_res (set_shm_placement us ks offs) s = Inr s' \<Longrightarrow> store_reach s'"
| release_one: "store_reach s \<Longrightarrow> store_reach (manager_dereference u n s)"
| release: "store_reach s \<Longrightarrow> manager_dereference_batch us ns s = Inr s' \<Longrightarrow> store_reach s'"
| release_uniform: "store_reach s \<Longrightarrow> store_reach (manager_dereference_batch_uniform us n s)"
| unpersist: "store_reach s \<Longrightarrow> store_reach (manager_set_persist u p s)"
| teardown: "store_reach s \<Longrightarrow> cleanup_request r force s = (deferred, s') \<Longrightarrow> store_reach s'"

lemma store_ok_with_book:
  "store_ok s \<Longrightarrow> (\<And>b u. bk_refs (f b) u = None \<longleftrightarrow> bk_refs b u = None) \<Longrightarrow>
    (\<And>b u. bk_infos (f b) u = None \<longleftrightarrow> bk_infos b u = None) \<Longrightarrow> store_ok (with_book f s)"
  unfolding with_book_def by (rule store_ok_book)

lemma store_ok_with_book_res:
  assumes "store_ok s" "with_book_res f s = Inr s'"
    "\<And>b b' u. f b = Inr b' \<Longrightarrow> (bk_refs b' u = None \<longleftrightarrow> bk_refs b u = None) \<and>
      (bk_infos b' u = None \<longleftrightarrow> bk_infos b u = None)"
  shows "store_ok s'"
proof -
  obtain b where "f (ts_book s) = Inr b" "s' = s\<lparr>ts_book := b\<rparr>"
    using assms(2) unfolding with_book_res_def rbind_eq_Inr by blast
  with assms(1,3) show ?thesis by (auto intro: store_ok_book)
qed

lemma rfold_dom:
  assumes "rfold f xs b = Inr b'" "\<And>x b b'. x \<in> set xs \<Longrightarrow> f x b = Inr b' \<Longrightarrow> P b b'"
    "\<And>b. P b b" "\<And>a b c. P a b \<Longrightarrow> P b c \<Longrightarrow> P a c"
  shows "P b b'"
  using assms by (induction xs arbitrary: b) (auto, metis)

definition same_dom :: "'d bookkeeper \<Rightarrow> 'd bookkeeper \<Rightarrow> bool" where
  "same_dom b b' \<longleftrightarrow> (\<forall>u. (bk_refs b' u = None \<longleftrightarrow> bk_refs b u = None) \<and> (bk_infos b' u = None \<longleftrightarrow> bk_infos b u = None))"

lemma same_dom_increment: "increment_ref u n b = Inr b' \<Longrightarrow> same_dom b b'"
  unfolding same_dom_def using increment_ref_dom by metis

lemma same_dom_place: "place_one p b = Inr b' \<Longrightarrow> same_dom b b'"
  unfolding same_dom_def using place_one_dom by metis

lemma same_dom_rfold:
  "rfold f xs b = Inr b' \<Longrightarrow> (\<And>x b b'. f x b = Inr b' \<Longrightarrow> same_dom b b') \<Longrightarrow> same_dom b b'"
  by (erule rfold_dom) (auto simp: same_dom_def)

lemma same_dom_batches:
  "increment_ref_batch us ns b = Inr b' \<Longrightarrow> same_dom b b'"
  "increment_ref_batch_uniform us n b = Inr b' \<Longrightarrow> same_dom b b'"
  "set_shm_placement us ks offs b = Inr b' \<Longrightarrow> same_dom b b'"
  unfolding increment_ref_batch_def increment_ref_batch_uniform_def set_shm_placement_def rbind_eq_Inr
  by (auto elim!: same_dom_rfold intro: same_dom_increment same_dom_place)

lemma store_ok_same_dom:
  "store_ok s \<Longrightarrow> with_book_res f s = Inr s' \<Longrightarrow> (\<And>b b'. f b = Inr b' \<Longrightarrow> same_dom b b') \<Longrightarrow> store_ok s'"
  by (rule store_ok_with_book_res) (auto simp: same_dom_def)

lemma store_ok_deref: "store_ok s \<Longrightarrow> store_ok (with_book (dereference u n) s)"
  by (rule store_ok_with_book) (simp_all add: dereference_def update_ref_dom)

lemma store_ok_metadata: "store_ok s \<Longrightarrow> store_ok (set_metadata u p g s)"
  unfolding set_metadata_def set_persist_def set_mem_registered_def
  by (auto simp: update_ref_dom Let_def split: option.split intro!: store_ok_with_book)

lemma store_ok_collected:
  assumes s: "store_ok s" and d: "drop_refs refs cleanup (ts_book s) = (res, b)"
  shows "store_ok (snd (collected res cleanup (s\<lparr>ts_book := b\<rparr>)))"
proof (cases cleanup)
  case True
  then show ?thesis using store_ok_dropped(1) [OF s, of refs "fst res" "snd res" b] d
    by (simp add: collected_def)
next
  case False
  have "python_drops refs (ts_book s) = ((fst res, snd res), b)"
    using d False by (auto simp: drop_refs_def split: prod.splits)
  from python_drops_spec [OF this] python_drops_infos [OF this]
  have "bk_refs b = snd (drop_spec refs (bk_refs (ts_book s)))" "bk_infos b = bk_infos (ts_book s)" by simp_all
  then have "store_ok (s\<lparr>ts_book := b\<rparr>)" by (intro store_ok_book [OF s]) (simp_all add: drop_spec_refs)
  with False show ?thesis by (simp add: collected_def)
qed

lemma manager_uniform_eq:
  assumes "drop_refs (map (\<lambda>u. (u, n)) uuids) True (ts_book s) = ((us, rs), b)"
  shows "manager_dereference_batch_uniform uuids n s =
    cleanup_collectable us (mark_forgotten us (s\<lparr>ts_book := b\<rparr>))"
  using assms by (simp add: manager_dereference_batch_uniform_def store_dereference_batch_uniform_def
      dereference_batch_uniform_def collected_def)

lemma manager_batch_eq:
  assumes "length uuids = length counts" "drop_refs (zip uuids counts) True (ts_book s) = ((us, rs), b)"
  shows "manager_dereference_batch uuids counts s =
    Inr (cleanup_collectable us (mark_forgotten us (s\<lparr>ts_book := b\<rparr>)))"
  using assms by (simp add: manager_dereference_batch_def store_dereference_batch_def
      dereference_batch_def collected_def zip_strict_def)

lemma cleanup_uuids_spec:
  assumes "store_ok s" "cleanup_uuids force us s = (deferred, s')" "distinct us"
  shows "store_ok s' \<and> deferred = filter (\<lambda>u. \<not> can_gc u (ts_book s) \<and> \<not> force) us \<and>
    (\<forall>u \<in> set us - set deferred. gone u s') \<and> (\<forall>u. u \<notin> set us - set deferred \<longrightarrow> same_at u s s')"
  using assms
proof (induction us arbitrary: s deferred)
  case (Cons u us)
  show ?case
  proof (cases "\<not> can_gc u (ts_book s) \<and> \<not> force")
    case True
    then obtain ds where ds: "cleanup_uuids force us s = (ds, s')" "deferred = u # ds"
      using Cons.prems(2) by (auto split: prod.splits)
    with Cons.IH [OF Cons.prems(1) ds(1)] Cons.prems(3) True show ?thesis by auto
  next
    case False
    then have d: "cleanup_uuids force us (remove_tensor u s) = (deferred, s')" using Cons.prems(2) by auto
    note rm = store_ok_remove [OF Cons.prems(1), of u] remove_gone [OF Cons.prems(1), of u]
    note rest = Cons.IH [OF rm(1) d]
    have "\<forall>v \<in> set us. can_gc v (ts_book (remove_tensor u s)) = can_gc v (ts_book s)"
      using rm(2) Cons.prems(3) by (auto simp: can_gc_def same_at_def)
    then have df: "deferred = filter (\<lambda>u. \<not> can_gc u (ts_book s) \<and> \<not> force) us"
      using rest Cons.prems(3) by (auto intro: filter_cong)
    have u: "u \<notin> set deferred" using df Cons.prems(3) by auto
    have at_u: "same_at u (remove_tensor u s) s'" using rest Cons.prems(3) by auto
    have "ts_tensors (remove_tensor u s) u = None" using rm(2) by (simp add: gone_def)
    then have "gone u s'" using at_u rest Cons.prems(3) gone_iff [of s' u] by (simp add: same_at_def)
    moreover have "gone v s'" if "v \<in> set us - set deferred" for v using rest Cons.prems(3) that by auto
    moreover have "same_at v s s'" if "v \<notin> set (u # us) - set deferred" for v
    proof -
      have "v \<noteq> u" using that u by auto
      then have "same_at v s (remove_tensor u s)" using rm(2) by blast
      moreover have "same_at v (remove_tensor u s) s'" using rest Cons.prems(3) that by auto
      ultimately show ?thesis by (rule same_at_trans)
    qed
    moreover have "deferred = filter (\<lambda>u. \<not> can_gc u (ts_book s) \<and> \<not> force) (u # us)" using df False by simp
    moreover have "store_ok s'" using rest Cons.prems(3) by simp
    ultimately show ?thesis using u by auto
  qed
qed (simp add: same_at_def)

lemma uuids_of_get: "uuids_of (ts_owned s) r = get_all_uuids r s"
  by (simp add: uuids_of_def get_all_uuids_def)

lemma store_ok_owns:
  assumes "store_ok s" shows "distinct (get_all_uuids r s)" "u \<in> set (get_all_uuids r s) \<longleftrightarrow> ts_owner s u = Some r"
  using store_okD(1) [OF assms] by (simp_all add: owners_ok_def flip: uuids_of_get)

lemma store_reach_ok: "store_reach s \<Longrightarrow> store_ok s"
proof (induction rule: store_reach.induct)
  case (put_batch s rids us ts infos cpus s')
  obtain qs where "us = map pa_uuid qs" "s' = put_all qs s"
    by (rule put_batch_multi_inv [OF put_batch.hyps(2)]) (rule that)
  with put_batch show ?case by (auto intro!: store_ok_puts)
next
  case (dereference_batch s us ns cleanup res s')
  then obtain r b where "drop_refs (zip us ns) cleanup (ts_book s) = (r, b)"
    "s' = snd (collected r cleanup (s\<lparr>ts_book := b\<rparr>))"
    by (auto simp: store_dereference_batch_def dereference_batch_def zip_strict_def split: if_splits)
  with store_ok_collected dereference_batch.IH show ?case by metis
next
  case (dereference_uniform s us n cleanup res s')
  then obtain r b where "drop_refs (map (\<lambda>u. (u, n)) us) cleanup (ts_book s) = (r, b)"
    "s' = snd (collected r cleanup (s\<lparr>ts_book := b\<rparr>))"
    by (auto simp: store_dereference_batch_uniform_def dereference_batch_uniform_def split: prod.splits)
  with store_ok_collected dereference_uniform.IH show ?case by metis
next
  case (release s us ns s')
  then have len: "length us = length ns"
    by (auto simp: manager_dereference_batch_def store_dereference_batch_def dereference_batch_def
        zip_strict_def split: if_splits)
  obtain vs rs b where d: "drop_refs (zip us ns) True (ts_book s) = ((vs, rs), b)" by (metis prod.collapse)
  from release_batch [OF release.IH d] manager_batch_eq [OF len d] release.hyps(2) show ?case by simp
next
  case (release_uniform s us n)
  obtain vs rs b where d: "drop_refs (map (\<lambda>u. (u, n)) us) True (ts_book s) = ((vs, rs), b)" by (metis prod.collapse)
  from release_batch [OF release_uniform.IH d] manager_uniform_eq [OF d] show ?case by simp
next
  case (teardown s r force deferred s')
  then show ?case using cleanup_uuids_spec [OF teardown.IH, of force "get_all_uuids r s" deferred s']
      store_ok_owns(1) [OF teardown.IH] by (simp add: cleanup_request_def)
next
  case (drop_cpu s)
  then show ?case by (simp add: store_ok_def drop_cpu_tensors_def)
next
  case (segment s k name)
  then show ?case by (intro store_ok_with_book) (simp_all add: register_shm_segment_def)
next
  case (release_one s u n)
  then show ?case by (simp add: manager_dereference_def Let_def store_ok_deref store_ok_remove)
next
  case (unpersist s u p)
  then show ?case by (simp add: manager_set_persist_def Let_def store_ok_metadata store_ok_remove)
next
  case (increment s u n s')
  from increment.IH increment.hyps(2) show ?case by (rule store_ok_same_dom) (rule same_dom_increment)
next
  case (increment_batch s us ns s')
  from increment_batch.IH increment_batch.hyps(2) show ?case by (rule store_ok_same_dom) (rule same_dom_batches)
next
  case (increment_uniform s us n s')
  from increment_uniform.IH increment_uniform.hyps(2) show ?case by (rule store_ok_same_dom) (rule same_dom_batches)
next
  case (placement s us ks offs s')
  from placement.IH placement.hyps(2) show ?case by (rule store_ok_same_dom) (rule same_dom_batches)
qed (simp_all add: store_ok_new store_ok_put store_ok_remove store_ok_deref store_ok_metadata)

section \<open>Properties\<close>

text \<open>
  C20. Whatever the sequence of puts, references, releases and teardowns, a stored tensor
  belongs to exactly one request, only stored tensors have a record in the bookkeeper, and a
  uuid that is no longer stored has left nothing behind in any of the maps.
\<close>

theorem tensor_store_invariant:
  assumes "store_reach s"
  shows "(check_uuid_presence u s \<longleftrightarrow> (\<exists>!r. u \<in> set (get_all_uuids r s))) \<and>
    (bk_refs (ts_book s) u \<noteq> None \<longrightarrow> check_uuid_presence u s) \<and>
    (\<not> check_uuid_presence u s \<longrightarrow> gone u s)"
proof -
  note ok = store_reach_ok [OF assms]
  have own: "u \<in> set (get_all_uuids r s) \<longleftrightarrow> ts_owner s u = Some r" for r by (rule store_ok_owns(2) [OF ok])
  have "(\<exists>!r. ts_owner s u = Some r) \<longleftrightarrow> ts_owner s u \<noteq> None" by auto
  then show ?thesis using store_okD(2,5) [OF ok, of u] gone_iff [OF ok, of u] unfolding own check_uuid_presence_def by metis
qed

definition demo_info :: "unit tensor_info" where
  "demo_info = \<lparr>ti_dims = [2], ti_dtype = (), ti_nbytes = 8, ti_address = 0, ti_stride = [1], ti_uuid = 7,
     ti_session = ''h'', ti_entity = ''worker_0'', ti_offset = 0, ti_tp_size = 1, ti_tp_rank = 0,
     ti_shm_segment = None, ti_shm_offset = 0, ti_node = None, ti_walk = None\<rparr>"

definition demo_store :: "(nat, nat, unit) tensor_store" where
  "demo_store = put_tensor 2 8 101 demo_info None (put_tensor 1 7 100 demo_info None new_tensor_store)"

lemma demo_store_reach: "store_reach demo_store"
  unfolding demo_store_def by (intro store_reach.put store_reach.empty) (simp_all add: put_tensor_def new_tensor_store_def)

theorem tensor_store_invariant_witness:
  "check_uuid_presence 7 demo_store \<and> (\<exists>!r. 7 \<in> set (get_all_uuids r demo_store))"
proof -
  have "check_uuid_presence 7 demo_store"
    by (simp add: check_uuid_presence_def demo_store_def put_tensor_def new_tensor_store_def)
  with tensor_store_invariant [OF demo_store_reach, of 7] show ?thesis by blast
qed

text \<open>
  C22. The one-look-up override of \<open>_drop_refs\<close> answers and leaves exactly what the inherited
  loop over \<open>dereference\<close>, \<open>can_gc\<close>, \<open>is_registered\<close> and \<open>forget_tensor\<close> does.
\<close>

theorem drop_refs_override:
  "drop_refs refs cleanup b = generic_drop_refs dereference can_gc is_registered forget_tensor refs cleanup b"
  by (rule drop_refs_generic)

lemma drop_spec_persist:
  "m u = Some r \<Longrightarrow> persist r \<Longrightarrow> filter (\<lambda>c. fst c = u) (fst (drop_spec refs m)) = []"
proof (induction refs arbitrary: m r)
  case (Cons p refs)
  obtain v n where p: "p = (v, n)" by (cases p)
  show ?case
  proof (cases "m v")
    case None
    then show ?thesis using Cons.IH [of m r] Cons.prems p by (simp add: drop_spec_Cons)
  next
    case (Some q)
    let ?m = "m(v \<mapsto> q\<lparr>ref_cnt := ref_cnt q - n\<rparr>)"
    have "\<exists>r'. ?m u = Some r' \<and> persist r'" using Cons.prems Some by (cases "u = v") simp_all
    then have "filter (\<lambda>c. fst c = u) (fst (drop_spec refs ?m)) = []" using Cons.IH by blast
    moreover have "v \<noteq> u \<or> persist q" using Cons.prems Some by (cases "v = u") simp_all
    ultimately show ?thesis using Some p
      by (auto simp: drop_spec_Cons Let_def simp del: drop_spec.simps(2) fun_upd_apply)
  qed
qed simp

lemma reported_iff:
  assumes "m u = Some r" "total_drop u refs \<le> ref_cnt r" "\<forall>(v, n) \<in> set refs. 0 < n"
  shows "u \<in> fst ` set (fst (drop_spec refs m)) \<longleftrightarrow>
    u \<in> fst ` set refs \<and> \<not> persist r \<and> total_drop u refs = ref_cnt r"
proof -
  have "u \<in> fst ` set cs \<longleftrightarrow> filter (\<lambda>c. fst c = u) cs \<noteq> []" for cs :: "(nat \<times> bool) list"
    by (auto simp: filter_empty_conv)
  moreover have "\<forall>(v, n) \<in> set refs. v = u \<longrightarrow> 0 < n" using assms(3) by auto
  ultimately show ?thesis
    using drop_spec_persist [of m u r refs] drop_spec_reported [of m u r refs] assms(1,2) by (cases "persist r") auto
qed

text \<open>
  C21. A batched release frees exactly the tensors whose last reference it drops: if it drops no
  tensor more often than it is held, a tensor it brings to zero that is not persisted is gone
  from every map, and every other tensor is kept, with the references it has left.
\<close>

theorem release_exact:
  assumes s: "store_reach s" and len: "length uuids = length counts" and pos: "\<forall>n \<in> set counts. 0 < n"
    and held: "\<forall>u r. bk_refs (ts_book s) u = Some r \<longrightarrow> total_drop u (zip uuids counts) \<le> ref_cnt r"
  shows "\<exists>s'. manager_dereference_batch uuids counts s = Inr s' \<and> (\<forall>u r. bk_refs (ts_book s) u = Some r \<longrightarrow>
    (if u \<in> set uuids \<and> \<not> persist r \<and> total_drop u (zip uuids counts) = ref_cnt r then gone u s'
     else ts_tensors s' u = ts_tensors s u \<and> bk_refs (ts_book s') u =
       Some (r\<lparr>ref_cnt := ref_cnt r - total_drop u (zip uuids counts)\<rparr>)))"
proof -
  let ?refs = "zip uuids counts"
  obtain us rs b where d: "drop_refs ?refs True (ts_book s) = ((us, rs), b)" by (metis prod.collapse)
  define s' where "s' = cleanup_collectable us (mark_forgotten us (s\<lparr>ts_book := b\<rparr>))"
  note rel = release_batch [OF store_reach_ok [OF s] d, folded s'_def]
  have "\<forall>(v, n) \<in> set ?refs. 0 < n" using pos by (auto dest: set_zip_rightD)
  moreover have "fst ` set ?refs = set uuids" using len by (metis list.set_map map_fst_zip)
  ultimately have "u \<in> set us \<longleftrightarrow> u \<in> set uuids \<and> \<not> persist r \<and> total_drop u ?refs = ref_cnt r"
    if "bk_refs (ts_book s) u = Some r" for u r
    using reported_iff [of "bk_refs (ts_book s)" u r ?refs] held that drop_refs_cleanup(1) [OF d] by auto
  then have "\<forall>u r. bk_refs (ts_book s) u = Some r \<longrightarrow>
    (if u \<in> set uuids \<and> \<not> persist r \<and> total_drop u ?refs = ref_cnt r then gone u s'
     else ts_tensors s' u = ts_tensors s u \<and> bk_refs (ts_book s') u =
       Some (r\<lparr>ref_cnt := ref_cnt r - total_drop u ?refs\<rparr>))"
    using rel by auto
  with manager_batch_eq [OF len d] show ?thesis unfolding s'_def by blast
qed

definition held_store :: "(nat, nat, unit) tensor_store" where
  "held_store = with_book (set_persist 8 True) (projr (with_book_res (increment_ref_batch [7, 8] [2, 1]) demo_store))"

theorem release_exact_witness:
  "\<exists>s'. manager_dereference_batch [7, 8, 7] [1, 1, 1] held_store = Inr s' \<and> gone 7 s' \<and> ts_tensors s' 8 = Some 101"
proof -
  have inc: "is_ok (with_book_res (increment_ref_batch [7, 8] [2, 1]) demo_store)" by code_simp
  have "store_reach (projr (with_book_res (increment_ref_batch [7, 8] [2, 1]) demo_store))"
    by (rule store_reach.increment_batch [OF demo_store_reach ok_projr [OF inc]])
  then have r: "store_reach held_store"
    using store_reach.metadata [of _ 8 "Some True" None] unfolding held_store_def by (simp add: set_metadata_def)
  have refs: "bk_refs (ts_book held_store) = [7 \<mapsto> \<lparr>ref_cnt = 2, persist = False, mem_registered = False\<rparr>,
      8 \<mapsto> \<lparr>ref_cnt = 1, persist = True, mem_registered = False\<rparr>]"
    by (auto simp: held_store_def demo_store_def put_tensor_def bk_put_tensor_def new_tensor_store_def
        new_bookkeeper_def new_reference_info_def with_book_res_def with_book_def increment_ref_batch_def
        zip_strict_def increment_ref_def set_persist_def update_ref_def fun_eq_iff)
  have t: "ts_tensors held_store 8 = Some 101"
    by (simp add: held_store_def demo_store_def put_tensor_def bk_put_tensor_def new_tensor_store_def
        new_bookkeeper_def new_reference_info_def with_book_res_def with_book_def increment_ref_batch_def
        zip_strict_def increment_ref_def)
  show ?thesis using release_exact [OF r, of "[7, 8, 7]" "[1, 1, 1]"] refs t by (fastforce split: if_splits)
qed

text \<open>
  C23. Tearing a request down frees exactly its own collectable tensors (all of them when
  forced), reports the others as deferred and keeps them whole, and touches no tensor of
  another request.
\<close>

theorem teardown_exact:
  assumes "store_reach s" "cleanup_request rid force s = (deferred, s')"
  shows "(\<forall>u \<in> set (get_all_uuids rid s). if can_gc u (ts_book s) \<or> force then gone u s'
      else u \<in> set deferred \<and> same_at u s s') \<and>
    (\<forall>u. ts_owner s u \<noteq> Some rid \<longrightarrow> same_at u s s') \<and> set (get_all_uuids rid s') = set deferred"
proof -
  note ok = store_reach_ok [OF assms(1)]
  note sp = cleanup_uuids_spec [OF ok assms(2) [unfolded cleanup_request_def] store_ok_owns(1) [OF ok]]
  have own: "u \<in> set (get_all_uuids rid s) \<longleftrightarrow> ts_owner s u = Some rid" for u by (rule store_ok_owns(2) [OF ok])
  have own': "u \<in> set (get_all_uuids rid s') \<longleftrightarrow> ts_owner s' u = Some rid" for u
    by (rule store_ok_owns(2) [OF sp [THEN conjunct1]])
  have "u \<in> set (get_all_uuids rid s') \<longleftrightarrow> u \<in> set deferred" for u
  proof (cases "u \<in> set (get_all_uuids rid s) - set deferred")
    case True
    then show ?thesis unfolding own' using sp by (auto simp: gone_def)
  next
    case False
    then have "same_at u s s'" "u \<in> set deferred \<longrightarrow> u \<in> set (get_all_uuids rid s)" using sp by auto
    moreover from this have "u \<in> set (get_all_uuids rid s') \<longleftrightarrow> u \<in> set (get_all_uuids rid s)"
      unfolding own' own by (simp add: same_at_def)
    ultimately show ?thesis using False by blast
  qed
  then have "set (get_all_uuids rid s') = set deferred" by blast
  with sp own show ?thesis by auto
qed

theorem teardown_exact_witness:
  "gone 7 (snd (cleanup_request 1 True demo_store)) \<and> same_at 8 demo_store (snd (cleanup_request 1 True demo_store))"
proof -
  have "7 \<in> set (get_all_uuids 1 demo_store)" "ts_owner demo_store 8 \<noteq> Some 1" by code_simp+
  note m = this
  note t = teardown_exact [OF demo_store_reach prod.collapse [symmetric, of "cleanup_request 1 True demo_store"]]
  have "gone 7 (snd (cleanup_request 1 True demo_store))"
    using t [THEN conjunct1, THEN bspec, OF m(1)] by (simp only: simp_thms if_True)
  moreover have "same_at 8 demo_store (snd (cleanup_request 1 True demo_store))"
    using t m(2) by blast
  ultimately show ?thesis by (rule conjI)
qed

section \<open>Arena placement\<close>

definition segment_of :: "nat \<Rightarrow> 'd bookkeeper \<Rightarrow> string option" where
  "segment_of k b = (if k < length (bk_segments b) then bk_segments b ! k else None)"

lemma segment_of_register: "segment_of k (register_shm_segment j name b) = (if k = j then Some name else segment_of k b)"
  by (auto simp: segment_of_def register_shm_segment_def nth_append nth_list_update)

definition placed :: "int \<Rightarrow> nat \<Rightarrow> 'd bookkeeper \<Rightarrow> 'd tensor_info \<Rightarrow> 'd tensor_info" where
  "placed k off b i = i\<lparr>ti_shm_segment := (if k < 0 then None else segment_of (nat k) b), ti_shm_offset := off\<rparr>"

lemma place_one_eq:
  "place_one (u, k, off) b = (if 0 \<le> k \<and> segment_of (nat k) b = None then Inl ValueError
    else Inr (b\<lparr>bk_infos := (\<lambda>v. if v = u then map_option (placed k off b) (bk_infos b u) else bk_infos b v)\<rparr>))"
proof (cases "bk_infos b u")
  case None
  then have "(\<lambda>v. if v = u then map_option (placed k off b) (bk_infos b u) else bk_infos b v) = bk_infos b"
    by (intro ext) simp
  with None show ?thesis
    by (simp add: place_one_def shm_segment_name_def segment_of_def split: option.split)
next
  case (Some i)
  then have "(\<lambda>v. if v = u then map_option (placed k off b) (bk_infos b u) else bk_infos b v) =
      (bk_infos b)(u \<mapsto> placed k off b i)" by (intro ext) simp
  with Some show ?thesis
    by (simp add: place_one_def shm_segment_name_def segment_of_def placed_def split: option.split)
qed

lemma place_all:
  assumes "distinct (map fst ps)" "\<forall>(u, k, off) \<in> set ps. \<not> (0 \<le> k \<and> segment_of (nat k) b = None)"
  shows "\<exists>b'. rfold place_one ps b = Inr b' \<and> bk_refs b' = bk_refs b \<and> bk_segments b' = bk_segments b \<and>
    (\<forall>(u, k, off) \<in> set ps. bk_infos b' u = map_option (placed k off b) (bk_infos b u)) \<and>
    (\<forall>u. u \<notin> fst ` set ps \<longrightarrow> bk_infos b' u = bk_infos b u)"
  using assms
proof (induction ps arbitrary: b)
  case (Cons p ps)
  obtain u k off where p: "p = (u, k, off)" by (cases p)
  let ?b = "b\<lparr>bk_infos := (\<lambda>v. if v = u then map_option (placed k off b) (bk_infos b u) else bk_infos b v)\<rparr>"
  have seg: "segment_of j ?b = segment_of j b" for j by (simp add: segment_of_def)
  have pl: "placed j f ?b = placed j f b" for j f by (intro ext) (simp add: placed_def seg)
  have one: "place_one p b = Inr ?b" using Cons.prems(2) by (auto simp: p place_one_eq)
  have u: "u \<notin> fst ` set ps" using Cons.prems(1) p by simp
  have d: "distinct (map fst ps)" using Cons.prems(1) by simp
  have ok: "\<forall>(u, k, off) \<in> set ps. \<not> (0 \<le> k \<and> segment_of (nat k) ?b = None)"
    using Cons.prems(2) unfolding seg by simp
  obtain b' where b': "rfold place_one ps ?b = Inr b'" "bk_refs b' = bk_refs ?b" "bk_segments b' = bk_segments ?b"
    "\<forall>(u, k, off) \<in> set ps. bk_infos b' u = map_option (placed k off ?b) (bk_infos ?b u)"
    "\<forall>u. u \<notin> fst ` set ps \<longrightarrow> bk_infos b' u = bk_infos ?b u"
    using Cons.IH [OF d ok] by blast
  have "rfold place_one (p # ps) b = Inr b'" using one b'(1) by simp
  moreover have "bk_infos b' v = map_option (placed j f b) (bk_infos b v)" if "(v, j, f) \<in> set (p # ps)" for v j f
  proof (cases "v = u")
    case True
    then have "j = k" "f = off" using that u p by force+
    with True b'(5) u show ?thesis by simp
  next
    case False
    then have "(v, j, f) \<in> set ps" using that p by simp
    with b'(4) have "bk_infos b' v = map_option (placed j f ?b) (bk_infos ?b v)" by blast
    with False show ?thesis unfolding pl by simp
  qed
  moreover have "\<forall>v. v \<notin> fst ` set (p # ps) \<longrightarrow> bk_infos b' v = bk_infos b v" using b'(5) p by simp
  ultimately show ?case using b'(2,3) by (intro exI [of _ b']) auto
qed simp

lemma place_bad:
  assumes "\<exists>(u, k, off) \<in> set ps. 0 \<le> k \<and> segment_of (nat k) b = None"
  shows "rfold place_one ps b = Inl ValueError"
  using assms
proof (induction ps arbitrary: b)
  case (Cons p ps)
  obtain u k off where p: "p = (u, k, off)" by (cases p)
  show ?case
  proof (cases "0 \<le> k \<and> segment_of (nat k) b = None")
    case False
    let ?b = "b\<lparr>bk_infos := (\<lambda>v. if v = u then map_option (placed k off b) (bk_infos b u) else bk_infos b v)\<rparr>"
    have "segment_of j ?b = segment_of j b" for j by (simp add: segment_of_def)
    then have "rfold place_one ps ?b = Inl ValueError" using Cons.IH [of ?b] Cons.prems p False by auto
    with False p show ?thesis by (simp add: place_one_eq)
  qed (simp add: p place_one_eq)
qed simp

text \<open>
  Stamping arena placement either raises, exactly when some index names a segment that was
  never registered (tracked tensor or not), or gives every tracked tensor its segment's name
  (none for index -1) and its offset, and changes no other descriptor and no reference.
\<close>

lemma placement_exact:
  assumes len: "length ks = length us" "length offs = length us" and dist: "distinct us"
  shows "if \<exists>k \<in> set ks. 0 \<le> k \<and> segment_of (nat k) b = None then set_shm_placement us ks offs b = Inl ValueError
    else \<exists>b'. set_shm_placement us ks offs b = Inr b' \<and> bk_refs b' = bk_refs b \<and>
      (\<forall>j < length us. bk_infos b' (us ! j) = map_option (placed (ks ! j) (offs ! j) b) (bk_infos b (us ! j))) \<and>
      (\<forall>u. u \<notin> set us \<longrightarrow> bk_infos b' u = bk_infos b u)"
proof -
  let ?ps = "zip us (zip ks offs)"
  have run: "set_shm_placement us ks offs b = rfold place_one ?ps b"
    using len by (simp add: set_shm_placement_def zip_strict_def)
  have fsts: "map fst ?ps = us" "fst ` set ?ps = set us" using len by (simp, metis length_zip list.set_map map_fst_zip min.idem)
  have "map fst (map snd ?ps) = ks" using len by simp
  then have "set ks = fst ` snd ` set ?ps" by (metis list.set_map)
  then have mem: "(\<exists>k \<in> set ks. P k) \<longleftrightarrow> (\<exists>(u, k, off) \<in> set ?ps. P k)" for P
    by (simp only: bex_simps case_prod_beta')
  show ?thesis
  proof (cases "\<exists>k \<in> set ks. 0 \<le> k \<and> segment_of (nat k) b = None")
    case True
    with mem place_bad [of ?ps b] run show ?thesis by simp
  next
    case False
    then have "\<forall>(u, k, off) \<in> set ?ps. \<not> (0 \<le> k \<and> segment_of (nat k) b = None)" using mem by fastforce
    then obtain b' where b': "rfold place_one ?ps b = Inr b'" "bk_refs b' = bk_refs b"
      "\<forall>(u, k, off) \<in> set ?ps. bk_infos b' u = map_option (placed k off b) (bk_infos b u)"
      "\<forall>u. u \<notin> fst ` set ?ps \<longrightarrow> bk_infos b' u = bk_infos b u"
      using place_all [of ?ps b] dist unfolding fsts(1) by blast
    have "bk_infos b' (us ! j) = map_option (placed (ks ! j) (offs ! j) b) (bk_infos b (us ! j))" if "j < length us" for j
    proof -
      have "(us ! j, ks ! j, offs ! j) \<in> set ?ps" using that len by (auto simp: set_zip)
      with b'(3) show ?thesis by fastforce
    qed
    then show ?thesis using b'(1,2,4) unfolding run fsts(2) if_not_P [OF False] by blast
  qed
qed

lemma placement_exact_witness:
  "\<exists>b'. set_shm_placement [7, 9] [1, -1] [64, 0] (register_shm_segment 1 ''seg1'' (ts_book demo_store)) = Inr b' \<and>
    map_option ti_shm_segment (bk_infos b' 7) = Some (Some ''seg1'')"
proof -
  let ?b = "register_shm_segment 1 ''seg1'' (ts_book demo_store)"
  have seg: "segment_of 1 ?b = Some ''seg1''" by (simp add: segment_of_register)
  have info: "bk_infos ?b 7 = Some demo_info"
    by (simp add: register_shm_segment_def demo_store_def put_tensor_def bk_put_tensor_def)
  have "\<not> (\<exists>k \<in> set [1, -1 :: int]. 0 \<le> k \<and> segment_of (nat k) ?b = None)" using seg by simp
  then obtain b' where "set_shm_placement [7, 9] [1, -1] [64, 0] ?b = Inr b'"
    "\<forall>j < 2. bk_infos b' ([7, 9] ! j) = map_option (placed ([1, -1] ! j) ([64, 0] ! j) ?b) (bk_infos ?b ([7, 9] ! j))"
    using placement_exact [of "[1, -1]" "[7, 9]" "[64, 0]" ?b] by (auto simp: numeral_2_eq_2 split: if_splits)
  with seg info show ?thesis by (force simp: placed_def)
qed

end
