(* ===== verification/Tensor_Uuid.thy ===== *)
theory Tensor_Uuid imports MStar_Prelude "HOL-Library.Word" begin

unbundle bit_operations_syntax

text \<open>
  Tensor uuids as integers, \<open>mstar/communication/tensor_uuid.py\<close>: the entity that mints a
  tensor in the upper 16 bits, its counter in the lower 48. Python's integers are unbounded, so
  the model computes with \<open>nat\<close> and the 64-bit bound is a theorem. The process-wide
  dict of dynamic indices is the state \<open>entity_index\<close> threads. Entity ids are ASCII.
\<close>

section \<open>Layout\<close>

definition ENTITY_BITS :: nat where "ENTITY_BITS = 16"
definition COUNTER_BITS :: nat where "COUNTER_BITS = 48"
definition COUNTER_MASK :: nat where "COUNTER_MASK = push_bit COUNTER_BITS 1 - 1"
definition MAX_ENTITY_INDEX :: nat where "MAX_ENTITY_INDEX = push_bit ENTITY_BITS 1 - 1"
definition DYNAMIC_BASE :: nat where "DYNAMIC_BASE = push_bit (ENTITY_BITS - 1) 1"

definition DATA_WORKER :: string where "DATA_WORKER = ''api_server_preprocess_worker''"
definition WORKER_PREFIX :: string where "WORKER_PREFIX = ''worker_''"
definition DATA_WORKER_INDEX :: nat where "DATA_WORKER_INDEX = 0"
definition WORKER_BASE :: nat where "WORKER_BASE = 1"

lemmas layout_defs = ENTITY_BITS_def COUNTER_BITS_def COUNTER_MASK_def MAX_ENTITY_INDEX_def
  DYNAMIC_BASE_def DATA_WORKER_INDEX_def WORKER_BASE_def

section \<open>The index of an entity\<close>

text \<open>\<open>str.isdigit\<close> and \<open>int\<close> of an ASCII string.\<close>

definition isdigit :: "string \<Rightarrow> bool" where
  "isdigit s \<longleftrightarrow> s \<noteq> [] \<and> list_all (\<lambda>c. 48 \<le> (of_char c :: nat) \<and> (of_char c :: nat) \<le> 57) s"

definition digit_val :: "char \<Rightarrow> nat" where
  "digit_val c = of_char c - 48"

definition int_of_digits :: "string \<Rightarrow> nat" where
  "int_of_digits s = foldl (\<lambda>v c. 10 * v + digit_val c) 0 s"

definition startswith :: "string \<Rightarrow> string \<Rightarrow> bool" where
  "startswith s p \<longleftrightarrow> take (length p) s = p"

definition removeprefix :: "string \<Rightarrow> string \<Rightarrow> string" where
  "removeprefix s p = (if startswith s p then drop (length p) s else s)"

type_synonym dynamic = "(string, nat) dict"

text \<open>The lock makes the check and the insertion one step, so the second look-up of the
  double-checked locking finds what the first one did.\<close>

definition dynamic_index :: "string \<Rightarrow> dynamic \<Rightarrow> (nat \<times> dynamic) res" where
  "dynamic_index e d = (case map_of d e of
     Some i \<Rightarrow> Inr (i, d)
   | None \<Rightarrow> (let i = DYNAMIC_BASE + length d in
       if i > MAX_ENTITY_INDEX then Inl ValueError else Inr (i, dict_set e i d)))"

definition entity_index :: "string \<Rightarrow> dynamic \<Rightarrow> (nat \<times> dynamic) res" where
  "entity_index e d =
     (if e = DATA_WORKER then Inr (DATA_WORKER_INDEX, d)
      else if startswith e WORKER_PREFIX \<and> isdigit (removeprefix e WORKER_PREFIX) then
        (let i = WORKER_BASE + int_of_digits (removeprefix e WORKER_PREFIX) in
         if i \<ge> DYNAMIC_BASE then Inl ValueError else Inr (i, d))
      else dynamic_index e d)"

lemmas uuid_eval = DATA_WORKER_def WORKER_PREFIX_def startswith_def removeprefix_def isdigit_def
  int_of_digits_def digit_val_def

section \<open>Minting\<close>

record minter =
  prefix_bits :: nat
  counter :: nat

definition new_minter :: "string \<Rightarrow> dynamic \<Rightarrow> (minter \<times> dynamic) res" where
  "new_minter e d = rbind (entity_index e d) (\<lambda>(i, d).
     Inr (\<lparr>prefix_bits = push_bit COUNTER_BITS i, counter = 0\<rparr>, d))"

definition mint :: "minter \<Rightarrow> (nat \<times> minter) res" where
  "mint m = (let c = counter m + 1 in
     if c > COUNTER_MASK then Inl RuntimeError
     else Inr (prefix_bits m OR c, m\<lparr>counter := c\<rparr>))"

definition owner_index :: "nat \<Rightarrow> nat" where
  "owner_index uuid = drop_bit COUNTER_BITS uuid"

definition counter_of :: "nat \<Rightarrow> nat" where
  "counter_of uuid = uuid AND COUNTER_MASK"

text \<open>What processes do with the module: make a minter per entity, mint from each.\<close>

fun make_minters :: "string list \<Rightarrow> dynamic \<Rightarrow> (minter list \<times> dynamic) res" where
  "make_minters [] d = Inr ([], d)"
| "make_minters (e # es) d = rbind (new_minter e d) (\<lambda>(m, d).
     rbind (make_minters es d) (\<lambda>(ms, d). Inr (m # ms, d)))"

fun mint_many :: "nat \<Rightarrow> minter \<Rightarrow> (nat list \<times> minter) res" where
  "mint_many 0 m = Inr ([], m)"
| "mint_many (Suc n) m = rbind (mint m) (\<lambda>(u, m).
     rbind (mint_many n m) (\<lambda>(us, m). Inr (u # us, m)))"

section \<open>Entities have indices of their own\<close>

definition dynamic_ok :: "dynamic \<Rightarrow> bool" where
  "dynamic_ok d \<longleftrightarrow> map snd d = map (\<lambda>i. DYNAMIC_BASE + i) [0..<length d] \<and> distinct (map fst d) \<and>
     DYNAMIC_BASE + length d \<le> MAX_ENTITY_INDEX + 1"

lemma dynamic_ok_Nil: "dynamic_ok []"
  by (simp add: dynamic_ok_def layout_defs)

text \<open>The index an entity has once the table is final.\<close>

definition is_worker :: "string \<Rightarrow> bool" where
  "is_worker e \<longleftrightarrow> startswith e WORKER_PREFIX \<and> isdigit (removeprefix e WORKER_PREFIX)"

definition index_in :: "dynamic \<Rightarrow> string \<Rightarrow> nat option" where
  "index_in d e =
     (if e = DATA_WORKER then Some DATA_WORKER_INDEX
      else if is_worker e then
        (let i = WORKER_BASE + int_of_digits (removeprefix e WORKER_PREFIX) in
         if i < DYNAMIC_BASE then Some i else None)
      else map_of d e)"

lemma entity_index_in:
  assumes "entity_index e d = Inr (i, d')" "dynamic_ok d"
  shows "dynamic_ok d' \<and> index_in d' e = Some i \<and> map_of d \<subseteq>\<^sub>m map_of d' \<and> i \<le> MAX_ENTITY_INDEX"
proof (cases "e \<noteq> DATA_WORKER \<and> \<not> is_worker e")
  case False
  have "DYNAMIC_BASE \<le> MAX_ENTITY_INDEX" by (simp add: layout_defs)
  with False assms show ?thesis
    by (auto simp: entity_index_def index_in_def is_worker_def Let_def DATA_WORKER_INDEX_def split: if_splits)
next
  case True
  then have dyn: "dynamic_index e d = Inr (i, d')"
    using assms(1) by (auto simp: entity_index_def is_worker_def split: if_splits)
  show ?thesis
  proof (cases "map_of d e")
    case (Some j)
    then have j: "i = j" "d' = d" using dyn by (simp_all add: dynamic_index_def)
    have "j \<in> set (map snd d)" using Some by (auto dest: map_of_SomeD intro: rev_image_eqI)
    then have "j \<le> MAX_ENTITY_INDEX" using assms(2) unfolding dynamic_ok_def by auto
    with j Some True assms(2) show ?thesis by (auto simp: index_in_def)
  next
    case None
    then have j: "i = DYNAMIC_BASE + length d" "i \<le> MAX_ENTITY_INDEX" "d' = d @ [(e, i)]"
      using dyn by (auto simp: dynamic_index_def Let_def dict_set_fresh split: if_splits)
    moreover have "e \<notin> fst ` set d" by (rule map_of_eq_None_iff [THEN iffD1, OF None])
    ultimately have "dynamic_ok d'" using assms(2) by (auto simp: dynamic_ok_def)
    moreover have "map_of d' e = Some i" unfolding j(3) map_of_append map_add_Some_iff using None by simp
    moreover have "map_of d \<subseteq>\<^sub>m map_of d'" 
      unfolding map_le_def j(3) map_of_append using None by (auto simp: map_add_def)
    ultimately show ?thesis using True j by (simp add: index_in_def)
  qed
qed

lemma index_in_mono: "map_of d \<subseteq>\<^sub>m map_of d' \<Longrightarrow> index_in d e = Some i \<Longrightarrow> index_in d' e = Some i"
  by (auto simp: index_in_def map_le_def dom_def split: if_splits)

lemma dynamic_index_range:
  assumes "dynamic_ok d" "map_of d e = Some i" shows "DYNAMIC_BASE \<le> i"
proof -
  have "i \<in> set (map snd d)" using assms(2) by (auto dest: map_of_SomeD intro: rev_image_eqI)
  with assms(1) show ?thesis unfolding dynamic_ok_def by auto
qed

lemma dynamic_index_inj:
  assumes "dynamic_ok d" "map_of d e = Some i" "map_of d e' = Some i" shows "e = e'"
proof -
  have "distinct (map snd d)" using assms(1) unfolding dynamic_ok_def by (simp add: distinct_map inj_on_def)
  then have "inj_on snd (set d)" by (simp add: distinct_map)
  moreover have "(e, i) \<in> set d" "(e', i) \<in> set d" using assms(2,3) by (simp_all add: map_of_SomeD)
  ultimately have "(e, i) = (e', i)" by (intro inj_onD [of snd "set d"]) simp_all
  then show ?thesis by simp
qed

text \<open>
  Two entity ids name one index exactly when they are one id or two spellings of one worker's
  rank: \<open>int\<close> drops leading zeros. The range the code leaves to workers,
  \<open>i < DYNAMIC_BASE\<close>, keeps them apart from the dynamic entities.
\<close>

definition rank_of :: "string \<Rightarrow> nat" where
  "rank_of e = int_of_digits (removeprefix e WORKER_PREFIX)"

definition same_owner :: "string \<Rightarrow> string \<Rightarrow> bool" where
  "same_owner e e' \<longleftrightarrow> e = e' \<or> is_worker e \<and> is_worker e' \<and> rank_of e = rank_of e'"

lemma data_worker_apart: "\<not> is_worker DATA_WORKER"
  by (simp add: is_worker_def uuid_eval)

lemma index_in_worker:
  "is_worker e \<Longrightarrow> index_in d e = Some i \<longleftrightarrow> i = WORKER_BASE + rank_of e \<and> i < DYNAMIC_BASE"
  using data_worker_apart by (auto simp: index_in_def Let_def rank_of_def)

lemma index_in_dynamic:
  "\<not> is_worker e \<Longrightarrow> e \<noteq> DATA_WORKER \<Longrightarrow> index_in d e = map_of d e"
  by (simp add: index_in_def)

lemma index_in_other:
  assumes "dynamic_ok d" "\<not> is_worker e" "index_in d e = Some i"
  shows "e = DATA_WORKER \<and> i = 0 \<or> e \<noteq> DATA_WORKER \<and> map_of d e = Some i \<and> DYNAMIC_BASE \<le> i"
  using assms dynamic_index_range [OF assms(1), of e i] by (simp add: index_in_def DATA_WORKER_INDEX_def split: if_splits)

lemma index_in_ranges:
  assumes "dynamic_ok d" "index_in d e = Some i"
  shows "is_worker e \<longleftrightarrow> 0 < i \<and> i < DYNAMIC_BASE"
proof (cases "is_worker e")
  case True
  then show ?thesis using assms(2) by (simp add: index_in_worker WORKER_BASE_def)
next
  case False
  from index_in_other [OF assms(1) False assms(2)] False show ?thesis by auto
qed

lemma same_index:
  assumes d: "dynamic_ok d" and i: "index_in d e = Some i" "index_in d e' = Some i'"
  shows "i = i' \<longleftrightarrow> same_owner e e'"
proof (cases "is_worker e \<and> is_worker e'")
  case True
  then have "i = WORKER_BASE + rank_of e" "i' = WORKER_BASE + rank_of e'" using i by (simp_all add: index_in_worker)
  then show ?thesis using True by (auto simp: same_owner_def)
next
  case False
  have "e = e'" if "i = i'"
  proof -
    have e: "\<not> is_worker e" "\<not> is_worker e'" using False index_in_ranges [OF d] i that by metis+
    have "0 < DYNAMIC_BASE" by (simp add: layout_defs)
    then show ?thesis
      using index_in_other [OF d e(1) i(1)] index_in_other [OF d e(2) i(2)] that
        dynamic_index_inj [OF d, of e i e'] by auto
  qed
  moreover have "i = i'" if "e = e'" using i that by simp
  moreover have "same_owner e e' \<longleftrightarrow> e = e'" using False by (simp add: same_owner_def) blast
  ultimately show ?thesis by blast
qed

section \<open>What a minter hands out\<close>

lemma or_counter:
  assumes "c < 2 ^ 48" shows "push_bit 48 i OR c = i * 2 ^ 48 + (c :: nat)"
proof -
  have "take_bit 48 c = c" using assms by (simp add: take_bit_nat_eq_self_iff)
  then have "push_bit 48 i AND c = 0" by (metis bit_eq_iff bit_and_iff bit_push_bit_iff bit_take_bit_iff bit_0_eq bot_apply bot_bool_def not_le)
  then show ?thesis by (simp add: disjunctive_add_eq_or [symmetric] push_bit_eq_mult)
qed

lemma mint_ok:
  assumes "mint m = Inr (u, m')" "prefix_bits m = push_bit COUNTER_BITS i"
  shows "u = i * 2 ^ 48 + counter m + 1" "counter m + 1 < 2 ^ 48" "m' = m\<lparr>counter := counter m + 1\<rparr>"
proof -
  have small: "counter m + 1 < 2 ^ 48" using assms(1) by (auto simp: mint_def layout_defs Let_def split: if_splits)
  then show "counter m + 1 < 2 ^ 48" "m' = m\<lparr>counter := counter m + 1\<rparr>"
    using assms(1) by (auto simp: mint_def Let_def split: if_splits)
  show "u = i * 2 ^ 48 + counter m + 1"
    using assms or_counter [OF small, of i] by (auto simp: mint_def Let_def COUNTER_BITS_def split: if_splits)
qed

lemma uuid_fields:
  assumes "c < 2 ^ 48"
  shows "owner_index (i * 2 ^ 48 + c) = i" "counter_of (i * 2 ^ 48 + c) = c"
proof -
  show "owner_index (i * 2 ^ 48 + c) = i"
    using assms by (simp add: owner_index_def COUNTER_BITS_def drop_bit_eq_div)
  have "COUNTER_MASK = mask 48" by (simp add: layout_defs mask_eq_exp_minus_1)
  then have "counter_of (i * 2 ^ 48 + c) = take_bit 48 (i * 2 ^ 48 + c)"
    by (simp add: counter_of_def take_bit_eq_mask)
  then show "counter_of (i * 2 ^ 48 + c) = c" using assms by (simp add: take_bit_eq_mod)
qed

lemma mint_many_ok:
  "mint_many n m = Inr (us, m') \<Longrightarrow> prefix_bits m = push_bit COUNTER_BITS i \<Longrightarrow>
    distinct us \<and> (\<forall>u \<in> set us. owner_index u = i \<and> counter m < counter_of u \<and> u < (i + 1) * 2 ^ 48)"
proof (induction n arbitrary: m us)
  case (Suc n)
  obtain u m1 us1 where m1: "mint m = Inr (u, m1)" "mint_many n m1 = Inr (us1, m')" "us = u # us1"
    using Suc.prems(1) by auto
  note u = mint_ok [OF m1(1) Suc.prems(2)]
  have "prefix_bits m1 = push_bit COUNTER_BITS i" using u(3) Suc.prems(2) by simp
  note rest = Suc.IH [OF m1(2) this]
  have f: "owner_index u = i" "counter_of u = counter m + 1"
    using uuid_fields [OF u(2), of i] u(1) by (simp_all add: add.assoc)
  have "u < (i + 1) * 2 ^ 48" using u(1,2) by simp
  with rest f u(3) m1(3) show ?case by fastforce
qed simp

lemma make_minters_ok:
  assumes "make_minters es d = Inr (ms, d')" "dynamic_ok d"
  shows "dynamic_ok d' \<and> map_of d \<subseteq>\<^sub>m map_of d' \<and> length ms = length es \<and>
    (\<forall>k < length es. \<exists>i \<le> MAX_ENTITY_INDEX. index_in d' (es ! k) = Some i \<and>
      prefix_bits (ms ! k) = push_bit COUNTER_BITS i \<and> counter (ms ! k) = 0)"
  using assms
proof (induction es arbitrary: d ms)
  case (Cons e es)
  obtain m d1 ms1 where m: "new_minter e d = Inr (m, d1)" "make_minters es d1 = Inr (ms1, d')" "ms = m # ms1"
    using Cons.prems(1) by auto
  then obtain i where i: "entity_index e d = Inr (i, d1)" "prefix_bits m = push_bit COUNTER_BITS i" "counter m = 0"
    by (auto simp: new_minter_def)
  note e = entity_index_in [OF i(1) Cons.prems(2)]
  note rest = Cons.IH [OF m(2)] e
  then have "index_in d' e = Some i" using index_in_mono by blast
  moreover have "map_of d \<subseteq>\<^sub>m map_of d'" using rest map_le_trans by blast
  ultimately show ?case using rest m(3) i(2,3) by (auto simp: nth_Cons split: nat.splits)
qed simp

text \<open>A minter starts at 1, so a minter that hands out anything hands out that counter.\<close>

lemma mint_many_first:
  assumes "mint_many n m = Inr (us, m')" "prefix_bits m = push_bit COUNTER_BITS i" "us \<noteq> []"
  shows "i * 2 ^ 48 + counter m + 1 \<in> set us"
proof (cases n)
  case 0
  with assms show ?thesis by simp
next
  case (Suc k)
  then obtain u m1 where "mint m = Inr (u, m1)" "u \<in> set us" using assms(1) by auto
  with mint_ok(1) [OF _ assms(2)] show ?thesis by simp
qed

text \<open>
  C19. What tensor uuids identify. Whatever entities make a minter in a process, in whatever
  order, one several times or a worker under several spellings, and however many uuids each
  mints: the uuids of one minter are distinct, below \<open>2 ^ 64\<close> (the wire format's width) and
  their upper bits are the index of its entity; and the uuids of two minters that both mint collide
  exactly when their entities are one id or two spellings of one worker's rank, which the code
  does not tell apart, so a process that makes one minter per entity and spells each worker's
  rank in one way never has a collision.
\<close>

theorem uuids_globally_unique:
  assumes ms: "make_minters es [] = Inr (ms, d)"
    and uss: "list_all2 (\<lambda>m us. \<exists>n m'. mint_many n m = Inr (us, m')) ms uss"
  shows "length uss = length es \<and>
    (\<forall>k < length es. distinct (uss ! k) \<and>
      (\<forall>u \<in> set (uss ! k). u < 2 ^ 64 \<and> index_in d (es ! k) = Some (owner_index u))) \<and>
    (\<forall>j < length es. \<forall>k < length es. uss ! j \<noteq> [] \<and> uss ! k \<noteq> [] \<longrightarrow>
      (set (uss ! j) \<inter> set (uss ! k) \<noteq> {} \<longleftrightarrow> same_owner (es ! j) (es ! k)))"
proof -
  note made = make_minters_ok [OF ms dynamic_ok_Nil]
  have len: "length uss = length es" "length ms = length es" using made list_all2_lengthD [OF uss] by simp_all
  have "\<exists>i. i \<le> MAX_ENTITY_INDEX \<and> index_in d (es ! k) = Some i \<and> distinct (uss ! k) \<and>
      (\<forall>u \<in> set (uss ! k). owner_index u = i \<and> u < (i + 1) * 2 ^ 48) \<and>
      (uss ! k \<noteq> [] \<longrightarrow> i * 2 ^ 48 + 1 \<in> set (uss ! k))" if k: "k < length es" for k
  proof -
    obtain i where i: "i \<le> MAX_ENTITY_INDEX" "index_in d (es ! k) = Some i"
      "prefix_bits (ms ! k) = push_bit COUNTER_BITS i" "counter (ms ! k) = 0" using made k by blast
    obtain n m' where "mint_many n (ms ! k) = Inr (uss ! k, m')"
      using list_all2_nthD [OF uss, of k] k len by auto
    from mint_many_ok [OF this i(3)] mint_many_first [OF this i(3)] i show ?thesis by auto
  qed
  then obtain f where f: "\<And>k. k < length es \<Longrightarrow> f k \<le> MAX_ENTITY_INDEX \<and> index_in d (es ! k) = Some (f k) \<and>
      distinct (uss ! k) \<and> (\<forall>u \<in> set (uss ! k). owner_index u = f k \<and> u < (f k + 1) * 2 ^ 48) \<and>
      (uss ! k \<noteq> [] \<longrightarrow> f k * 2 ^ 48 + 1 \<in> set (uss ! k))" by metis
  have "distinct (uss ! k) \<and> (\<forall>u \<in> set (uss ! k). u < 2 ^ 64 \<and> index_in d (es ! k) = Some (owner_index u))"
    if k: "k < length es" for k
  proof -
    have "(f k + 1) * 2 ^ 48 \<le> 65536 * 2 ^ 48" using f [OF k] by (simp add: layout_defs)
    then show ?thesis using f [OF k] by fastforce
  qed
  moreover have "set (uss ! j) \<inter> set (uss ! k) \<noteq> {} \<longleftrightarrow> same_owner (es ! j) (es ! k)"
    if "j < length es" "k < length es" "uss ! j \<noteq> []" "uss ! k \<noteq> []" for j k
  proof -
    have "f j = f k \<longleftrightarrow> same_owner (es ! j) (es ! k)" using same_index made f that by blast
    moreover have "set (uss ! j) \<inter> set (uss ! k) \<noteq> {} \<longleftrightarrow> f j = f k"
      using f [OF that(1)] f [OF that(2)] that by (metis disjoint_iff)
    ultimately show ?thesis by blast
  qed
  ultimately show ?thesis using len(1) by blast
qed

theorem uuids_globally_unique_witness:
  "set [281474976710657, 281474976710658] \<inter> set [9223372036854775809 :: nat] = {} \<and>
   set [281474976710657, 281474976710658] \<inter> set [281474976710657 :: nat] \<noteq> {}"
proof -
  let ?es = "[''worker_0'', ''probe'', ''worker_00'']"
  let ?ms = "[\<lparr>prefix_bits = 281474976710656, counter = 0\<rparr>, \<lparr>prefix_bits = 9223372036854775808, counter = 0\<rparr>,
    \<lparr>prefix_bits = 281474976710656, counter = 0\<rparr>]"
  let ?uss = "[[281474976710657, 281474976710658], [9223372036854775809 :: nat], [281474976710657]]"
  have ms: "make_minters ?es [] = Inr (?ms, [(''probe'', 32768)])"
    by (simp add: new_minter_def entity_index_def dynamic_index_def uuid_eval layout_defs Let_def)
  have "mint_many (Suc (Suc 0)) (?ms ! 0) = Inr (?uss ! 0, \<lparr>prefix_bits = 281474976710656, counter = 2\<rparr>)"
    "mint_many (Suc 0) (?ms ! 1) = Inr (?uss ! 1, \<lparr>prefix_bits = 9223372036854775808, counter = 1\<rparr>)"
    "mint_many (Suc 0) (?ms ! 2) = Inr (?uss ! 2, \<lparr>prefix_bits = 281474976710656, counter = 1\<rparr>)"
    by (simp add: mint_def layout_defs Let_def, simp add: numeral_2_eq_2 [symmetric])
      (simp_all add: mint_def layout_defs Let_def)
  then have us: "list_all2 (\<lambda>m us. \<exists>n m'. mint_many n m = Inr (us, m')) ?ms ?uss"
    by (simp del: mint_many.simps) blast
  note all = uuids_globally_unique [OF ms us, THEN conjunct2, THEN conjunct2, rule_format]
  have o: "\<not> same_owner ''worker_0'' ''probe''" "same_owner ''worker_0'' ''worker_00''"
    by (simp_all add: same_owner_def is_worker_def rank_of_def uuid_eval)
  then show ?thesis using all [of 0 1] all [of 0 2] by simp
qed

text \<open>
  Two spellings of a worker's rank name the same index: a worker started as
  \<open>worker_01\<close> would mint the uuids of \<open>worker_1\<close>. The launcher spells ranks by
  \<open>str\<close>, so the collision is latent.
\<close>

lemma rank_spelling_collides:
  "entity_index ''worker_01'' d = Inr (2, d) \<and> entity_index ''worker_1'' d = Inr (2, d) \<and>
    rbind (new_minter ''worker_01'' d) (\<lambda>(m, _). mint m) = rbind (new_minter ''worker_1'' d) (\<lambda>(m, _). mint m)"
proof -
  have "entity_index ''worker_01'' d = Inr (2, d)" "entity_index ''worker_1'' d = Inr (2, d)"
    by (simp_all add: entity_index_def uuid_eval layout_defs)
  then show ?thesis by (simp add: new_minter_def)
qed

end
