(* ===== verification/Worker_Graphs.thy ===== *)
theory Worker_Graphs imports Graph_Wiring begin

text \<open>
  How a walk's graph is cut into worker graphs, \<open>mstar/model/base.py\<close>: \<open>WorkerGraph\<close> with the rank
  mesh of its instances, and \<open>_divide_into_worker_graphs\<close>. A \<open>NodeGroup\<close> of the serving config has
  the fields the division reads. The ids of worker graphs are the conductor's to assign and left out.
\<close>

section \<open>Worker graphs\<close>

record node_group =
  ng_ranks :: "nat list"
  ng_tp_size :: nat
  ng_sp_size :: nat

record 'd worker_graph =
  wr_section :: "'d graph_section"
  wr_walks :: "string list"
  wr_consumes_stream :: bool
  wr_ranks :: "nat list"
  wr_tp_size :: nat
  wr_sp_size :: nat
  wr_tp_ranks :: "nat list list"
  wr_sp_ranks :: "nat list list"
  wr_instance_ranks :: "nat list list"
  wr_tp_comm_size :: nat
  wr_group :: nat

text \<open>One instance's ranks as a mesh: its rows, and its columns.\<close>

definition mesh_rows :: "nat \<Rightarrow> nat \<Rightarrow> nat list \<Rightarrow> nat list list" where
  "mesh_rows tp sp block = map (\<lambda>s. take tp (drop (s * tp) block)) [0..<sp]"

definition mesh_columns :: "nat \<Rightarrow> nat \<Rightarrow> nat list \<Rightarrow> nat list list" where
  "mesh_columns tp sp block = map (\<lambda>t. map (\<lambda>s. mesh_rows tp sp block ! s ! t) [0..<sp]) [0..<tp]"

definition instance_blocks :: "nat \<Rightarrow> nat list \<Rightarrow> nat list list" where
  "instance_blocks inst ranks = map (\<lambda>i. take inst (drop (i * inst) ranks)) [0..<length ranks div inst]"

definition new_worker_graph ::
  "'d graph_section \<Rightarrow> string list \<Rightarrow> bool \<Rightarrow> node_group \<Rightarrow> nat \<Rightarrow> 'd worker_graph res" where
  "new_worker_graph sec walks consumes ng gid = (let
     tp = ng_tp_size ng; sp = ng_sp_size ng; inst = tp * sp;
     w = \<lparr>wr_section = sec, wr_walks = walks, wr_consumes_stream = consumes, wr_ranks = ng_ranks ng,
       wr_tp_size = tp, wr_sp_size = sp, wr_tp_ranks = [], wr_sp_ranks = [], wr_instance_ranks = [],
       wr_tp_comm_size = 1, wr_group = gid\<rparr>
   in if \<not> (tp > 1 \<or> sp > 1) then Inr w
      else if inst = 0 then Inl ZeroDivisionError
      else if length (ng_ranks ng) mod inst \<noteq> 0 then Inl AssertionError
      else let blocks = instance_blocks inst (ng_ranks ng) in
        Inr (w\<lparr>wr_tp_ranks := concat (map (mesh_rows tp sp) blocks), wr_sp_ranks := concat (map (mesh_columns tp sp) blocks),
          wr_instance_ranks := blocks, wr_tp_comm_size := tp, wr_tp_size := inst\<rparr>))"

definition replica_ranks :: "'d worker_graph \<Rightarrow> nat list list" where
  "replica_ranks w = (if wr_instance_ranks w \<noteq> [] then wr_instance_ranks w else map (\<lambda>r. [r]) (wr_ranks w))"

section \<open>Cutting a graph\<close>

fun combine_sequential :: "'d graph_section \<Rightarrow> 'd graph_section \<Rightarrow> 'd graph_section" where
  "combine_sequential (SeqSec as) (SeqSec bs) = SeqSec (as @ bs)"
| "combine_sequential (SeqSec as) t = SeqSec (as @ [t])"
| "combine_sequential s (SeqSec bs) = SeqSec (s # bs)"
| "combine_sequential s t = SeqSec [s, t]"

fun combine_parallel :: "'d graph_section \<Rightarrow> 'd graph_section \<Rightarrow> 'd graph_section" where
  "combine_parallel (ParSec as) (ParSec bs) = ParSec (as @ bs)"
| "combine_parallel (ParSec as) t = ParSec (as @ [t])"
| "combine_parallel s (ParSec bs) = ParSec (s # bs)"
| "combine_parallel s t = ParSec [s, t]"

record placement =
  pl_walk :: string
  pl_group :: "string \<rightharpoonup> nat"
  pl_groups :: "node_group list"
  pl_streams :: "string set"

definition divide_node :: "placement \<Rightarrow> 'd node_decl \<Rightarrow> 'd worker_graph list res" where
  "divide_node p n = (let n = register_streaming (pl_streams p \<inter> nd_inputs n) n in
     case pl_group p (nd_name n) of None \<Rightarrow> Inl KeyError | Some i \<Rightarrow>
       rbind (get_at (pl_groups p) i) (\<lambda>ng.
       rbind (new_worker_graph (NodeSec n) [pl_walk p] (nd_consumes_stream n) ng i) (\<lambda>w. Inr [w])))"

text \<open>A \<open>Sequential\<close>: the next member's first worker graph joins the last one so far, in the same
  group, unless a stream feeds it.\<close>

definition merge_next :: "'d worker_graph list \<Rightarrow> 'd worker_graph list \<Rightarrow> 'd worker_graph list res" where
  "merge_next new so_far = rbind (get_at new 0) (\<lambda>n.
     if so_far = [] then Inl IndexError
     else let l = last so_far in
       if wr_group n = wr_group l \<and> \<not> wr_consumes_stream n
       then Inr (butlast so_far @ [l\<lparr>wr_section := combine_sequential (wr_section l) (wr_section n)\<rparr>] @ tl new)
       else Inr (so_far @ new))"

definition divide_sequential :: "'d worker_graph list res list \<Rightarrow> 'd worker_graph list res" where
  "divide_sequential rs = (case rs of [] \<Rightarrow> Inl IndexError
     | r # rs \<Rightarrow> rbind r (rfold (\<lambda>r so_far. rbind r (\<lambda>new. merge_next new so_far)) rs))"

text \<open>A \<open>Parallel\<close>: members that are one worker graph each are merged by group; the rest follow.\<close>

definition lone :: "'d worker_graph list \<Rightarrow> bool" where
  "lone ws \<longleftrightarrow> length ws = 1 \<and> \<not> wr_consumes_stream (hd ws)"

definition merge_lone :: "'d worker_graph \<Rightarrow> (nat, 'd worker_graph) dict \<Rightarrow> (nat, 'd worker_graph) dict" where
  "merge_lone w d = dict_set (wr_group w) (case map_of d (wr_group w) of None \<Rightarrow> w
     | Some v \<Rightarrow> v\<lparr>wr_section := combine_parallel (wr_section v) (wr_section w)\<rparr>) d"

definition divide_parallel :: "'d worker_graph list res list \<Rightarrow> 'd worker_graph list res" where
  "divide_parallel rs = rbind (rfold (\<lambda>r all. rbind r (\<lambda>ws. Inr (all @ [ws]))) rs []) (\<lambda>all.
     if [] \<in> set all then Inl IndexError
     else Inr (map snd (fold merge_lone (map hd (filter lone all)) []) @ concat (filter (\<lambda>ws. \<not> lone ws) all)))"

text \<open>A \<open>Loop\<close>: every worker graph of its section gets a loop of its own, of the same name, with the
  whole loop's signature less the streamed inputs.\<close>

definition loop_part :: "string set \<Rightarrow> 'd loop_decl \<Rightarrow> 'd graph_section \<Rightarrow> 'd loop_decl" where
  "loop_part streams d s = (let l = new_loop d s in
     d\<lparr>ld_outputs := ls_outputs l, ld_accumulated := ls_accumulated l,
       ld_external := Some {p \<in> ls_external l. fst p \<notin> streams}, ld_loop_back := Some (ls_loop_back l)\<rparr>)"

definition divide_loop :: "'d loop_decl \<Rightarrow> 'd worker_graph list res \<Rightarrow> 'd worker_graph list res" where
  "divide_loop d r = rbind r (\<lambda>ws. rfold (\<lambda>w out. rbind (construct (LoopSec d (wr_section w))) (\<lambda>_.
     Inr (out @ [w\<lparr>wr_section := LoopSec d (wr_section w)\<rparr>]))) ws [])"

fun divide_into_worker_graphs :: "placement \<Rightarrow> 'd graph_section \<Rightarrow> 'd worker_graph list res" where
  "divide_into_worker_graphs p (NodeSec n) = divide_node p n"
| "divide_into_worker_graphs p (SeqSec ss) = divide_sequential (map (divide_into_worker_graphs p) ss)"
| "divide_into_worker_graphs p (ParSec ss) = divide_parallel (map (divide_into_worker_graphs p) ss)"
| "divide_into_worker_graphs p (LoopSec d s) = divide_loop (loop_part (pl_streams p) d s) (divide_into_worker_graphs p s)"

section \<open>Placement\<close>

text \<open>\<open>_get_worker_graphs_for_graph_walk\<close>: the last group that lists a node for the walk has it, and
  the streams are those into the walk's partition.\<close>

record walk_group =
  wk_nodes :: "string list"
  wk_walks :: "string list option"
  wk_group :: node_group

definition group_of_nodes :: "string \<Rightarrow> walk_group list \<Rightarrow> string \<rightharpoonup> nat" where
  "group_of_nodes walk gs = fold (\<lambda>(i, g) m. if (case wk_walks g of None \<Rightarrow> False | Some ws \<Rightarrow> walk \<notin> set ws) then m
     else fold (\<lambda>x m. m(x \<mapsto> i)) (wk_nodes g) m) (zip [0..<length gs] gs) Map.empty"

definition partition_of_walk :: "string \<Rightarrow> string \<Rightarrow> (string \<times> string list) list \<Rightarrow> string" where
  "partition_of_walk fallback walk parts = (case List.find (\<lambda>(_, ws). walk \<in> set ws) parts of None \<Rightarrow> fallback | Some (x, _) \<Rightarrow> x)"

definition worker_graphs_for_walk :: "string \<Rightarrow> (string \<times> string list) list \<Rightarrow> (string \<times> string) list \<Rightarrow> string \<Rightarrow>
    'd graph_section \<Rightarrow> walk_group list \<Rightarrow> 'd worker_graph list res" where
  "worker_graphs_for_walk fallback parts connections walk g gs = (let part = partition_of_walk fallback walk parts in
     divide_into_worker_graphs \<lparr>pl_walk = walk, pl_group = group_of_nodes walk gs, pl_groups = map wk_group gs,
       pl_streams = {edge. (part, edge) \<in> set connections}\<rparr> g)"

end
