(* ===== verification/Worker_Cut.thy ===== *)
theory Worker_Cut imports Worker_Graphs begin

text \<open>
  What holds of every worker graph a division makes, by one induction over the division: a
  relation between a section and a worker graph cut from it that nodes start with and that
  merging and wrapping keep.
\<close>

section \<open>Combining sections\<close>

lemma combine_simps [simp]:
  "get_nodes (combine_sequential s t) = get_nodes s @ get_nodes t"
  "get_nodes (combine_parallel s t) = get_nodes s @ get_nodes t"
  "loop_names (combine_sequential s t) = loop_names s @ loop_names t"
  "loop_names (combine_parallel s t) = loop_names s @ loop_names t"
  by (cases s; cases t; simp)+

lemma find_append: "List.find P (xs @ ys) = (case List.find P xs of None \<Rightarrow> List.find P ys | Some x \<Rightarrow> Some x)"
  by (induction xs) auto

lemma find_Some_None: "List.find (\<lambda>r. r \<noteq> None) rs \<noteq> Some None"
  by (auto simp: find_Some_iff)

lemma enclosing_append:
  "enclosing x (SeqSec (as @ bs)) = (case enclosing x (SeqSec as) of None \<Rightarrow> enclosing x (SeqSec bs) | Some c \<Rightarrow> Some c)"
  "enclosing x (ParSec (as @ bs)) = (case enclosing x (ParSec as) of None \<Rightarrow> enclosing x (ParSec bs) | Some c \<Rightarrow> Some c)"
  using find_Some_None [of "map (enclosing x) as"] by (auto simp: find_append split: option.splits)

lemma enclosing_single: "enclosing x (SeqSec [s]) = enclosing x s" "enclosing x (ParSec [s]) = enclosing x s"
  by (auto split: option.splits)

lemma enclosing_cons:
  "enclosing x (SeqSec (a # as)) = (case enclosing x a of None \<Rightarrow> enclosing x (SeqSec as) | Some c \<Rightarrow> Some c)"
  "enclosing x (ParSec (a # as)) = (case enclosing x a of None \<Rightarrow> enclosing x (ParSec as) | Some c \<Rightarrow> Some c)"
  using enclosing_append [of x "[a]" as] by (simp_all only: append_Cons append_Nil enclosing_single)

lemma enclosing_combine:
  "enclosing x (combine_sequential s t) = (case enclosing x s of None \<Rightarrow> enclosing x t | Some c \<Rightarrow> Some c)"
  "enclosing x (combine_parallel s t) = (case enclosing x s of None \<Rightarrow> enclosing x t | Some c \<Rightarrow> Some c)"
proof -
  have r: "(case r of None \<Rightarrow> None | Some c \<Rightarrow> Some c) = r" for r :: "string list option" by (cases r) simp_all
  have n: "enclosing x (SeqSec []) = None" "enclosing x (ParSec []) = None" by simp_all
  show "enclosing x (combine_sequential s t) = (case enclosing x s of None \<Rightarrow> enclosing x t | Some c \<Rightarrow> Some c)"
    by (cases s; cases t) (simp_all only: combine_sequential.simps enclosing_append enclosing_cons n r)
  show "enclosing x (combine_parallel s t) = (case enclosing x s of None \<Rightarrow> enclosing x t | Some c \<Rightarrow> Some c)"
    by (cases s; cases t) (simp_all only: combine_parallel.simps enclosing_append enclosing_cons n r)
qed

section \<open>Sequences and parallel members\<close>

lemma rfold_snoc: "rfold (\<lambda>r all. rbind r (\<lambda>x. Inr (all @ [x]))) rs xs = Inr ys \<longleftrightarrow> (\<exists>zs. ys = xs @ zs \<and> rs = map Inr zs)"
proof (induction rs arbitrary: xs)
  case (Cons r rs)
  then show ?case by (cases r) (auto simp: Cons_eq_map_conv)
qed auto

text \<open>One step of a division: what a relation has to keep.\<close>

locale cut =
  fixes P :: "'d graph_section \<Rightarrow> 'd worker_graph \<Rightarrow> bool" and p :: placement
  assumes node: "divide_node p n = Inr [w] \<Longrightarrow> P (NodeSec n) w"
    and seq_left: "P (SeqSec ss) w \<Longrightarrow> P (SeqSec (ss @ [s])) w"
    and seq_right: "P s w \<Longrightarrow> P (SeqSec (ss @ [s])) w"
    and seq_merge: "P (SeqSec ss) l \<Longrightarrow> P s w \<Longrightarrow> wr_group w = wr_group l \<Longrightarrow> \<not> wr_consumes_stream w \<Longrightarrow>
      P (SeqSec (ss @ [s])) (l\<lparr>wr_section := combine_sequential (wr_section l) (wr_section w)\<rparr>)"
    and par_left: "P (ParSec ss) w \<Longrightarrow> P (ParSec (ss @ [s])) w"
    and par_right: "P s w \<Longrightarrow> P (ParSec (ss @ [s])) w"
    and par_merge: "P (ParSec ss) l \<Longrightarrow> P s w \<Longrightarrow> wr_group w = wr_group l \<Longrightarrow> \<not> wr_consumes_stream w \<Longrightarrow>
      P (ParSec (ss @ [s])) (l\<lparr>wr_section := combine_parallel (wr_section l) (wr_section w)\<rparr>)"
    and loop: "P s w \<Longrightarrow> P (LoopSec d s) (w\<lparr>wr_section := LoopSec (loop_part (pl_streams p) d s) (wr_section w)\<rparr>)"
begin

lemma merge_next_keeps:
  assumes m: "merge_next new so_far = Inr ws" and n: "\<forall>w \<in> set new. P s w" and l: "\<forall>w \<in> set so_far. P (SeqSec ss) w"
  shows "\<forall>w \<in> set ws. P (SeqSec (ss @ [s])) w"
proof -
  from m have e: "new \<noteq> []" "so_far \<noteq> []" by (auto simp: merge_next_def res_simps split: if_splits)
  have hd_in: "hd new \<in> set new" and last_in: "last so_far \<in> set so_far" using e by simp_all
  have sub: "set (butlast so_far) \<subseteq> set so_far" "set (tl new) \<subseteq> set new" by (auto dest: in_set_butlastD list.set_sel(2) [OF e(1)])
  consider "ws = butlast so_far @ [last so_far\<lparr>wr_section := combine_sequential (wr_section (last so_far)) (wr_section (hd new))\<rparr>] @ tl new"
      "wr_group (hd new) = wr_group (last so_far)" "\<not> wr_consumes_stream (hd new)"
    | "ws = so_far @ new"
    using m e by (auto simp: merge_next_def get_at_def hd_conv_nth Let_def split: if_splits)
  then show ?thesis
  proof cases
    case 1
    have "P (SeqSec (ss @ [s])) (last so_far\<lparr>wr_section := combine_sequential (wr_section (last so_far)) (wr_section (hd new))\<rparr>)"
      using seq_merge 1 n l hd_in last_in by blast
    then show ?thesis using 1(1) n l sub seq_left seq_right by auto
  next
    case 2
    then show ?thesis using n l seq_left seq_right by auto
  qed
qed

lemma merge_lone_keeps:
  assumes d: "\<forall>(k, v) \<in> set d. P (ParSec ss) v \<and> wr_group v = k" and w: "P s w" "\<not> wr_consumes_stream w"
  shows "\<forall>(k, v) \<in> set (merge_lone w d). P (ParSec (ss @ [s])) v \<and> wr_group v = k"
proof -
  have sub: "set (merge_lone w d) \<subseteq> insert (wr_group w, case map_of d (wr_group w) of None \<Rightarrow> w
     | Some v \<Rightarrow> v\<lparr>wr_section := combine_parallel (wr_section v) (wr_section w)\<rparr>) (set d)"
    unfolding merge_lone_def by (rule set_dict_set)
  have old: "P (ParSec (ss @ [s])) v \<and> wr_group v = k" if "(k, v) \<in> set d" for k v using d that par_left by auto
  have "P (ParSec (ss @ [s])) (v\<lparr>wr_section := combine_parallel (wr_section v) (wr_section w)\<rparr>) \<and> wr_group v = wr_group w"
    if "map_of d (wr_group w) = Some v" for v
  proof -
    have "P (ParSec ss) v" "wr_group v = wr_group w" using d map_of_SomeD [OF that] by auto
    then show ?thesis using par_merge w by auto
  qed
  then show ?thesis using sub old par_right [OF w(1)] by (cases "map_of d (wr_group w)") auto
qed

lemma parallel_keeps:
  assumes "list_all2 (\<lambda>s ws. \<forall>w \<in> set ws. P s w) ss all" and "[] \<notin> set all"
  shows "(\<forall>(k, v) \<in> set (fold merge_lone (map hd (filter lone all)) []). P (ParSec ss) v \<and> wr_group v = k)
    \<and> (\<forall>w \<in> set (concat all). P (ParSec ss) w)"
  using assms
proof (induction ss arbitrary: all rule: rev_induct)
  case (snoc s ss)
  from snoc.prems(1) obtain before ws where all: "all = before @ [ws]" "list_all2 (\<lambda>s ws. \<forall>w \<in> set ws. P s w) ss before"
    and ws: "\<forall>w \<in> set ws. P s w" by (auto simp: list_all2_append1 list_all2_Cons1)
  have IH: "\<forall>(k, v) \<in> set (fold merge_lone (map hd (filter lone before)) []). P (ParSec ss) v \<and> wr_group v = k"
    "\<forall>w \<in> set (concat before). P (ParSec ss) w"
    using snoc.IH [OF all(2)] snoc.prems(2) all(1) by simp_all
  have "\<forall>(k, v) \<in> set (fold merge_lone (map hd (filter lone all)) []). P (ParSec (ss @ [s])) v \<and> wr_group v = k"
  proof (cases "lone ws")
    case True
    then have "P s (hd ws)" "\<not> wr_consumes_stream (hd ws)" using ws by (cases ws; simp add: lone_def)+
    with True show ?thesis using merge_lone_keeps [OF IH(1)] by (simp add: all(1))
  next
    case False
    then show ?thesis using IH(1) par_left by (auto simp: all(1))
  qed
  moreover have "\<forall>w \<in> set (concat all). P (ParSec (ss @ [s])) w" using IH(2) ws par_left par_right by (auto simp: all(1))
  ultimately show ?case by blast
qed simp_all

lemma sequential_keeps:
  assumes "list_all2 (\<lambda>s r. \<forall>ws. r = Inr ws \<longrightarrow> (\<forall>w \<in> set ws. P s w)) ss rs" and "\<forall>w \<in> set so_far. P (SeqSec before) w"
    and "rfold (\<lambda>r so_far. rbind r (\<lambda>new. merge_next new so_far)) rs so_far = Inr ws"
  shows "\<forall>w \<in> set ws. P (SeqSec (before @ ss)) w"
  using assms
proof (induction ss arbitrary: rs before so_far)
  case (Cons s ss)
  from Cons.prems(1) obtain r rs' where rs: "rs = r # rs'" "\<forall>ws. r = Inr ws \<longrightarrow> (\<forall>w \<in> set ws. P s w)"
    "list_all2 (\<lambda>s r. \<forall>ws. r = Inr ws \<longrightarrow> (\<forall>w \<in> set ws. P s w)) ss rs'" by (auto simp: list_all2_Cons1)
  from Cons.prems(3) obtain new mid where m: "r = Inr new" "merge_next new so_far = Inr mid"
    "rfold (\<lambda>r so_far. rbind r (\<lambda>new. merge_next new so_far)) rs' mid = Inr ws" by (auto simp: rs(1))
  have "\<forall>w \<in> set mid. P (SeqSec (before @ [s])) w" 
    by (rule merge_next_keeps [OF m(2) _ Cons.prems(2)]) (use rs(2) m(1) in blast)
  from Cons.IH [OF rs(3) this m(3)] show ?case by simp
qed simp

lemma kept: "divide_into_worker_graphs p g = Inr ws \<Longrightarrow> w \<in> set ws \<Longrightarrow> P g w"
proof (induction g arbitrary: ws w)
  case (NodeSec n)
  then have "ws = [w]" by (auto simp: divide_node_def Let_def split: option.splits)
  then show ?case using NodeSec node by simp
next
  case (SeqSec ss)
  have all: "list_all2 (\<lambda>s r. \<forall>ws. r = Inr ws \<longrightarrow> (\<forall>w \<in> set ws. P s w)) ss (map (divide_into_worker_graphs p) ss)"
    using SeqSec.IH by (auto simp: list_all2_map2 list.rel_refl_strong)
  then show ?case
  proof (cases ss)
    case (Cons s ss')
    with SeqSec.prems obtain ws0 where ws0: "divide_into_worker_graphs p s = Inr ws0"
      "rfold (\<lambda>r so_far. rbind r (\<lambda>new. merge_next new so_far)) (map (divide_into_worker_graphs p) ss') ws0 = Inr ws"
      by (auto simp: divide_sequential_def)
    have "\<forall>w \<in> set ws0. P (SeqSec [s]) w" using all ws0(1) Cons seq_right [of s _ "[]"] by auto
    from sequential_keeps [OF _ this ws0(2)] all SeqSec.prems(2) show ?thesis by (simp add: Cons)
  qed (use SeqSec.prems in \<open>simp add: divide_sequential_def\<close>)
next
  case (ParSec ss)
  then obtain all where all: "map (divide_into_worker_graphs p) ss = map Inr all" "[] \<notin> set all"
    "ws = map snd (fold merge_lone (map hd (filter lone all)) []) @ concat (filter (\<lambda>ws. \<not> lone ws) all)"
    by (auto simp: divide_parallel_def rfold_snoc split: if_splits)
  have "list_all2 (\<lambda>s ws. \<forall>w \<in> set ws. P s w) ss all"
  proof (rule list_all2I)
    show "length ss = length all" using map_eq_imp_length_eq [OF all(1)] .
    show "\<forall>(s, ws) \<in> set (zip ss all). \<forall>w \<in> set ws. P s w"
    proof (clarsimp simp: set_zip)
      fix i w assume i: "i < length ss" "i < length all" "w \<in> set (all ! i)"
      have "divide_into_worker_graphs p (ss ! i) = Inr (all ! i)" using arg_cong [OF all(1), of "\<lambda>xs. xs ! i"] i by simp
      then show "P (ss ! i) w" using ParSec.IH i by simp
    qed
  qed
  note keeps = parallel_keeps [OF this all(2)]
  show ?case using ParSec.prems(2) keeps by (fastforce simp: all(3))
next
  case (LoopSec d s)
  from LoopSec.prems(1) obtain ws0 where ws0: "divide_into_worker_graphs p s = Inr ws0"
    "rfold (\<lambda>w out. rbind (construct (LoopSec (loop_part (pl_streams p) d s) (wr_section w))) (\<lambda>_.
       Inr (out @ [w\<lparr>wr_section := LoopSec (loop_part (pl_streams p) d s) (wr_section w)\<rparr>]))) ws0 [] = Inr ws"
    by (auto simp: divide_loop_def)
  have "\<forall>w \<in> set ws. P (LoopSec d s) w"
    by (rule rfold_invariant [OF ws0(2), where P = "\<lambda>out. \<forall>w \<in> set out. P (LoopSec d s) w"])
      (use LoopSec.IH [OF ws0(1)] loop in auto)
  then show ?case using LoopSec.prems(2) by blast
qed

end

end
