(* ===== verification/Worker_Graph_Props.thy ===== *)
theory Worker_Graph_Props imports Worker_Cut begin

text \<open>
  What the division of a graph into worker graphs promises: the worker graphs share out the nodes,
  each on its own group and inside the same loops; a stream enters a worker graph at its first
  node only; the rank mesh of an instance is a grid; and a placed graph can be divided.
\<close>

section \<open>Which nodes\<close>

definition placed_nodes :: "placement \<Rightarrow> 'd graph_section \<Rightarrow> 'd node_decl list" where
  "placed_nodes p g = map (\<lambda>n. register_streaming (pl_streams p \<inter> nd_inputs n) n) (get_nodes g)"

definition nodes_of :: "'d worker_graph list \<Rightarrow> 'd node_decl list" where
  "nodes_of ws = concat (map (\<lambda>w. get_nodes (wr_section w)) ws)"

lemma nodes_of_simps [simp]:
  "nodes_of [] = []" "nodes_of (w # ws) = get_nodes (wr_section w) @ nodes_of ws"
  "nodes_of (us @ ws) = nodes_of us @ nodes_of ws"
  by (simp_all add: nodes_of_def)

lemma register_streaming_name [simp]: "nd_name (register_streaming ss n) = nd_name n"
  by (simp add: register_streaming_def)

lemma placed_names: "map nd_name (placed_nodes p g) = node_names g"
  by (simp add: placed_nodes_def node_names_def comp_def)

lemma merge_next_nodes:
  assumes "merge_next new so_far = Inr ws"
  shows "nodes_of ws = nodes_of so_far @ nodes_of new"
proof -
  from assms have e: "new \<noteq> []" "so_far \<noteq> []" by (auto simp: merge_next_def res_simps split: if_splits)
  have s: "nodes_of so_far = nodes_of (butlast so_far) @ get_nodes (wr_section (last so_far))"
    using nodes_of_simps(3) [of "butlast so_far" "[last so_far]"] e(2) by simp
  have n: "nodes_of new = get_nodes (wr_section (hd new)) @ nodes_of (tl new)" using e(1) by (cases new) simp_all
  from assms e show ?thesis by (auto simp: merge_next_def get_at_def hd_conv_nth Let_def s n split: if_splits)
qed

lemma dict_set_nodes:
  "mset (nodes_of (map snd (dict_set k v d))) + (case map_of d k of None \<Rightarrow> {#} | Some u \<Rightarrow> mset (get_nodes (wr_section u)))
     = mset (nodes_of (map snd d)) + mset (get_nodes (wr_section v))"
  by (induction d) (auto split: option.splits)

lemma merge_lone_nodes:
  "mset (nodes_of (map snd (fold merge_lone ws d))) = mset (nodes_of (map snd d)) + mset (nodes_of ws)"
proof (induction ws arbitrary: d)
  case (Cons w ws)
  have "mset (nodes_of (map snd (merge_lone w d))) = mset (nodes_of (map snd d)) + mset (get_nodes (wr_section w))"
    using dict_set_nodes [of "wr_group w" "case map_of d (wr_group w) of None \<Rightarrow> w
      | Some v \<Rightarrow> v\<lparr>wr_section := combine_parallel (wr_section v) (wr_section w)\<rparr>" d]
    unfolding merge_lone_def by (cases "map_of d (wr_group w)") (auto simp: ac_simps)
  with Cons show ?case by (simp add: ac_simps)
qed simp

lemma split_lone_nodes:
  "mset (nodes_of (map hd (filter lone all))) + mset (nodes_of (concat (filter (\<lambda>ws. \<not> lone ws) all))) = mset (nodes_of (concat all))"
proof (induction all)
  case (Cons ws all)
  have "ws = [hd ws]" if "lone ws" using that by (cases ws) (auto simp: lone_def)
  then have "lone ws \<Longrightarrow> nodes_of ws = get_nodes (wr_section (hd ws))"
    by (metis nodes_of_simps(1,2) append_Nil2)
  with Cons show ?case by (auto simp: ac_simps)
qed simp

lemma loop_nodes_kept:
  assumes "rfold (\<lambda>w out. rbind (f w) (\<lambda>_. Inr (out @ [w\<lparr>wr_section := LoopSec d (wr_section w)\<rparr>]))) ws out = Inr ws'"
  shows "nodes_of ws' = nodes_of out @ nodes_of ws"
  using assms by (induction ws arbitrary: out) auto

lemma sequential_nodes:
  assumes "rfold (\<lambda>r so_far. rbind r (\<lambda>new. merge_next new so_far)) rs so_far = Inr ws"
  shows "nodes_of ws = nodes_of so_far @ concat (map (nodes_of \<circ> projr) rs)"
  using assms by (induction rs arbitrary: so_far) (auto simp: merge_next_nodes)

lemma divided_nodes: "divide_into_worker_graphs p g = Inr ws \<Longrightarrow> mset (nodes_of ws) = mset (placed_nodes p g)"
proof (induction g arbitrary: ws)
  case (NodeSec n)
  then show ?case
    by (auto simp: divide_node_def new_worker_graph_def placed_nodes_def Let_def split: option.splits if_splits)
next
  case (SeqSec ss)
  then obtain s ss' where ss: "ss = s # ss'" by (cases ss) (auto simp: divide_sequential_def)
  with SeqSec.prems obtain ws0 where ws0: "divide_into_worker_graphs p s = Inr ws0"
    "rfold (\<lambda>r so_far. rbind r (\<lambda>new. merge_next new so_far)) (map (divide_into_worker_graphs p) ss') ws0 = Inr ws"
    by (auto simp: divide_sequential_def)
  have ok: "\<forall>t \<in> set ss'. is_ok (divide_into_worker_graphs p t)"
    using ws0(2) by (induction ss' arbitrary: ws0) auto
  have "mset (concat (map (nodes_of \<circ> projr) (map (divide_into_worker_graphs p) ts))) = mset (placed_nodes p (SeqSec ts))"
    if "set ts \<subseteq> set ss'" for ts
    using that
  proof (induction ts)
    case (Cons t ts)
    then have "divide_into_worker_graphs p t = Inr (projr (divide_into_worker_graphs p t))" using ok ok_projr by auto
    then have "mset (nodes_of (projr (divide_into_worker_graphs p t))) = mset (placed_nodes p t)"
      using SeqSec.IH [of t] Cons.prems by (simp add: ss)
    with Cons show ?case by (simp add: placed_nodes_def)
  qed (simp add: placed_nodes_def)
  from this [OF order.refl] sequential_nodes [OF ws0(2)] SeqSec.IH [of s ws0] ws0(1) show ?case
    by (simp add: ss placed_nodes_def)
next
  case (ParSec ss)
  then obtain all where all: "map (divide_into_worker_graphs p) ss = map Inr all"
    "ws = map snd (fold merge_lone (map hd (filter lone all)) []) @ concat (filter (\<lambda>ws. \<not> lone ws) all)"
    by (auto simp: divide_parallel_def rfold_snoc split: if_splits)
  have "mset (nodes_of ws) = mset (nodes_of (concat all))"
    using split_lone_nodes [of all] by (simp add: all(2) merge_lone_nodes)
  moreover have "mset (nodes_of (concat all)) = mset (placed_nodes p (ParSec ss))" using all(1) ParSec.IH
  proof (induction ss arbitrary: all)
    case (Cons s ss)
    then obtain a all' where a: "all = a # all'" "divide_into_worker_graphs p s = Inr a"
      "map (divide_into_worker_graphs p) ss = map Inr all'" by (cases all) auto
    with Cons show ?case by (simp add: placed_nodes_def)
  qed (simp add: placed_nodes_def)
  ultimately show ?case by simp
next
  case (LoopSec d s)
  then show ?case by (auto simp: divide_loop_def placed_nodes_def dest: loop_nodes_kept)
qed

section \<open>Instances of the induction\<close>

lemma loop_part_name [simp]: "ld_name (loop_part streams d s) = ld_name d"
  by (simp add: loop_part_def Let_def)

lemma new_worker_graph_fields:
  assumes "new_worker_graph sec walks b ng i = Inr w"
  shows "wr_section w = sec" "wr_walks w = walks" "wr_consumes_stream w = b" "wr_group w = i" "wr_ranks w = ng_ranks ng"
  using assms by (auto simp: new_worker_graph_def Let_def split: if_splits)

lemma new_worker_graph_section:
  "new_worker_graph sec walks b ng i = Inr w \<Longrightarrow> new_worker_graph sec' walks b ng i = Inr (w\<lparr>wr_section := sec'\<rparr>)"
  by (auto simp: new_worker_graph_def Let_def split: if_splits)

text \<open>A worker graph has the mesh of its group.\<close>

definition built_for :: "placement \<Rightarrow> 'd worker_graph \<Rightarrow> bool" where
  "built_for p w \<longleftrightarrow> wr_group w < length (pl_groups p) \<and>
     new_worker_graph (wr_section w) [pl_walk p] (wr_consumes_stream w) (pl_groups p ! wr_group w) (wr_group w) = Inr w"

lemma built_for_section: "built_for p w \<Longrightarrow> built_for p (w\<lparr>wr_section := sec\<rparr>)"
  unfolding built_for_def using new_worker_graph_section by (simp, blast)

lemma divide_node_Inr:
  assumes "divide_node p n = Inr [w]"
  obtains n' i where "n' = register_streaming (pl_streams p \<inter> nd_inputs n) n" "pl_group p (nd_name n) = Some i" "i < length (pl_groups p)"
    "new_worker_graph (NodeSec n') [pl_walk p] (nd_consumes_stream n') (pl_groups p ! i) i = Inr w"
  using assms that by (auto simp: divide_node_def Let_def res_simps split: option.splits)

interpretation built: cut "\<lambda>g. built_for p" p for p :: placement
proof
  fix n w assume "divide_node p n = Inr [w]"
  then obtain n' i where "i < length (pl_groups p)"
    and w: "new_worker_graph (NodeSec n') [pl_walk p] (nd_consumes_stream n') (pl_groups p ! i) i = Inr w"
    by (rule divide_node_Inr) blast
  then show "built_for p w" using new_worker_graph_fields [OF w] by (simp add: built_for_def)
qed (auto intro: built_for_section)

definition on_group :: "placement \<Rightarrow> 'd worker_graph \<Rightarrow> bool" where
  "on_group p w \<longleftrightarrow> (\<forall>n \<in> set (get_nodes (wr_section w)). pl_group p (nd_name n) = Some (wr_group w))"

interpretation grouped: cut "\<lambda>g. on_group p" p for p :: placement
proof
  fix n w assume "divide_node p n = Inr [w]"
  then obtain n' i where "n' = register_streaming (pl_streams p \<inter> nd_inputs n) n" "pl_group p (nd_name n) = Some i"
    and w: "new_worker_graph (NodeSec n') [pl_walk p] (nd_consumes_stream n') (pl_groups p ! i) i = Inr w"
    by (rule divide_node_Inr) blast
  then show "on_group p w" using new_worker_graph_fields [OF w] by (simp add: on_group_def)
qed (auto simp: on_group_def)

text \<open>Only the first node may take a stream, and the flag says whether it does.\<close>

definition stream_first :: "'d worker_graph \<Rightarrow> bool" where
  "stream_first w \<longleftrightarrow> (\<exists>n ns. get_nodes (wr_section w) = n # ns \<and> nd_consumes_stream n = wr_consumes_stream w
     \<and> (\<forall>m \<in> set ns. \<not> nd_consumes_stream m))"

lemma stream_first_merge:
  assumes "stream_first l" "stream_first w" "\<not> wr_consumes_stream w" "get_nodes sec = get_nodes (wr_section l) @ get_nodes (wr_section w)"
  shows "stream_first (l\<lparr>wr_section := sec\<rparr>)"
  using assms by (auto simp: stream_first_def)

interpretation streams: cut "\<lambda>g. stream_first" p for p :: placement
proof
  fix n w assume "divide_node p n = Inr [w]"
  then obtain n' i where w: "new_worker_graph (NodeSec n') [pl_walk p] (nd_consumes_stream n') (pl_groups p ! i) i = Inr w"
    by (rule divide_node_Inr) blast
  then show "stream_first w" using new_worker_graph_fields [OF w] by (simp add: stream_first_def)
qed (auto intro: stream_first_merge, auto simp: stream_first_def)

text \<open>A worker graph has a part of the graph's names.\<close>

definition names_from :: "'d graph_section \<Rightarrow> 'd worker_graph \<Rightarrow> bool" where
  "names_from g w \<longleftrightarrow> mset (node_names (wr_section w)) \<subseteq># mset (node_names g) \<and> mset (loop_names (wr_section w)) \<subseteq># mset (loop_names g)"

lemma names_from_simps:
  "node_names (combine_sequential s t) = node_names s @ node_names t"
  "node_names (combine_parallel s t) = node_names s @ node_names t"
  by (simp_all add: node_names_def)

lemma subset_mset_append: "A \<subseteq># B \<Longrightarrow> A \<subseteq># B + C" "A \<subseteq># C \<Longrightarrow> A \<subseteq># B + C" for A :: "'a multiset"
  using subset_mset.add_increasing2 subset_mset.add_increasing by (metis empty_le)+

interpretation named: cut names_from p for p :: placement
proof
  fix n w assume "divide_node p n = Inr [w]"
  then obtain n' i where "n' = register_streaming (pl_streams p \<inter> nd_inputs n) n"
    and w: "new_worker_graph (NodeSec n') [pl_walk p] (nd_consumes_stream n') (pl_groups p ! i) i = Inr w"
    by (rule divide_node_Inr) blast
  then show "names_from (NodeSec n) w" using new_worker_graph_fields [OF w] by (simp add: names_from_def)
qed (auto simp: names_from_def names_from_simps subset_mset_append intro: subset_mset.add_mono)

lemma distinct_mset_mono_list: "mset xs \<subseteq># mset ys \<Longrightarrow> distinct ys \<Longrightarrow> distinct xs"
proof -
  assume s: "mset xs \<subseteq># mset ys" and d: "distinct ys"
  have "count (mset xs) a \<le> 1" for a
    using order_trans [OF mset_subset_eq_count [OF s, of a], of 1] d [unfolded distinct_count_atmost_1, rule_format, of a]
    by (simp split: if_splits)
  moreover have "count (mset xs) a = 0 \<longleftrightarrow> a \<notin> set xs" for a by (metis count_eq_zero_iff set_mset_mset)
  ultimately show "distinct xs" unfolding distinct_count_atmost_1 by (metis le_antisym less_one not_le)
qed

lemma names_from_ok: "names_from g w \<Longrightarrow> names_ok g \<Longrightarrow> names_ok (wr_section w)"
proof -
  assume "names_from g w"
  then have "mset (node_names (wr_section w) @ loop_names (wr_section w)) \<subseteq># mset (node_names g @ loop_names g)"
    unfolding names_from_def mset_append by (blast intro: subset_mset.add_mono)
  moreover assume "names_ok g"
  ultimately show "names_ok (wr_section w)" unfolding names_ok_def by (rule distinct_mset_mono_list)
qed

text \<open>Around a node or loop of a worker graph are the loops of the graph.\<close>

definition nested_as :: "'d graph_section \<Rightarrow> 'd worker_graph \<Rightarrow> bool" where
  "nested_as g w \<longleftrightarrow> (names_ok g \<longrightarrow> (\<forall>x c. enclosing x (wr_section w) = Some c \<longrightarrow> enclosing x g = Some c))"


lemma case_some: "(case a of None \<Rightarrow> b | Some c \<Rightarrow> Some c) = Some x \<longleftrightarrow> a = Some x \<or> a = None \<and> b = Some x"
  by (cases a) auto

interpretation nested: cut nested_as p for p :: placement
proof
  fix n w assume "divide_node p n = Inr [w]"
  then obtain n' i where "n' = register_streaming (pl_streams p \<inter> nd_inputs n) n"
    and w: "new_worker_graph (NodeSec n') [pl_walk p] (nd_consumes_stream n') (pl_groups p ! i) i = Inr w"
    by (rule divide_node_Inr) blast
  then show "nested_as (NodeSec n) w" using new_worker_graph_fields [OF w] by (simp add: nested_as_def)
next
  fix ss :: "'d graph_section list" and s :: "'d graph_section" and w :: "'d worker_graph"
  have s: "s \<in> set (ss @ [s])" by simp
  have seq: "names_ok (SeqSec ss) \<and> names_ok s" if "names_ok (SeqSec (ss @ [s]))"
    using that names_ok_parts(1) [OF that s] by (auto simp: names_ok_def)
  have par: "names_ok (ParSec ss) \<and> names_ok s" if "names_ok (ParSec (ss @ [s]))"
    using that names_ok_parts(2) [OF that s] by (auto simp: names_ok_def)
  note part = enclosing_part [OF _ s]
  show left: "nested_as (SeqSec ss) w \<Longrightarrow> nested_as (SeqSec (ss @ [s])) w" for w
    using seq unfolding nested_as_def enclosing_append case_some by blast
  show right: "nested_as s w \<Longrightarrow> nested_as (SeqSec (ss @ [s])) w" for w
    using seq part unfolding nested_as_def by blast
  show left': "nested_as (ParSec ss) w \<Longrightarrow> nested_as (ParSec (ss @ [s])) w" for w
    using par unfolding nested_as_def enclosing_append case_some by blast
  show right': "nested_as s w \<Longrightarrow> nested_as (ParSec (ss @ [s])) w" for w
    using par part unfolding nested_as_def by blast
  fix l :: "'d worker_graph"
  have m: "nested_as g (l\<lparr>wr_section := sec\<rparr>)" if "nested_as g l" "nested_as g w"
    "\<And>x. enclosing x sec = (case enclosing x (wr_section l) of None \<Rightarrow> enclosing x (wr_section w) | Some c \<Rightarrow> Some c)" for g sec
  proof -
    have sec: "wr_section (l\<lparr>wr_section := sec\<rparr>) = sec" by simp
    show ?thesis using that(1,2) unfolding nested_as_def sec that(3) case_some by blast
  qed
  show "nested_as (SeqSec ss) l \<Longrightarrow> nested_as s w \<Longrightarrow>
      nested_as (SeqSec (ss @ [s])) (l\<lparr>wr_section := combine_sequential (wr_section l) (wr_section w)\<rparr>)"
    by (rule m [OF left right enclosing_combine(1)])
  show "nested_as (ParSec ss) l \<Longrightarrow> nested_as s w \<Longrightarrow>
      nested_as (ParSec (ss @ [s])) (l\<lparr>wr_section := combine_parallel (wr_section l) (wr_section w)\<rparr>)"
    by (rule m [OF left' right' enclosing_combine(2)])
next
  fix s :: "'d graph_section" and d and w :: "'d worker_graph"
  assume "nested_as s w"
  then show "nested_as (LoopSec d s) (w\<lparr>wr_section := LoopSec (loop_part (pl_streams p) d s) (wr_section w)\<rparr>)"
    using names_ok_parts(3) [of d s] by (auto simp: nested_as_def split: if_splits)
qed

section \<open>The promises of a division\<close>

text \<open>
  C37. Dividing a walk's graph shares its nodes out: every node, marked with the streams that
  feed it, is in exactly one worker graph, the one of the node group that lists it; the parts'
  names are unique; and a node or loop is nested in the loops it is nested in in the graph.
\<close>
theorem division_refines:
  assumes "names_ok g" and "divide_into_worker_graphs p g = Inr ws"
  shows "mset (concat (map (\<lambda>w. get_nodes (wr_section w)) ws)) =
      mset (map (\<lambda>n. register_streaming (pl_streams p \<inter> nd_inputs n) n) (get_nodes g)) \<and>
    (\<forall>w \<in> set ws. names_ok (wr_section w) \<and>
      (\<forall>n \<in> set (get_nodes (wr_section w)). pl_group p (nd_name n) = Some (wr_group w)) \<and>
      (\<forall>x \<in> set (node_names (wr_section w) @ loop_names (wr_section w)). enclosing x (wr_section w) = enclosing x g))"
proof (intro conjI ballI)
  show "mset (concat (map (\<lambda>w. get_nodes (wr_section w)) ws)) =
      mset (map (\<lambda>n. register_streaming (pl_streams p \<inter> nd_inputs n) n) (get_nodes g))"
    using divided_nodes [OF assms(2)] by (simp add: nodes_of_def placed_nodes_def)
  fix w assume w: "w \<in> set ws"
  show "names_ok (wr_section w)" by (rule names_from_ok [OF named.kept [OF assms(2) w] assms(1)])
  show "pl_group p (nd_name n) = Some (wr_group w)" if "n \<in> set (get_nodes (wr_section w))" for n
    using grouped.kept [OF assms(2) w] that by (simp add: on_group_def)
  show "enclosing x (wr_section w) = enclosing x g" if "x \<in> set (node_names (wr_section w) @ loop_names (wr_section w))" for x
  proof -
    have "enclosing x (wr_section w) \<noteq> None" unfolding enclosing_iff all_names_def by (rule that)
    then obtain c where "enclosing x (wr_section w) = Some c" by blast
    then show ?thesis using nested.kept [OF assms(2) w] assms(1) by (simp add: nested_as_def)
  qed
qed

text \<open>
  C39. A stream enters a worker graph only at its first node: of the nodes of a worker graph at most the first
  one consumes a stream, which \<open>consumes_stream\<close> reports.
\<close>
theorem streams_enter_first:
  assumes "divide_into_worker_graphs p g = Inr ws" and "w \<in> set ws"
  shows "get_nodes (wr_section w) \<noteq> [] \<and> wr_consumes_stream w = nd_consumes_stream (hd (get_nodes (wr_section w))) \<and>
    (\<forall>n \<in> set (tl (get_nodes (wr_section w))). \<not> nd_consumes_stream n)"
  using streams.kept [OF assms] by (auto simp: stream_first_def)


section \<open>Divisions succeed\<close>

lemma construct_all [simp]:
  "construct (SeqSec ss) = Inr () \<longleftrightarrow> (\<forall>s \<in> set ss. construct s = Inr ())"
  "construct (ParSec ss) = Inr () \<longleftrightarrow> (\<forall>s \<in> set ss. construct s = Inr ())"
  by (induction ss) auto

lemma construct_combine:
  "construct (combine_sequential s t) = Inr () \<longleftrightarrow> construct s = Inr () \<and> construct t = Inr ()"
  "construct (combine_parallel s t) = Inr () \<longleftrightarrow> construct s = Inr () \<and> construct t = Inr ()"
  by (cases s; cases t; auto simp del: construct.simps(2,3))+

lemma construct_loop:
  "construct (LoopSec d s) = Inr () \<longleftrightarrow> construct s = Inr () \<and>
     ge_name ` set (kept_outputs (get_inputs_outputs s) (ld_outputs d)) \<inter> ge_name ` set (kept_outputs (get_inputs_outputs s) (ld_accumulated d)) = {}"
  by (auto simp: Let_def)

text \<open>A part of a loop keeps the loop's outputs disjoint.\<close>

lemma construct_loop_part:
  assumes "construct (LoopSec d s) = Inr ()" and "construct t = Inr ()"
  shows "construct (LoopSec (loop_part streams d s) t) = Inr ()"
  using assms unfolding construct_loop by (auto simp: loop_part_def new_loop_def kept_outputs_def Let_def disjoint_iff)

definition built_ok :: "'d graph_section \<Rightarrow> 'd worker_graph \<Rightarrow> bool" where
  "built_ok g w \<longleftrightarrow> (construct g = Inr () \<longrightarrow> construct (wr_section w) = Inr ())"

interpretation constructed: cut built_ok p for p :: placement
proof
  fix n w assume "divide_node p n = Inr [w]"
  then obtain n' i where w: "new_worker_graph (NodeSec n') [pl_walk p] (nd_consumes_stream n') (pl_groups p ! i) i = Inr w"
    by (rule divide_node_Inr) blast
  then show "built_ok (NodeSec n) w" using new_worker_graph_fields [OF w] by (simp add: built_ok_def)
next
  fix s :: "'d graph_section" and d and w :: "'d worker_graph"
  assume "built_ok s w"
  then show "built_ok (LoopSec d s) (w\<lparr>wr_section := LoopSec (loop_part (pl_streams p) d s) (wr_section w)\<rparr>)"
    using construct_loop_part [of d s "wr_section w" "pl_streams p"] construct_loop [of d s] unfolding built_ok_def by simp
qed (auto simp: built_ok_def construct_combine simp del: construct.simps)

fun no_empty :: "'d graph_section \<Rightarrow> bool" where
  "no_empty (NodeSec n) \<longleftrightarrow> True"
| "no_empty (SeqSec ss) \<longleftrightarrow> ss \<noteq> [] \<and> (\<forall>s \<in> set ss. no_empty s)"
| "no_empty (ParSec ss) \<longleftrightarrow> ss \<noteq> [] \<and> (\<forall>s \<in> set ss. no_empty s)"
| "no_empty (LoopSec d s) \<longleftrightarrow> no_empty s"

definition mesh_ok :: "node_group \<Rightarrow> bool" where
  "mesh_ok ng \<longleftrightarrow> ng_tp_size ng \<le> 1 \<and> ng_sp_size ng \<le> 1 \<or>
     ng_tp_size ng * ng_sp_size ng > 0 \<and> length (ng_ranks ng) mod (ng_tp_size ng * ng_sp_size ng) = 0"

definition placed_on :: "placement \<Rightarrow> string \<Rightarrow> bool" where
  "placed_on p x \<longleftrightarrow> (case pl_group p x of None \<Rightarrow> False | Some i \<Rightarrow> i < length (pl_groups p) \<and> mesh_ok (pl_groups p ! i))"

lemma new_worker_graph_ok: "mesh_ok ng \<Longrightarrow> \<exists>w. new_worker_graph sec walks b ng i = Inr w"
  by (auto simp: new_worker_graph_def mesh_ok_def Let_def)

definition divides :: "'d worker_graph list res \<Rightarrow> bool" where
  "divides r \<longleftrightarrow> (\<exists>ws. r = Inr ws \<and> ws \<noteq> [])"

lemma merge_next_divides: "new \<noteq> [] \<Longrightarrow> so_far \<noteq> [] \<Longrightarrow> divides (merge_next new so_far)"
  by (auto simp: merge_next_def get_at_def Let_def divides_def)

lemma sequential_divides:
  assumes "rs \<noteq> []" "\<forall>r \<in> set rs. divides r"
  shows "divides (divide_sequential rs)"
proof -
  have fold: "divides (rfold (\<lambda>r so_far. rbind r (\<lambda>new. merge_next new so_far)) rs so_far)"
    if "\<forall>r \<in> set rs. divides r" "so_far \<noteq> []" for rs and so_far :: "'a worker_graph list"
    using that
  proof (induction rs arbitrary: so_far)
    case (Cons r rs)
    then obtain new where new: "r = Inr new" "new \<noteq> []" by (auto simp: divides_def)
    obtain mid where "merge_next new so_far = Inr mid" "mid \<noteq> []"
      using merge_next_divides [OF new(2) Cons.prems(2)] by (auto simp: divides_def)
    with Cons new show ?case by simp
  qed (simp add: divides_def)
  from assms obtain r rs' ws where "rs = r # rs'" "r = Inr ws" "ws \<noteq> []" by (cases rs) (auto simp: divides_def)
  then show ?thesis using fold [of rs' ws] assms(2) by (simp add: divide_sequential_def)
qed

lemma merge_lone_nonempty: "fold merge_lone ws d = [] \<longleftrightarrow> ws = [] \<and> d = []"
proof (induction ws arbitrary: d)
  case (Cons w ws)
  have "merge_lone w d \<noteq> []" unfolding merge_lone_def by (cases d) auto
  with Cons show ?case by simp
qed simp

lemma parallel_divides:
  assumes "rs \<noteq> []" "\<forall>r \<in> set rs. divides r"
  shows "divides (divide_parallel rs)"
proof -
  have r: "rs = map Inr (map projr rs)" using assms(2) by (induction rs) (auto simp: divides_def)
  have ne: "[] \<notin> set (map projr rs)" using assms(2) by (auto simp: divides_def)
  have "rfold (\<lambda>r all. rbind r (\<lambda>ws. Inr (all @ [ws]))) rs [] = Inr (map projr rs)"
    using r unfolding rfold_snoc by simp
  moreover have "filter lone (map projr rs) \<noteq> [] \<or> concat (filter (\<lambda>ws. \<not> lone ws) (map projr rs)) \<noteq> []"
  proof (rule ccontr)
    assume "\<not> ?thesis"
    then have "\<forall>ws \<in> set (map projr rs). ws = []" by (auto simp: filter_empty_conv)
    with ne assms(1) show False by (cases rs) auto
  qed
  ultimately show ?thesis using ne by (auto simp: divide_parallel_def divides_def merge_lone_nonempty)
qed

lemma loop_divides:
  assumes "divides (Inr ws)" "\<forall>w \<in> set ws. construct (LoopSec d (wr_section w)) = Inr ()"
  shows "divides (divide_loop d (Inr ws))"
proof -
  have "rfold (\<lambda>w out. rbind (construct (LoopSec d (wr_section w))) (\<lambda>_.
      Inr (out @ [w\<lparr>wr_section := LoopSec d (wr_section w)\<rparr>]))) ws out =
      Inr (out @ map (\<lambda>w. w\<lparr>wr_section := LoopSec d (wr_section w)\<rparr>) ws)" for out
    using assms(2) by (induction ws arbitrary: out) (auto simp del: construct.simps)
  then show ?thesis using assms(1) unfolding divide_loop_def divides_def rbind_simps by simp
qed

text \<open>
  C38. A graph that could be constructed, with no empty sequence or parallel composition in it, is always divided when every
  node is listed by a node group whose ranks its parallelism divides evenly.
\<close>
theorem division_succeeds:
  assumes "construct g = Inr ()" and "no_empty g"
    and "\<forall>x \<in> set (node_names g). case pl_group p x of None \<Rightarrow> False | Some i \<Rightarrow> i < length (pl_groups p) \<and> mesh_ok (pl_groups p ! i)"
  shows "\<exists>ws. divide_into_worker_graphs p g = Inr ws \<and> ws \<noteq> []"
proof -
  have "divides (divide_into_worker_graphs p g)"
    if "construct g = Inr ()" "no_empty g" "\<forall>x \<in> set (node_names g). placed_on p x" for g
    using that
  proof (induction g)
    case (NodeSec n)
    then obtain i where i: "pl_group p (nd_name n) = Some i" "i < length (pl_groups p)" "mesh_ok (pl_groups p ! i)"
      by (auto simp: placed_on_def split: option.splits)
    show ?case using new_worker_graph_ok [OF i(3)] i(1,2) by (fastforce simp: divide_node_def divides_def Let_def)
  next
    case (SeqSec ss)
    then show ?case unfolding divide_into_worker_graphs.simps by (intro sequential_divides) (auto simp del: construct.simps)
  next
    case (ParSec ss)
    then show ?case unfolding divide_into_worker_graphs.simps by (intro parallel_divides) (auto simp del: construct.simps)
  next
    case (LoopSec d s)
    have "construct s = Inr ()" using LoopSec.prems(1) unfolding construct_loop by blast
    with LoopSec have "divides (divide_into_worker_graphs p s)" by (simp del: construct.simps)
    then obtain ws where ws: "divide_into_worker_graphs p s = Inr ws" "divides (Inr ws)" by (auto simp: divides_def)
    have "construct (LoopSec (loop_part (pl_streams p) d s) (wr_section w)) = Inr ()" if "w \<in> set ws" for w
      using constructed.kept [OF ws(1) that] \<open>construct s = Inr ()\<close> construct_loop_part [OF LoopSec.prems(1)]
      unfolding built_ok_def by blast
    then show ?case unfolding divide_into_worker_graphs.simps ws(1) by (intro loop_divides ws(2)) blast
  qed
  with assms show ?thesis unfolding placed_on_def divides_def by blast
qed

section \<open>A divided graph\<close>

text \<open>A diffusion loop over two groups with a decoder after it, the decoder on the second group.\<close>

definition demo_part :: "string \<Rightarrow> string set \<Rightarrow> unit graph_edge list \<Rightarrow> unit graph_section" where
  "demo_part x inputs outputs = NodeSec \<lparr>nd_name = x, nd_inputs = inputs, nd_outputs = outputs, nd_consumes_stream = False,
     nd_async_scheduling = False, nd_streaming = {}\<rparr>"

definition demo_walk :: "unit graph_section" where
  "demo_walk = SeqSec [LoopSec \<lparr>ld_name = ''L'', ld_max_iters = 4, ld_outputs = [new_edge ''V'' ''z''], ld_accumulated = [],
       ld_external = None, ld_loop_back = None\<rparr>
     (SeqSec [demo_part ''A'' {''z''} [new_edge ''B'' ''a''], demo_part ''B'' {''a''} [new_edge ''C'' ''b''],
       demo_part ''C'' {''b''} [new_edge ''A'' ''z'']]), demo_part ''V'' {''z''} []]"

definition demo_placement :: placement where
  "demo_placement = \<lparr>pl_walk = ''W'', pl_group = [''A'' \<mapsto> 0, ''B'' \<mapsto> 0, ''C'' \<mapsto> 1, ''V'' \<mapsto> 1],
     pl_groups = [\<lparr>ng_ranks = [0], ng_tp_size = 1, ng_sp_size = 1\<rparr>, \<lparr>ng_ranks = [1, 2], ng_tp_size = 2, ng_sp_size = 1\<rparr>],
     pl_streams = {''a''}\<rparr>"

definition demo_division :: "unit worker_graph list" where
  "demo_division = projr (divide_into_worker_graphs demo_placement demo_walk)"

lemma demo_divides: "divide_into_worker_graphs demo_placement demo_walk = Inr demo_division"
  unfolding demo_division_def by (rule ok_projr) code_simp

theorem division_refines_witness:
  "map (\<lambda>w. (node_names (wr_section w), wr_group w)) demo_division = [([''A''], 0), ([''B''], 0), ([''C'', ''V''], 1)] \<and>
    enclosing ''C'' (wr_section (last demo_division)) = enclosing ''C'' demo_walk"
proof -
  have "names_ok demo_walk" by code_simp
  note r = division_refines [OF this demo_divides]
  have m: "map (\<lambda>w. (node_names (wr_section w), wr_group w)) demo_division = [([''A''], 0), ([''B''], 0), ([''C'', ''V''], 1)]"
    by code_simp
  have l: "demo_division \<noteq> []" by code_simp
  have "node_names (wr_section (last demo_division)) = [''C'', ''V'']" by code_simp
  then have "''C'' \<in> set (node_names (wr_section (last demo_division)) @ loop_names (wr_section (last demo_division)))" by simp
  moreover have "last demo_division \<in> set demo_division" using l by (rule last_in_set)
  ultimately have "enclosing ''C'' (wr_section (last demo_division)) = enclosing ''C'' demo_walk" using r by blast
  with m show ?thesis by blast
qed

theorem streams_enter_first_witness:
  "map wr_consumes_stream demo_division = [False, True, False] \<and> nd_consumes_stream (hd (get_nodes (wr_section (demo_division ! 1))))"
proof -
  have m: "map wr_consumes_stream demo_division = [False, True, False]" by code_simp
  then have i: "length demo_division = 3" by (metis length_map length_Cons list.size(3) numeral_3_eq_3)
  have "wr_consumes_stream (demo_division ! 1)" using arg_cong [OF m, of "\<lambda>xs. xs ! 1"] i by simp
  moreover have "demo_division ! 1 \<in> set demo_division" using i by simp
  ultimately show ?thesis using streams_enter_first [OF demo_divides, of "demo_division ! 1"] m by simp
qed

theorem division_succeeds_witness: "\<exists>ws. divide_into_worker_graphs demo_placement demo_walk = Inr ws \<and> ws \<noteq> []"
proof (rule division_succeeds)
  show "construct demo_walk = Inr ()" "no_empty demo_walk" by code_simp+
  show "\<forall>x \<in> set (node_names demo_walk). case pl_group demo_placement x of None \<Rightarrow> False
      | Some i \<Rightarrow> i < length (pl_groups demo_placement) \<and> mesh_ok (pl_groups demo_placement ! i)" by code_simp
qed

end
