(* ===== verification/Worker_Mesh.thy ===== *)
theory Worker_Mesh imports Worker_Graphs begin

text \<open>
  The rank mesh of a worker graph: its instances tile the ranks of its group, and the rows and
  columns of an instance are the two directions of one grid.
\<close>

section \<open>Tiles\<close>

lemma concat_tiles: "concat (map (\<lambda>i. take n (drop (i * n) xs)) [0..<k]) = take (k * n) xs"
proof (induction k)
  case (Suc k)
  have "take (Suc k * n) xs = take (k * n) xs @ take n (drop (k * n) xs)"
    using take_add [of "k * n" n xs] by (simp add: add.commute)
  with Suc show ?case by simp
qed simp

lemma mset_concat_cons:
  "mset (concat (map (\<lambda>s. g s # h s) xs)) = mset (map g xs) + mset (concat (map h xs))"
  by (induction xs) (simp_all add: ac_simps)

lemma mset_transpose:
  "mset (concat (map (\<lambda>t. map (\<lambda>s. f s t) xs) ys)) = mset (concat (map (\<lambda>s. map (f s) ys) xs))"
proof (induction ys)
  case Nil
  show ?case by (induction xs) simp_all
qed (simp add: mset_concat_cons)

text \<open>The rank in row \<open>s\<close> and column \<open>t\<close> of instance \<open>i\<close>.\<close>

definition cell :: "nat \<Rightarrow> nat \<Rightarrow> nat list \<Rightarrow> nat \<Rightarrow> nat \<Rightarrow> nat \<Rightarrow> nat" where
  "cell tp sp ranks i s t = ranks ! (i * (tp * sp) + (s * tp + t))"

lemma offset_less: "s < sp \<Longrightarrow> t < tp \<Longrightarrow> s * tp + t < tp * (sp::nat)"
proof -
  assume "s < sp" "t < tp"
  then have "s * tp + t < Suc s * tp" by simp
  also have "Suc s * tp \<le> sp * tp" using \<open>s < sp\<close> by (intro mult_le_mono1) simp
  finally show ?thesis by (simp add: mult.commute)
qed

lemma digits_eq:
  fixes a b m n n' :: nat
  assumes "a * m + n = b * m + n'" "n < m" "n' < m"
  shows "a = b \<and> n = n'"
proof -
  have "(a * m + n) div m = (b * m + n') div m" "(a * m + n) mod m = (b * m + n') mod m" using assms(1) by simp_all
  with assms(2,3) show ?thesis by simp
qed

lemma cell_inject:
  assumes d: "distinct ranks" and i: "i < length ranks div (tp * sp)" "i' < length ranks div (tp * sp)"
    and s: "s < sp" "s' < sp" and t: "t < tp" "t' < tp" and e: "cell tp sp ranks i s t = cell tp sp ranks i' s' t'"
  shows "i = i' \<and> s = s' \<and> t = t'"
proof -
  have o: "s * tp + t < tp * sp" "s' * tp + t' < tp * sp" using s t offset_less by auto
  have len: "j * (tp * sp) + n < length ranks" if "j < length ranks div (tp * sp)" "n < tp * sp" for j n
  proof -
    have "j * (tp * sp) + n < Suc j * (tp * sp)" using that(2) by simp
    also have "\<dots> \<le> length ranks div (tp * sp) * (tp * sp)" using that(1) by (intro mult_le_mono1) simp
    finally show ?thesis using div_times_less_eq_dividend [of "length ranks" "tp * sp"] by linarith
  qed
  have "i * (tp * sp) + (s * tp + t) = i' * (tp * sp) + (s' * tp + t')"
    using e len [OF i(1) o(1)] len [OF i(2) o(2)] d by (simp add: cell_def nth_eq_iff_index_eq)
  from digits_eq [OF this o] digits_eq [of s tp t s' t'] t show ?thesis by simp
qed

lemma block_length:
  assumes "i < length ranks div inst"
  shows "i * inst + inst \<le> length ranks"
proof -
  have "Suc i * inst \<le> length ranks div inst * inst" using assms by (intro mult_le_mono1) simp
  then show ?thesis using div_times_less_eq_dividend [of "length ranks" inst] unfolding mult_Suc by linarith
qed

lemma rows_cells:
  assumes "i < length ranks div (tp * sp)"
  shows "mesh_rows tp sp (take (tp * sp) (drop (i * (tp * sp)) ranks)) = map (\<lambda>s. map (cell tp sp ranks i s) [0..<tp]) [0..<sp]"
proof (rule nth_equalityI)
  fix s assume "s < length (mesh_rows tp sp (take (tp * sp) (drop (i * (tp * sp)) ranks)))"
  then have s: "s < sp" by (simp add: mesh_rows_def)
  have len: "i * (tp * sp) + tp * sp \<le> length ranks" by (rule block_length [OF assms])
  have st: "Suc s * tp \<le> tp * sp" using s by (subst mult.commute [of tp]) (intro mult_le_mono1, simp)
  show "mesh_rows tp sp (take (tp * sp) (drop (i * (tp * sp)) ranks)) ! s = map (\<lambda>s. map (cell tp sp ranks i s) [0..<tp]) [0..<sp] ! s"
  proof (rule nth_equalityI)
    show "length (mesh_rows tp sp (take (tp * sp) (drop (i * (tp * sp)) ranks)) ! s) =
        length (map (\<lambda>s. map (cell tp sp ranks i s) [0..<tp]) [0..<sp] ! s)"
      using s len st by (simp add: mesh_rows_def)
    fix t assume "t < length (mesh_rows tp sp (take (tp * sp) (drop (i * (tp * sp)) ranks)) ! s)"
    then have t: "t < tp" using s by (simp add: mesh_rows_def)
    then show "mesh_rows tp sp (take (tp * sp) (drop (i * (tp * sp)) ranks)) ! s ! t =
        map (\<lambda>s. map (cell tp sp ranks i s) [0..<tp]) [0..<sp] ! s ! t"
      using s len st offset_less [OF s t] by (simp add: mesh_rows_def cell_def ac_simps)
  qed
qed (simp add: mesh_rows_def)

lemma columns_cells:
  assumes "i < length ranks div (tp * sp)"
  shows "mesh_columns tp sp (take (tp * sp) (drop (i * (tp * sp)) ranks)) = map (\<lambda>t. map (\<lambda>s. cell tp sp ranks i s t) [0..<sp]) [0..<tp]"
  unfolding mesh_columns_def rows_cells [OF assms] by simp

section \<open>The grid\<close>

lemma mesh_built:
  assumes "new_worker_graph sec walks b ng gid = Inr w" and "ng_tp_size ng > 1 \<or> ng_sp_size ng > 1"
  defines "inst \<equiv> ng_tp_size ng * ng_sp_size ng"
  defines "k \<equiv> length (ng_ranks ng) div inst" and "c \<equiv> cell (ng_tp_size ng) (ng_sp_size ng) (ng_ranks ng)"
  shows "ng_tp_size ng > 0" "ng_sp_size ng > 0" "length (ng_ranks ng) = k * inst"
    "wr_instance_ranks w = map (\<lambda>i. take inst (drop (i * inst) (ng_ranks ng))) [0..<k]"
    "wr_tp_ranks w = concat (map (\<lambda>i. map (\<lambda>s. map (c i s) [0..<ng_tp_size ng]) [0..<ng_sp_size ng]) [0..<k])"
    "wr_sp_ranks w = concat (map (\<lambda>i. map (\<lambda>t. map (\<lambda>s. c i s t) [0..<ng_sp_size ng]) [0..<ng_tp_size ng]) [0..<k])"
proof -
  have z: "inst \<noteq> 0" "length (ng_ranks ng) mod inst = 0" using assms(1,2) by (auto simp: new_worker_graph_def Let_def inst_def split: if_splits)
  then show "ng_tp_size ng > 0" "ng_sp_size ng > 0" by (simp_all add: inst_def)
  show "length (ng_ranks ng) = k * inst" using z(2) unfolding k_def by (metis add.right_neutral div_mult_mod_eq)
  have w: "wr_instance_ranks w = instance_blocks inst (ng_ranks ng)"
    "wr_tp_ranks w = concat (map (mesh_rows (ng_tp_size ng) (ng_sp_size ng)) (instance_blocks inst (ng_ranks ng)))"
    "wr_sp_ranks w = concat (map (mesh_columns (ng_tp_size ng) (ng_sp_size ng)) (instance_blocks inst (ng_ranks ng)))"
    using assms(1,2) z by (auto simp: new_worker_graph_def Let_def inst_def split: if_splits)
  show "wr_instance_ranks w = map (\<lambda>i. take inst (drop (i * inst) (ng_ranks ng))) [0..<k]"
    by (simp add: w instance_blocks_def k_def)
  show "wr_tp_ranks w = concat (map (\<lambda>i. map (\<lambda>s. map (c i s) [0..<ng_tp_size ng]) [0..<ng_sp_size ng]) [0..<k])"
    unfolding w(2) instance_blocks_def map_map comp_def c_def k_def inst_def by (intro arg_cong [of _ _ concat] map_cong refl) (simp add: rows_cells)
  show "wr_sp_ranks w = concat (map (\<lambda>i. map (\<lambda>t. map (\<lambda>s. c i s t) [0..<ng_sp_size ng]) [0..<ng_tp_size ng]) [0..<k])"
    unfolding w(3) instance_blocks_def map_map comp_def c_def k_def inst_def by (intro arg_cong [of _ _ concat] map_cong refl) (simp add: columns_cells)
qed

lemma row_meets_column:
  assumes d: "distinct ranks" and i: "i < length ranks div (tp * sp)" "i' < length ranks div (tp * sp)" and s: "s < sp" and t: "t < tp"
  shows "set (map (cell tp sp ranks i s) [0..<tp]) \<inter> set (map (\<lambda>s. cell tp sp ranks i' s t) [0..<sp]) =
    (if i = i' then {cell tp sp ranks i s t} else {})"
  using cell_inject [OF d i s _ _ t] s t by (auto, blast+)

lemma tile_cells:
  assumes "i < length ranks div (tp * sp)"
  shows "concat (map (\<lambda>s. map (cell tp sp ranks i s) [0..<tp]) [0..<sp]) = take (tp * sp) (drop (i * (tp * sp)) ranks)"
  using concat_tiles [of tp "take (tp * sp) (drop (i * (tp * sp)) ranks)" sp]
  by (simp flip: rows_cells [OF assms] add: mesh_rows_def mult.commute)

lemma in_one_tile:
  assumes "distinct ranks" "i < length ranks div (tp * sp)" "j < length ranks div (tp * sp)" "s < sp" "t < tp"
    "cell tp sp ranks i s t \<in> set (take (tp * sp) (drop (j * (tp * sp)) ranks))"
  shows "i = j"
  using assms(6) cell_inject [OF assms(1,2,3,4) _ assms(5)] unfolding tile_cells [OF assms(3), symmetric] by auto

text \<open>
  C40. With tensor or sequence parallelism the ranks of a worker graph are tiled by its instances; the rows
  (tensor-parallel groups) tile them, the columns (sequence-parallel groups) partition them, each of its
  degree's length, and a row and a column meet in exactly one rank if an instance holds both, and in none otherwise.
\<close>
theorem mesh_is_grid:
  assumes "new_worker_graph sec walks b ng gid = Inr w" and "ng_tp_size ng > 1 \<or> ng_sp_size ng > 1" and d: "distinct (ng_ranks ng)"
  shows "concat (replica_ranks w) = ng_ranks ng \<and> concat (wr_tp_ranks w) = ng_ranks ng \<and> mset (concat (wr_sp_ranks w)) = mset (ng_ranks ng) \<and>
    (\<forall>block \<in> set (replica_ranks w). length block = wr_tp_size w) \<and>
    (\<forall>row \<in> set (wr_tp_ranks w). length row = ng_tp_size ng) \<and> (\<forall>column \<in> set (wr_sp_ranks w). length column = ng_sp_size ng) \<and>
    (\<forall>row \<in> set (wr_tp_ranks w). \<forall>column \<in> set (wr_sp_ranks w). card (set row \<inter> set column) =
      (if \<exists>block \<in> set (replica_ranks w). set row \<subseteq> set block \<and> set column \<subseteq> set block then 1 else 0))"
proof -
  define tp sp ranks where "tp = ng_tp_size ng" and "sp = ng_sp_size ng" and "ranks = ng_ranks ng"
  define k c where "k = length ranks div (tp * sp)" and "c = cell tp sp ranks"
  note m = mesh_built [OF assms(1,2), folded tp_def sp_def ranks_def, folded k_def c_def]
  have size: "wr_tp_size w = tp * sp" and r: "wr_ranks w = ranks"
    using assms(1,2) by (auto simp: new_worker_graph_def Let_def tp_def sp_def ranks_def split: if_splits)
  have rep: "replica_ranks w = map (\<lambda>i. take (tp * sp) (drop (i * (tp * sp)) ranks)) [0..<k]"
    using m(3) r by (cases k) (simp_all add: replica_ranks_def m(4))
  note tile = tile_cells [of _ ranks tp sp, folded k_def c_def]
  have blocks: "concat (replica_ranks w) = ranks" unfolding rep concat_tiles by (simp add: m(3))
  have "concat (wr_tp_ranks w) = concat (map (\<lambda>i. concat (map (\<lambda>s. map (c i s) [0..<tp]) [0..<sp])) [0..<k])"
    unfolding m(5) by (induction k) simp_all
  also have "\<dots> = concat (replica_ranks w)" unfolding rep by (intro arg_cong [of _ _ concat] map_cong refl tile) simp
  finally have rows: "concat (wr_tp_ranks w) = ranks" by (simp add: blocks)
  have cols: "mset (concat (wr_sp_ranks w)) = mset (concat (wr_tp_ranks w))"
    unfolding m(5,6) by (induction k) (simp_all add: mset_transpose [of "\<lambda>t s. c _ s t"])
  have meet: "card (set row \<inter> set column) = (if \<exists>block \<in> set (replica_ranks w). set row \<subseteq> set block \<and> set column \<subseteq> set block then 1 else 0)"
    if row: "row \<in> set (wr_tp_ranks w)" and column: "column \<in> set (wr_sp_ranks w)" for row column
  proof -
    obtain i s where i: "i < k" "s < sp" "row = map (c i s) [0..<tp]" using row by (auto simp: m(5))
    obtain j t where j: "j < k" "t < tp" "column = map (\<lambda>s. c j s t) [0..<sp]" using column by (auto simp: m(6))
    have inb: "set row \<subseteq> set (replica_ranks w ! i)" "set column \<subseteq> set (replica_ranks w ! j)"
      using i j by (auto simp: rep tile [symmetric])
    have uni: "i = j" if b: "block \<in> set (replica_ranks w)" "set row \<subseteq> set block" "set column \<subseteq> set block" for block
    proof -
      obtain l where l: "l < k" "block = take (tp * sp) (drop (l * (tp * sp)) ranks)" using b(1) by (auto simp: rep)
      have "c i s t \<in> set row" "c j s t \<in> set column" using i j by auto
      then have "i = l" "j = l" using b(2,3) in_one_tile [of ranks _ tp sp l s t] i j l d unfolding c_def k_def ranks_def by blast+
      then show ?thesis by simp
    qed
    have "set row \<inter> set column = (if i = j then {c i s t} else {})"
      using row_meets_column [OF d, of i tp sp j s t] i j unfolding c_def k_def ranks_def by simp
    moreover have "(\<exists>block \<in> set (replica_ranks w). set row \<subseteq> set block \<and> set column \<subseteq> set block) \<longleftrightarrow> i = j"
    proof
      have mem: "replica_ranks w ! i \<in> set (replica_ranks w)" using i(1) by (simp add: rep)
      show "\<exists>block \<in> set (replica_ranks w). set row \<subseteq> set block \<and> set column \<subseteq> set block" if "i = j"
        using inb mem unfolding that by blast
    qed (use uni in blast)
    ultimately show ?thesis by simp
  qed
  have "length block = tp * sp" if b: "block \<in> set (replica_ranks w)" for block
  proof -
    obtain i where "i < k" "block = take (tp * sp) (drop (i * (tp * sp)) ranks)" using b by (auto simp: rep)
    then show ?thesis using block_length [of i ranks "tp * sp"] by (simp add: k_def)
  qed
  moreover have "\<forall>row \<in> set (wr_tp_ranks w). length row = tp" "\<forall>column \<in> set (wr_sp_ranks w). length column = sp"
    by (auto simp: m(5,6))
  ultimately show ?thesis using blocks rows cols meet unfolding size tp_def sp_def ranks_def by simp
qed

definition demo_group :: node_group where
  "demo_group = \<lparr>ng_ranks = [0, 1, 2, 3, 4, 5, 6, 7], ng_tp_size = 2, ng_sp_size = 2\<rparr>"

definition demo_section :: "unit graph_section" where
  "demo_section = NodeSec \<lparr>nd_name = ''dit'', nd_inputs = {''latent''}, nd_outputs = [], nd_consumes_stream = False,
     nd_async_scheduling = False, nd_streaming = {}\<rparr>"

definition demo_mesh :: "unit worker_graph" where
  "demo_mesh = projr (new_worker_graph demo_section [''image_gen''] False demo_group 0)"

theorem mesh_is_grid_witness:
  "wr_tp_ranks demo_mesh = [[0, 1], [2, 3], [4, 5], [6, 7]] \<and> wr_sp_ranks demo_mesh = [[0, 2], [1, 3], [4, 6], [5, 7]] \<and>
    mset (concat (wr_sp_ranks demo_mesh)) = mset [0, 1, 2, 3, 4, 5, 6, 7]"
proof -
  have w: "new_worker_graph demo_section [''image_gen''] False demo_group 0 = Inr demo_mesh"
    unfolding demo_mesh_def by (rule ok_projr) (simp add: new_worker_graph_def demo_group_def Let_def)
  have "mset (concat (wr_sp_ranks demo_mesh)) = mset (ng_ranks demo_group)"
    using mesh_is_grid [OF w] by (simp add: demo_group_def)
  moreover have "wr_tp_ranks demo_mesh = [[0, 1], [2, 3], [4, 5], [6, 7]]" "wr_sp_ranks demo_mesh = [[0, 2], [1, 3], [4, 6], [5, 7]]"
    by code_simp+
  ultimately show ?thesis by (simp only: demo_group_def node_group.simps simp_thms)
qed

end
