(* ===== verification/Windowing.thy ===== *)
theory Windowing imports MStar_Prelude begin

text \<open>
  Windowed generation, \<open>mstar/engine/windowing.py\<close>: \<open>WindowSchedule\<close> cuts a sequence of
  units into overlapping windows and says what each commits and what the cache may release;
  \<open>RetentionPolicy\<close> (\<open>mstar/engine/resources/kv/config.py\<close>) is what it declares to the
  KV pool, with the bound on the pages a stream under it holds. \<open>StopPolicy\<close> and
  \<open>TokenStop\<close> (\<open>mstar/model/submodule_base.py\<close>) decide when a loop's row stops.
\<close>

section \<open>Retention\<close>

record retention_policy =
  context_budget :: int
  protected_prefix :: int

definition new_retention :: "int \<Rightarrow> int \<Rightarrow> retention_policy res" where
  "new_retention budget prefix = (if budget \<le> 0 then Inl ValueError
     else if prefix < 0 then Inl ValueError
     else Inr \<lparr>context_budget = budget, protected_prefix = prefix\<rparr>)"

text \<open>Python's \<open>-(-a // b)\<close>.\<close>

definition ceil_div :: "int \<Rightarrow> int \<Rightarrow> int" where
  "ceil_div a b = - ((- a) div b)"

definition max_pages :: "int \<Rightarrow> int \<Rightarrow> retention_policy \<Rightarrow> int" where
  "max_pages page_size step p = (let prefix = protected_prefix p;
       window = max (prefix + context_budget p) (ceil_div prefix page_size * page_size)
     in ceil_div (window + page_size - 1 + step) page_size)"

lemma ceil_div_bounds:
  assumes "0 < b"
  shows "a \<le> ceil_div a b * b" "ceil_div a b * b < a + b"
proof -
  have "- a = (- a) div b * b + (- a) mod b" by simp
  moreover have "0 \<le> (- a) mod b" "(- a) mod b < b" using assms by simp_all
  ultimately show "a \<le> ceil_div a b * b" "ceil_div a b * b < a + b"
    unfolding ceil_div_def by linarith+
qed

text \<open>
  Enough pages: a stream whose released front keeps whole pages only, so that it holds less
  than a page over its budget (or ends within the prefix rounded up to a page), fits in
  \<open>max_pages\<close> pages together with the step being run.
\<close>

lemma max_pages_enough:
  assumes "0 < page_size"
    and "held < max (protected_prefix p + context_budget p) (ceil_div (protected_prefix p) page_size * page_size) + page_size"
  shows "ceil_div (held + step) page_size \<le> max_pages page_size step p"
proof -
  let ?w = "max (protected_prefix p + context_budget p) (ceil_div (protected_prefix p) page_size * page_size)"
  have "(- (?w + page_size - 1 + step)) div page_size \<le> (- (held + step)) div page_size"
    using assms by (intro zdiv_mono1) auto
  then show ?thesis by (simp add: max_pages_def ceil_div_def Let_def)
qed

section \<open>The schedule\<close>

record window_plan =
  wp_index :: int
  wp_start :: int
  wp_end :: int
  wp_cond_units :: int

definition wp_units :: "window_plan \<Rightarrow> int" where
  "wp_units w = wp_end w - wp_start w"

definition commit_start :: "window_plan \<Rightarrow> int" where
  "commit_start w = wp_start w + wp_cond_units w"

definition commit_end :: "window_plan \<Rightarrow> int" where
  "commit_end w = wp_end w"

record window_schedule =
  total_units :: int
  window_units :: int
  context_units :: int
  overlap_units :: int
  stride :: int
  num_windows :: int

definition new_schedule :: "int \<Rightarrow> int \<Rightarrow> int \<Rightarrow> int \<Rightarrow> window_schedule res" where
  "new_schedule units window ctx overlap =
     (if units < 1 then Inl ValueError
      else if window < 1 then Inl ValueError
      else if \<not> (0 \<le> overlap \<and> overlap < window) then Inl ValueError
      else if ctx < 0 then Inl ValueError
      else Inr \<lparr>total_units = units, window_units = window, context_units = ctx,
        overlap_units = overlap, stride = window - overlap,
        num_windows = (if units \<le> window then 1 else 1 + ceil_div (units - window) (window - overlap))\<rparr>)"

definition window_at :: "int \<Rightarrow> window_schedule \<Rightarrow> window_plan res" where
  "window_at index s = (if \<not> (0 \<le> index \<and> index < num_windows s) then Inl IndexError else
     Inr \<lparr>wp_index = index, wp_start = index * stride s,
       wp_end = min (index * stride s + window_units s) (total_units s),
       wp_cond_units = (if index > 0 then overlap_units s else 0)\<rparr>)"

fun windows_from :: "nat \<Rightarrow> window_schedule \<Rightarrow> window_plan list res" where
  "windows_from 0 s = Inr []"
| "windows_from (Suc n) s = rbind (window_at (num_windows s - int (Suc n)) s) (\<lambda>w.
     rbind (windows_from n s) (\<lambda>ws. Inr (w # ws)))"

definition windows :: "window_schedule \<Rightarrow> window_plan list res" where
  "windows s = windows_from (nat (num_windows s)) s"

definition released_end :: "int \<Rightarrow> window_schedule \<Rightarrow> int res" where
  "released_end index s = (if context_units s = 0 then Inr 0 else
     rbind (window_at index s) (\<lambda>w. Inr (max 0 (commit_end w - context_units s))))"

definition retention :: "int \<Rightarrow> int \<Rightarrow> window_schedule \<Rightarrow> retention_policy option res" where
  "retention tokens_per_unit prefix s = (if tokens_per_unit < 1 then Inl ValueError
     else if context_units s = 0 then Inr None
     else rbind (new_retention (context_units s * tokens_per_unit) prefix) (\<lambda>p. Inr (Some p)))"

definition schedule_ok :: "window_schedule \<Rightarrow> bool" where
  "schedule_ok s \<longleftrightarrow> (\<exists>ctx. new_schedule (total_units s) (window_units s) ctx (overlap_units s) = Inr s)"

lemma schedule_okD:
  assumes "new_schedule units window ctx overlap = Inr s"
  shows "1 \<le> total_units s" "1 \<le> window_units s" "0 \<le> overlap_units s" "0 < stride s"
    "stride s = window_units s - overlap_units s" "1 \<le> num_windows s" "0 \<le> context_units s"
    "\<And>k. 0 \<le> k \<Longrightarrow> k < num_windows s - 1 \<Longrightarrow> k * stride s + window_units s < total_units s"
    "total_units s \<le> (num_windows s - 1) * stride s + window_units s"
proof -
  have s: "s = \<lparr>total_units = units, window_units = window, context_units = ctx,
        overlap_units = overlap, stride = window - overlap,
        num_windows = (if units \<le> window then 1 else 1 + ceil_div (units - window) (window - overlap))\<rparr>"
    and ok: "1 \<le> units" "1 \<le> window" "0 \<le> overlap" "overlap < window" "0 \<le> ctx"
    using assms by (auto simp: new_schedule_def split: if_splits)
  then show "1 \<le> total_units s" "1 \<le> window_units s" "0 \<le> overlap_units s" "0 < stride s"
    "stride s = window_units s - overlap_units s" "0 \<le> context_units s" by simp_all
  let ?c = "ceil_div (units - window) (window - overlap)"
  have b: "0 < window - overlap" using ok by simp
  note B = ceil_div_bounds [OF b, of "units - window"]
  show "1 \<le> num_windows s"
  proof (cases "units \<le> window")
    case False
    have "0 < ?c"
    proof (rule ccontr)
      assume "\<not> 0 < ?c"
      then have "?c * (window - overlap) \<le> 0" using b by (simp add: mult_nonpos_nonneg)
      with B(1) False show False by linarith
    qed
    with False s show ?thesis by simp
  qed (simp add: s)
  show "k * stride s + window_units s < total_units s" if k: "0 \<le> k" "k < num_windows s - 1" for k
  proof -
    have n: "\<not> units \<le> window" "k < ?c" using k s by (simp_all split: if_splits)
    then have "k * (window - overlap) \<le> (?c - 1) * (window - overlap)"
      using b by (intro mult_right_mono) auto
    also have "\<dots> = ?c * (window - overlap) - (window - overlap)" by (simp add: left_diff_distrib)
    also have "\<dots> < units - window" using B(2) by linarith
    finally show ?thesis using s by simp
  qed
  show "total_units s \<le> (num_windows s - 1) * stride s + window_units s"
    using s B(1) by simp
qed

text \<open>Each window commits the units from where the one before it stopped.\<close>

lemma window_at_commit:
  assumes s: "new_schedule units window ctx overlap = Inr s" and k: "0 \<le> k" "k < num_windows s"
  obtains w where "window_at k s = Inr w"
    "commit_start w = (if k = 0 then 0 else (k - 1) * stride s + window_units s)"
    "commit_end w = (if k = num_windows s - 1 then total_units s else k * stride s + window_units s)"
    "commit_start w < commit_end w" "wp_units w \<le> window_units s"
proof -
  note S = schedule_okD [OF s]
  let ?w = "\<lparr>wp_index = k, wp_start = k * stride s,
       wp_end = min (k * stride s + window_units s) (total_units s),
       wp_cond_units = (if k > 0 then overlap_units s else 0)\<rparr>"
  have run: "window_at k s = Inr ?w" using k by (simp add: window_at_def)
  have st: "commit_start ?w = (if k = 0 then 0 else (k - 1) * stride s + window_units s)"
    using k S(5) by (auto simp: commit_start_def left_diff_distrib)
  have en: "commit_end ?w = (if k = num_windows s - 1 then total_units s else k * stride s + window_units s)"
    using S(8) [of k] S(9) k by (auto simp: commit_end_def)
  have "commit_start ?w < commit_end ?w"
  proof (cases "k = 0")
    case True
    then show ?thesis using st en S(1,2) by simp
  next
    case False
    have "(k - 1) * stride s + window_units s < total_units s" using S(8) [of "k - 1"] k False by simp
    moreover have "(k - 1) * stride s < k * stride s" using S(4) by (simp add: left_diff_distrib)
    ultimately show ?thesis using st en False by auto
  qed
  moreover have "wp_units ?w \<le> window_units s" by (simp add: wp_units_def)
  ultimately show ?thesis using that [OF run st en] by blast
qed

lemma upto_append: "i \<le> j \<Longrightarrow> j \<le> k \<Longrightarrow> [i..j - 1] @ [j..k - 1] = [i..k - (1::int)]"
  using upto_split1 [of i j "k - 1"] by (cases "j = k") auto

lemma windows_from_commit:
  assumes s: "new_schedule units window ctx overlap = Inr s" and n: "int n \<le> num_windows s" "0 < n"
  shows "\<exists>ws. windows_from n s = Inr ws \<and> length ws = n \<and>
    concat (map (\<lambda>w. [commit_start w..commit_end w - 1]) ws) =
      [(if int n = num_windows s then 0 else (num_windows s - int n - 1) * stride s + window_units s)..total_units s - 1] \<and>
    (\<forall>w \<in> set ws. 0 < commit_end w - commit_start w \<and> wp_units w \<le> window_units s)"
  using n
proof (induction n)
  case (Suc n)
  note S = schedule_okD [OF s]
  let ?k = "num_windows s - int (Suc n)"
  have k: "0 \<le> ?k" "?k < num_windows s" using Suc.prems by simp_all
  obtain w where w: "window_at ?k s = Inr w"
    "commit_start w = (if ?k = 0 then 0 else (?k - 1) * stride s + window_units s)"
    "commit_end w = (if ?k = num_windows s - 1 then total_units s else ?k * stride s + window_units s)"
    "commit_start w < commit_end w" "wp_units w \<le> window_units s"
    by (rule window_at_commit [OF s k]) (rule that)
  show ?case
  proof (cases "n = 0")
    case True
    with w show ?thesis by auto
  next
    case False
    with Suc obtain ws where ws: "windows_from n s = Inr ws" "length ws = n"
      "concat (map (\<lambda>w. [commit_start w..commit_end w - 1]) ws) =
        [(if int n = num_windows s then 0 else (num_windows s - int n - 1) * stride s + window_units s)..total_units s - 1]"
      "\<forall>w \<in> set ws. 0 < commit_end w - commit_start w \<and> wp_units w \<le> window_units s" by auto
    have n: "int n \<noteq> num_windows s" "?k = num_windows s - int n - 1" using Suc.prems by simp_all
    have "commit_end w = (num_windows s - int n - 1) * stride s + window_units s"
      using w(3) False n(2) by auto
    moreover have "\<dots> \<le> total_units s" using S(8) [of ?k] k False unfolding n(2) by simp
    ultimately have "[commit_start w..commit_end w - 1] @
        [(num_windows s - int n - 1) * stride s + window_units s..total_units s - 1] =
        [commit_start w..total_units s - 1]"
      using upto_append [of "commit_start w" "commit_end w" "total_units s"] w(4) by simp
    with ws n w show ?thesis by (auto simp: algebra_simps)
  qed
qed simp

text \<open>Every unit is committed by exactly one window, in order.\<close>

lemma windows_partition:
  assumes "new_schedule units window ctx overlap = Inr s"
  obtains ws where "windows s = Inr ws" "int (length ws) = num_windows s"
    "concat (map (\<lambda>w. [commit_start w..commit_end w - 1]) ws) = [0..units - 1]"
    "\<And>w. w \<in> set ws \<Longrightarrow> commit_start w < commit_end w \<and> wp_units w \<le> window"
proof -
  note S = schedule_okD [OF assms]
  have n: "int (nat (num_windows s)) = num_windows s" "0 < nat (num_windows s)" using S(6) by simp_all
  have "total_units s = units" "window_units s = window"
    using assms by (auto simp: new_schedule_def split: if_splits)
  with windows_from_commit [OF assms, of "nat (num_windows s)"] n that show ?thesis
    by (auto simp: windows_def)
qed

section \<open>Stopping a loop\<close>

datatype stop_kind = AR | ITER | EOS

record stop_limits =
  sl_max_iters :: "int option"
  sl_ignore_eos :: bool

record 'info stop_policy =
  sp_kind :: stop_kind
  sp_token_signal :: "string option"
  sp_eos_tokens :: "int set"
  sp_sampler :: "string option"
  sp_max_iters :: "('info \<Rightarrow> int) option"

definition reads_token :: "'info stop_policy \<Rightarrow> bool" where
  "reads_token p \<longleftrightarrow> sp_kind p \<noteq> ITER"

definition new_stop_policy :: "'info stop_policy \<Rightarrow> 'info stop_policy res" where
  "new_stop_policy p = (if reads_token p \<and> sp_token_signal p = None then Inl ValueError else Inr p)"

text \<open>
  The request's forward-pass info is read for its \<open>max_tokens\<close> (unless the policy computes
  a limit from it) and, by sampler label, for the config's \<open>ignore_eos\<close> (absent: false).
\<close>

definition limits ::
  "('info \<Rightarrow> int) \<Rightarrow> ('info \<Rightarrow> string \<Rightarrow> bool option) \<Rightarrow> 'info \<Rightarrow> 'info stop_policy \<Rightarrow> stop_limits" where
  "limits max_tokens ignore info p =
     \<lparr>sl_max_iters = (if sp_kind p \<noteq> EOS
        then Some (case sp_max_iters p of None \<Rightarrow> max_tokens info | Some f \<Rightarrow> f info) else None),
      sl_ignore_eos = (if reads_token p then (case sp_sampler p of None \<Rightarrow> False
        | Some l \<Rightarrow> (case ignore info l of None \<Rightarrow> False | Some b \<Rightarrow> b)) else False)\<rparr>"

definition stops :: "int \<Rightarrow> int option \<Rightarrow> stop_limits \<Rightarrow> 'info stop_policy \<Rightarrow> bool" where
  "stops n_done token l p \<longleftrightarrow>
     (case sl_max_iters l of None \<Rightarrow> False | Some m \<Rightarrow> n_done + 1 \<ge> m) \<or>
     (reads_token p \<and> \<not> sl_ignore_eos l \<and> (case token of None \<Rightarrow> False | Some t \<Rightarrow> t \<in> sp_eos_tokens p))"

text \<open>A loop run from iteration 0 until its policy stops it, over the tokens it samples.\<close>

fun iterations :: "int \<Rightarrow> int option list \<Rightarrow> stop_limits \<Rightarrow> 'info stop_policy \<Rightarrow> nat" where
  "iterations n_done [] l p = 0"
| "iterations n_done (t # ts) l p = (if stops n_done t l p then 1 else Suc (iterations (n_done + 1) ts l p))"

lemma iterations_bound:
  "sl_max_iters l = Some m \<Longrightarrow> int (iterations n_done ts l p) \<le> max 1 (m - n_done)"
proof (induction ts arbitrary: n_done)
  case (Cons t ts)
  show ?case
  proof (cases "stops n_done t l p")
    case False
    with Cons.prems have "n_done + 1 < m" by (auto simp: stops_def)
    with Cons.IH [OF Cons.prems, of "n_done + 1"] False show ?thesis by simp
  qed simp
qed simp

end
