(* ===== verification/Chunking.thy ===== *)
theory Chunking imports MStar_Prelude "HOL-Library.Word" begin

unbundle bit_operations_syntax

text \<open>
  Chunked prefill's bookkeeping: \<open>ChunkRange\<close> and \<open>ChunkingManagement\<close>
  (\<open>mstar/engine/chunking.py\<close>), the token budgets a step runs under after the serving
  config's overrides, and \<open>ChunkLoops\<close> with \<open>mid_prefill_speculation_off\<close>
  (\<open>mstar/worker/chunk_loops.py\<close>). A value of the serving config is a \<open>config\<close>: YAML
  gives null, a boolean, an integer, some other scalar, or a mapping.
\<close>

section \<open>Chunks of a prompt\<close>

record chunk_range =
  cr_start :: int
  cr_end :: int
  cr_total :: int
  cr_stride :: int

definition cr_is_final :: "chunk_range \<Rightarrow> bool" where
  "cr_is_final c \<longleftrightarrow> cr_end c \<ge> cr_total c"

definition cr_is_first :: "chunk_range \<Rightarrow> bool" where
  "cr_is_first c \<longleftrightarrow> cr_stride c = cr_end c"

section \<open>Budgets\<close>

datatype config = Null | Bool bool | Integer int | Other | Mapping "(string \<times> config) list"

record chunking_policy =
  cp_walks :: "string list"
  cp_chunkable :: bool
  cp_accumulated :: "string set"
  cp_per_chunk :: "string set"
  cp_max_batch_tokens :: "int option"
  cp_reserve_whole :: bool

definition no_chunking :: chunking_policy where
  "no_chunking = \<lparr>cp_walks = [], cp_chunkable = False, cp_accumulated = {}, cp_per_chunk = {},
     cp_max_batch_tokens = None, cp_reserve_whole = True\<rparr>"

definition new_chunking_policy :: "chunking_policy \<Rightarrow> chunking_policy res" where
  "new_chunking_policy p = (if cp_accumulated p \<inter> cp_per_chunk p \<noteq> {} then Inl ValueError else Inr p)"

text \<open>A key of \<open>_overrides\<close>: a node, or one of its walks.\<close>

datatype override_key = Node string | Walk string string

record 'x chunking =
  cm_submodules :: "string set"
  cm_policies :: "((string \<times> string), chunking_policy) dict"
  cm_overrides :: "(override_key, int option) dict"
  cm_combined :: "((string \<times> string), string) dict"
  cm_override_mixed :: "string set"
  cm_walk_caps :: "((string \<times> string), (string, int) dict option) dict"
  cm_overruns :: "((string \<times> string), nat) dict"
  cm_no_chunking :: "string set"
  cm_min_chunk :: int
  cm_prepared :: "((nat \<times> string), 'x) dict"

definition new_chunking :: "string set \<Rightarrow> 'x chunking" where
  "new_chunking nodes = \<lparr>cm_submodules = nodes, cm_policies = [], cm_overrides = [], cm_combined = [],
     cm_override_mixed = {}, cm_walk_caps = [], cm_overruns = [], cm_no_chunking = {},
     cm_min_chunk = 128, cm_prepared = []\<rparr>"

definition policy_of :: "string \<Rightarrow> string \<Rightarrow> 'x chunking \<Rightarrow> chunking_policy" where
  "policy_of node walk s = (case map_of (cm_policies s) (node, walk) of None \<Rightarrow> no_chunking | Some p \<Rightarrow> p)"

definition set_policies :: "((string \<times> string), chunking_policy) dict \<Rightarrow> 'x chunking \<Rightarrow> 'x chunking" where
  "set_policies ps s = s\<lparr>cm_policies := ps\<rparr>"

definition max_batch_tokens :: "string \<Rightarrow> string \<Rightarrow> 'x chunking \<Rightarrow> int option" where
  "max_batch_tokens node walk s = (if node \<in> cm_no_chunking s then None else
     let budget = cp_max_batch_tokens (policy_of node walk s) in
     if budget = None \<or> cm_overrides s = [] then budget
     else case map_of (cm_overrides s) (Walk node walk) of Some b \<Rightarrow> b
       | None \<Rightarrow> (case map_of (cm_overrides s) (Node node) of Some b \<Rightarrow> b | None \<Rightarrow> budget))"

text \<open>A budget is null or a positive integer; booleans are not integers here.\<close>

definition budget_value :: "config \<Rightarrow> int option res" where
  "budget_value c = (case c of Null \<Rightarrow> Inr None
     | Integer n \<Rightarrow> if n < 1 then Inl ValueError else Inr (Some n)
     | _ \<Rightarrow> Inl ValueError)"

definition set_walk_budget ::
  "string set \<Rightarrow> string \<Rightarrow> string \<times> config \<Rightarrow> 'x chunking \<Rightarrow> 'x chunking res" where
  "set_walk_budget walks node wb s = (let walk = fst wb in
     rbind (budget_value (snd wb)) (\<lambda>budget.
       if walk \<notin> walks \<and> \<not> (\<exists>e \<in> set (cm_combined s). fst (fst e) = node \<and> snd e = walk) then Inl ValueError
       else if map_of (cm_combined s) (node, walk) \<noteq> None \<and> node \<notin> cm_override_mixed s then Inl ValueError
       else if cp_max_batch_tokens (policy_of node walk s) = None then Inl ValueError
       else Inr (s\<lparr>cm_overrides := dict_set (Walk node walk) budget (cm_overrides s)\<rparr>)))"

text \<open>
  An empty mapping is no budget: Python's \<open>per_walk or {None: setting}\<close> takes the mapping
  itself for the node's budget, which is refused.
\<close>

definition set_node_budget :: "string set \<Rightarrow> string \<times> config \<Rightarrow> 'x chunking \<Rightarrow> 'x chunking res" where
  "set_node_budget walks ns s = (let node = fst ns in
     if node \<notin> cm_submodules s then Inr s
     else case snd ns of
       Mapping (w # ws) \<Rightarrow> rfold (set_walk_budget walks node) (w # ws) s
     | setting \<Rightarrow> rbind (budget_value setting) (\<lambda>budget.
         Inr (s\<lparr>cm_overrides := dict_set (Node node) budget (cm_overrides s)\<rparr>)))"

definition set_budgets :: "(string \<times> config) list \<Rightarrow> string set \<Rightarrow> ((string \<times> string), string) dict \<Rightarrow>
    string set \<Rightarrow> string set \<Rightarrow> config \<Rightarrow> 'x chunking \<Rightarrow> 'x chunking res" where
  "set_budgets overrides walks combined mixed off min_chunk s =
     (case min_chunk of Integer n \<Rightarrow> if n < 1 then Inl ValueError else
        rfold (set_node_budget walks) overrides (s\<lparr>cm_min_chunk := n, cm_no_chunking := off,
          cm_combined := combined, cm_override_mixed := mixed, cm_walk_caps := []\<rparr>)
      | _ \<Rightarrow> Inl ValueError)"

definition min_chunk_tokens :: "int \<Rightarrow> 'x chunking \<Rightarrow> int" where
  "min_chunk_tokens budget s = min (cm_min_chunk s) budget"

text \<open>The caps of a combined walk's rows: computed once per key and kept.\<close>

definition compute_caps :: "string \<Rightarrow> string \<Rightarrow> 'x chunking \<Rightarrow> (string, int) dict option" where
  "compute_caps node walk s = (if node \<notin> cm_override_mixed s then None else
     let caps = fold (\<lambda>((n, w), c) d. if n = node \<and> c = walk
         then (case max_batch_tokens n w s of None \<Rightarrow> d | Some b \<Rightarrow> dict_set w b d) else d)
       (cm_combined s) []
     in if caps = [] then None else Some caps)"

definition walk_caps :: "string \<Rightarrow> string \<Rightarrow> 'x chunking \<Rightarrow> (string, int) dict option \<times> 'x chunking" where
  "walk_caps node walk s = (case map_of (cm_walk_caps s) (node, walk) of Some c \<Rightarrow> (c, s)
     | None \<Rightarrow> (let c = compute_caps node walk s in
         (c, s\<lparr>cm_walk_caps := dict_set (node, walk) c (cm_walk_caps s)\<rparr>)))"

definition is_chunkable :: "string \<Rightarrow> string \<Rightarrow> 'x chunking \<Rightarrow> bool" where
  "is_chunkable node walk s = (if node \<in> cm_no_chunking s then False
     else if map_of (cm_overrides s) (Walk node walk) = Some None then False
     else cp_chunkable (policy_of node walk s))"

text \<open>
  A step's tokens against its budget: the walk it ran in (the combined one, if any), how often
  it has overrun, and whether this overrun is logged (the 1st, 2nd, 4th, ...).
\<close>

definition check_budget :: "string \<Rightarrow> string \<Rightarrow> int list \<Rightarrow> 'x chunking \<Rightarrow> bool \<times> 'x chunking" where
  "check_budget node walk lens s =
     (let walk = (case map_of (cm_combined s) (node, walk) of None \<Rightarrow> walk | Some c \<Rightarrow> c) in
      case max_batch_tokens node walk s of None \<Rightarrow> (False, s)
      | Some budget \<Rightarrow> if sum_list lens \<le> budget then (False, s) else
          let n = (case map_of (cm_overruns s) (node, walk) of None \<Rightarrow> 0 | Some n \<Rightarrow> n) + 1
          in (n AND (n - 1) = 0, s\<lparr>cm_overruns := dict_set (node, walk) n (cm_overruns s)\<rparr>))"

definition release_row :: "nat \<Rightarrow> string \<Rightarrow> 'x chunking \<Rightarrow> 'x chunking" where
  "release_row rid node s = s\<lparr>cm_prepared := dict_del (rid, node) (cm_prepared s)\<rparr>"

definition forget_request :: "nat \<Rightarrow> 'x chunking \<Rightarrow> 'x chunking" where
  "forget_request rid s = s\<lparr>cm_prepared := fold dict_del
     (filter (\<lambda>k. fst k = rid) (map fst (cm_prepared s))) (cm_prepared s)\<rparr>"

section \<open>The worker's chunk loops\<close>

definition chunk_loop_name :: "string \<Rightarrow> string \<Rightarrow> string" where
  "chunk_loop_name node walk = ''chunk_loop:'' @ node @ '':'' @ walk"

definition chunk_tick_name :: "string \<Rightarrow> string \<Rightarrow> string" where
  "chunk_tick_name node walk = chunk_loop_name node walk @ ''.next_chunk''"

text \<open>What \<open>walks_in\<close> reads off a worker graph: its nodes, its loops and its walks.\<close>

record worker_graph_view =
  wgv_nodes :: "string list"
  wgv_loops :: "string set"
  wgv_walks :: "string list"

definition walks_in :: "worker_graph_view list \<Rightarrow> (string \<times> string) set" where
  "walks_in wgs = set (concat (map (\<lambda>wg. filter (\<lambda>(n, w). chunk_loop_name n w \<in> wgv_loops wg)
     (List.product (wgv_nodes wg) (wgv_walks wg))) wgs))"

record chunk_loops =
  cl_walks :: "(string \<times> string) set"
  cl_speculated :: "(string \<times> string) set"

definition new_chunk_loops :: "(string \<times> string) set \<Rightarrow> (string \<times> string) set option \<Rightarrow> chunk_loops" where
  "new_chunk_loops walks speculated = \<lparr>cl_walks = walks,
     cl_speculated = (case speculated of None \<Rightarrow> walks | Some s \<Rightarrow> walks \<inter> s)\<rparr>"

definition walks_by_node :: "chunk_loops \<Rightarrow> string \<Rightarrow> string set option" where
  "walks_by_node c node = (if node \<in> fst ` cl_walks c
     then Some (snd ` Set.filter (\<lambda>p. fst p = node) (cl_walks c)) else None)"

definition walks_of_node :: "(string \<times> string) list \<Rightarrow> string \<Rightarrow> string list" where
  "walks_of_node chunked node = remdups (map snd (filter (\<lambda>p. fst p = node) chunked))"

definition walk_off ::
  "(string \<times> string) list \<Rightarrow> string \<Rightarrow> string \<times> config \<Rightarrow> (string \<times> string) set \<Rightarrow> (string \<times> string) set res" where
  "walk_off chunked node wc off =
     (if fst wc \<notin> set (walks_of_node chunked node) then Inl ValueError
      else case snd wc of Bool on \<Rightarrow> Inr (if on then off else insert (node, fst wc) off)
        | _ \<Rightarrow> Inl ValueError)"

definition node_off :: "(string \<times> string) list \<Rightarrow> string \<times> config \<Rightarrow>
    (string \<times> string) set \<Rightarrow> (string \<times> string) set res" where
  "node_off chunked nv off = (let node = fst nv in
     if walks_of_node chunked node = [] then Inl ValueError else
     rfold (walk_off chunked node) (case snd nv of Mapping m \<Rightarrow> m
       | v \<Rightarrow> map (\<lambda>w. (w, v)) (walks_of_node chunked node)) off)"

definition mid_prefill_speculation_off ::
  "(string \<times> config) list option \<Rightarrow> (string \<times> string) list \<Rightarrow> (string \<times> string) set res" where
  "mid_prefill_speculation_off setting chunked =
     rfold (node_off chunked) (case setting of None \<Rightarrow> [] | Some s \<Rightarrow> s) {}"

definition chunk_loops_from_graphs :: "worker_graph_view list \<Rightarrow> (string \<times> config) list option \<Rightarrow>
    (string \<times> string) list \<Rightarrow> chunk_loops res" where
  "chunk_loops_from_graphs wgs setting chunked = rbind (mid_prefill_speculation_off setting chunked)
     (\<lambda>off. Inr (new_chunk_loops (walks_in wgs) (Some (walks_in wgs - off))))"

section \<open>Facts\<close>

text \<open>Loop names are told apart by node and walk as long as no node name has a colon.\<close>

lemma colon_split:
  "CHR '':'' \<notin> set a \<Longrightarrow> CHR '':'' \<notin> set b \<Longrightarrow> a @ '':'' @ v = b @ '':'' @ w \<Longrightarrow> a = b \<and> v = w"
proof (induction a arbitrary: b)
  case Nil
  then show ?case by (cases b) auto
next
  case (Cons x a)
  then show ?case by (cases b) auto
qed

lemma walk_off_chunked:
  assumes "walk_off chunked node wc off = Inr off'" "off \<subseteq> set chunked"
  shows "off' \<subseteq> set chunked"
  using assms by (auto simp: walk_off_def walks_of_node_def split: config.splits if_splits)

lemma speculation_off_chunked:
  assumes "mid_prefill_speculation_off setting chunked = Inr off"
  shows "off \<subseteq> set chunked"
proof -
  have node: "y' \<subseteq> set chunked" if "node_off chunked nv y = Inr y'" "y \<subseteq> set chunked" for nv y y'
  proof -
    from that(1) obtain ws where "rfold (walk_off chunked (fst nv)) ws y = Inr y'"
      by (auto simp: node_off_def Let_def split: if_splits)
    then show ?thesis
      by (rule rfold_invariant [where P = "\<lambda>x. x \<subseteq> set chunked"]) (use that(2) walk_off_chunked in blast)+
  qed
  show ?thesis using assms unfolding mid_prefill_speculation_off_def
    by (rule rfold_invariant [where P = "\<lambda>x. x \<subseteq> set chunked"]) (use node in blast)+
qed

text \<open>\<open>n AND (n - 1)\<close> clears the lowest bit, so it is zero exactly at the powers of two.\<close>

lemma and_pred_even: "n AND (n - 1) = 2 * (n div 2 AND (n div 2 - 1))" if "even n" "0 < n" for n :: nat
proof -
  from that obtain m where m: "n = 2 * m" "0 < m" by (auto elim: evenE)
  have "n - 1 = 2 * (m - 1) + 1" using m by simp
  then have "n AND (n - 1) = 2 * (m AND (m - 1))"
    using m(1) and_nat_rec [of n "n - 1"] by simp
  with m show ?thesis by simp
qed

lemma and_pred_odd: "n AND (n - 1) = n - 1" if "odd n" for n :: nat
proof -
  from that obtain m where m: "n = 2 * m + 1" by (auto elim: oddE)
  then show ?thesis using and_nat_rec [of n "n - 1"] by simp
qed

lemma and_pred_zero: "0 < n \<Longrightarrow> n AND (n - 1) = 0 \<longleftrightarrow> (\<exists>k. n = 2 ^ k)" for n :: nat
proof (induction n rule: less_induct)
  case (less n)
  show ?case
  proof (cases "even n")
    case True
    then have h: "0 < n div 2" "n div 2 < n" using less.prems by (auto elim: evenE)
    have "n AND (n - 1) = 0 \<longleftrightarrow> (\<exists>k. n div 2 = 2 ^ k)"
      using less.IH [OF h(2,1)] and_pred_even [OF True less.prems] by simp
    also have "\<dots> \<longleftrightarrow> (\<exists>k. n = 2 ^ k)"
    proof
      assume "\<exists>k. n div 2 = 2 ^ k"
      then obtain k where "n div 2 = 2 ^ k" by blast
      with True have "n = 2 ^ Suc k" by auto
      then show "\<exists>k. n = 2 ^ k" by blast
    next
      assume "\<exists>k. n = 2 ^ k"
      then obtain k where k: "n = 2 ^ k" by blast
      with True have "k \<noteq> 0" by auto
      then obtain j where "k = Suc j" by (cases k) auto
      with k have "n div 2 = 2 ^ j" by simp
      then show "\<exists>k. n div 2 = 2 ^ k" by blast
    qed
    finally show ?thesis .
  next
    case False
    then have "n AND (n - 1) = 0 \<longleftrightarrow> n = 1" using and_pred_odd [of n] less.prems by auto
    moreover have "(\<exists>k. n = 2 ^ k) \<longleftrightarrow> n = 1"
    proof
      assume "\<exists>k. n = 2 ^ k"
      then obtain k where "n = 2 ^ k" by blast
      with False show "n = 1" by (cases k) auto
    qed (auto intro: exI [of _ 0])
    ultimately show ?thesis by simp
  qed
qed

text \<open>Overrides hold null or a positive budget, whatever the config says.\<close>

definition overrides_ok :: "'x chunking \<Rightarrow> bool" where
  "overrides_ok s \<longleftrightarrow> (\<forall>e \<in> set (cm_overrides s). case snd e of None \<Rightarrow> True | Some b \<Rightarrow> 1 \<le> b)"

lemma budget_value_pos: "budget_value c = Inr (Some b) \<Longrightarrow> 1 \<le> b"
  by (auto simp: budget_value_def split: config.splits if_splits)

lemma overrides_ok_set:
  assumes "overrides_ok s" "\<And>b. v = Some b \<Longrightarrow> 1 \<le> b"
  shows "overrides_ok (s\<lparr>cm_overrides := dict_set k v (cm_overrides s)\<rparr>)"
  using assms set_dict_set [of k v "cm_overrides s"]
  by (fastforce simp: overrides_ok_def split: option.splits)

lemma set_node_budget_ok:
  assumes "set_node_budget walks ns s = Inr s'" "overrides_ok s"
  shows "overrides_ok s'"
proof -
  have walk: "overrides_ok u'" if "set_walk_budget walks node wb u = Inr u'" "overrides_ok u"
    for node wb and u u' :: "'a chunking"
    using that by (auto simp: set_walk_budget_def Let_def intro!: overrides_ok_set dest: budget_value_pos split: if_splits)
  have one: "overrides_ok s'" if "rbind (budget_value c) (\<lambda>budget.
         Inr (s\<lparr>cm_overrides := dict_set (Node n) budget (cm_overrides s)\<rparr>)) = Inr s'" for c n
    using that assms(2) by (auto intro!: overrides_ok_set dest: budget_value_pos)
  have many: "overrides_ok s'" if "rfold (set_walk_budget walks n) ws s = Inr s'" for n ws
    by (rule rfold_invariant [OF that, where P = overrides_ok]) (use assms(2) walk in blast)+
  show ?thesis
  proof (cases "fst ns \<in> cm_submodules s")
    case True
    then show ?thesis
      using assms(1) one many unfolding set_node_budget_def Let_def
      by (cases "snd ns") (auto split: list.splits simp del: rbind_eq_Inr rfold.simps)
  next
    case False
    with assms show ?thesis by (simp add: set_node_budget_def)
  qed
qed

lemma set_budgets_ok:
  assumes "set_budgets overrides walks combined mixed off m s = Inr s'" "overrides_ok s"
  shows "overrides_ok s'" "1 \<le> cm_min_chunk s'"
proof -
  obtain n where n: "m = Integer n" "1 \<le> n" and run: "rfold (set_node_budget walks) overrides
      (s\<lparr>cm_min_chunk := n, cm_no_chunking := off, cm_combined := combined, cm_override_mixed := mixed,
        cm_walk_caps := []\<rparr>) = Inr s'"
    using assms(1) by (cases m) (auto simp: set_budgets_def split: if_splits)
  have "overrides_ok (s\<lparr>cm_min_chunk := n, cm_no_chunking := off, cm_combined := combined,
      cm_override_mixed := mixed, cm_walk_caps := []\<rparr>)" using assms(2) by (simp add: overrides_ok_def)
  then show "overrides_ok s'" by (rule rfold_invariant [OF run, where P = overrides_ok]) (rule set_node_budget_ok)
  have keep: "cm_min_chunk u' = cm_min_chunk u" if "set_node_budget walks ns u = Inr u'" for ns and u u' :: "'a chunking"
  proof -
    have w: "cm_min_chunk v' = cm_min_chunk v" if "set_walk_budget walks node wb v = Inr v'"
      for node wb and v v' :: "'a chunking"
      using that by (auto simp: set_walk_budget_def Let_def split: if_splits)
    have "cm_min_chunk v' = cm_min_chunk u" if "rfold (set_walk_budget walks node) ws u = Inr v'"
      for node ws and v' :: "'a chunking"
      by (rule rfold_invariant [OF that, where P = "\<lambda>v. cm_min_chunk v = cm_min_chunk u"]) (use w in auto)
    with that show ?thesis
      by (auto simp: set_node_budget_def Let_def simp del: rfold.simps split: if_splits config.splits list.splits)
  qed
  have "cm_min_chunk s' = n"
    by (rule rfold_invariant [OF run, where P = "\<lambda>v. cm_min_chunk v = n"]) (use keep in auto)
  with n show "1 \<le> cm_min_chunk s'" by simp
qed

end
