(* ===== verification/Worker_Props.thy ===== *)
theory Worker_Props imports Worker_Tables Windowing Chunking begin

text \<open>
  The properties of the workers' tables, of windowed generation and of chunked prefill's
  budgets.
\<close>

section \<open>Request handles\<close>

datatype 'r rid_op = Intern 'r | Release nat

fun rid_run :: "'r rid_op list \<Rightarrow> 'r rid_table \<Rightarrow> 'r rid_table res" where
  "rid_run [] t = Inr t"
| "rid_run (Intern r # ops) t = rbind (intern r t) (\<lambda>(_, t). rid_run ops t)"
| "rid_run (Release h # ops) t = rbind (release_handle h t) (rid_run ops)"

lemma rid_run_ok:
  assumes "rid_ok t"
  shows "\<exists>t'. rid_run ops t = Inr t' \<and> rid_ok t'"
  using assms
proof (induction ops t rule: rid_run.induct)
  case (2 r ops t)
  obtain h t' where "intern r t = Inr (h, t')" "rid_ok t'" by (rule intern_ok [OF "2.prems", of r])
  with "2.IH" show ?case by auto
next
  case (3 h ops t)
  obtain t' where "release_handle h t = Inr t'" "rid_ok t'" by (rule release_handle_ok [OF "3.prems", of h])
  with "3.IH" show ?case by auto
qed simp

text \<open>
  C16. Through any sequence of mints and releases, no call fails and handles and names are each
  other's inverses: two live requests never share a handle, although handles are recycled.
\<close>

theorem handles_one_to_one:
  "\<exists>t. rid_run ops new_rid_table = Inr t \<and> (\<forall>r h. handle r t = Some h \<longleftrightarrow> name h t = Inr r)"
proof -
  obtain t where t: "rid_run ops new_rid_table = Inr t" "rid_ok t" using rid_run_ok [OF rid_ok_new] by blast
  have "handle r t = Some h \<longleftrightarrow> name h t = Inr r" for r h
    using rid_okD(2) [OF t(2), of r h] by (auto simp: name_def split: option.splits)
  with t(1) show ?thesis by blast
qed

text \<open>
  Minting a handle disturbs no other request: a new request gets a handle nobody holds, a
  known one keeps its own, and every other request's handle is unchanged.
\<close>

lemma intern_disturbs_nobody:
  assumes "rid_run ops new_rid_table = Inr t"
  shows "\<exists>h t'. intern r t = Inr (h, t') \<and> handle r t' = Some h \<and>
    (handle r t = None \<longrightarrow> (\<forall>r'. handle r' t \<noteq> Some h)) \<and>
    (\<forall>r'. r' \<noteq> r \<longrightarrow> handle r' t' = handle r' t)"
proof -
  have ok: "rid_ok t" using assms rid_run_ok [OF rid_ok_new, of ops] by auto
  obtain h t' where i: "intern r t = Inr (h, t')" "handle r t' = Some h"
    "handle r t = None \<Longrightarrow> slot h t = None" "\<And>r'. r' \<noteq> r \<Longrightarrow> handle r' t' = handle r' t"
    by (rule intern_ok [OF ok, of r]) (rule that)
  have "handle r' t \<noteq> Some h" if "handle r t = None" for r'
    using i(3) [OF that] rid_okD(2) [OF ok, of r' h] by simp
  with i show ?thesis by blast
qed

lemma intern_disturbs_nobody_witness:
  "\<exists>h t t'. rid_run [Intern ''a'', Intern ''b'', Release 0] new_rid_table = Inr t \<and>
    intern ''c'' t = Inr (h, t') \<and> handle ''b'' t' = Some 1 \<and> h \<noteq> 1"
proof -
  have "is_ok (rid_run [Intern ''a'', Intern ''b'', Release 0] new_rid_table)" by code_simp
  note t = ok_projr [OF this]
  have b: "handle ''b'' (projr (rid_run [Intern ''a'', Intern ''b'', Release 0] new_rid_table)) = Some 1"
    "handle ''c'' (projr (rid_run [Intern ''a'', Intern ''b'', Release 0] new_rid_table)) = None" by code_simp+
  obtain h t' where i: "intern ''c'' (projr (rid_run [Intern ''a'', Intern ''b'', Release 0] new_rid_table)) = Inr (h, t')"
    "\<forall>r'. handle r' (projr (rid_run [Intern ''a'', Intern ''b'', Release 0] new_rid_table)) \<noteq> Some h"
    "\<forall>r'. r' \<noteq> ''c'' \<longrightarrow> handle r' t' = handle r' (projr (rid_run [Intern ''a'', Intern ''b'', Release 0] new_rid_table))"
    using intern_disturbs_nobody [OF t, of "''c''"] b(2) by blast
  from i(2) b(1) have h: "h \<noteq> 1" by auto
  have b': "handle ''b'' t' = Some 1" using i(3) b(1) by simp
  show ?thesis by (intro exI conjI) (rule t, rule i(1), rule b', rule h)
qed

section \<open>Loop positions\<close>

text \<open>
  C17. A stop request is newer than one applied before exactly when its pass, followed by its
  iterations of the loops outside the target (outermost first, 0 for a loop it has no entry
  for), is lexicographically greater; the target's own iteration and those of the loops inside
  it do not count, and every request is newer than none. So between snapshots of the same loops
  it is a strict order, in which two snapshots are tied only at one position, and stop requests can
  be applied in any order of arrival without stopping the same loop twice.
\<close>

theorem label_context_order:
  shows "label_context_gt a None t \<and>
    (label_context_gt a (Some b) t \<longleftrightarrow>
      (let ns = takeWhile (\<lambda>n. t \<noteq> Some n) (li_order a) in earlier (loop_position ns b) (loop_position ns a))) \<and>
    \<not> label_context_gt a (Some a) t \<and>
    (li_order b = li_order a \<and> li_order c = li_order a \<longrightarrow>
      (label_context_gt a (Some b) t \<and> label_context_gt b (Some c) t \<longrightarrow> label_context_gt a (Some c) t) \<and>
      (label_context_gt a (Some b) t \<or> label_context_gt b (Some a) t \<or>
        (let ns = takeWhile (\<lambda>n. t \<noteq> Some n) (li_order a) in loop_position ns a = loop_position ns b)))"
proof -
  have newer: "label_context_gt a (Some b) t \<longleftrightarrow>
      (let ns = takeWhile (\<lambda>n. t \<noteq> Some n) (li_order a) in earlier (loop_position ns b) (loop_position ns a))" for a b
    by (auto simp: label_context_gt_def compare_loops_earlier loop_position_def Let_def earlier_def)
  show ?thesis
    using earlier_irrefl earlier_trans earlier_total [of "loop_position (takeWhile (\<lambda>n. t \<noteq> Some n) (li_order a)) a"
      "loop_position (takeWhile (\<lambda>n. t \<noteq> Some n) (li_order a)) b"]
    unfolding newer Let_def by (auto simp: label_context_gt_def)
qed

theorem label_context_order_witness:
  "let a = \<lparr>li_order = [''outer'', ''inner''], li_indices = [(''outer'', 1), (''inner'', 0)], li_pass = 0\<rparr>;
       b = \<lparr>li_order = [''outer'', ''inner''], li_indices = [(''inner'', 7)], li_pass = 0\<rparr>
   in label_context_gt a (Some b) None \<and> \<not> label_context_gt a (Some b) (Some ''outer'') \<and>
     \<not> label_context_gt b (Some a) (Some ''outer'')"
proof -
  let ?a = "\<lparr>li_order = [''outer'', ''inner''], li_indices = [(''outer'', 1), (''inner'', 0)], li_pass = 0\<rparr>"
  let ?b = "\<lparr>li_order = [''outer'', ''inner''], li_indices = [(''inner'', 7)], li_pass = 0\<rparr>"
  have "label_context_gt ?a (Some ?b) None"
    using label_context_order [of ?a None ?b ?a] by (simp add: loop_position_def iteration_of_def earlier_def)
  moreover have "\<not> label_context_gt ?a (Some ?b) (Some ''outer'')" "\<not> label_context_gt ?b (Some ?a) (Some ''outer'')"
    using label_context_order [of ?a "Some ''outer''" ?b ?a] label_context_order [of ?b "Some ''outer''" ?a ?a]
    by (simp_all add: loop_position_def iteration_of_def earlier_def)
  ultimately show ?thesis by (simp add: Let_def)
qed

section \<open>Windows\<close>

text \<open>
  C18. A windowed generation generates every unit exactly once and in order: the commit
  spans of its windows, put one after the other, are the units from 0 to the total; no window
  is empty or longer than the window size.
\<close>

theorem windows_cover_once:
  assumes "new_schedule units window ctx overlap = Inr s"
  shows "\<exists>ws. windows s = Inr ws \<and>
    concat (map (\<lambda>w. [commit_start w..commit_end w - 1]) ws) = [0..units - 1] \<and>
    (\<forall>w \<in> set ws. commit_start w < commit_end w \<and> wp_units w \<le> window)"
  by (rule windows_partition [OF assms]) blast

theorem windows_cover_once_witness:
  "\<exists>s ws. new_schedule 10 4 0 1 = Inr s \<and> windows s = Inr ws \<and>
    concat (map (\<lambda>w. [commit_start w..commit_end w - 1]) ws) = [0..9]"
proof -
  have "is_ok (new_schedule 10 4 0 1)" by code_simp
  from ok_projr [OF this] obtain s where s: "new_schedule 10 4 0 1 = Inr s" by blast
  with windows_cover_once [OF s] show ?thesis by auto
qed

text \<open>
  The page bound a retention policy declares is enough: a stream that keeps whole pages,
  less than a page over its budget and prefix, never needs more pages than \<open>max_pages\<close>
  together with the step it runs.
\<close>

lemma retention_pages_enough:
  assumes "0 < page_size"
    and "held < max (protected_prefix p + context_budget p)
      (ceil_div (protected_prefix p) page_size * page_size) + page_size"
  shows "ceil_div (held + step) page_size \<le> max_pages page_size step p"
  by (rule max_pages_enough [OF assms])

lemma retention_pages_enough_witness:
  "ceil_div (31 + 8) 16 \<le> max_pages 16 8 \<lparr>context_budget = 10, protected_prefix = 6\<rparr>"
proof (rule retention_pages_enough)
  show "(31::int) < max (protected_prefix \<lparr>context_budget = 10, protected_prefix = 6\<rparr> +
        context_budget \<lparr>context_budget = 10, protected_prefix = 6\<rparr>)
      (ceil_div (protected_prefix \<lparr>context_budget = 10, protected_prefix = 6\<rparr>) 16 * 16) + 16"
    by code_simp
qed simp

section \<open>Chunking budgets\<close>

text \<open>
  A serving config that \<open>set_budgets\<close> accepts leaves only budgets that make
  sense: every override is null or a positive number of tokens, and so is the smallest chunk,
  whatever types of value the config held.
\<close>

lemma budgets_positive:
  assumes "set_budgets overrides walks combined mixed off min_chunk (new_chunking nodes) = Inr s"
  shows "1 \<le> cm_min_chunk s \<and> (\<forall>k b. map_of (cm_overrides s) k = Some (Some b) \<longrightarrow> 1 \<le> b)"
proof -
  have "overrides_ok (new_chunking nodes)" by (simp add: overrides_ok_def new_chunking_def)
  note ok = set_budgets_ok [OF assms this]
  then show ?thesis by (fastforce simp: overrides_ok_def dest: map_of_SomeD)
qed

lemma budgets_positive_witness:
  "\<exists>s :: unit chunking. set_budgets [(''llm'', Integer 512)] {''prefill''} [] {} {} (Integer 64)
      (new_chunking {''llm''}) = Inr s \<and> map_of (cm_overrides s) (Node ''llm'') = Some (Some 512) \<and> 1 \<le> cm_min_chunk s"
proof -
  let ?r = "set_budgets [(''llm'', Integer 512)] {''prefill''} [] {} {} (Integer 64)
      (new_chunking {''llm''} :: unit chunking)"
  have "is_ok ?r" by code_simp
  note s = ok_projr [OF this]
  have "map_of (cm_overrides (projr ?r)) (Node ''llm'') = Some (Some 512)" by code_simp
  with budgets_positive [OF s] s show ?thesis by auto
qed

text \<open>
  Overruns of a step's budget are logged at the 1st, 2nd, 4th, ... one per walk and at no
  other: \<open>count & (count - 1)\<close> tells exactly the powers of two.
\<close>

lemma overruns_logged_at_powers_of_two:
  assumes "map_of (cm_combined s) (node, walk) = None" "max_batch_tokens node walk s = Some budget"
    and "budget < sum_list lens"
  shows "fst (check_budget node walk lens s) \<longleftrightarrow>
    (\<exists>k. Suc (case map_of (cm_overruns s) (node, walk) of None \<Rightarrow> 0 | Some n \<Rightarrow> n) = 2 ^ k)"
proof -
  let ?n = "case map_of (cm_overruns s) (node, walk) of None \<Rightarrow> 0 | Some n \<Rightarrow> n"
  have "fst (check_budget node walk lens s) \<longleftrightarrow> (?n + 1) AND (?n + 1 - 1) = 0"
    using assms by (simp add: check_budget_def Let_def not_le)
  also have "\<dots> \<longleftrightarrow> (\<exists>k. ?n + 1 = 2 ^ k)" by (rule and_pred_zero) simp
  finally show ?thesis by simp
qed

definition demo_budget :: "unit chunking" where
  "demo_budget = (new_chunking {''llm''})\<lparr>
     cm_policies := [((''llm'', ''prefill''), no_chunking\<lparr>cp_max_batch_tokens := Some 8\<rparr>)],
     cm_overruns := [((''llm'', ''prefill''), 3)]\<rparr>"

lemma overruns_logged_at_powers_of_two_witness:
  "fst (check_budget ''llm'' ''prefill'' [5, 6] demo_budget)"
proof -
  have "map_of (cm_combined demo_budget) (''llm'', ''prefill'') = None"
    "max_batch_tokens ''llm'' ''prefill'' demo_budget = Some 8"
    "map_of (cm_overruns demo_budget) (''llm'', ''prefill'') = Some 3" by code_simp+
  with overruns_logged_at_powers_of_two [of demo_budget "''llm''" "''prefill''" 8 "[5, 6]"]
  show ?thesis by (auto intro: exI [of _ 2])
qed

end
