(* ===== verification/Spec2Isabelle.thy ===== *)
theory Spec2Isabelle imports Graph_Loops Graph_Signature Host_Props Sharding_Props Stream_Props Stream_Topology Tensor_Props Tensor_Uuid Worker_Graph_Props Worker_Mesh Worker_Props begin

text \<open>
  A verification library for \<open>mstar\<close>, a server for multimodal models. Requests enter at
  the API server, the conductor places them on workers, and each worker walks a model graph whose
  nodes run on an engine over shared resources (paged KV caches above all).

  Theories, in the order of their dependencies:

  \<^item> \<open>MStar_Prelude\<close>: Python's exceptions, lists and dicts, as every component uses them.
  \<^item> \<open>Page_Allocator\<close>, \<open>Page_Pool\<close>, \<open>Page_Evict\<close>: the free lists, \<open>PythonPageArena\<close> and
    \<open>PrefixIndex\<close> (\<open>mstar/engine/resources/kv/\<close>), one function per method, arena and index in
    one record because they call each other.
  \<^item> \<open>Page_Share\<close>, \<open>Page_Inv\<close>, \<open>Page_Ops\<close>, \<open>Page_Insert\<close>, \<open>Page_Evict_Inv\<close>: the invariant of that
    record and its preservation by every call. \<open>Page_Lru\<close>, \<open>Page_Lru_Loop\<close>, \<open>Page_Lru_Evict\<close>: eviction against a
    specification without a heap (\<open>lru_pages\<close> for what is dropped, \<open>without\<close> for all that stays), with
    whatever keys it is asked to spare. \<open>Page_Stamps\<close>: stamps and heap entries through the other calls.
    \<open>Page_Runs\<close>, \<open>Pool_Props\<close>: the step relation of a pool and the properties of reachable pools.
  \<^item> \<open>Host_Pool\<close>, \<open>Host_Writes\<close> (\<open>kv/cpu_page_pool.py\<close>, \<open>kv/host_writes.py\<close>): the host side of a KV pool, where
    offloaded streams live and cached device pages are copied before eviction. \<open>Host_Inv\<close>, \<open>Host_Ops\<close>: the pages' owner
    counts against what holds them, kept by every call of the pool. \<open>Host_Runs\<close>, \<open>Host_Reach\<close>: the walk up the device's
    index, what a step lists and what lands. \<open>Host_Steps\<close>: the step relation. \<open>Host_Check\<close>, \<open>Host_Props\<close>: the manager's
    check of the counts and the properties. The walk up is a partial function: a loop on any other than
    a forest of parents would not end, and \<open>chain_returns\<close> shows that it does on a pool's.

  \<^item> \<open>Chunk_Policy\<close>, \<open>Stream_Buffer\<close>, \<open>Stream_Topology\<close> (\<open>mstar/streaming/\<close>): chunk policies,
    the consumer-side buffer of a streaming edge, and the partitions that streams join. A
    policy's class is the constructor of its \<open>kind\<close>; its contract (locale \<open>chunk_contract\<close>) is
    what the buffer relies on. \<open>Stream_Inv\<close>: the invariant of a buffer and its preservation by every
    call. \<open>Stream_Chunks\<close>: what the chunks popped so far carry, and streams whose producer keeps to
    the total it announced. \<open>Stream_Props\<close>: what a consumer can count on.
  \<^item> \<open>Worker_Tables\<close> (\<open>mstar/worker/rid_table.py\<close>, \<open>mstar/utils/containers.py\<close>,
    \<open>mstar/graph/loop_indices.py\<close>), \<open>Windowing\<close> (\<open>mstar/engine/windowing.py\<close>, with the stop and
    retention policies), \<open>Chunking\<close> (\<open>mstar/engine/chunking.py\<close>,
    \<open>mstar/worker/chunk_loops.py\<close>), and their properties in \<open>Worker_Props\<close>.
  \<^item> \<open>Tensor_Uuid\<close> (\<open>mstar/communication/tensor_uuid.py\<close>): uuids minted per entity.
    \<open>Tensor_Book\<close> and \<open>Tensor_Store\<close> (\<open>mstar/communication/tensor_store.py\<close>): reference counts
    of tensors in flight, the store over them, and the releases of the tensor manager;
    the bookkeeper's contract is the locale \<open>bookkeeping\<close>. \<open>Tensor_Columns\<close>: the columnar
    descriptors. \<open>Tensor_Props\<close>: the store's invariant, releases and teardown.
  \<^item> \<open>Graph_Data\<close>, \<open>Sharding\<close>, \<open>Sharding_Props\<close> (\<open>mstar/distributed/base.py\<close>): the edges of a
    model graph, tensor-parallel groups, and the fan-out of one rank's edge over the ranks of
    its destination, which tiles the destinations' shards.
  \<^item> \<open>Graph_Sections\<close>, \<open>Graph_State\<close>, \<open>Graph_IO\<close> (\<open>mstar/graph/base.py\<close>, \<open>mstar/graph/graph_io.py\<close>): model
    graphs as declared, what a running graph keeps, and its operations. \<open>Graph_Wiring\<close> and
    \<open>Graph_Total\<close>: the chain of registries and why completions return. \<open>Graph_Laws\<close>: the locale of
    laws a completion keeps, with its instances in \<open>Graph_Total\<close> (wiring), \<open>Graph_Slots\<close> (readiness
    slots) and \<open>Graph_Refs\<close> (references). \<open>Graph_Run\<close>, \<open>Graph_Reach\<close>: what an arriving edge does and
    the reachable graphs. \<open>Graph_Props\<close>: their properties. \<open>Graph_Signature\<close>: what a section needs
    from outside. \<open>Graph_Loops\<close>: the iterations of a loop.
  \<^item> \<open>Worker_Graphs\<close> (\<open>mstar/model/base.py\<close>): how a walk's graph is cut into the worker graphs of node groups,
    and the rank mesh of each. \<open>Worker_Cut\<close>: the locale of relations a division keeps, instantiated in
    \<open>Worker_Graph_Props\<close> (groups, streams, names, nesting), which has the division's properties.
    \<open>Worker_Mesh\<close>: the mesh.
\<close>

end
